(* ===== verification/Prelude.thy ===== *)
theory Prelude
  imports Main "HOL-Library.Word" "HOL-Library.While_Combinator"
begin

unbundle bit_operations_syntax

text \<open>
  The prelude of the development: the machine types of S/370 C (a \<open>char\<close> is an unsigned
  byte, \<open>int\<close> and \<open>long\<close> have 32 bits, \<open>long long\<close> 64), the two collections of rewrite
  rules the components add their facts to, and the generic lemmas on words, loops and lists
  that several components share.
\<close>

section \<open>Machine types\<close>

type_synonym byte = "8 word"
type_synonym u16 = "16 word"
type_synonym u32 = "32 word"
type_synonym u64 = "64 word"

text \<open>
  \<open>int32_t\<close> and \<open>int\<close> are 32-bit words read with \<open>sint\<close>; the model keeps the same
  type and writes the signed reading out.
\<close>

type_synonym i32 = "32 word"

abbreviation neg32 :: "i32 \<Rightarrow> bool" where
  "neg32 b \<equiv> sint b < 0"

text \<open>An \<open>int\<close> of the machine: a result outside its range wraps.\<close>

definition int32 :: "int \<Rightarrow> int" where
  "int32 i = sint (word_of_int i :: i32)"

section \<open>Rule collections\<close>

named_theorems val_simps \<open>how an operation acts on the value a representation stands for\<close>
named_theorems step_simps \<open>unfolding of one step of a loop or of one guarded operation\<close>

section \<open>Natural numbers and words\<close>

lemma unat_ucast_mod: "unat (ucast (x :: 'a::len word) :: 'b::len word) = unat x mod 2 ^ LENGTH('b)"
  by (simp add: unsigned_ucast_eq take_bit_eq_mod)

lemma unat_lt_2p: "unat (x :: 'a::len word) < 2 ^ LENGTH('a)"
  by (rule unsigned_less)

lemma unat8_lt [simp]: "unat (x :: byte) < 256"
  using unat_lt_2p [of x] by simp

lemma unat16_lt [simp]: "unat (x :: u16) < 65536"
  using unat_lt_2p [of x] by simp

lemma unat32_lt [simp]: "unat (x :: u32) < 4294967296"
  using unat_lt_2p [of x] by simp

lemma unat64_lt [simp]: "unat (x :: u64) < 18446744073709551616"
  using unat_lt_2p [of x] by simp

lemma unat_ucast_up: "LENGTH('a) \<le> LENGTH('b) \<Longrightarrow>
    unat (ucast (x :: 'a::len word) :: 'b::len word) = unat x"
  unfolding unat_ucast_mod
  by (rule mod_less, rule less_le_trans [OF unat_lt_2p]) (simp add: power_increasing)

lemma unat_ucast_16_32 [simp]: "unat (ucast (x :: u16) :: u32) = unat x"
  by (simp add: unat_ucast_up)

lemma unat_ucast_16_64 [simp]: "unat (ucast (x :: u16) :: u64) = unat x"
  by (simp add: unat_ucast_up)

lemma unat_ucast_32_64 [simp]: "unat (ucast (x :: u32) :: u64) = unat x"
  by (simp add: unat_ucast_up)

lemma unat_ucast_8_32 [simp]: "unat (ucast (x :: byte) :: u32) = unat x"
  by (simp add: unat_ucast_up)

lemma unat_and_mask_eq: "unat ((x :: 'a::len word) AND mask n) = unat x mod 2 ^ n"
  unfolding take_bit_eq_mask [symmetric] unsigned_take_bit_eq by (rule take_bit_eq_mod)

lemma unat_drop_bit_div: "unat (drop_bit n (x :: 'a::len word)) = unat x div 2 ^ n"
  unfolding unat_drop_bit_eq by (rule drop_bit_eq_div)

lemma unat_push_bit_mod:
  "unat (push_bit n (x :: 'a::len word)) = (unat x * 2 ^ n) mod 2 ^ LENGTH('a)"
  unfolding unsigned_push_bit_eq by (simp add: push_bit_eq_mult take_bit_eq_mod)

lemmas unat_bit_simps = unat_drop_bit_div unat_push_bit_mod unat_ucast_mod

lemma unat_ffff_and: "unat ((x :: u32) AND 0xFFFF) = unat x mod 65536"
  using unat_and_mask_eq [of x 16] by (simp add: mask_eq_exp_minus_1)

text \<open>Bits that do not overlap: \<open>OR\<close> is addition.\<close>

lemma or_disjoint_nat: "(y :: nat) < 2 ^ n \<Longrightarrow> 2 ^ n dvd x \<Longrightarrow> x OR y = x + y"
proof -
  assume y: "y < 2 ^ n" and x: "2 ^ n dvd x"
  have "x AND y = 0"
  proof (rule bit_eqI)
    fix k
    from y have "take_bit n y = y" by (simp add: take_bit_nat_eq_self)
    then have "bit y k \<Longrightarrow> k < n" by (metis bit_take_bit_iff)
    moreover from x have "take_bit n x = 0" by (simp add: take_bit_eq_mod dvd_imp_mod_0)
    then have "k < n \<Longrightarrow> \<not> bit x k" by (metis bit_take_bit_iff bit_0_eq bot_apply bot_bool_def)
    ultimately show "bit (x AND y) k = bit 0 k" by (auto simp: bit_and_iff)
  qed
  then show "x OR y = x + y" by (simp add: disjunctive_add_eq_or)
qed

lemma unat_or_disjoint:
  "unat (y :: 'a::len word) < 2 ^ n \<Longrightarrow> 2 ^ n dvd unat x \<Longrightarrow> unat (x OR y) = unat x + unat y"
  by (simp add: unsigned_or_eq or_disjoint_nat)

section \<open>Signed readings\<close>

lemma uint_neg32: "sint (b :: i32) < 0 \<Longrightarrow> uint (- b) = - sint b"
proof -
  assume neg: "sint b < 0"
  have "uint (- b) = (- uint b) mod 2 ^ 32" by (simp add: uint_word_ariths)
  also have "\<dots> = (- sint b) mod 2 ^ 32"
    by (simp add: uint_sint take_bit_eq_mod mod_minus_eq)
  also have "\<dots> = - sint b" using neg sint_ge [of b] by (intro mod_pos_pos_trivial) simp_all
  finally show ?thesis .
qed

lemma uint_nonneg32: "0 \<le> sint (b :: i32) \<Longrightarrow> uint b = sint b"
  using sint_lt [of b] by (simp add: uint_sint take_bit_eq_mod)

lemma ucast_neg_scast: "sint (b :: i32) < 0 \<Longrightarrow> - (ucast (- b) :: u64) = scast b"
  by (subst ucast_eq, subst scast_eq, subst uint_neg32) simp_all

lemma ucast_nonneg_scast: "\<not> sint (b :: i32) < 0 \<Longrightarrow> (ucast b :: u64) = scast b"
  by (subst ucast_eq, subst scast_eq, subst uint_nonneg32) simp_all

section \<open>Arithmetic that does not wrap\<close>

lemma int32_small: "- 2147483648 \<le> i \<Longrightarrow> i < 2147483648 \<Longrightarrow> int32 i = i"
  unfolding int32_def by (subst signed_of_int) (simp add: signed_take_bit_int_eq_self_iff)

lemma unat32_add: "unat (a :: u32) + unat b < 4294967296 \<Longrightarrow> unat (a + b) = unat a + unat b"
  by (simp add: unat_word_ariths)

lemma unat32_mult: "unat (a :: u32) * unat b < 4294967296 \<Longrightarrow> unat (a * b) = unat a * unat b"
  by (simp add: unat_word_ariths)

lemma unat32_sub: "unat b \<le> unat (a :: u32) \<Longrightarrow> unat (a - b) = unat a - unat b"
  by (rule unat_sub) (simp add: word_le_nat_alt)

lemma sint32_small: "unat (a :: u32) < 2147483648 \<Longrightarrow> sint a = int (unat a)"
proof -
  assume "unat a < 2147483648"
  then have "int (unat a) < 2147483648" by linarith
  then have "uint a < 2 ^ 31" by simp
  moreover have "- (2 ^ 31) \<le> uint a" by (rule order_trans [of _ 0]) simp_all
  ultimately have "signed_take_bit 31 (uint a) = uint a" by (rule signed_take_bit_int_eq_self [rotated])
  moreover have "sint a = signed_take_bit 31 (uint a)" unfolding sint_uint by simp
  ultimately show ?thesis by simp
qed

lemma word_of_unat: "unat (x :: 'a::len word) = n \<Longrightarrow> x = of_nat n"
  by auto

lemma unat32_minus1 [simp]: "unat (-1 :: u32) = 4294967295"
  by (simp add: unsigned_minus_1_eq_mask mask_eq_exp_minus_1)

lemmas unat32_arith = unat32_add unat32_mult unat32_sub unat_div unat_mod

lemma unat32_of_int: "0 \<le> i \<Longrightarrow> i < 4294967296 \<Longrightarrow> unat (word_of_int i :: u32) = nat i"
  by (simp add: uint_word_of_int flip: nat_uint_eq)

end
