(* ===== verification/Int64.thy ===== *)
theory Int64
  imports Prelude
begin

text \<open>
  The software 64-bit integers of \<^verbatim>\<open>src/ext/int64\<close>: the union \<^verbatim>\<open>__64\<close>, its three
  big-endian views and the routines that work on it, on the contents of the objects their
  pointer arguments name.  The routines as the caller sees them, with their null checks and
  with arguments that may be the same object, are in the theory \<open>Int64_Ptr\<close>.
  A C name \<^verbatim>\<open>__64_add\<close> becomes \<open>i64_add\<close>; an \<^verbatim>\<open>int32_t\<close> is a 32-bit word read with
  \<open>sint\<close>, on which unary minus wraps as the machine instruction does.
\<close>

unbundle bit_operations_syntax

section \<open>The union and its views\<close>

text \<open>
  The contents are the four halfwords of the member \<open>array\<close>, \<open>array[0]\<close> the most
  significant.  The members \<open>u32\<close> and \<open>u64\<close> are the same eight bytes.
\<close>

datatype int64 = Int64 (h0: u16) (h1: u16) (h2: u16) (h3: u16)

definition ARRAY_SIZE64 :: nat where
  "ARRAY_SIZE64 = 4"

text \<open>\<^verbatim>\<open>__64_ARRAY_SIZE - 1\<close>, the index of the least significant halfword.\<close>

definition LAST64 :: nat where
  "LAST64 = ARRAY_SIZE64 - 1"

lemma ARRAY_SIZE64_Suc: "ARRAY_SIZE64 = Suc (Suc (Suc (Suc 0)))"
  by (simp add: ARRAY_SIZE64_def)

lemma LAST64_Suc: "LAST64 = Suc (Suc (Suc 0))"
  by (simp add: LAST64_def ARRAY_SIZE64_def)

primrec arr :: "int64 \<Rightarrow> nat \<Rightarrow> u16" where
  "arr (Int64 a b c d) i = (if i = 0 then a else if i = 1 then b else if i = 2 then c else d)"

primrec set_arr :: "int64 \<Rightarrow> nat \<Rightarrow> u16 \<Rightarrow> int64" where
  "set_arr (Int64 a b c d) i v =
     (if i = 0 then Int64 v b c d else if i = 1 then Int64 a v c d
      else if i = 2 then Int64 a b v d else Int64 a b c v)"

primrec u32_hi :: "int64 \<Rightarrow> u32" where
  "u32_hi (Int64 a b c d) = ucast a * 0x10000 + ucast b"

primrec u32_lo :: "int64 \<Rightarrow> u32" where
  "u32_lo (Int64 a b c d) = ucast c * 0x10000 + ucast d"

definition of_u32s :: "u32 \<Rightarrow> u32 \<Rightarrow> int64" where
  "of_u32s hi lo = Int64 (ucast (drop_bit 16 hi)) (ucast hi) (ucast (drop_bit 16 lo)) (ucast lo)"

primrec u64_of :: "int64 \<Rightarrow> u64" where
  "u64_of (Int64 a b c d) =
     ucast a * 0x1000000000000 + ucast b * 0x100000000 + ucast c * 0x10000 + ucast d"

definition of_u64 :: "u64 \<Rightarrow> int64" where
  "of_u64 w = Int64 (ucast (drop_bit 48 w)) (ucast (drop_bit 32 w)) (ucast (drop_bit 16 w)) (ucast w)"

text \<open>The value the object stands for.\<close>

definition val :: "int64 \<Rightarrow> nat" where
  "val n = unat (u64_of n)"

section \<open>Initialisation and conversion\<close>

definition i64_init :: int64 where
  "i64_init = of_u32s 0 0"

definition i64_from_u32 :: "u32 \<Rightarrow> int64" where
  "i64_from_u32 i = of_u32s 0 i"

definition i64_from_u64 :: "u64 \<Rightarrow> int64" where
  "i64_from_u64 w = of_u64 w"

definition i64_to_i32 :: "int64 \<Rightarrow> i32" where
  "i64_to_i32 n = u32_lo n AND 0x7FFFFFFF"

definition i64_to_u32 :: "int64 \<Rightarrow> u32" where
  "i64_to_u32 n = u32_lo n"

definition i64_to_u64 :: "int64 \<Rightarrow> u64" where
  "i64_to_u64 n = u64_of n"

definition i64_copy :: "int64 \<Rightarrow> int64" where
  "i64_copy src = of_u64 (u64_of src)"

section \<open>Bit operations and comparison\<close>

definition i64_and :: "int64 \<Rightarrow> int64 \<Rightarrow> int64" where
  "i64_and a b = of_u64 (u64_of a AND u64_of b)"

definition i64_or :: "int64 \<Rightarrow> int64 \<Rightarrow> int64" where
  "i64_or a b = of_u64 (u64_of a OR u64_of b)"

definition i64_xor :: "int64 \<Rightarrow> int64 \<Rightarrow> int64" where
  "i64_xor a b = of_u64 (u64_of a XOR u64_of b)"

definition SMALLER64 :: int where "SMALLER64 = -1"
definition EQUAL64 :: int where "EQUAL64 = 0"
definition LARGER64 :: int where "LARGER64 = 1"

definition i64_cmp :: "int64 \<Rightarrow> int64 \<Rightarrow> int" where
  "i64_cmp a b =
     (if u64_of a > u64_of b then LARGER64
      else if u64_of a < u64_of b then SMALLER64
      else EQUAL64)"

definition i64_is_zero :: "int64 \<Rightarrow> bool" where
  "i64_is_zero n = (if u64_of n \<noteq> 0 then False else True)"

section \<open>Addition, subtraction, increment and decrement\<close>

text \<open>
  The loops run from the last halfword down; \<open>Suc i\<close> iterations are left when the index is
  \<open>i\<close>.  The third object is the one the result is stored in.
\<close>

fun i64_add_loop :: "nat \<Rightarrow> u32 \<Rightarrow> int64 \<Rightarrow> int64 \<Rightarrow> int64 \<Rightarrow> int64" where
  "i64_add_loop 0 carry a b c = c"
| "i64_add_loop (Suc i) carry a b c =
     (let tmp = ucast (arr a i) + ucast (arr b i) + carry;
          carry' = (if tmp > 0xFFFF then 1 else 0)
      in i64_add_loop i carry' a b (set_arr c i (ucast (tmp AND 0xFFFF))))"

definition i64_add :: "int64 \<Rightarrow> int64 \<Rightarrow> int64" where
  "i64_add a b = i64_add_loop ARRAY_SIZE64 0 a b i64_init"

fun i64_sub_loop :: "nat \<Rightarrow> u32 \<Rightarrow> int64 \<Rightarrow> int64 \<Rightarrow> int64 \<Rightarrow> int64" where
  "i64_sub_loop 0 borrow a b c = c"
| "i64_sub_loop (Suc i) borrow a b c =
     (let tmp1 = ucast (arr a i) + (0xFFFF + 1);
          tmp2 = ucast (arr b i) + borrow;
          res = tmp1 - tmp2;
          borrow' = (if res \<le> 0xFFFF then 1 else 0)
      in i64_sub_loop i borrow' a b (set_arr c i (ucast (res AND 0xFFFF))))"

definition i64_sub :: "int64 \<Rightarrow> int64 \<Rightarrow> int64" where
  "i64_sub a b = i64_sub_loop ARRAY_SIZE64 0 a b i64_init"

fun i64_inc_loop :: "nat \<Rightarrow> int64 \<Rightarrow> int64" where
  "i64_inc_loop 0 n = n"
| "i64_inc_loop (Suc i) n =
     (let tmp = ucast (arr n i) :: u32;
          res = ucast (tmp + 1) :: u16;
          n' = set_arr n i res
      in if ucast res > tmp then n' else i64_inc_loop i n')"

definition i64_inc :: "int64 \<Rightarrow> int64" where
  "i64_inc n = i64_inc_loop ARRAY_SIZE64 n"

fun i64_dec_loop :: "nat \<Rightarrow> int64 \<Rightarrow> int64" where
  "i64_dec_loop 0 n = n"
| "i64_dec_loop (Suc i) n =
     (let tmp = arr n i;
          res = tmp - 1;
          n' = set_arr n i res
      in if \<not> (res > tmp) then n' else i64_dec_loop i n')"

definition i64_dec :: "int64 \<Rightarrow> int64" where
  "i64_dec n = i64_dec_loop ARRAY_SIZE64 n"

text \<open>The variants that take a machine integer.\<close>

definition i64_sub_u32 :: "int64 \<Rightarrow> u32 \<Rightarrow> int64" where
  "i64_sub_u32 a b = i64_sub a (i64_from_u32 b)"

definition i64_from_i32 :: "i32 \<Rightarrow> int64" where
  "i64_from_i32 i = (if neg32 i then i64_sub_u32 (of_u32s 0 0) (- i) else of_u32s 0 i)"

definition i64_add_i32 :: "int64 \<Rightarrow> i32 \<Rightarrow> int64" where
  "i64_add_i32 a b =
     (let tmp = i64_from_u32 (if neg32 b then - b else b)
      in if neg32 b then i64_sub a tmp else i64_add a tmp)"

definition i64_add_u32 :: "int64 \<Rightarrow> u32 \<Rightarrow> int64" where
  "i64_add_u32 a b = i64_add a (i64_from_u32 b)"

definition i64_add_u64 :: "int64 \<Rightarrow> u64 \<Rightarrow> int64" where
  "i64_add_u64 a b = i64_add a (i64_from_u64 b)"

definition i64_sub_i32 :: "int64 \<Rightarrow> i32 \<Rightarrow> int64" where
  "i64_sub_i32 a b =
     (let tmp = i64_from_u32 (if neg32 b then - b else b)
      in if neg32 b then i64_add a tmp else i64_sub a tmp)"

definition i64_sub_u64 :: "int64 \<Rightarrow> u64 \<Rightarrow> int64" where
  "i64_sub_u64 a b = i64_sub a (i64_from_u64 b)"

definition i64_cmp_i32 :: "int64 \<Rightarrow> i32 \<Rightarrow> int" where
  "i64_cmp_i32 a b = i64_cmp a (i64_from_i32 b)"

definition i64_cmp_u32 :: "int64 \<Rightarrow> u32 \<Rightarrow> int" where
  "i64_cmp_u32 a b = i64_cmp a (i64_from_u32 b)"

definition i64_cmp_u64 :: "int64 \<Rightarrow> u64 \<Rightarrow> int" where
  "i64_cmp_u64 a b = i64_cmp a (i64_from_u64 b)"

definition i64_and_i32 :: "int64 \<Rightarrow> i32 \<Rightarrow> int64" where
  "i64_and_i32 a b = of_u64 (u64_of a AND u64_of (i64_from_i32 b))"

definition i64_and_u32 :: "int64 \<Rightarrow> u32 \<Rightarrow> int64" where
  "i64_and_u32 a b = of_u64 (u64_of a AND u64_of (i64_from_u32 b))"

definition i64_and_u64 :: "int64 \<Rightarrow> u64 \<Rightarrow> int64" where
  "i64_and_u64 a b = of_u64 (u64_of a AND u64_of (i64_from_u64 b))"

definition i64_or_i32 :: "int64 \<Rightarrow> i32 \<Rightarrow> int64" where
  "i64_or_i32 a b = of_u64 (u64_of a OR u64_of (i64_from_i32 b))"

definition i64_or_u32 :: "int64 \<Rightarrow> u32 \<Rightarrow> int64" where
  "i64_or_u32 a b = of_u64 (u64_of a OR u64_of (i64_from_u32 b))"

definition i64_or_u64 :: "int64 \<Rightarrow> u64 \<Rightarrow> int64" where
  "i64_or_u64 a b = of_u64 (u64_of a OR u64_of (i64_from_u64 b))"

definition i64_xor_i32 :: "int64 \<Rightarrow> i32 \<Rightarrow> int64" where
  "i64_xor_i32 a b = of_u64 (u64_of a XOR u64_of (i64_from_i32 b))"

definition i64_xor_u32 :: "int64 \<Rightarrow> u32 \<Rightarrow> int64" where
  "i64_xor_u32 a b = of_u64 (u64_of a XOR u64_of (i64_from_u32 b))"

definition i64_xor_u64 :: "int64 \<Rightarrow> u64 \<Rightarrow> int64" where
  "i64_xor_u64 a b = of_u64 (u64_of a XOR u64_of (i64_from_u64 b))"

section \<open>Shifts\<close>

definition i64_lshift_one_bit :: "int64 \<Rightarrow> int64" where
  "i64_lshift_one_bit a =
     of_u32s (push_bit 1 (u32_hi a) OR drop_bit 31 (u32_lo a)) (push_bit 1 (u32_lo a))"

text \<open>
  In the halfword expressions the operands are promoted to \<open>int\<close> and the result is cut back
  to the halfword it is stored in.
\<close>

definition shr_halfword :: "u16 \<Rightarrow> u16 \<Rightarrow> nat \<Rightarrow> u16" where
  "shr_halfword x prev k = ucast (drop_bit k (ucast x :: u32) OR push_bit (16 - k) (ucast prev :: u32))"

definition shl_halfword :: "u16 \<Rightarrow> u16 \<Rightarrow> nat \<Rightarrow> u16" where
  "shl_halfword x succ k = ucast (push_bit k (ucast x :: u32) OR drop_bit (16 - k) (ucast succ :: u32))"

fun rshift_loop :: "nat \<Rightarrow> nat \<Rightarrow> int64 \<Rightarrow> int64" where
  "rshift_loop k 0 a = set_arr a 0 (drop_bit k (arr a 0))"
| "rshift_loop k (Suc i) a =
     rshift_loop k i (set_arr a (Suc i) (shr_halfword (arr a (Suc i)) (arr a i) k))"

definition i64_rshift_one_bit :: "int64 \<Rightarrow> int64" where
  "i64_rshift_one_bit a = rshift_loop 1 LAST64 a"

fun lshift_loop :: "nat \<Rightarrow> nat \<Rightarrow> int64 \<Rightarrow> int64" where
  "lshift_loop k 0 b = set_arr b LAST64 (push_bit k (arr b LAST64))"
| "lshift_loop k (Suc left) b =
     (let i = LAST64 - Suc left
      in lshift_loop k left (set_arr b i (shl_halfword (arr b i) (arr b (i + 1)) k)))"

text \<open>Shifting by whole halfwords, one halfword per round of the outer loop.\<close>

fun lshift_word_once :: "nat \<Rightarrow> int64 \<Rightarrow> int64" where
  "lshift_word_once 0 a = set_arr a LAST64 0"
| "lshift_word_once (Suc left) a =
     (let j = LAST64 - Suc left
      in lshift_word_once left (set_arr a j (arr a (j + 1))))"

fun rshift_word_once :: "nat \<Rightarrow> int64 \<Rightarrow> int64" where
  "rshift_word_once 0 a = set_arr a 0 0"
| "rshift_word_once (Suc j) a = rshift_word_once j (set_arr a (Suc j) (arr a j))"

definition clamp_shift :: "int \<Rightarrow> nat" where
  "clamp_shift nwords =
     (let shift = (if nwords < 0 then 0 else nwords);
          shift = (if shift > int ARRAY_SIZE64 then int ARRAY_SIZE64 else shift)
      in nat shift)"

definition i64_lshift_word :: "int64 \<Rightarrow> int \<Rightarrow> int64" where
  "i64_lshift_word a nwords = (lshift_word_once LAST64 ^^ clamp_shift nwords) a"

definition i64_rshift_word :: "int64 \<Rightarrow> int \<Rightarrow> int64" where
  "i64_rshift_word a nwords =
     (if nwords \<ge> 0 then (rshift_word_once LAST64 ^^ clamp_shift nwords) a else a)"

text \<open>
  \<open>lshift\<close> and \<open>rshift\<close> store into a second object, which a negative count leaves as it was;
  the old contents are the first argument here.
\<close>

definition i64_lshift :: "int64 \<Rightarrow> int64 \<Rightarrow> int \<Rightarrow> int64" where
  "i64_lshift old a nbits =
     (if nbits \<ge> 0 then
        let nwords = nbits div 16;
            b = i64_copy a;
            b = (if nwords \<noteq> 0 then i64_lshift_word b nwords else b);
            nbits = (if nwords \<noteq> 0 then nbits - nwords * 16 else nbits)
        in if nbits \<noteq> 0 then lshift_loop (nat nbits) LAST64 b else b
      else old)"

definition i64_rshift :: "int64 \<Rightarrow> int64 \<Rightarrow> int \<Rightarrow> int64" where
  "i64_rshift old a nbits =
     (if nbits \<ge> 0 then
        let nwords = nbits div 16;
            b = i64_copy a;
            b = (if nwords \<noteq> 0 then i64_rshift_word b nwords else b);
            nbits = (if nwords \<noteq> 0 then nbits - nwords * 16 else nbits)
        in if nbits \<noteq> 0 then rshift_loop (nat nbits) LAST64 b else b
      else old)"

section \<open>Multiplication\<close>

text \<open>
  One row of the schoolbook product: the halfword \<open>a[i]\<close> times \<open>b[3]\<close> down to \<open>b[0]\<close>,
  keeping only the products that reach the low 64 bits.
\<close>

fun mul_row :: "int64 \<Rightarrow> int64 \<Rightarrow> nat \<Rightarrow> nat \<Rightarrow> int64 \<Rightarrow> int64" where
  "mul_row a b i 0 row = row"
| "mul_row a b i (Suc j) row =
     (let k = i + j in
      if k > ARRAY_SIZE64 - 2 then
        let intermediate = (ucast (arr a i) :: u32) * (ucast (arr b j) :: u32) in
        if intermediate \<noteq> 0 then
          let x = int (LAST64 * 2) - int k;
              tmp = i64_lshift_word (i64_from_u32 intermediate) x
          in mul_row a b i j (i64_add tmp row)
        else mul_row a b i j row
      else mul_row a b i j row)"

fun mul_rows :: "int64 \<Rightarrow> int64 \<Rightarrow> nat \<Rightarrow> int64 \<Rightarrow> int64" where
  "mul_rows a b 0 result = result"
| "mul_rows a b (Suc i) result =
     mul_rows a b i (i64_add result (mul_row a b i ARRAY_SIZE64 i64_init))"

definition i64_mul :: "int64 \<Rightarrow> int64 \<Rightarrow> int64" where
  "i64_mul a b = i64_copy (mul_rows a b ARRAY_SIZE64 i64_init)"

definition i64_mul_i32 :: "int64 \<Rightarrow> i32 \<Rightarrow> int64" where
  "i64_mul_i32 a b = i64_mul a (i64_from_i32 b)"

definition i64_mul_u32 :: "int64 \<Rightarrow> u32 \<Rightarrow> int64" where
  "i64_mul_u32 a b = i64_mul a (i64_from_u32 b)"

definition i64_mul_u64 :: "int64 \<Rightarrow> u64 \<Rightarrow> int64" where
  "i64_mul_u64 a b = i64_mul a (i64_from_u64 b)"

section \<open>Division\<close>

text \<open>
  The first loop of \<^verbatim>\<open>__64_div\<close> doubles \<open>current\<close> and \<open>denom\<close> until \<open>denom\<close> passes the
  dividend or would lose its top bit (\<open>overflow\<close>, which ends the loop like the C
  \<^verbatim>\<open>break\<close>); the second halves them again and collects the quotient bits.
\<close>

definition half_max :: u32 where
  "half_max = 1 + 0xFFFF div 2"

definition div_up_cond :: "int64 \<Rightarrow> int64 \<times> int64 \<times> bool \<Rightarrow> bool" where
  "div_up_cond a = (\<lambda>(current, denom, overflow). \<not> overflow \<and> i64_cmp denom a \<noteq> LARGER64)"

definition div_up_step :: "int64 \<times> int64 \<times> bool \<Rightarrow> int64 \<times> int64 \<times> bool" where
  "div_up_step = (\<lambda>(current, denom, overflow).
     if ucast (arr denom 0) \<ge> half_max then (current, denom, True)
     else (i64_lshift_one_bit current, i64_lshift_one_bit denom, overflow))"

definition div_down_cond :: "int64 \<times> int64 \<times> int64 \<times> int64 \<Rightarrow> bool" where
  "div_down_cond = (\<lambda>(current, denom, tmp, c). \<not> i64_is_zero current)"

definition div_down_step ::
    "int64 \<times> int64 \<times> int64 \<times> int64 \<Rightarrow> int64 \<times> int64 \<times> int64 \<times> int64" where
  "div_down_step = (\<lambda>(current, denom, tmp, c).
     let (tmp, c) = (if i64_cmp tmp denom \<noteq> SMALLER64
                     then (i64_sub tmp denom, i64_or c current) else (tmp, c))
     in (i64_rshift_one_bit current, i64_rshift_one_bit denom, tmp, c))"

text \<open>The result is the quotient and whether \<open>errno\<close> is set to \<open>EDOM\<close>.\<close>

definition i64_div_edom :: "int64 \<Rightarrow> int64 \<Rightarrow> int64 \<times> bool" where
  "i64_div_edom a b =
     (if i64_is_zero b then (i64_init, True)
      else
        let (current, denom, overflow) =
              while (div_up_cond a) div_up_step (i64_from_i32 1, i64_copy b, False);
            (current, denom) =
              (if \<not> overflow then (i64_rshift_one_bit current, i64_rshift_one_bit denom)
               else (current, denom));
            (_, _, _, c) = while div_down_cond div_down_step (current, denom, i64_copy a, i64_init)
        in (c, False))"

definition i64_div :: "int64 \<Rightarrow> int64 \<Rightarrow> int64" where
  "i64_div a b = fst (i64_div_edom a b)"

definition i64_div_i32 :: "int64 \<Rightarrow> i32 \<Rightarrow> int64" where
  "i64_div_i32 a b = i64_div a (i64_from_i32 b)"

definition i64_div_u32 :: "int64 \<Rightarrow> u32 \<Rightarrow> int64" where
  "i64_div_u32 a b = i64_div a (i64_from_u32 b)"

definition i64_div_u64 :: "int64 \<Rightarrow> u64 \<Rightarrow> int64" where
  "i64_div_u64 a b = i64_div a (i64_from_u64 b)"

text \<open>\<open>divmod\<close> gives the quotient and the remainder, in the order of its parameters c, d.\<close>

definition i64_divmod :: "int64 \<Rightarrow> int64 \<Rightarrow> int64 \<times> int64" where
  "i64_divmod a b =
     (let tmpc = i64_div a b;
          tmp = i64_mul tmpc b;
          d = i64_sub a tmp
      in (i64_copy tmpc, d))"

definition i64_divmod_i32 :: "int64 \<Rightarrow> i32 \<Rightarrow> int64 \<times> int64" where
  "i64_divmod_i32 a b = i64_divmod a (i64_from_i32 b)"

definition i64_divmod_u32 :: "int64 \<Rightarrow> u32 \<Rightarrow> int64 \<times> int64" where
  "i64_divmod_u32 a b = i64_divmod a (i64_from_u32 b)"

definition i64_divmod_u64 :: "int64 \<Rightarrow> u64 \<Rightarrow> int64 \<times> int64" where
  "i64_divmod_u64 a b = i64_divmod a (i64_from_u64 b)"

definition i64_mod :: "int64 \<Rightarrow> int64 \<Rightarrow> int64" where
  "i64_mod a b = snd (i64_divmod a b)"

definition i64_mod_i32 :: "int64 \<Rightarrow> i32 \<Rightarrow> int64" where
  "i64_mod_i32 a b = i64_mod a (i64_from_i32 b)"

definition i64_mod_u32 :: "int64 \<Rightarrow> u32 \<Rightarrow> int64" where
  "i64_mod_u32 a b = i64_mod a (i64_from_u32 b)"

definition i64_mod_u64 :: "int64 \<Rightarrow> u64 \<Rightarrow> int64" where
  "i64_mod_u64 a b = i64_mod a (i64_from_u64 b)"

section \<open>Power and square root\<close>

definition pow_step :: "int64 \<Rightarrow> int64 \<times> int64 \<Rightarrow> int64 \<times> int64" where
  "pow_step a = (\<lambda>(tmp, bcopy).
     let c = i64_mul tmp a; bcopy = i64_dec bcopy in (i64_copy c, bcopy))"

definition i64_pow :: "int64 \<Rightarrow> int64 \<Rightarrow> int64" where
  "i64_pow a b =
     (let c = i64_init in
      if i64_cmp b c = EQUAL64 then i64_inc c
      else
        let bcopy = i64_dec (i64_copy b);
            (tmp, _) = while (\<lambda>(tmp, bcopy). \<not> i64_is_zero bcopy) (pow_step a) (i64_copy a, bcopy)
        in i64_copy tmp)"

text \<open>The bisection state is \<open>(low, high, mid)\<close>; the object for the result is not the operand.\<close>

definition isqrt_cond :: "int64 \<times> int64 \<times> int64 \<Rightarrow> bool" where
  "isqrt_cond = (\<lambda>(low, high, mid). i64_cmp high low > 0)"

definition isqrt_step :: "int64 \<Rightarrow> int64 \<times> int64 \<times> int64 \<Rightarrow> int64 \<times> int64 \<times> int64" where
  "isqrt_step a = (\<lambda>(low, high, mid).
     let tmp = i64_mul mid mid;
         (low, high) = (if i64_cmp tmp a > 0 then (low, i64_dec (i64_copy mid)) else (i64_copy mid, high));
         mid = i64_sub high low;
         mid = i64_rshift_one_bit mid;
         mid = i64_add low mid;
         mid = i64_inc mid
     in (low, high, mid))"

definition i64_isqrt :: "int64 \<Rightarrow> int64 option" where
  "i64_isqrt a =
     (let low = i64_init; high = i64_copy a; mid = i64_inc (i64_rshift i64_init high 1)
      in map_option (\<lambda>(low, _, _). i64_copy low)
           (while_option isqrt_cond (isqrt_step a) (low, high, mid)))"

end
