(* ===== verification/Int64_Arith.thy ===== *)
theory Int64_Arith
  imports Int64
begin

text \<open>
  Correctness of the routines of \<open>Int64\<close>: each is shown to compute, on the value \<open>val\<close> of
  its operands, the arithmetic it is named after modulo \<open>2 ^ 64\<close>.
\<close>

section \<open>The views agree\<close>

abbreviation B16 :: nat where "B16 \<equiv> 65536"
abbreviation B32 :: nat where "B32 \<equiv> 4294967296"
abbreviation B48 :: nat where "B48 \<equiv> 281474976710656"
abbreviation B64 :: nat where "B64 \<equiv> 18446744073709551616"

text \<open>Digits in base \<open>2 ^ 16\<close>, on natural numbers.\<close>

lemma digit_div: "y < B16 \<Longrightarrow> (x * B16 + y) div B16 = x"
  by simp

lemma digit_mod: "y < B16 \<Longrightarrow> (x * B16 + y) mod B16 = y"
  by simp

lemma div_B32: "w div B32 = w div B16 div B16"
  by (simp flip: div_mult2_eq)

lemma div_B48: "w div B48 = w div B16 div B16 div B16"
  by (simp flip: div_mult2_eq)

lemma mod_B32: "w mod B32 = w div B16 mod B16 * B16 + w mod B16"
  using mod_mult2_eq [of w B16 B16] by simp

lemma halfwords_nat: "(w :: nat) < B64 \<Longrightarrow>
    w div B48 mod B16 * B48 + w div B32 mod B16 * B32 + w div B16 mod B16 * B16 + w mod B16 = w"
proof -
  assume "w < B64"
  then have top: "w div B16 div B16 div B16 mod B16 = w div B16 div B16 div B16"
    by (simp add: less_mult_imp_div_less)
  define q1 q2 q3 where "q1 = w div B16" and "q2 = q1 div B16" and "q3 = q2 div B16"
  have "w = q1 * B16 + w mod B16" "q1 = q2 * B16 + q1 mod B16" "q2 = q3 * B16 + q2 mod B16"
    by (simp_all add: q1_def q2_def q3_def)
  then show ?thesis
    unfolding div_B48 div_B32 top by (simp flip: q1_def q2_def q3_def)
qed

lemma val_Horner:
  "val (Int64 a b c d) = ((unat a * B16 + unat b) * B16 + unat c) * B16 + unat d"
proof -
  have "unat a * B48 + unat b * B32 + unat c * B16 + unat d < B64"
    using unat16_lt [of a] unat16_lt [of b] unat16_lt [of c] unat16_lt [of d] by linarith
  then show ?thesis
    by (simp add: val_def unat_word_ariths mod_add_left_eq mod_add_right_eq)
qed

lemma val_Int64:
  "val (Int64 a b c d) = unat a * B48 + unat b * B32 + unat c * B16 + unat d"
  by (simp add: val_Horner)

lemma val_lt [simp]: "val n < B64"
  by (simp add: val_def)

lemma u64_of_eq: "u64_of n = of_nat (val n)"
  by (simp add: val_def)

lemma val_of_u64 [val_simps]: "val (of_u64 w) = unat w"
  by (simp add: of_u64_def val_Int64 unat_bit_simps halfwords_nat)

lemma u64_of_of_u64 [simp]: "u64_of (of_u64 w) = w"
  using val_of_u64 [of w] by (simp add: val_def word_unat_eq_iff)

lemma val_of_u32s [val_simps]: "val (of_u32s hi lo) = unat hi * B32 + unat lo"
proof -
  have eq: "x div B16 mod B16 * B16 + x mod B16 = x" if "x < B32" for x
    using that mod_B32 [of x] by simp
  have "val (of_u32s hi lo) =
      (unat hi div B16 mod B16 * B16 + unat hi mod B16) * B32 +
      (unat lo div B16 mod B16 * B16 + unat lo mod B16)"
    unfolding of_u32s_def val_Int64 by (simp add: unat_bit_simps)
  then show ?thesis by (simp only: eq unat32_lt)
qed

lemma unat_halfword_pair: "unat (ucast (a :: u16) * 0x10000 + ucast (b :: u16) :: u32) = unat a * B16 + unat b"
proof -
  have "unat a * B16 + unat b < B32"
    using unat16_lt [of a] unat16_lt [of b] by linarith
  then show ?thesis by (simp add: unat_word_ariths)
qed

lemma val_parts:
  "val (Int64 a b c d) div B16 = (unat a * B16 + unat b) * B16 + unat c"
  "val (Int64 a b c d) div B32 = unat a * B16 + unat b"
  "val (Int64 a b c d) div B48 = unat a"
  "val (Int64 a b c d) mod B16 = unat d"
  by (simp_all only: val_Horner div_B48 div_B32 digit_div digit_mod unat16_lt)

lemma unat_u32_hi: "unat (u32_hi n) = val n div B32"
  by (cases n) (simp only: u32_hi.simps val_parts unat_halfword_pair)

lemma unat_u32_lo: "unat (u32_lo n) = val n mod B32"
  by (cases n) (simp only: u32_lo.simps mod_B32 val_parts unat_halfword_pair digit_mod unat16_lt)

lemma arr_simps [simp]:
  "arr (Int64 a b c d) 0 = a" "arr (Int64 a b c d) (Suc 0) = b"
  "arr (Int64 a b c d) 2 = c" "arr (Int64 a b c d) 3 = d"
  by simp_all

lemma unat_arr:
  "unat (arr n 0) = val n div B48"
  "unat (arr n (Suc 0)) = val n div B32 mod B16"
  "unat (arr n 2) = val n div B16 mod B16"
  "unat (arr n 3) = val n mod B16"
  by (cases n, simp only: val_parts arr_simps digit_mod unat16_lt)+

lemma of_u64_u64_of [simp]: "of_u64 (u64_of n) = n"
proof (cases n)
  case (Int64 a b c d)
  have a: "unat a mod B16 = unat a" by simp
  have "of_u64 (u64_of n) = Int64 a b c d"
    unfolding of_u64_def int64.inject word_unat_eq_iff unat_bit_simps Int64 val_def [symmetric]
    by (simp del: u64_of.simps add: val_def [symmetric])
      (simp only: val_parts digit_mod unat16_lt a simp_thms)
  then show ?thesis by (simp add: Int64)
qed

lemma val_inject: "val m = val n \<longleftrightarrow> m = n"
  by (metis of_u64_u64_of val_def word_unat_eq_iff)

lemma val_zero: "val (Int64 0 0 0 0) = 0"
  by (simp add: val_Int64)

lemma val_init [val_simps]: "val i64_init = 0"
  by (simp add: i64_init_def val_of_u32s)

lemma i64_init_eq: "i64_init = Int64 0 0 0 0"
  by (simp add: i64_init_def of_u32s_def)

lemma val_from_u32 [val_simps]: "val (i64_from_u32 i) = unat i"
  by (simp add: i64_from_u32_def val_of_u32s)

lemma val_from_u64 [val_simps]: "val (i64_from_u64 w) = unat w"
  by (simp add: i64_from_u64_def val_of_u64)

lemma i64_copy_id [simp]: "i64_copy n = n"
  by (simp add: i64_copy_def)

section \<open>Addition and subtraction\<close>

text \<open>One halfword of the addition: the digit stored and the carry passed on.\<close>

lemma add_digit:
  fixes x y :: u16 and c :: u32
  assumes "unat c < 2"
  defines "t \<equiv> ucast x + ucast y + c" and "s \<equiv> unat x + unat y + unat c"
  shows "unat (ucast (t AND 0xFFFF) :: u16) = s mod B16"
    and "unat (if t > 0xFFFF then 1 else 0 :: u32) = s div B16"
    and "s div B16 < 2"
proof -
  have s: "s < 2 * B16"
    using assms(1) unat16_lt [of x] unat16_lt [of y] unfolding s_def by linarith
  then have t: "unat t = s" by (simp add: t_def s_def unat_word_ariths)
  show "unat (ucast (t AND 0xFFFF) :: u16) = s mod B16"
    by (simp add: unat_ucast_mod unat_ffff_and t)
  show "s div B16 < 2" using s by (simp add: less_mult_imp_div_less)
  have "t > 0xFFFF \<longleftrightarrow> B16 \<le> s"
    by (auto simp: word_less_nat_alt t)
  then show "unat (if t > 0xFFFF then 1 else 0 :: u32) = s div B16"
    using s by (auto simp: not_le div_if)
qed

lemma carry_chain:
  fixes x0 x1 x2 x3 :: nat
  shows "(x0 + (x1 + (x2 + x3 div B16) div B16) div B16) mod B16 * B48 +
         (x1 + (x2 + x3 div B16) div B16) mod B16 * B32 +
         (x2 + x3 div B16) mod B16 * B16 + x3 mod B16 =
         (x0 * B48 + x1 * B32 + x2 * B16 + x3) mod B64"
proof -
  define s2 where "s2 = x2 + x3 div B16"
  define s1 where "s1 = x1 + s2 div B16"
  define s0 where "s0 = x0 + s1 div B16"
  define r where "r = s0 mod B16 * B48 + s1 mod B16 * B32 + s2 mod B16 * B16 + x3 mod B16"
  have "x0 * B48 + x1 * B32 + x2 * B16 + x3 = s0 div B16 * B64 + r"
    using div_mult_mod_eq [of s0 B16] div_mult_mod_eq [of s1 B16]
      div_mult_mod_eq [of s2 B16] div_mult_mod_eq [of x3 B16]
    unfolding s0_def s1_def s2_def r_def by linarith
  moreover have "r < B64"
    using mod_less_divisor [of B16 s0] mod_less_divisor [of B16 s1]
      mod_less_divisor [of B16 s2] mod_less_divisor [of B16 x3]
    unfolding r_def by linarith
  ultimately have "(x0 * B48 + x1 * B32 + x2 * B16 + x3) mod B64 = r" by simp
  then show ?thesis by (simp add: r_def s0_def s1_def s2_def)
qed

lemma add_loop_unfold:
  "i64_add (Int64 a0 a1 a2 a3) (Int64 b0 b1 b2 b3) =
    (let t3 = (ucast a3 :: u32) + ucast b3 + 0; c3 = (if t3 > 0xFFFF then 1 else 0 :: u32);
         t2 = ucast a2 + ucast b2 + c3; c2 = (if t2 > 0xFFFF then 1 else 0 :: u32);
         t1 = ucast a1 + ucast b1 + c2; c1 = (if t1 > 0xFFFF then 1 else 0 :: u32);
         t0 = ucast a0 + ucast b0 + c1
     in Int64 (ucast (t0 AND 0xFFFF)) (ucast (t1 AND 0xFFFF)) (ucast (t2 AND 0xFFFF)) (ucast (t3 AND 0xFFFF)))"
  by (simp add: i64_add_def ARRAY_SIZE64_Suc i64_init_eq Let_def split del: if_split)

theorem val_add [val_simps]: "val (i64_add a b) = (val a + val b) mod B64"
proof (cases a; cases b)
  fix a0 a1 a2 a3 b0 b1 b2 b3 :: u16
  assume a: "a = Int64 a0 a1 a2 a3" and b: "b = Int64 b0 b1 b2 b3"
  define t3 where "t3 = (ucast a3 :: u32) + ucast b3 + 0"
  define c3 where "c3 = (if t3 > 0xFFFF then 1 else 0 :: u32)"
  define t2 where "t2 = ucast a2 + ucast b2 + c3"
  define c2 where "c2 = (if t2 > 0xFFFF then 1 else 0 :: u32)"
  define t1 where "t1 = ucast a1 + ucast b1 + c2"
  define c1 where "c1 = (if t1 > 0xFFFF then 1 else 0 :: u32)"
  define t0 where "t0 = ucast a0 + ucast b0 + c1"
  note d3 = add_digit [of 0 a3 b3, folded t3_def, folded c3_def, simplified]
  note d2 = add_digit [of c3 a2 b2, folded t2_def, folded c2_def, unfolded d3(2), OF d3(3)]
  note d1 = add_digit [of c2 a1 b1, folded t1_def, folded c1_def, unfolded d2(2), OF d2(3)]
  note d0 = add_digit [of c1 a0 b0, folded t0_def, unfolded d1(2), OF d1(3)]
  show ?thesis
    unfolding a b add_loop_unfold Let_def
    unfolding t3_def [symmetric] c3_def [symmetric]
    unfolding t2_def [symmetric] c2_def [symmetric]
    unfolding t1_def [symmetric] c1_def [symmetric]
    unfolding t0_def [symmetric] val_Int64 d3(1) d2(1) d1(1) d0(1) carry_chain
    by (simp add: algebra_simps)
qed

lemma sub_digit:
  fixes x y :: u16 and c :: u32
  assumes "unat c < 2"
  defines "t \<equiv> (ucast x + (0xFFFF + 1)) - (ucast y + c)"
  defines "c' \<equiv> (if t \<le> 0xFFFF then 1 else 0 :: u32)"
  shows "unat x + unat c' * B16 = unat y + unat c + unat (ucast (t AND 0xFFFF) :: u16)"
    and "unat c' < 2"
proof -
  have x: "unat (ucast x + (0xFFFF + 1) :: u32) = unat x + B16"
  proof -
    have "unat x + B16 < B32" using unat16_lt [of x] by linarith
    then show ?thesis by (simp add: unat_word_ariths)
  qed
  have y: "unat (ucast y + c) = unat y + unat c"
  proof -
    have "unat y + unat c < B32" using assms(1) unat16_lt [of y] by linarith
    then show ?thesis by (simp add: unat_word_ariths)
  qed
  have ge: "unat y + unat c \<le> unat x + B16"
    using assms(1) unat16_lt [of y] by linarith
  then have t: "unat t = unat x + B16 - (unat y + unat c)"
    unfolding t_def using unat_sub_if' [of "ucast x + (0xFFFF + 1)" "ucast y + c"]
    unfolding x y by simp
  have le: "t \<le> 0xFFFF \<longleftrightarrow> unat t < B16"
    by (auto simp: word_le_nat_alt)
  have r: "unat (ucast (t AND 0xFFFF) :: u16) = unat t mod B16"
    by (simp add: unat_ucast_mod unat_ffff_and)
  have "unat t < 2 * B16" using t unat16_lt [of x] by linarith
  then have "unat t mod B16 + (if unat t < B16 then 0 else B16) = unat t"
    by (auto simp: mod_if)
  then show "unat x + unat c' * B16 = unat y + unat c + unat (ucast (t AND 0xFFFF) :: u16)"
    unfolding r c'_def le using t ge by (cases "unat t < B16") simp_all
  show "unat c' < 2" by (simp add: c'_def)
qed

lemma sub_loop_unfold:
  "i64_sub (Int64 a0 a1 a2 a3) (Int64 b0 b1 b2 b3) =
    (let t3 = (ucast a3 + (0xFFFF + 1)) - (ucast b3 + (0 :: u32)); c3 = (if t3 \<le> 0xFFFF then 1 else 0 :: u32);
         t2 = (ucast a2 + (0xFFFF + 1)) - (ucast b2 + c3); c2 = (if t2 \<le> 0xFFFF then 1 else 0 :: u32);
         t1 = (ucast a1 + (0xFFFF + 1)) - (ucast b1 + c2); c1 = (if t1 \<le> 0xFFFF then 1 else 0 :: u32);
         t0 = (ucast a0 + (0xFFFF + 1)) - (ucast b0 + c1)
     in Int64 (ucast (t0 AND 0xFFFF)) (ucast (t1 AND 0xFFFF)) (ucast (t2 AND 0xFFFF)) (ucast (t3 AND 0xFFFF)))"
  by (simp add: i64_sub_def ARRAY_SIZE64_Suc i64_init_eq Let_def
      split del: if_split)

lemma borrow_chain:
  fixes A B R c :: nat
  assumes "A + c * B64 = B + R" and "c < 2" and "R < B64" and "A < B64" and "B < B64"
  shows "R = (A + B64 - B) mod B64"
proof (cases "c = 0")
  case True
  with assms(1) have "A = B + R" by simp
  with assms(3) show ?thesis by simp
next
  case False
  with assms(1,2) have "A + B64 = B + R" by simp
  with assms(3) show ?thesis by simp
qed

theorem val_sub [val_simps]: "val (i64_sub a b) = (val a + B64 - val b) mod B64"
proof (cases a; cases b)
  fix a0 a1 a2 a3 b0 b1 b2 b3 :: u16
  assume a: "a = Int64 a0 a1 a2 a3" and b: "b = Int64 b0 b1 b2 b3"
  define t3 where "t3 = (ucast a3 + (0xFFFF + 1)) - (ucast b3 + (0 :: u32))"
  define c3 where "c3 = (if t3 \<le> 0xFFFF then 1 else 0 :: u32)"
  define t2 where "t2 = (ucast a2 + (0xFFFF + 1)) - (ucast b2 + c3)"
  define c2 where "c2 = (if t2 \<le> 0xFFFF then 1 else 0 :: u32)"
  define t1 where "t1 = (ucast a1 + (0xFFFF + 1)) - (ucast b1 + c2)"
  define c1 where "c1 = (if t1 \<le> 0xFFFF then 1 else 0 :: u32)"
  define t0 where "t0 = (ucast a0 + (0xFFFF + 1)) - (ucast b0 + c1)"
  define c0 where "c0 = (if t0 \<le> 0xFFFF then 1 else 0 :: u32)"
  define r where "r = Int64 (ucast (t0 AND 0xFFFF)) (ucast (t1 AND 0xFFFF)) (ucast (t2 AND 0xFFFF)) (ucast (t3 AND 0xFFFF))"
  have sub: "i64_sub a b = r"
    unfolding a b sub_loop_unfold Let_def r_def t0_def c1_def t1_def c2_def t2_def c3_def t3_def ..
  note d3 = sub_digit [of 0 a3 b3, folded t3_def, folded c3_def, unfolded unat_0]
  note d2 = sub_digit [of c3 a2 b2, folded t2_def, folded c2_def, OF d3(2)]
  note d1 = sub_digit [of c2 a1 b1, folded t1_def, folded c1_def, OF d2(2)]
  note d0 = sub_digit [of c1 a0 b0, folded t0_def, folded c0_def, OF d1(2)]
  have "val a + unat c0 * B64 = val b + val r"
    unfolding a b r_def val_Int64 using d3(1) d2(1) d1(1) d0(1) by linarith
  from borrow_chain [OF this d0(2)] show ?thesis unfolding sub by simp
qed

lemma val_sub_le: "val b \<le> val a \<Longrightarrow> val (i64_sub a b) = val a - val b"
proof -
  assume "val b \<le> val a"
  then have "val a + B64 - val b = (val a - val b) + B64" by simp
  moreover have "val a - val b < B64" using val_lt [of a] by linarith
  ultimately show ?thesis by (simp only: val_sub mod_add_self2 mod_less)
qed

section \<open>Increment and decrement\<close>

lemma halfword_succ: "ucast ((ucast (x :: u16) :: u32) + 1) = x + 1"
  by transfer (simp add: take_bit_eq_mod mod_simps)

lemma unat_succ16: "unat ((x :: u16) + 1) = (if x = 0xFFFF then 0 else unat x + 1)"
proof (cases "x = 0xFFFF")
  case False
  then have "unat x \<noteq> 65535" by (simp add: word_unat_eq_iff)
  then have "unat x + 1 < B16" using unat16_lt [of x] by linarith
  with False show ?thesis by (simp add: unat_word_ariths)
qed simp

lemma unat_pred16: "unat ((x :: u16) - 1) = (if x = 0 then 65535 else unat x - 1)"
  by (auto simp: unat_minus_one unsigned_minus_1_eq_mask mask_eq_exp_minus_1)

lemma inc_unfold:
  "i64_inc (Int64 a b c d) =
    (if d \<noteq> 0xFFFF then Int64 a b c (d + 1) else if c \<noteq> 0xFFFF then Int64 a b (c + 1) 0
     else if b \<noteq> 0xFFFF then Int64 a (b + 1) 0 0 else Int64 (a + 1) 0 0 0)"
proof -
  have grows: "ucast x < (ucast (x + 1) :: u32) \<longleftrightarrow> x \<noteq> 0xFFFF" for x :: u16
    by (auto simp: word_less_nat_alt unat_succ16)
  show ?thesis
    unfolding i64_inc_def ARRAY_SIZE64_Suc
    by (simp add: Let_def halfword_succ grows)
qed

theorem val_inc [val_simps]: "val (i64_inc n) = (val n + 1) mod B64"
proof (cases n)
  case (Int64 a b c d)
  have "val (i64_inc n) = val n + 1 \<or> val n + 1 = B64 \<and> val (i64_inc n) = 0"
    unfolding Int64 inc_unfold by (simp add: val_Int64 unat_succ16)
  then show ?thesis
    using val_lt [of "i64_inc n"] by (elim disjE conjE) (simp_all only: mod_less mod_self)
qed

lemma dec_unfold:
  "i64_dec (Int64 a b c d) =
    (if d \<noteq> 0 then Int64 a b c (d - 1) else if c \<noteq> 0 then Int64 a b (c - 1) 0xFFFF
     else if b \<noteq> 0 then Int64 a (b - 1) 0xFFFF 0xFFFF else Int64 (a - 1) 0xFFFF 0xFFFF 0xFFFF)"
proof -
  have grows: "x < x - 1 \<longleftrightarrow> x = 0" for x :: u16
    by (auto simp: word_less_nat_alt unat_pred16 unat_gt_0)
  show ?thesis
    unfolding i64_dec_def ARRAY_SIZE64_Suc
    by (simp add: Let_def grows)
qed

theorem val_dec [val_simps]: "val (i64_dec n) = (val n + B64 - 1) mod B64"
proof (cases n)
  case (Int64 a b c d)
  have pos: "unat x \<ge> 1" if "x \<noteq> 0" for x :: u16
    using that by (simp add: Suc_le_eq unat_gt_0)
  have "val n = val (i64_dec n) + 1 \<or> val n = 0 \<and> val (i64_dec n) = B64 - 1"
    unfolding Int64 dec_unfold using pos [of a] pos [of b] pos [of c] pos [of d]
    by (auto simp: val_Int64 unat_pred16)
  then show ?thesis
    using val_lt [of "i64_dec n"] by (elim disjE conjE) simp_all
qed

lemma val_dec_pos: "val n \<noteq> 0 \<Longrightarrow> val (i64_dec n) = val n - 1"
proof -
  assume "val n \<noteq> 0"
  then have "val n + B64 - 1 = (val n - 1) + B64" by simp
  moreover have "val n - 1 < B64" using val_lt [of n] by linarith
  ultimately show ?thesis by (simp only: val_dec mod_add_self2 mod_less)
qed

section \<open>The operations on the 64-bit view\<close>

text \<open>
  The same facts on the \<open>u64\<close> view: the routines are the arithmetic of 64-bit words, and a
  negative \<open>int32_t\<close> operand counts as its sign extension.
\<close>

named_theorems u64_simps \<open>how an operation acts on the u64 view\<close>

lemma u64_eqI: "val n = unat w \<Longrightarrow> u64_of n = w"
  by (simp add: val_def word_unat_eq_iff)

lemma u64_of_add [u64_simps]: "u64_of (i64_add a b) = u64_of a + u64_of b"
  by (rule u64_eqI, subst val_add) (simp add: unat_word_ariths val_def)

lemma u64_of_sub [u64_simps]: "u64_of (i64_sub a b) = u64_of a - u64_of b"
proof (rule u64_eqI)
  have "val a - val b < B64" "\<not> val b \<le> val a \<Longrightarrow> val a + B64 - val b < B64"
    using val_lt [of a] val_lt [of b] by linarith+
  then show "val (i64_sub a b) = unat (u64_of a - u64_of b)"
    unfolding unat_sub_if' val_def [symmetric]
    by (cases "val b \<le> val a") (simp add: val_sub_le, simp add: val_sub)
qed

lemma u64_of_init [u64_simps]: "u64_of i64_init = 0"
  by (rule u64_eqI) (simp add: val_init)

lemma u64_of_from_u32 [u64_simps]: "u64_of (i64_from_u32 i) = ucast i"
  by (rule u64_eqI) (simp add: val_from_u32)

lemma u64_of_from_u64 [u64_simps]: "u64_of (i64_from_u64 w) = w"
  by (simp add: i64_from_u64_def)

lemma u64_of_of_u32s_lo: "u64_of (of_u32s 0 i) = ucast i"
  by (rule u64_eqI) (simp add: val_of_u32s)

lemma u64_of_from_i32 [u64_simps]: "u64_of (i64_from_i32 b) = scast b"
  by (simp add: i64_from_i32_def i64_sub_u32_def u64_of_of_u32s_lo u64_of_sub u64_of_from_u32
      ucast_neg_scast ucast_nonneg_scast)

lemma u64_of_variants [u64_simps]:
  "u64_of (i64_add_u32 a k) = u64_of a + ucast k"
  "u64_of (i64_add_u64 a w) = u64_of a + w"
  "u64_of (i64_sub_u32 a k) = u64_of a - ucast k"
  "u64_of (i64_sub_u64 a w) = u64_of a - w"
  by (simp_all add: i64_add_u32_def i64_add_u64_def i64_sub_u32_def i64_sub_u64_def u64_simps)

lemma u64_of_add_i32 [u64_simps]: "u64_of (i64_add_i32 a b) = u64_of a + scast b"
  using ucast_neg_scast [of b] ucast_nonneg_scast [of b]
  by (auto simp: i64_add_i32_def Let_def u64_simps)

lemma u64_of_sub_i32 [u64_simps]: "u64_of (i64_sub_i32 a b) = u64_of a - scast b"
  using ucast_neg_scast [of b, symmetric] ucast_nonneg_scast [of b]
  by (auto simp: i64_sub_i32_def Let_def u64_simps)

lemma u64_of_bitops [u64_simps]:
  "u64_of (i64_and a b) = u64_of a AND u64_of b"
  "u64_of (i64_or a b) = u64_of a OR u64_of b"
  "u64_of (i64_xor a b) = u64_of a XOR u64_of b"
  "u64_of (i64_and_i32 a s) = u64_of a AND scast s"
  "u64_of (i64_or_i32 a s) = u64_of a OR scast s"
  "u64_of (i64_xor_i32 a s) = u64_of a XOR scast s"
  "u64_of (i64_and_u32 a k) = u64_of a AND ucast k"
  "u64_of (i64_or_u32 a k) = u64_of a OR ucast k"
  "u64_of (i64_xor_u32 a k) = u64_of a XOR ucast k"
  "u64_of (i64_and_u64 a w) = u64_of a AND w"
  "u64_of (i64_or_u64 a w) = u64_of a OR w"
  "u64_of (i64_xor_u64 a w) = u64_of a XOR w"
  by (simp_all add: i64_and_def i64_or_def i64_xor_def i64_and_i32_def i64_or_i32_def i64_xor_i32_def
      i64_and_u32_def i64_or_u32_def i64_xor_u32_def i64_and_u64_def i64_or_u64_def i64_xor_u64_def
      u64_of_from_u32 u64_of_from_i32 u64_of_from_u64)

section \<open>Comparison\<close>

lemma cmp_val:
  "i64_cmp a b = (if val a > val b then LARGER64 else if val a < val b then SMALLER64 else EQUAL64)"
  by (simp add: i64_cmp_def val_def word_less_nat_alt)

lemmas cmp_results = LARGER64_def SMALLER64_def EQUAL64_def

lemma cmp_iffs:
  "i64_cmp a b = LARGER64 \<longleftrightarrow> val b < val a"
  "i64_cmp a b = SMALLER64 \<longleftrightarrow> val a < val b"
  "i64_cmp a b = EQUAL64 \<longleftrightarrow> a = b"
  "i64_cmp a b > 0 \<longleftrightarrow> val b < val a"
  by (auto simp: cmp_val cmp_results val_inject)

lemma is_zero_val: "i64_is_zero n \<longleftrightarrow> val n = 0"
  by (simp add: i64_is_zero_def val_def unat_eq_0)

lemma val_from_i32_nonneg: "0 \<le> sint b \<Longrightarrow> val (i64_from_i32 b) = nat (sint b)"
  by (simp add: i64_from_i32_def val_of_u32s uint_nonneg32 flip: nat_uint_eq)

section \<open>Shifts\<close>

lemma double_words:
  fixes hi lo :: nat
  assumes "lo < B32" and "hi < B32"
  shows "((2 * hi) mod B32 + lo div 2147483648) * B32 + (2 * lo) mod B32 = (2 * (hi * B32 + lo)) mod B64"
proof -
  define t l u h where "t = lo div 2147483648" and "l = lo mod 2147483648"
    and "u = hi div 2147483648" and "h = hi mod 2147483648"
  have lo: "lo = t * 2147483648 + l" and hi: "hi = u * 2147483648 + h"
    by (simp_all add: t_def l_def u_def h_def)
  have l: "l < 2147483648" and h: "h < 2147483648" by (simp_all add: l_def h_def)
  have t: "t < 2" using assms(1) by (simp add: t_def less_mult_imp_div_less)
  have "(2 * lo) mod B32 = 2 * l" "(2 * hi) mod B32 = 2 * h"
    using l h unfolding lo hi by simp_all
  moreover have "2 * (hi * B32 + lo) = u * B64 + ((2 * h + t) * B32 + 2 * l)"
    unfolding lo hi by simp
  moreover have "(2 * h + t) * B32 + 2 * l < B64"
  proof -
    have "2 * h + t + 1 \<le> B32" using h t by linarith
    then have "(2 * h + t + 1) * B32 \<le> B32 * B32" by (rule mult_le_mono1)
    then show ?thesis using l by simp
  qed
  ultimately show ?thesis by (simp flip: t_def)
qed

lemma val_lshift_one_bit [val_simps]: "val (i64_lshift_one_bit a) = (2 * val a) mod B64"
proof -
  define hi lo where "hi = unat (u32_hi a)" and "lo = unat (u32_lo a)"
  have v: "val a = hi * B32 + lo"
    unfolding hi_def lo_def unat_u32_hi unat_u32_lo by simp
  have b: "lo < B32" "hi < B32" by (simp_all add: lo_def hi_def)
  have push: "unat (push_bit 1 x) = (2 * unat x) mod B32" for x :: u32
    using unat_push_bit_mod [of 1 x] by (simp only: len_num1 len_bit0 mult.commute power_one_right) simp
  have "even (unat (push_bit 1 (u32_hi a)))"
    unfolding push by (simp add: dvd_mod)
  moreover have drop: "unat (drop_bit 31 (u32_lo a)) = lo div 2147483648"
    by (simp add: unat_drop_bit_div lo_def)
  moreover have "lo div 2147483648 < 2"
    using b by (simp add: less_mult_imp_div_less)
  ultimately have "unat (push_bit 1 (u32_hi a) OR drop_bit 31 (u32_lo a)) =
      (2 * hi) mod B32 + lo div 2147483648"
    by (subst unat_or_disjoint [where n = 1]) (simp_all only: power_one_right push hi_def)
  moreover have "unat (push_bit 1 (u32_lo a)) = (2 * lo) mod B32"
    by (simp only: push lo_def)
  ultimately have "val (i64_lshift_one_bit a) =
      ((2 * hi) mod B32 + lo div 2147483648) * B32 + (2 * lo) mod B32"
    by (simp add: i64_lshift_one_bit_def val_of_u32s)
  also have "\<dots> = (2 * (hi * B32 + lo)) mod B64"
    using double_words [OF b] by simp
  finally show ?thesis by (simp add: v)
qed

lemma pow16_split: "k \<le> 16 \<Longrightarrow> B16 = 2 ^ k * 2 ^ (16 - k)"
  by (simp flip: power_add)

lemma shift_digit_down:
  assumes "k \<le> 16"
  shows "(x * B16 + y) div 2 ^ k = x div 2 ^ k * B16 + (x mod 2 ^ k * 2 ^ (16 - k) + y div 2 ^ k)"
proof -
  have "(x * B16 + y) div 2 ^ k = (x * 2 ^ (16 - k) * 2 ^ k + y) div 2 ^ k"
    unfolding pow16_split [OF assms] by (simp only: ac_simps)
  also have "\<dots> = x * 2 ^ (16 - k) + y div 2 ^ k" by simp
  also have "x * 2 ^ (16 - k) = (x div 2 ^ k * 2 ^ k + x mod 2 ^ k) * 2 ^ (16 - k)"
    by (simp only: div_mult_mod_eq)
  also have "\<dots> = x div 2 ^ k * B16 + x mod 2 ^ k * 2 ^ (16 - k)"
    unfolding pow16_split [OF assms] by (simp only: distrib_right mult.assoc)
  finally show ?thesis by simp
qed

lemma unat_shr_halfword:
  assumes "k \<le> 16"
  shows "unat (shr_halfword x p k) = unat p mod 2 ^ k * 2 ^ (16 - k) + unat x div 2 ^ k"
proof -
  have lt: "unat x div 2 ^ k < 2 ^ (16 - k)"
    using unat16_lt [of x] unfolding pow16_split [OF assms]
    by (simp add: less_mult_imp_div_less mult.commute)
  have "unat p * 2 ^ (16 - k) < B16 * 2 ^ (16 - k)" by simp
  also have "\<dots> \<le> B16 * 2 ^ 16" by (intro mult_le_mono2 power_increasing) simp_all
  finally have "unat (push_bit (16 - k) (ucast p :: u32)) = unat p * 2 ^ (16 - k)"
    by (simp add: unat_push_bit_mod)
  then have "unat (drop_bit k (ucast x :: u32) OR push_bit (16 - k) (ucast p :: u32)) =
      unat p * 2 ^ (16 - k) + unat x div 2 ^ k"
    by (subst or.commute, subst unat_or_disjoint [where n = "16 - k"])
      (simp_all add: unat_drop_bit_div lt)
  then have "unat (shr_halfword x p k) = (unat p * 2 ^ (16 - k) + unat x div 2 ^ k) mod (2 ^ k * 2 ^ (16 - k))"
    unfolding shr_halfword_def unat_ucast_mod pow16_split [OF assms, symmetric] by simp
  also have "\<dots> = unat p mod 2 ^ k * 2 ^ (16 - k) + unat x div 2 ^ k"
    using lt by (simp add: mod_mult2_eq mult.commute [of "2 ^ k"])
  finally show ?thesis .
qed

lemma rshift_loop_unfold:
  "rshift_loop k LAST64 (Int64 a b c d) =
     Int64 (drop_bit k a) (shr_halfword b a k) (shr_halfword c b k) (shr_halfword d c k)"
  by (simp add: LAST64_Suc)

lemma val_rshift_loop:
  assumes "k \<le> 16"
  shows "val (rshift_loop k LAST64 n) = val n div 2 ^ k"
proof (cases n)
  case (Int64 a b c d)
  have low: "(x * B16 + y) mod 2 ^ k = y mod 2 ^ k" for x y :: nat
    unfolding pow16_split [OF assms] by (simp add: mult.assoc [symmetric] mult.commute [of "2 ^ k"])
  show ?thesis
    unfolding Int64 rshift_loop_unfold val_Horner unat_shr_halfword [OF assms] unat_drop_bit_div
      shift_digit_down [OF assms] low by simp
qed

lemma val_rshift_one_bit [val_simps]: "val (i64_rshift_one_bit a) = val a div 2"
  using val_rshift_loop [of 1 a] by (simp add: i64_rshift_one_bit_def)

lemma unat_shl_halfword:
  assumes "0 < k" "k \<le> 16"
  shows "unat (shl_halfword x q k) = unat x * 2 ^ k mod B16 + unat q div 2 ^ (16 - k)"
proof -
  have lt: "unat q div 2 ^ (16 - k) < 2 ^ k"
    using unat16_lt [of q] unfolding pow16_split [OF assms(2)]
    by (simp add: less_mult_imp_div_less)
  have "unat x * 2 ^ k < B16 * 2 ^ k" by simp
  also have "\<dots> \<le> B16 * 2 ^ 16" using assms by (intro mult_le_mono2 power_increasing) simp_all
  finally have "unat (push_bit k (ucast x :: u32)) = unat x * 2 ^ k"
    by (simp add: unat_push_bit_mod)
  then have "unat (push_bit k (ucast x :: u32) OR drop_bit (16 - k) (ucast q :: u32)) =
      unat x * 2 ^ k + unat q div 2 ^ (16 - k)"
    by (subst unat_or_disjoint [where n = k]) (simp_all add: unat_drop_bit_div lt)
  then have "unat (shl_halfword x q k) = (unat x * 2 ^ k + unat q div 2 ^ (16 - k)) mod (2 ^ k * 2 ^ (16 - k))"
    unfolding shl_halfword_def unat_ucast_mod pow16_split [OF assms(2), symmetric] by simp
  also have "\<dots> = unat x mod 2 ^ (16 - k) * 2 ^ k + unat q div 2 ^ (16 - k)"
    using lt by (simp add: mod_mult2_eq)
  also have "unat x mod 2 ^ (16 - k) * 2 ^ k = unat x * 2 ^ k mod B16"
    unfolding pow16_split [OF assms(2)] by (simp add: mod_mult_mult2 mult.commute)
  finally show ?thesis .
qed

lemma shifted_digit_sum:
  assumes "k \<le> 16" "z < 2 ^ k"
  shows "(x * 2 ^ k + z) div B16 = x * 2 ^ k div B16"
    and "(x * 2 ^ k + z) mod B16 = x * 2 ^ k mod B16 + z"
proof -
  have "x * 2 ^ k mod B16 = x mod 2 ^ (16 - k) * 2 ^ k"
    unfolding pow16_split [OF assms(1)] by (simp add: mod_mult_mult2 mult.commute)
  moreover have "x mod 2 ^ (16 - k) * 2 ^ k + 2 ^ k \<le> B16"
  proof -
    have "(x mod 2 ^ (16 - k) + 1) * 2 ^ k \<le> 2 ^ (16 - k) * 2 ^ k"
      by (rule mult_le_mono1) (simp add: Suc_le_eq)
    then show ?thesis unfolding pow16_split [OF assms(1)] by (simp add: mult.commute)
  qed
  ultimately have lt: "x * 2 ^ k mod B16 + z < B16" using assms(2) by linarith
  have eq: "x * 2 ^ k + z = x * 2 ^ k div B16 * B16 + (x * 2 ^ k mod B16 + z)"
    using div_mult_mod_eq [of "x * 2 ^ k" B16] by linarith
  show "(x * 2 ^ k + z) div B16 = x * 2 ^ k div B16"
    by (subst eq) (rule digit_div [OF lt])
  show "(x * 2 ^ k + z) mod B16 = x * 2 ^ k mod B16 + z"
    by (subst eq) (rule digit_mod [OF lt])
qed

lemma lshift_loop_unfold:
  "lshift_loop k LAST64 (Int64 a b c d) =
     Int64 (shl_halfword a b k) (shl_halfword b c k) (shl_halfword c d k) (push_bit k d)"
  by (simp add: LAST64_Suc Let_def)

lemma val_lshift_loop:
  assumes "0 < k" "k \<le> 16"
  shows "val (lshift_loop k LAST64 n) = (val n * 2 ^ k) mod B64"
proof (cases n)
  case (Int64 a b c d)
  define f where "f x = x * 2 ^ k" for x :: nat
  have top: "y div 2 ^ (16 - k) = f y div B16" for y :: nat
    unfolding f_def pow16_split [OF assms(2)]
    by (simp add: mult.commute [of "2 ^ k"])
  have carry: "f (unat y) div B16 < 2 ^ k" for y :: u16
  proof -
    have "unat y < 2 ^ k * 2 ^ (16 - k)"
      using unat16_lt [of y] unfolding pow16_split [OF assms(2)] .
    then show ?thesis unfolding top [symmetric] by (rule less_mult_imp_div_less)
  qed
  note sum = shifted_digit_sum [OF assms(2) carry, folded f_def]
  have "val (lshift_loop k LAST64 n) =
      (f (unat a) + (f (unat b) + (f (unat c) + f (unat d) div B16) div B16) div B16) mod B16 * B48 +
      (f (unat b) + (f (unat c) + f (unat d) div B16) div B16) mod B16 * B32 +
      (f (unat c) + f (unat d) div B16) mod B16 * B16 + f (unat d) mod B16"
    unfolding Int64 lshift_loop_unfold val_Int64 unat_shl_halfword [OF assms] unat_push_bit_mod
      sum top by (simp add: f_def)
  also have "\<dots> = (val n * 2 ^ k) mod B64"
    unfolding carry_chain Int64 val_Int64 f_def by (simp add: algebra_simps)
  finally show ?thesis .
qed

text \<open>Shifts by whole halfwords.\<close>

lemma word_once_unfold:
  "lshift_word_once LAST64 (Int64 a b c d) = Int64 b c d 0"
  "rshift_word_once LAST64 (Int64 a b c d) = Int64 0 a b c"
  by (simp_all add: LAST64_Suc Let_def)

lemma val_lshift_word_once: "val (lshift_word_once LAST64 n) = (val n * B16) mod B64"
proof (cases n)
  case (Int64 a b c d)
  have "val n * B16 = unat a * B64 + val (Int64 b c d 0)"
    unfolding Int64 val_Int64 by simp
  then show ?thesis using val_lt [of "Int64 b c d 0"]
    unfolding Int64 word_once_unfold by simp
qed

lemma val_rshift_word_once: "val (rshift_word_once LAST64 n) = val n div B16"
  by (cases n) (simp only: word_once_unfold val_parts, simp only: val_Horner, simp)

lemma val_lshift_word_times:
  "val ((lshift_word_once LAST64 ^^ m) n) = (val n * B16 ^ m) mod B64"
proof (induction m)
  case (Suc m)
  then show ?case
    by (simp only: funpow.simps comp_apply val_lshift_word_once power_Suc)
      (simp add: mod_mult_left_eq mult.assoc mult.commute [of B16])
qed (simp)

lemma val_rshift_word_times:
  "val ((rshift_word_once LAST64 ^^ m) n) = val n div B16 ^ m"
  by (induction m) (simp, simp add: val_rshift_word_once div_mult2_eq mult.commute [of B16])

lemma val_lshift_word [val_simps]:
  "0 \<le> nw \<Longrightarrow> val (i64_lshift_word n nw) = (val n * B16 ^ nat nw) mod B64"
proof (cases "nw \<le> 4")
  case False
  have dvd: "B64 dvd B16 ^ m" if "4 \<le> m" for m
    using le_imp_power_dvd [OF that, of B16] by simp
  from False have "clamp_shift nw = 4" by (simp add: clamp_shift_def ARRAY_SIZE64_def)
  moreover from False have "B64 dvd val n * B16 ^ nat nw" by (intro dvd_mult dvd) simp
  ultimately show ?thesis
    by (simp add: i64_lshift_word_def val_lshift_word_times)
qed (simp add: i64_lshift_word_def clamp_shift_def ARRAY_SIZE64_def
    val_lshift_word_times)

lemma val_rshift_word [val_simps]:
  "0 \<le> nw \<Longrightarrow> val (i64_rshift_word n nw) = val n div B16 ^ nat nw"
proof (cases "nw \<le> 4")
  case False
  from False have "clamp_shift nw = 4" by (simp add: clamp_shift_def ARRAY_SIZE64_def)
  moreover have "B16 ^ 4 \<le> B16 ^ nat nw" using False by (intro power_increasing) simp_all
  then have "val n < B16 ^ nat nw" by (rule less_le_trans [rotated]) simp
  ultimately show ?thesis using False val_lt [of n]
    by (simp add: i64_rshift_word_def val_rshift_word_times)
qed (simp add: i64_rshift_word_def clamp_shift_def ARRAY_SIZE64_def
    val_rshift_word_times)

theorem val_lshift: "0 \<le> nbits \<Longrightarrow> val (i64_lshift old a nbits) = (val a * 2 ^ nat nbits) mod B64"
proof -
  assume nb: "0 \<le> nbits"
  define w k where "w = nat (nbits div 16)" and "k = nat (nbits mod 16)"
  have split: "nat nbits = k + 16 * w"
    using nb unfolding w_def k_def by (simp add: nat_mod_distrib nat_div_distrib)
  then have pow: "2 ^ nat nbits = B16 ^ w * (2 ^ k :: nat)"
    by (simp add: power_add power_mult)
  define b where "b = (if nbits div 16 \<noteq> 0 then i64_lshift_word a (nbits div 16) else a)"
  have b: "val b = (val a * B16 ^ w) mod B64"
    using nb unfolding b_def w_def by (auto simp: val_lshift_word pos_imp_zdiv_nonneg_iff)
  have rest: "(if nbits div 16 \<noteq> 0 then nbits - nbits div 16 * 16 else nbits) = nbits mod 16"
    by (simp add: minus_div_mult_eq_mod)
  have "i64_lshift old a nbits = (if nbits mod 16 \<noteq> 0 then lshift_loop k LAST64 b else b)"
    using nb by (simp only: i64_lshift_def Let_def i64_copy_id rest b_def k_def if_True)
  moreover have "val (lshift_loop k LAST64 b) = (val b * 2 ^ k) mod B64" if "nbits mod 16 \<noteq> 0"
    using that by (intro val_lshift_loop) (auto simp: k_def nat_le_iff less_imp_le intro: order.strict_implies_order)
  ultimately show ?thesis
    unfolding pow using b by (cases "nbits mod 16 = 0") (simp_all add: mod_mult_left_eq mult.assoc k_def)
qed

theorem val_rshift: "0 \<le> nbits \<Longrightarrow> val (i64_rshift old a nbits) = val a div 2 ^ nat nbits"
proof -
  assume nb: "0 \<le> nbits"
  define w k where "w = nat (nbits div 16)" and "k = nat (nbits mod 16)"
  have split: "nat nbits = k + 16 * w"
    using nb unfolding w_def k_def by (simp add: nat_mod_distrib nat_div_distrib)
  then have pow: "2 ^ nat nbits = B16 ^ w * (2 ^ k :: nat)"
    by (simp add: power_add power_mult)
  define b where "b = (if nbits div 16 \<noteq> 0 then i64_rshift_word a (nbits div 16) else a)"
  have b: "val b = val a div B16 ^ w"
    using nb unfolding b_def w_def by (auto simp: val_rshift_word pos_imp_zdiv_nonneg_iff)
  have rest: "(if nbits div 16 \<noteq> 0 then nbits - nbits div 16 * 16 else nbits) = nbits mod 16"
    by (simp add: minus_div_mult_eq_mod)
  have "i64_rshift old a nbits = (if nbits mod 16 \<noteq> 0 then rshift_loop k LAST64 b else b)"
    using nb by (simp only: i64_rshift_def Let_def i64_copy_id rest b_def k_def if_True)
  moreover have "val (rshift_loop k LAST64 b) = val b div 2 ^ k"
    by (intro val_rshift_loop) (simp add: k_def nat_le_iff less_imp_le)
  ultimately show ?thesis
    unfolding pow using b by (cases "nbits mod 16 = 0") (simp_all add: div_mult2_eq k_def)
qed

section \<open>Multiplication\<close>

definition digit :: "int64 \<Rightarrow> nat \<Rightarrow> nat" where
  "digit n i = unat (arr n i)"

lemma digit_lt: "digit n i < B16"
  by (simp add: digit_def)

lemma sum_lessThan4: "(\<Sum>i<4. f i) = f 0 + f 1 + f 2 + f (3 :: nat)"
  by (simp add: eval_nat_numeral)

lemma val_digits: "val n = (\<Sum>i<4. digit n i * B16 ^ (3 - i))"
  unfolding sum_lessThan4 by (cases n) (simp add: val_Int64 digit_def)

text \<open>What the halfwords \<open>a[i]\<close> and \<open>b[j]\<close> contribute to the product.\<close>

definition term64 :: "int64 \<Rightarrow> int64 \<Rightarrow> nat \<Rightarrow> nat \<Rightarrow> nat" where
  "term64 a b i j = digit a i * digit b j * B16 ^ (6 - (i + j))"

lemma unat_halfword_product: "unat ((ucast (x :: u16) :: u32) * ucast (y :: u16)) = unat x * unat y"
proof -
  have "unat x * unat y \<le> 65535 * 65535"
    using unat16_lt [of x] unat16_lt [of y] by (intro mult_le_mono) linarith+
  then show ?thesis by (simp add: unat_word_ariths)
qed

lemma term64_high: "i + j \<le> 2 \<Longrightarrow> B64 dvd term64 a b i j"
proof -
  assume "i + j \<le> 2"
  then have "B16 ^ 4 dvd B16 ^ (6 - (i + j))" by (intro le_imp_power_dvd) linarith
  then show ?thesis unfolding term64_def by (intro dvd_mult) simp
qed

lemma val_mul_row:
  "i < 4 \<Longrightarrow> m \<le> 4 \<Longrightarrow>
    val (mul_row a b i m row) = (val row + (\<Sum>j<m. term64 a b i j)) mod B64"
proof (induction m arbitrary: row)
  case 0
  then show ?case by simp
next
  case (Suc j)
  define p where "p = (ucast (arr a i) :: u32) * (ucast (arr b j) :: u32)"
  have p: "unat p = digit a i * digit b j"
    unfolding p_def digit_def by (rule unat_halfword_product)
  have IH: "val (mul_row a b i j r) = (val r + (\<Sum>j<j. term64 a b i j)) mod B64" for r
    using Suc by simp
  show ?case
  proof (cases "i + j > 2 \<and> p \<noteq> 0")
    case True
    define t where "t = i64_lshift_word (i64_from_u32 p) (int (LAST64 * 2) - int (i + j))"
    have "int (LAST64 * 2) - int (i + j) \<ge> 0" and e: "nat (int (LAST64 * 2) - int (i + j)) = 6 - (i + j)"
      using Suc.prems by (simp_all add: LAST64_def ARRAY_SIZE64_def)
    then have "val t = term64 a b i j mod B64"
      unfolding t_def by (simp only: val_lshift_word e val_from_u32 p term64_def)
    then have "val (i64_add t row) = (term64 a b i j + val row) mod B64"
      by (simp add: val_add mod_add_left_eq)
    moreover have "mul_row a b i (Suc j) row = mul_row a b i j (i64_add t row)"
      using True by (simp add: Let_def p_def t_def ARRAY_SIZE64_def)
    ultimately show ?thesis
      by (simp add: IH mod_simps ac_simps del: mul_row.simps)
  next
    case False
    then have "mul_row a b i (Suc j) row = mul_row a b i j row"
      by (auto simp: Let_def p_def ARRAY_SIZE64_def)
    moreover have "term64 a b i j mod B64 = 0"
    proof (cases "i + j > 2")
      case True
      with False have "unat p = 0" by simp
      then show ?thesis by (simp only: p term64_def mult_zero_left mod_0)
    next
      case False
      then show ?thesis using term64_high [of i j a b] by simp
    qed
    then have "(x + term64 a b i j) mod B64 = x mod B64" for x
      by (metis add.right_neutral mod_add_right_eq)
    then have "(val row + (\<Sum>j<j. term64 a b i j) + term64 a b i j) mod B64 =
        (val row + (\<Sum>j<j. term64 a b i j)) mod B64" .
    ultimately show ?thesis by (simp add: IH ac_simps)
  qed
qed

lemma val_mul_rows:
  "m \<le> 4 \<Longrightarrow> val (mul_rows a b m r) = (val r + (\<Sum>i<m. \<Sum>j<4. term64 a b i j)) mod B64"
proof (induction m arbitrary: r)
  case (Suc i)
  then have "val (mul_row a b i ARRAY_SIZE64 i64_init) = (\<Sum>j<4. term64 a b i j) mod B64"
    by (simp add: val_mul_row ARRAY_SIZE64_def val_init del: mul_row.simps)
  then have "val (i64_add r (mul_row a b i ARRAY_SIZE64 i64_init)) =
      (val r + (\<Sum>j<4. term64 a b i j)) mod B64"
    by (simp add: val_add mod_add_right_eq)
  with Suc show ?case
    by (simp add: mod_simps ac_simps)
qed simp

lemma sum_term64: "(\<Sum>i<4. \<Sum>j<4. term64 a b i j) = val a * val b"
proof -
  have "val a * val b = (\<Sum>i<4. \<Sum>j<4. (digit a i * B16 ^ (3 - i)) * (digit b j * B16 ^ (3 - j)))"
    unfolding val_digits by (rule sum_product)
  also have "\<dots> = (\<Sum>i<4. \<Sum>j<4. term64 a b i j)"
  proof (intro sum.cong refl)
    fix i j :: nat
    assume "i \<in> {..<4}" "j \<in> {..<4}"
    then have "6 - (i + j) = (3 - i) + (3 - j)" by auto
    then show "(digit a i * B16 ^ (3 - i)) * (digit b j * B16 ^ (3 - j)) = term64 a b i j"
      by (simp only: term64_def power_add ac_simps)
  qed
  finally show ?thesis ..
qed

theorem val_mul [val_simps]: "val (i64_mul a b) = (val a * val b) mod B64"
  using val_mul_rows [of 4 a b i64_init]
  by (simp add: i64_mul_def ARRAY_SIZE64_def val_init sum_term64)

lemma u64_of_mul [u64_simps]: "u64_of (i64_mul a b) = u64_of a * u64_of b"
  by (rule u64_eqI, subst val_mul) (simp add: unat_word_ariths val_def)

lemma u64_of_mul_variants [u64_simps]:
  "u64_of (i64_mul_i32 a s) = u64_of a * scast s"
  "u64_of (i64_mul_u32 a k) = u64_of a * ucast k"
  "u64_of (i64_mul_u64 a w) = u64_of a * w"
  by (simp_all add: i64_mul_i32_def i64_mul_u32_def i64_mul_u64_def u64_simps)

section \<open>Division\<close>

lemma val_or_disjoint:
  "2 ^ (Suc j) dvd val c \<Longrightarrow> val d = 2 ^ j \<Longrightarrow> val (i64_or c d) = val c + 2 ^ j"
  unfolding i64_or_def val_of_u64
  by (subst unat_or_disjoint [where n = "Suc j"]) (simp_all add: val_def)

lemma half_max_test: "ucast (arr d 0) \<ge> half_max \<longleftrightarrow> 2 ^ 63 \<le> val d"
proof -
  have "ucast (arr d 0) \<ge> half_max \<longleftrightarrow> 32768 \<le> val d div B48"
    by (simp add: half_max_def word_le_nat_alt unat_arr)
  also have "\<dots> \<longleftrightarrow> 2 ^ 63 \<le> val d"
    by (simp add: less_eq_div_iff_mult_less_eq)
  finally show ?thesis .
qed

text \<open>
  The first loop: after \<open>k\<close> doublings \<open>current\<close> is \<open>2 ^ k\<close> and \<open>denom\<close> is \<open>b * 2 ^ k\<close>,
  exactly, and the value before the last doubling did not exceed the dividend.
\<close>

definition div_up_inv :: "int64 \<Rightarrow> int64 \<Rightarrow> int64 \<times> int64 \<times> bool \<Rightarrow> bool" where
  "div_up_inv a b = (\<lambda>(current, denom, overflow). \<exists>k.
     val current = 2 ^ k \<and> val denom = val b * 2 ^ k \<and> k < 64 \<and>
     (0 < k \<longrightarrow> val b * 2 ^ (k - 1) \<le> val a) \<and>
     (overflow \<longrightarrow> val denom \<le> val a \<and> 2 ^ 63 \<le> val denom))"

definition div_up_measure :: "int64 \<times> int64 \<times> bool \<Rightarrow> nat" where
  "div_up_measure = (\<lambda>(current, denom, overflow). (if overflow then 0 else Suc (B64 - val denom)))"

lemma div_up_step_inv:
  assumes inv: "div_up_inv a b s" and cond: "div_up_cond a s" and b: "val b \<noteq> 0"
  shows "div_up_inv a b (div_up_step s) \<and> div_up_measure (div_up_step s) < div_up_measure s"
proof -
  obtain cur den ov where s: "s = (cur, den, ov)" by (cases s)
  from inv s obtain k where k: "val cur = 2 ^ k" "val den = val b * 2 ^ k" "k < 64"
    by (auto simp: div_up_inv_def)
  from cond s have le: "val den \<le> val a" and ov: "\<not> ov"
    by (auto simp: div_up_cond_def cmp_iffs)
  show ?thesis
  proof (cases "2 ^ 63 \<le> val den")
    case True
    then have "div_up_step s = (cur, den, True)"
      by (simp add: s div_up_step_def half_max_test)
    moreover have "div_up_inv a b (cur, den, True)"
      using inv True le by (auto simp: s div_up_inv_def)
    ultimately show ?thesis by (simp add: div_up_measure_def s ov)
  next
    case False
    then have lt: "2 * val den < B64" by simp
    have "2 ^ k \<le> val den" using b k(2) by simp
    with False have "(2 :: nat) ^ k < 2 ^ 63" by linarith
    then have "k < 63" by (rule power_less_imp_less_exp [rotated]) simp
    then have "2 * (2 :: nat) ^ k < B64"
      using power_strict_increasing [of "Suc k" 64 "2 :: nat"] by simp
    then have "val (i64_lshift_one_bit cur) = 2 ^ Suc k" "val (i64_lshift_one_bit den) = val b * 2 ^ Suc k"
      using lt by (simp_all add: val_lshift_one_bit k(1)) (simp_all add: k(2))
    moreover have "div_up_step s = (i64_lshift_one_bit cur, i64_lshift_one_bit den, False)"
      using False ov by (simp add: s div_up_step_def half_max_test)
    moreover have "B64 - val (i64_lshift_one_bit den) < B64 - val den"
      using b k(2) lt by (simp add: val_lshift_one_bit diff_less_mono2)
    ultimately show ?thesis
      using \<open>k < 63\<close> le k(2) ov
      by (auto simp: s div_up_inv_def div_up_measure_def intro!: exI [of _ "Suc k"])
  qed
qed

text \<open>
  The second loop: at bit \<open>j\<close> the part of the quotient found so far is a multiple of
  \<open>2 ^ (j + 1)\<close>, it accounts for the dividend up to \<open>tmp\<close>, and \<open>tmp\<close> is below the divisor
  shifted by one bit more.
\<close>

definition div_down_inv :: "int64 \<Rightarrow> int64 \<Rightarrow> int64 \<times> int64 \<times> int64 \<times> int64 \<Rightarrow> bool" where
  "div_down_inv a b = (\<lambda>(current, denom, tmp, c).
     val c * val b + val tmp = val a \<and>
     (val current = 0 \<and> val tmp < val b \<or>
      (\<exists>j. val current = 2 ^ j \<and> val denom = val b * 2 ^ j \<and> j < 64 \<and>
           2 ^ Suc j dvd val c \<and> val tmp < val b * 2 ^ Suc j)))"

lemma div_down_step_inv:
  assumes inv: "div_down_inv a b s" and cond: "div_down_cond s"
  shows "div_down_inv a b (div_down_step s) \<and>
    val (fst (div_down_step s)) < val (fst s)"
proof -
  obtain cur den tmp c where s: "s = (cur, den, tmp, c)" by (cases s)
  from cond s have nz: "val cur \<noteq> 0" by (simp add: div_down_cond_def is_zero_val)
  with inv s obtain j where
    sum: "val c * val b + val tmp = val a" and
    j: "val cur = 2 ^ j" "val den = val b * 2 ^ j" "j < 64" "2 ^ Suc j dvd val c"
       "val tmp < val b * 2 ^ Suc j"
    by (auto simp: div_down_inv_def)
  define tmp' where "tmp' = (if val den \<le> val tmp then i64_sub tmp den else tmp)"
  define c' where "c' = (if val den \<le> val tmp then i64_or c cur else c)"
  have step: "div_down_step s = (i64_rshift_one_bit cur, i64_rshift_one_bit den, tmp', c')"
    by (auto simp: s div_down_step_def Let_def cmp_iffs tmp'_def c'_def)
  have or: "val (i64_or c cur) = val c + 2 ^ j" by (rule val_or_disjoint [OF j(4,1)])
  have tmp': "val tmp' = (if val den \<le> val tmp then val tmp - val den else val tmp)"
    by (simp add: tmp'_def val_sub_le)
  have sum': "val c' * val b + val tmp' = val a"
    using sum by (auto simp: tmp' c'_def or j(2) algebra_simps)
  have lt': "val tmp' < val b * 2 ^ j"
    using j(2,5) by (auto simp: tmp')
  have dvd': "2 ^ j dvd val c'"
    using j(4) by (auto simp: c'_def or dest: power_le_dvd)
  have "div_down_inv a b (div_down_step s)"
  proof (cases j)
    case 0
    then show ?thesis using sum' lt' j(1)
      by (simp add: step div_down_inv_def val_rshift_one_bit)
  next
    case (Suc i)
    then have "val (i64_rshift_one_bit cur) = 2 ^ i" "val (i64_rshift_one_bit den) = val b * 2 ^ i"
      by (simp_all add: val_rshift_one_bit j)
    then show ?thesis using sum' lt' dvd' j(3) Suc
      by (auto simp: step div_down_inv_def)
  qed
  moreover have "val (fst (div_down_step s)) < val (fst s)"
    unfolding step using nz by (simp add: s val_rshift_one_bit)
  ultimately show ?thesis ..
qed

lemma div_up_start: "val b \<noteq> 0 \<Longrightarrow> div_up_inv a b (i64_from_i32 1, i64_copy b, False)"
  by (auto simp: div_up_inv_def val_from_i32_nonneg intro!: exI [of _ 0])

lemma div_up_result:
  fixes a :: int64
  assumes b: "val b \<noteq> 0"
  defines "r \<equiv> while (div_up_cond a) div_up_step (i64_from_i32 1, i64_copy b, False)"
  shows "div_up_inv a b r \<and> \<not> div_up_cond a r"
  unfolding r_def
  by (rule while_rule [where P = "div_up_inv a b" and r = "measure div_up_measure"])
    (use b div_up_start div_up_step_inv in \<open>auto simp: in_measure\<close>)

lemma div_down_result:
  assumes "div_down_inv a b s"
  shows "div_down_inv a b (while div_down_cond div_down_step s) \<and>
    \<not> div_down_cond (while div_down_cond div_down_step s)"
  by (rule while_rule [where P = "div_down_inv a b" and r = "measure (\<lambda>s. val (fst s))"])
    (use assms div_down_step_inv in \<open>auto simp: in_measure\<close>)

lemma div_down_final:
  assumes "div_down_inv a b (cur, den, tmp, c)" and "\<not> div_down_cond (cur, den, tmp, c)"
  shows "val c = val a div val b"
proof -
  from assms have "val c * val b + val tmp = val a" "val tmp < val b"
    by (auto simp: div_down_inv_def div_down_cond_def is_zero_val)
  then show ?thesis by (metis div_less div_mult_self3 add_0_right mult.commute neq0_conv not_less_zero)
qed

lemma div_up_to_down:
  assumes b: "val b \<noteq> 0" and inv: "div_up_inv a b (cur, den, ov)" and stop: "\<not> div_up_cond a (cur, den, ov)"
  shows "div_down_inv a b
    (if \<not> ov then i64_rshift_one_bit cur else cur, if \<not> ov then i64_rshift_one_bit den else den, a, i64_init)"
proof -
  from inv obtain k where k: "val cur = 2 ^ k" "val den = val b * 2 ^ k" "k < 64"
      "0 < k \<Longrightarrow> val b * 2 ^ (k - 1) \<le> val a" "ov \<Longrightarrow> val den \<le> val a" "ov \<Longrightarrow> 2 ^ 63 \<le> val den"
    unfolding div_up_inv_def prod.case by blast
  show ?thesis
  proof (cases ov)
    case True
    have "2 ^ 63 \<le> val den" using k(6) True .
    moreover have "val a < 2 * 2 ^ 63" using val_lt [of a] by (simp del: val_lt)
    ultimately have "val a < 2 * val den" by linarith
    then have "val a < val b * 2 ^ Suc k" by (simp add: k(2))
    with True k show ?thesis by (auto simp: div_down_inv_def val_init)
  next
    case False
    with stop have gt: "val a < val den" by (simp add: div_up_cond_def cmp_iffs)
    show ?thesis
    proof (cases k)
      case 0
      with False gt k show ?thesis by (simp add: div_down_inv_def val_init val_rshift_one_bit)
    next
      case (Suc i)
      with False gt k show ?thesis
        by (auto simp: div_down_inv_def val_init val_rshift_one_bit intro!: exI [of _ i])
    qed
  qed
qed

theorem val_div [val_simps]: "val (i64_div a b) = val a div val b"
proof (cases "val b = 0")
  case True
  then show ?thesis by (simp add: i64_div_def i64_div_edom_def is_zero_val val_init)
next
  case False
  obtain cur den ov where up: "while (div_up_cond a) div_up_step (i64_from_i32 1, i64_copy b, False) = (cur, den, ov)"
    by (cases "while (div_up_cond a) div_up_step (i64_from_i32 1, i64_copy b, False)")
  define s where "s = (if \<not> ov then i64_rshift_one_bit cur else cur,
    if \<not> ov then i64_rshift_one_bit den else den, a, i64_init)"
  obtain cur' den' tmp' c where down: "while div_down_cond div_down_step s = (cur', den', tmp', c)"
    by (cases "while div_down_cond div_down_step s")
  have "div_down_inv a b s"
    unfolding s_def by (rule div_up_to_down [OF False]) (use div_up_result [OF False, of a] up in simp_all)
  with down have "val c = val a div val b"
    using div_down_result [of a b s] div_down_final by fastforce
  moreover have "i64_div a b = c"
    using False up down
    by (cases ov) (simp_all add: i64_div_def i64_div_edom_def is_zero_val s_def)
  ultimately show ?thesis by simp
qed

lemma div_edom: "snd (i64_div_edom a b) \<longleftrightarrow> val b = 0"
  by (simp add: i64_div_edom_def is_zero_val split: prod.splits)

text \<open>Both loops end: the C routine returns for every operand, a zero divisor included.\<close>

lemma div_up_ends:
  "val b \<noteq> 0 \<Longrightarrow>
    \<exists>t. while_option (div_up_cond a) div_up_step (i64_from_i32 1, i64_copy b, False) = Some t"
  by (rule measure_while_option_Some [where P = "div_up_inv a b" and f = div_up_measure])
    (auto intro: div_up_step_inv [THEN conjunct1] div_up_step_inv [THEN conjunct2] div_up_start [simplified])

lemma div_down_ends:
  "div_down_inv a b s \<Longrightarrow> \<exists>t. while_option div_down_cond div_down_step s = Some t"
  by (rule measure_while_option_Some [where P = "div_down_inv a b" and f = "\<lambda>s. val (fst s)"])
    (rule div_down_step_inv)

lemma val_divmod:
  "val (fst (i64_divmod a b)) = val a div val b"
  "val (snd (i64_divmod a b)) = val a mod val b"
proof -
  have le: "val a div val b * val b \<le> val a" by simp
  then have "val a div val b * val b < B64" using val_lt [of a] by linarith
  then have "val (i64_mul (i64_div a b) b) = val a div val b * val b"
    by (simp add: val_mul val_div)
  then show "val (snd (i64_divmod a b)) = val a mod val b"
    by (simp add: i64_divmod_def Let_def val_sub_le minus_div_mult_eq_mod)
  show "val (fst (i64_divmod a b)) = val a div val b"
    by (simp add: i64_divmod_def Let_def val_div)
qed

lemma val_mod [val_simps]: "val (i64_mod a b) = val a mod val b"
  by (simp add: i64_mod_def val_divmod)

lemma u64_of_div [u64_simps]: "u64_of (i64_div a b) = u64_of a div u64_of b"
  by (rule u64_eqI, subst val_div) (simp add: unat_div val_def)

lemma u64_of_mod [u64_simps]: "u64_of (i64_mod a b) = u64_of a mod u64_of b"
  by (rule u64_eqI, subst val_mod) (simp add: unat_mod val_def)

lemma u64_of_divmod [u64_simps]:
  "u64_of (fst (i64_divmod a b)) = u64_of a div u64_of b"
  "u64_of (snd (i64_divmod a b)) = u64_of a mod u64_of b"
  by (rule u64_eqI, subst val_divmod, simp add: unat_div unat_mod val_def)+

lemma u64_of_div_variants [u64_simps]:
  "u64_of (i64_div_i32 a s) = u64_of a div scast s"
  "u64_of (i64_div_u32 a k) = u64_of a div ucast k"
  "u64_of (i64_div_u64 a w) = u64_of a div w"
  "u64_of (i64_mod_i32 a s) = u64_of a mod scast s"
  "u64_of (i64_mod_u32 a k) = u64_of a mod ucast k"
  "u64_of (i64_mod_u64 a w) = u64_of a mod w"
  by (simp_all add: i64_div_i32_def i64_div_u32_def i64_div_u64_def
      i64_mod_i32_def i64_mod_u32_def i64_mod_u64_def u64_simps)

lemma val_u32_variants [val_simps]:
  "val (i64_add_u32 a k) = (val a + unat k) mod B64"
  "unat k \<le> val a \<Longrightarrow> val (i64_sub_u32 a k) = val a - unat k"
  "val (i64_mul_u32 a k) = (val a * unat k) mod B64"
  "val (i64_div_u32 a k) = val a div unat k"
  "val (i64_mod_u32 a k) = val a mod unat k"
  "val (fst (i64_divmod_u32 a k)) = val a div unat k"
  "val (snd (i64_divmod_u32 a k)) = val a mod unat k"
  "i64_cmp_u32 a k = (if val a > unat k then LARGER64 else if val a < unat k then SMALLER64 else EQUAL64)"
  by (simp_all add: i64_add_u32_def i64_sub_u32_def i64_mul_u32_def i64_div_u32_def i64_mod_u32_def
      i64_divmod_u32_def i64_cmp_u32_def cmp_val val_from_u32 val_add val_sub_le val_mul val_div val_mod
      val_divmod)

lemma val_i32_variants [val_simps]:
  assumes "0 \<le> sint s"
  shows "val (i64_add_i32 a s) = (val a + nat (sint s)) mod B64"
    and "nat (sint s) \<le> val a \<Longrightarrow> val (i64_sub_i32 a s) = val a - nat (sint s)"
    and "val (i64_mul_i32 a s) = (val a * nat (sint s)) mod B64"
    and "i64_cmp_i32 a s = (if val a > nat (sint s) then LARGER64
           else if val a < nat (sint s) then SMALLER64 else EQUAL64)"
proof -
  have "unat s = nat (sint s)"
    using uint_nonneg32 [OF assms] by (simp flip: nat_uint_eq)
  with assms show "val (i64_add_i32 a s) = (val a + nat (sint s)) mod B64"
    and "nat (sint s) \<le> val a \<Longrightarrow> val (i64_sub_i32 a s) = val a - nat (sint s)"
    and "val (i64_mul_i32 a s) = (val a * nat (sint s)) mod B64"
    and "i64_cmp_i32 a s = (if val a > nat (sint s) then LARGER64
           else if val a < nat (sint s) then SMALLER64 else EQUAL64)"
    by (simp_all add: i64_add_i32_def i64_sub_i32_def i64_mul_i32_def i64_cmp_i32_def Let_def
        val_from_u32 val_from_i32_nonneg val_add val_sub_le val_mul cmp_val)
qed

lemma to_i32_small: "val n < 2 ^ 31 \<Longrightarrow> sint (i64_to_i32 n) = int (val n)"
proof -
  assume lt: "val n < 2 ^ 31"
  have "unat (i64_to_i32 n) = unat (u32_lo n) mod 2 ^ 31"
    using unat_and_mask_eq [of "u32_lo n" 31] by (simp add: i64_to_i32_def mask_eq_exp_minus_1)
  also have "\<dots> = val n" using lt by (simp add: unat_u32_lo)
  finally have u: "uint (i64_to_i32 n) = int (val n)" by (metis of_nat_unat)
  have "sint (i64_to_i32 n) = signed_take_bit 31 (uint (i64_to_i32 n))" by (simp add: sint_uint)
  also have "\<dots> = int (val n)"
    unfolding u using lt by (intro signed_take_bit_int_eq_self) simp_all
  finally show ?thesis .
qed

section \<open>Power and square root\<close>

lemma power_pred: "n \<noteq> 0 \<Longrightarrow> x * x ^ (n - 1) = (x :: nat) ^ n"
  by (cases n) simp_all

theorem val_pow [val_simps]: "val (i64_pow a b) = (val a ^ val b) mod B64"
proof (cases "val b = 0")
  case True
  then have "b = i64_init" by (simp flip: val_inject add: val_init)
  then show ?thesis by (simp add: i64_pow_def cmp_iffs val_inc val_init)
next
  case False
  then have ne: "b \<noteq> i64_init" by (auto simp: val_init)
  define P where "P = (\<lambda>(tmp, bc). (val tmp * val a ^ val bc) mod B64 = (val a ^ val b) mod B64)"
  define r where "r = while (\<lambda>(tmp, bc). \<not> i64_is_zero bc) (pow_step a) (a, i64_dec b)"
  have "P r \<and> val (snd r) = 0"
    unfolding r_def
  proof (rule while_rule [where P = P and r = "measure (\<lambda>s. val (snd s))"])
    show "P (a, i64_dec b)"
      using False power_pred [OF False, of "val a"] by (simp add: P_def val_dec_pos)
    show "P (pow_step a s)" if "P s" "case s of (tmp, bc) \<Rightarrow> \<not> i64_is_zero bc" for s
    proof (cases s)
      case (Pair tmp bc)
      with that(2) have "val bc \<noteq> 0" by (simp add: is_zero_val)
      with power_pred [OF this, of "val a"] show ?thesis using that(1)
        by (simp add: Pair P_def pow_step_def Let_def val_mul val_dec_pos mod_mult_left_eq mult.assoc)
    qed
    show "P s \<and> val (snd s) = 0" if "P s" "\<not> (case s of (tmp, bc) \<Rightarrow> \<not> i64_is_zero bc)" for s
      using that by (auto simp: is_zero_val)
    show "(pow_step a s, s) \<in> measure (\<lambda>s. val (snd s))"
      if "P s" "case s of (tmp, bc) \<Rightarrow> \<not> i64_is_zero bc" for s
      using that by (auto simp: is_zero_val pow_step_def Let_def val_dec_pos)
  qed simp
  then have "val (fst r) = (val a ^ val b) mod B64" by (auto simp: P_def split: prod.splits)
  moreover have "i64_pow a b = fst r"
    using ne by (simp add: i64_pow_def cmp_iffs r_def split: prod.splits)
  ultimately show ?thesis by simp
qed

text \<open>
  The bisection of \<^verbatim>\<open>__64_isqrt\<close> squares its midpoint modulo \<open>2 ^ 64\<close>.  As long as the
  first midpoint \<open>a / 2 + 1\<close> is below \<open>2 ^ 32\<close> no square wraps and the result is the integer
  square root.
\<close>

definition isqrt_inv :: "int64 \<Rightarrow> int64 \<times> int64 \<times> int64 \<Rightarrow> bool" where
  "isqrt_inv a = (\<lambda>(low, high, mid).
     val low \<le> val high \<and> val low ^ 2 \<le> val a \<and> val a < (val high + 1) ^ 2 \<and>
     val mid = val low + (val high - val low) div 2 + 1 \<and>
     (val high < 2 ^ 32 - 1 \<or> val low = 0 \<and> val high = val a))"

lemma isqrt_mid:
  assumes "val low \<le> val high" and "val low < val high \<or> val high < B64 - 1"
  shows "val (i64_inc (i64_add low (i64_rshift_one_bit (i64_sub high low)))) =
    val low + (val high - val low) div 2 + 1"
proof -
  have "val low + (val high - val low) div 2 < B64 - 1" using assms val_lt [of high] by linarith
  then show ?thesis
    using assms by (simp add: val_inc val_add val_rshift_one_bit val_sub_le)
qed

lemma isqrt_step_inv:
  assumes a: "val a < 2 ^ 33 - 2" and inv: "isqrt_inv a s" and cond: "isqrt_cond s"
  shows "isqrt_inv a (isqrt_step a s) \<and>
    val (fst (snd (isqrt_step a s))) - val (fst (isqrt_step a s)) < val (fst (snd s)) - val (fst s)"
proof -
  obtain low high mid where s: "s = (low, high, mid)" by (cases s)
  from inv cond s have
    lh: "val low < val high" and lo2: "val low ^ 2 \<le> val a" and hi2: "val a < (val high + 1) ^ 2" and
    mid: "val mid = val low + (val high - val low) div 2 + 1" and
    hi: "val high < 2 ^ 32 - 1 \<or> val low = 0 \<and> val high = val a"
    by (auto simp: isqrt_inv_def isqrt_cond_def cmp_iffs)
  from lh mid have mh: "val mid \<le> val high" "val low < val mid" by linarith+
  from hi mid mh a have m32: "val mid < 2 ^ 32" by auto
  then have "val mid * val mid < 2 ^ 32 * 2 ^ 32" by (intro mult_strict_mono) simp_all
  then have sq: "val (i64_mul mid mid) = val mid ^ 2" by (simp add: val_mul power2_eq_square)
  show ?thesis
  proof (cases "val a < val mid ^ 2")
    case True
    define high' where "high' = i64_dec mid"
    from mh have h': "val high' = val mid - 1" by (simp add: high'_def val_dec_pos)
    have step: "isqrt_step a s = (low, high', i64_inc (i64_add low (i64_rshift_one_bit (i64_sub high' low))))"
      using True by (simp add: s isqrt_step_def Let_def cmp_iffs sq high'_def)
    have "val high' < 2 ^ 32 - 1" using m32 mh h' by simp
    moreover have "val a < (val high' + 1) ^ 2" using True mh h' by simp
    moreover have "val low \<le> val high'" using mh h' by simp
    ultimately show ?thesis
      using lo2 mh h' by (simp add: step isqrt_inv_def isqrt_mid) (simp add: s)
  next
    case False
    have step: "isqrt_step a s = (mid, high, i64_inc (i64_add mid (i64_rshift_one_bit (i64_sub high mid))))"
      using False by (simp add: s isqrt_step_def Let_def cmp_iffs sq)
    have "val high < 2 ^ 32 - 1"
    proof (rule ccontr)
      assume big: "\<not> val high < 2 ^ 32 - 1"
      with hi mid have "val mid = val a div 2 + 1" "val a \<ge> 2 ^ 32 - 1" by auto
      then have "val mid > 2" "val a < val mid * 2" by simp_all
      moreover from this have "val mid * 2 < val mid ^ 2" by (simp add: power2_eq_square)
      ultimately have "val a < val mid ^ 2" by linarith
      with False show False by simp
    qed
    then show ?thesis
      using False hi2 mh lh by (simp add: step isqrt_inv_def isqrt_mid) (simp add: s)
  qed
qed

lemma isqrt_start:
  "val a < 2 ^ 33 - 2 \<Longrightarrow> isqrt_inv a (i64_init, i64_copy a, i64_inc (i64_rshift i64_init (i64_copy a) 1))"
proof -
  assume "val a < 2 ^ 33 - 2"
  then have "val a div 2 + 1 < B64" by simp
  moreover have "val a < (val a + 1) ^ 2" by (simp add: power2_eq_square)
  ultimately show ?thesis
    by (simp add: isqrt_inv_def val_init val_inc val_rshift)
qed

theorem isqrt_correct:
  assumes "val a < 2 ^ 33 - 2"
  shows "\<exists>r. i64_isqrt a = Some r \<and> val r ^ 2 \<le> val a \<and> val a < (val r + 1) ^ 2"
proof -
  define s where "s = (i64_init, i64_copy a, i64_inc (i64_rshift i64_init (i64_copy a) 1))"
  have start: "isqrt_inv a s" unfolding s_def by (rule isqrt_start [OF assms])
  have "\<exists>t. while_option isqrt_cond (isqrt_step a) s = Some t"
    by (rule measure_while_option_Some [where P = "isqrt_inv a" and f = "\<lambda>s. val (fst (snd s)) - val (fst s)"])
      (use start isqrt_step_inv [OF assms] in auto)
  then obtain low high mid where t: "while_option isqrt_cond (isqrt_step a) s = Some (low, high, mid)"
    by (metis prod_cases3)
  have "isqrt_inv a (low, high, mid)"
    by (rule while_option_rule [where P = "isqrt_inv a", OF _ t start]) (use isqrt_step_inv [OF assms] in blast)
  moreover have "\<not> isqrt_cond (low, high, mid)" by (rule while_option_stop [OF t])
  ultimately have "val low ^ 2 \<le> val a" "val a < (val low + 1) ^ 2"
    by (auto simp: isqrt_inv_def isqrt_cond_def cmp_iffs)
  then show ?thesis using t by (simp add: i64_isqrt_def Let_def s_def)
qed

text \<open>
  From \<open>2 ^ 33 - 2\<close> on it is not: there the first midpoint is \<open>2 ^ 32\<close>, whose square wraps to
  0, so the routine takes it for a lower bound of the root.
\<close>

definition bisect_inv :: "nat \<Rightarrow> int64 \<times> int64 \<times> int64 \<Rightarrow> bool" where
  "bisect_inv L = (\<lambda>(low, high, mid). L \<le> val low \<and> val low \<le> val high \<and>
     (val low < val high \<longrightarrow> val mid = val low + (val high - val low) div 2 + 1))"

lemma bisect_step:
  assumes inv: "bisect_inv L s" and cond: "isqrt_cond s"
  shows "bisect_inv L (isqrt_step a s)"
    and "val (fst (snd (isqrt_step a s))) - val (fst (isqrt_step a s)) < val (fst (snd s)) - val (fst s)"
proof -
  obtain low high mid where s: "s = (low, high, mid)" by (cases s)
  have lt: "val low < val high" using cond by (simp add: s isqrt_cond_def cmp_iffs)
  with inv have mid: "val mid = val low + (val high - val low) div 2 + 1" "L \<le> val low"
    by (simp_all add: s bisect_inv_def)
  then have m: "val low < val mid" "val mid \<le> val high" using lt by linarith+
  then have "val (i64_dec mid) = val mid - 1" by (simp add: val_dec_pos)
  with m lt mid(2) show "bisect_inv L (isqrt_step a s)"
    "val (fst (snd (isqrt_step a s))) - val (fst (isqrt_step a s)) < val (fst (snd s)) - val (fst s)"
    by (auto simp: s bisect_inv_def isqrt_step_def Let_def isqrt_mid)
qed

lemma bisect_ends:
  assumes "bisect_inv L s"
  shows "\<exists>l h m. while_option isqrt_cond (isqrt_step a) s = Some (l, h, m) \<and> L \<le> val l"
proof -
  have "\<exists>t. while_option isqrt_cond (isqrt_step a) s = Some t"
    by (rule measure_while_option_Some [where P = "bisect_inv L" and f = "\<lambda>s. val (fst (snd s)) - val (fst s)"])
      (use assms bisect_step in blast)+
  then obtain l h m where t: "while_option isqrt_cond (isqrt_step a) s = Some (l, h, m)"
    by (metis prod_cases3)
  have "bisect_inv L (l, h, m)"
    by (rule while_option_rule [where P = "bisect_inv L", OF _ t assms]) (rule bisect_step)
  with t show ?thesis by (auto simp: bisect_inv_def)
qed

theorem isqrt_wraps:
  assumes "val a = 2 ^ 33 - 2"
  shows "\<exists>r. i64_isqrt a = Some r \<and> val a < val r ^ 2"
proof -
  define s where "s = (i64_init, i64_copy a, i64_inc (i64_rshift i64_init (i64_copy a) 1))"
  define mid where "mid = i64_inc (i64_rshift i64_init a 1)"
  have mid: "val mid = 2 ^ 32" using assms by (simp add: mid_def val_inc val_rshift)
  then have sq: "val (i64_mul mid mid) = 0" by (simp add: val_mul)
  define s' where "s' = (mid, a, i64_inc (i64_add mid (i64_rshift_one_bit (i64_sub a mid))))"
  have "isqrt_cond s" using assms by (simp add: s_def isqrt_cond_def cmp_iffs val_init)
  moreover have "isqrt_step a s = s'"
    by (simp add: s_def s'_def isqrt_step_def Let_def cmp_iffs sq flip: mid_def)
  ultimately have unf: "while_option isqrt_cond (isqrt_step a) s = while_option isqrt_cond (isqrt_step a) s'"
    by (subst while_option_unfold) simp
  have "bisect_inv (2 ^ 32) s'"
    using mid assms by (simp add: s'_def bisect_inv_def isqrt_mid)
  from bisect_ends [OF this, of a] obtain r h m where
    "while_option isqrt_cond (isqrt_step a) s = Some (r, h, m)" and r: "2 ^ 32 \<le> val r"
    unfolding unf by blast
  then have "i64_isqrt a = Some r" by (simp add: i64_isqrt_def Let_def s_def)
  moreover have "(2 ^ 32) ^ 2 \<le> val r ^ 2" using r by (rule power_mono) simp
  ultimately show ?thesis using assms by auto
qed

end
