(* ===== verification/Int64_Ptr.thy ===== *)
theory Int64_Ptr
  imports Int64_Arith
begin

text \<open>
  The routines of \<^verbatim>\<open>src/ext/int64\<close> as a caller sees them: their arguments are pointers,
  any of which may be null and any two of which may name the same object, and the result is
  stored through a pointer.  The state is the store of the \<^verbatim>\<open>__64\<close> objects and \<open>errno\<close>.
  The automatic variables of a routine have addresses of their own, so they are values here;
  a call that passes the address of one is the routine of the theory \<open>Int64\<close> on its value.
\<close>

section \<open>The store\<close>

type_synonym ptr = nat

definition NULL :: ptr where
  "NULL = 0"

definition EDOM :: int where
  "EDOM = 33"

record heap64 =
  objs :: "ptr \<Rightarrow> int64"
  errno :: int

abbreviation at :: "heap64 \<Rightarrow> ptr \<Rightarrow> int64" where
  "at s p \<equiv> objs s p"

definition put :: "ptr \<Rightarrow> int64 \<Rightarrow> heap64 \<Rightarrow> heap64" where
  "put p n s = s\<lparr>objs := (objs s)(p := n)\<rparr>"

lemma put_simps [simp]:
  "objs (put p n s) = (objs s)(p := n)"
  "errno (put p n s) = errno s"
  by (simp_all add: put_def)

section \<open>Addition and subtraction on the store\<close>

text \<open>
  These two read and write the objects halfword by halfword, so that the result may overwrite
  an operand that the next round still reads.
\<close>

fun p64_add_loop :: "nat \<Rightarrow> u32 \<Rightarrow> ptr \<Rightarrow> ptr \<Rightarrow> ptr \<Rightarrow> (ptr \<Rightarrow> int64) \<Rightarrow> ptr \<Rightarrow> int64" where
  "p64_add_loop 0 carry a b c h = h"
| "p64_add_loop (Suc i) carry a b c h =
     (let tmp = ucast (arr (h a) i) + ucast (arr (h b) i) + carry;
          carry' = (if tmp > 0xFFFF then 1 else 0)
      in p64_add_loop i carry' a b c (h(c := set_arr (h c) i (ucast (tmp AND 0xFFFF)))))"

definition p64_add :: "ptr \<Rightarrow> ptr \<Rightarrow> ptr \<Rightarrow> heap64 \<Rightarrow> heap64" where
  "p64_add a b c s =
     (if a \<noteq> NULL \<and> b \<noteq> NULL \<and> c \<noteq> NULL
      then s\<lparr>objs := p64_add_loop ARRAY_SIZE64 0 a b c (objs s)\<rparr> else s)"

fun p64_sub_loop :: "nat \<Rightarrow> u32 \<Rightarrow> ptr \<Rightarrow> ptr \<Rightarrow> ptr \<Rightarrow> (ptr \<Rightarrow> int64) \<Rightarrow> ptr \<Rightarrow> int64" where
  "p64_sub_loop 0 borrow a b c h = h"
| "p64_sub_loop (Suc i) borrow a b c h =
     (let tmp1 = ucast (arr (h a) i) + (0xFFFF + 1);
          tmp2 = ucast (arr (h b) i) + borrow;
          res = tmp1 - tmp2;
          borrow' = (if res \<le> 0xFFFF then 1 else 0)
      in p64_sub_loop i borrow' a b c (h(c := set_arr (h c) i (ucast (res AND 0xFFFF)))))"

definition p64_sub :: "ptr \<Rightarrow> ptr \<Rightarrow> ptr \<Rightarrow> heap64 \<Rightarrow> heap64" where
  "p64_sub a b c s =
     (if a \<noteq> NULL \<and> b \<noteq> NULL \<and> c \<noteq> NULL
      then s\<lparr>objs := p64_sub_loop ARRAY_SIZE64 0 a b c (objs s)\<rparr> else s)"

section \<open>Initialisation, conversion, comparison\<close>

text \<open>\<^verbatim>\<open>__64_init\<close> has no null check: its callers pass objects of their own.\<close>

definition p64_init :: "ptr \<Rightarrow> heap64 \<Rightarrow> heap64" where
  "p64_init n s = put n i64_init s"

definition p64_from_i32 :: "ptr \<Rightarrow> i32 \<Rightarrow> heap64 \<Rightarrow> heap64" where
  "p64_from_i32 n i s = (if n \<noteq> NULL then put n (i64_from_i32 i) s else s)"

definition p64_from_u32 :: "ptr \<Rightarrow> u32 \<Rightarrow> heap64 \<Rightarrow> heap64" where
  "p64_from_u32 n i s = (if n \<noteq> NULL then put n (i64_from_u32 i) s else s)"

definition p64_from_u64 :: "ptr \<Rightarrow> u64 \<Rightarrow> heap64 \<Rightarrow> heap64" where
  "p64_from_u64 n i s = (if n \<noteq> NULL then put n (i64_from_u64 i) s else s)"

definition p64_to_i32 :: "ptr \<Rightarrow> heap64 \<Rightarrow> i32" where
  "p64_to_i32 n s = (if n \<noteq> NULL then i64_to_i32 (at s n) else 0)"

definition p64_to_u32 :: "ptr \<Rightarrow> heap64 \<Rightarrow> u32" where
  "p64_to_u32 n s = (if n \<noteq> NULL then i64_to_u32 (at s n) else 0)"

definition p64_to_u64 :: "ptr \<Rightarrow> heap64 \<Rightarrow> u64" where
  "p64_to_u64 n s = (if n \<noteq> NULL then i64_to_u64 (at s n) else 0)"

definition p64_copy :: "ptr \<Rightarrow> ptr \<Rightarrow> heap64 \<Rightarrow> heap64" where
  "p64_copy src dst s = (if src \<noteq> NULL \<and> dst \<noteq> NULL then put dst (i64_copy (at s src)) s else s)"

definition p64_cmp :: "ptr \<Rightarrow> ptr \<Rightarrow> heap64 \<Rightarrow> int" where
  "p64_cmp a b s = (if a \<noteq> NULL \<and> b \<noteq> NULL then i64_cmp (at s a) (at s b) else EQUAL64)"

definition p64_cmp_i32 :: "ptr \<Rightarrow> i32 \<Rightarrow> heap64 \<Rightarrow> int" where
  "p64_cmp_i32 a b s = (if a \<noteq> NULL then i64_cmp_i32 (at s a) b else EQUAL64)"

definition p64_cmp_u32 :: "ptr \<Rightarrow> u32 \<Rightarrow> heap64 \<Rightarrow> int" where
  "p64_cmp_u32 a b s = (if a \<noteq> NULL then i64_cmp_u32 (at s a) b else EQUAL64)"

definition p64_cmp_u64 :: "ptr \<Rightarrow> u64 \<Rightarrow> heap64 \<Rightarrow> int" where
  "p64_cmp_u64 a b s = (if a \<noteq> NULL then i64_cmp_u64 (at s a) b else EQUAL64)"

definition p64_is_zero :: "ptr \<Rightarrow> heap64 \<Rightarrow> bool" where
  "p64_is_zero n s = (if n \<noteq> NULL then i64_is_zero (at s n) else True)"

section \<open>Operations with a stored result\<close>

definition p64_add_i32 :: "ptr \<Rightarrow> i32 \<Rightarrow> ptr \<Rightarrow> heap64 \<Rightarrow> heap64" where
  "p64_add_i32 a b c s = (if a \<noteq> NULL \<and> c \<noteq> NULL then put c (i64_add_i32 (at s a) b) s else s)"

definition p64_add_u32 :: "ptr \<Rightarrow> u32 \<Rightarrow> ptr \<Rightarrow> heap64 \<Rightarrow> heap64" where
  "p64_add_u32 a b c s = (if a \<noteq> NULL \<and> c \<noteq> NULL then put c (i64_add_u32 (at s a) b) s else s)"

definition p64_add_u64 :: "ptr \<Rightarrow> u64 \<Rightarrow> ptr \<Rightarrow> heap64 \<Rightarrow> heap64" where
  "p64_add_u64 a b c s = (if a \<noteq> NULL \<and> c \<noteq> NULL then put c (i64_add_u64 (at s a) b) s else s)"

definition p64_sub_i32 :: "ptr \<Rightarrow> i32 \<Rightarrow> ptr \<Rightarrow> heap64 \<Rightarrow> heap64" where
  "p64_sub_i32 a b c s = (if a \<noteq> NULL \<and> c \<noteq> NULL then put c (i64_sub_i32 (at s a) b) s else s)"

definition p64_sub_u32 :: "ptr \<Rightarrow> u32 \<Rightarrow> ptr \<Rightarrow> heap64 \<Rightarrow> heap64" where
  "p64_sub_u32 a b c s = (if a \<noteq> NULL \<and> c \<noteq> NULL then put c (i64_sub_u32 (at s a) b) s else s)"

definition p64_sub_u64 :: "ptr \<Rightarrow> u64 \<Rightarrow> ptr \<Rightarrow> heap64 \<Rightarrow> heap64" where
  "p64_sub_u64 a b c s = (if a \<noteq> NULL \<and> c \<noteq> NULL then put c (i64_sub_u64 (at s a) b) s else s)"

definition p64_inc :: "ptr \<Rightarrow> heap64 \<Rightarrow> heap64" where
  "p64_inc n s = (if n \<noteq> NULL then put n (i64_inc (at s n)) s else s)"

definition p64_dec :: "ptr \<Rightarrow> heap64 \<Rightarrow> heap64" where
  "p64_dec n s = (if n \<noteq> NULL then put n (i64_dec (at s n)) s else s)"

definition p64_and :: "ptr \<Rightarrow> ptr \<Rightarrow> ptr \<Rightarrow> heap64 \<Rightarrow> heap64" where
  "p64_and a b c s =
     (if a \<noteq> NULL \<and> b \<noteq> NULL \<and> c \<noteq> NULL
      then put c (i64_and (at s a) (at s b)) s else s)"

definition p64_and_i32 :: "ptr \<Rightarrow> i32 \<Rightarrow> ptr \<Rightarrow> heap64 \<Rightarrow> heap64" where
  "p64_and_i32 a b c s = (if a \<noteq> NULL \<and> c \<noteq> NULL then put c (i64_and_i32 (at s a) b) s else s)"

definition p64_and_u32 :: "ptr \<Rightarrow> u32 \<Rightarrow> ptr \<Rightarrow> heap64 \<Rightarrow> heap64" where
  "p64_and_u32 a b c s = (if a \<noteq> NULL \<and> c \<noteq> NULL then put c (i64_and_u32 (at s a) b) s else s)"

definition p64_and_u64 :: "ptr \<Rightarrow> u64 \<Rightarrow> ptr \<Rightarrow> heap64 \<Rightarrow> heap64" where
  "p64_and_u64 a b c s = (if a \<noteq> NULL \<and> c \<noteq> NULL then put c (i64_and_u64 (at s a) b) s else s)"

definition p64_or :: "ptr \<Rightarrow> ptr \<Rightarrow> ptr \<Rightarrow> heap64 \<Rightarrow> heap64" where
  "p64_or a b c s =
     (if a \<noteq> NULL \<and> b \<noteq> NULL \<and> c \<noteq> NULL
      then put c (i64_or (at s a) (at s b)) s else s)"

definition p64_or_i32 :: "ptr \<Rightarrow> i32 \<Rightarrow> ptr \<Rightarrow> heap64 \<Rightarrow> heap64" where
  "p64_or_i32 a b c s = (if a \<noteq> NULL \<and> c \<noteq> NULL then put c (i64_or_i32 (at s a) b) s else s)"

definition p64_or_u32 :: "ptr \<Rightarrow> u32 \<Rightarrow> ptr \<Rightarrow> heap64 \<Rightarrow> heap64" where
  "p64_or_u32 a b c s = (if a \<noteq> NULL \<and> c \<noteq> NULL then put c (i64_or_u32 (at s a) b) s else s)"

definition p64_or_u64 :: "ptr \<Rightarrow> u64 \<Rightarrow> ptr \<Rightarrow> heap64 \<Rightarrow> heap64" where
  "p64_or_u64 a b c s = (if a \<noteq> NULL \<and> c \<noteq> NULL then put c (i64_or_u64 (at s a) b) s else s)"

definition p64_xor :: "ptr \<Rightarrow> ptr \<Rightarrow> ptr \<Rightarrow> heap64 \<Rightarrow> heap64" where
  "p64_xor a b c s =
     (if a \<noteq> NULL \<and> b \<noteq> NULL \<and> c \<noteq> NULL
      then put c (i64_xor (at s a) (at s b)) s else s)"

definition p64_xor_i32 :: "ptr \<Rightarrow> i32 \<Rightarrow> ptr \<Rightarrow> heap64 \<Rightarrow> heap64" where
  "p64_xor_i32 a b c s = (if a \<noteq> NULL \<and> c \<noteq> NULL then put c (i64_xor_i32 (at s a) b) s else s)"

definition p64_xor_u32 :: "ptr \<Rightarrow> u32 \<Rightarrow> ptr \<Rightarrow> heap64 \<Rightarrow> heap64" where
  "p64_xor_u32 a b c s = (if a \<noteq> NULL \<and> c \<noteq> NULL then put c (i64_xor_u32 (at s a) b) s else s)"

definition p64_xor_u64 :: "ptr \<Rightarrow> u64 \<Rightarrow> ptr \<Rightarrow> heap64 \<Rightarrow> heap64" where
  "p64_xor_u64 a b c s = (if a \<noteq> NULL \<and> c \<noteq> NULL then put c (i64_xor_u64 (at s a) b) s else s)"

definition p64_mul :: "ptr \<Rightarrow> ptr \<Rightarrow> ptr \<Rightarrow> heap64 \<Rightarrow> heap64" where
  "p64_mul a b c s =
     (if a \<noteq> NULL \<and> b \<noteq> NULL \<and> c \<noteq> NULL
      then put c (i64_mul (at s a) (at s b)) s else s)"

definition p64_mul_i32 :: "ptr \<Rightarrow> i32 \<Rightarrow> ptr \<Rightarrow> heap64 \<Rightarrow> heap64" where
  "p64_mul_i32 a b c s = (if a \<noteq> NULL \<and> c \<noteq> NULL then put c (i64_mul_i32 (at s a) b) s else s)"

definition p64_mul_u32 :: "ptr \<Rightarrow> u32 \<Rightarrow> ptr \<Rightarrow> heap64 \<Rightarrow> heap64" where
  "p64_mul_u32 a b c s = (if a \<noteq> NULL \<and> c \<noteq> NULL then put c (i64_mul_u32 (at s a) b) s else s)"

definition p64_mul_u64 :: "ptr \<Rightarrow> u64 \<Rightarrow> ptr \<Rightarrow> heap64 \<Rightarrow> heap64" where
  "p64_mul_u64 a b c s = (if a \<noteq> NULL \<and> c \<noteq> NULL then put c (i64_mul_u64 (at s a) b) s else s)"

definition p64_lshift_one_bit :: "ptr \<Rightarrow> heap64 \<Rightarrow> heap64" where
  "p64_lshift_one_bit a s = (if a \<noteq> NULL then put a (i64_lshift_one_bit (at s a)) s else s)"

definition p64_rshift_one_bit :: "ptr \<Rightarrow> heap64 \<Rightarrow> heap64" where
  "p64_rshift_one_bit a s = (if a \<noteq> NULL then put a (i64_rshift_one_bit (at s a)) s else s)"

definition p64_lshift_word :: "ptr \<Rightarrow> int \<Rightarrow> heap64 \<Rightarrow> heap64" where
  "p64_lshift_word a nwords s = (if a \<noteq> NULL then put a (i64_lshift_word (at s a) nwords) s else s)"

definition p64_rshift_word :: "ptr \<Rightarrow> int \<Rightarrow> heap64 \<Rightarrow> heap64" where
  "p64_rshift_word a nwords s = (if a \<noteq> NULL then put a (i64_rshift_word (at s a) nwords) s else s)"

definition p64_lshift :: "ptr \<Rightarrow> ptr \<Rightarrow> int \<Rightarrow> heap64 \<Rightarrow> heap64" where
  "p64_lshift a b nbits s =
     (if a \<noteq> NULL \<and> b \<noteq> NULL then put b (i64_lshift (at s b) (at s a) nbits) s else s)"

definition p64_rshift :: "ptr \<Rightarrow> ptr \<Rightarrow> int \<Rightarrow> heap64 \<Rightarrow> heap64" where
  "p64_rshift a b nbits s =
     (if a \<noteq> NULL \<and> b \<noteq> NULL then put b (i64_rshift (at s b) (at s a) nbits) s else s)"

section \<open>Division\<close>

text \<open>A zero divisor stores 0 and sets \<open>errno\<close>; any other leaves \<open>errno\<close> alone.\<close>

definition put_quotient :: "int64 \<Rightarrow> int64 \<Rightarrow> ptr \<Rightarrow> heap64 \<Rightarrow> heap64" where
  "put_quotient x y c s =
     (let (q, edom) = i64_div_edom x y
      in (put c q s)\<lparr>errno := (if edom then EDOM else errno s)\<rparr>)"

definition p64_div :: "ptr \<Rightarrow> ptr \<Rightarrow> ptr \<Rightarrow> heap64 \<Rightarrow> heap64" where
  "p64_div a b c s =
     (if a \<noteq> NULL \<and> b \<noteq> NULL \<and> c \<noteq> NULL then put_quotient (at s a) (at s b) c s else s)"

definition p64_div_i32 :: "ptr \<Rightarrow> i32 \<Rightarrow> ptr \<Rightarrow> heap64 \<Rightarrow> heap64" where
  "p64_div_i32 a b c s =
     (if a \<noteq> NULL \<and> c \<noteq> NULL then put_quotient (at s a) (i64_from_i32 b) c s else s)"

definition p64_div_u32 :: "ptr \<Rightarrow> u32 \<Rightarrow> ptr \<Rightarrow> heap64 \<Rightarrow> heap64" where
  "p64_div_u32 a b c s =
     (if a \<noteq> NULL \<and> c \<noteq> NULL then put_quotient (at s a) (i64_from_u32 b) c s else s)"

definition p64_div_u64 :: "ptr \<Rightarrow> u64 \<Rightarrow> ptr \<Rightarrow> heap64 \<Rightarrow> heap64" where
  "p64_div_u64 a b c s =
     (if a \<noteq> NULL \<and> c \<noteq> NULL then put_quotient (at s a) (i64_from_u64 b) c s else s)"

text \<open>
  \<^verbatim>\<open>__64_divmod\<close> divides into a variable of its own, stores the remainder through \<open>d\<close> and
  then the quotient through \<open>c\<close>, so that the quotient stays when both are one object.
\<close>

definition put_divmod :: "int64 \<Rightarrow> int64 \<Rightarrow> ptr \<Rightarrow> ptr \<Rightarrow> heap64 \<Rightarrow> heap64" where
  "put_divmod x y c d s =
     (let (tmpc, edom) = i64_div_edom x y;
          s = s\<lparr>errno := (if edom then EDOM else errno s)\<rparr>;
          tmp = i64_mul tmpc y;
          s = put d (i64_sub x tmp) s
      in put c (i64_copy tmpc) s)"

definition p64_divmod :: "ptr \<Rightarrow> ptr \<Rightarrow> ptr \<Rightarrow> ptr \<Rightarrow> heap64 \<Rightarrow> heap64" where
  "p64_divmod a b c d s =
     (if a \<noteq> NULL \<and> b \<noteq> NULL \<and> c \<noteq> NULL \<and> d \<noteq> NULL
      then put_divmod (at s a) (at s b) c d s else s)"

definition p64_divmod_i32 :: "ptr \<Rightarrow> i32 \<Rightarrow> ptr \<Rightarrow> ptr \<Rightarrow> heap64 \<Rightarrow> heap64" where
  "p64_divmod_i32 a b c d s =
     (if a \<noteq> NULL \<and> c \<noteq> NULL \<and> d \<noteq> NULL
      then put_divmod (at s a) (i64_from_i32 b) c d s else s)"

definition p64_divmod_u32 :: "ptr \<Rightarrow> u32 \<Rightarrow> ptr \<Rightarrow> ptr \<Rightarrow> heap64 \<Rightarrow> heap64" where
  "p64_divmod_u32 a b c d s =
     (if a \<noteq> NULL \<and> c \<noteq> NULL \<and> d \<noteq> NULL
      then put_divmod (at s a) (i64_from_u32 b) c d s else s)"

definition p64_divmod_u64 :: "ptr \<Rightarrow> u64 \<Rightarrow> ptr \<Rightarrow> ptr \<Rightarrow> heap64 \<Rightarrow> heap64" where
  "p64_divmod_u64 a b c d s =
     (if a \<noteq> NULL \<and> c \<noteq> NULL \<and> d \<noteq> NULL
      then put_divmod (at s a) (i64_from_u64 b) c d s else s)"

text \<open>\<^verbatim>\<open>__64_mod\<close> is \<^verbatim>\<open>__64_divmod\<close> with the quotient in a variable that is thrown away.\<close>

definition put_mod :: "int64 \<Rightarrow> int64 \<Rightarrow> ptr \<Rightarrow> heap64 \<Rightarrow> heap64" where
  "put_mod x y c s =
     (let (tmpc, edom) = i64_div_edom x y;
          s = s\<lparr>errno := (if edom then EDOM else errno s)\<rparr>
      in put c (i64_sub x (i64_mul tmpc y)) s)"

definition p64_mod :: "ptr \<Rightarrow> ptr \<Rightarrow> ptr \<Rightarrow> heap64 \<Rightarrow> heap64" where
  "p64_mod a b c s =
     (if a \<noteq> NULL \<and> b \<noteq> NULL \<and> c \<noteq> NULL then put_mod (at s a) (at s b) c s else s)"

definition p64_mod_i32 :: "ptr \<Rightarrow> i32 \<Rightarrow> ptr \<Rightarrow> heap64 \<Rightarrow> heap64" where
  "p64_mod_i32 a b c s =
     (if a \<noteq> NULL \<and> c \<noteq> NULL then put_mod (at s a) (i64_from_i32 b) c s else s)"

definition p64_mod_u32 :: "ptr \<Rightarrow> u32 \<Rightarrow> ptr \<Rightarrow> heap64 \<Rightarrow> heap64" where
  "p64_mod_u32 a b c s =
     (if a \<noteq> NULL \<and> c \<noteq> NULL then put_mod (at s a) (i64_from_u32 b) c s else s)"

definition p64_mod_u64 :: "ptr \<Rightarrow> u64 \<Rightarrow> ptr \<Rightarrow> heap64 \<Rightarrow> heap64" where
  "p64_mod_u64 a b c s =
     (if a \<noteq> NULL \<and> c \<noteq> NULL then put_mod (at s a) (i64_from_u64 b) c s else s)"

section \<open>Power and square root\<close>

text \<open>
  \<^verbatim>\<open>__64_pow\<close> clears the result before it reads the operands and works in it, so both
  operands are read again from the store after each of these writes.
\<close>

definition p64_pow_cond :: "int64 \<times> int64 \<times> heap64 \<Rightarrow> bool" where
  "p64_pow_cond = (\<lambda>(tmp, bcopy, s). \<not> i64_is_zero bcopy)"

definition p64_pow_step :: "ptr \<Rightarrow> ptr \<Rightarrow> int64 \<times> int64 \<times> heap64 \<Rightarrow> int64 \<times> int64 \<times> heap64" where
  "p64_pow_step a c = (\<lambda>(tmp, bcopy, s).
     let s = put c (i64_mul tmp (at s a)) s;
         bcopy = i64_dec bcopy;
         tmp = i64_copy (at s c)
     in (tmp, bcopy, s))"

definition p64_pow :: "ptr \<Rightarrow> ptr \<Rightarrow> ptr \<Rightarrow> heap64 \<Rightarrow> heap64" where
  "p64_pow a b c s =
     (if a \<noteq> NULL \<and> b \<noteq> NULL \<and> c \<noteq> NULL then
        let s = p64_init c s in
        if p64_cmp b c s = EQUAL64 then p64_inc c s
        else
          let bcopy = i64_copy (at s b);
              tmp = i64_copy (at s a);
              bcopy = i64_dec bcopy;
              (tmp, _, s) = while p64_pow_cond (p64_pow_step a c) (tmp, bcopy, s)
          in put c (i64_copy tmp) s
      else s)"

text \<open>The bisection may run forever; then it has no final state.\<close>

definition p64_isqrt :: "ptr \<Rightarrow> ptr \<Rightarrow> heap64 \<Rightarrow> heap64 option" where
  "p64_isqrt a b s =
     (if a \<noteq> NULL \<and> b \<noteq> NULL then map_option (\<lambda>r. put b r s) (i64_isqrt (at s a)) else Some s)"

section \<open>The store loops do not depend on aliasing\<close>

lemma arr_set_arr_below: "i < 4 \<Longrightarrow> j < i \<Longrightarrow> arr (set_arr n i v) j = arr n j"
  by (cases n) simp

lemma p64_add_loop_alias:
  assumes "i \<le> 4" and "\<And>j. j < i \<Longrightarrow> arr (h a) j = arr A j" and "\<And>j. j < i \<Longrightarrow> arr (h b) j = arr B j"
  shows "p64_add_loop i carry a b c h = h(c := i64_add_loop i carry A B (h c))"
  using assms
proof (induction i arbitrary: carry h)
  case (Suc i)
  define v where "v = (ucast ((ucast (arr A i) + ucast (arr B i) + carry) AND 0xFFFF :: u32) :: u16)"
  have "arr ((h(c := set_arr (h c) i v)) p) j = arr (h p) j" if "j < i" for p j
    using that Suc.prems(1) by (simp add: arr_set_arr_below)
  then have "p64_add_loop i k a b c (h(c := set_arr (h c) i v)) =
      (h(c := set_arr (h c) i v))(c := i64_add_loop i k A B (set_arr (h c) i v))" for k
    using Suc.IH [of "h(c := set_arr (h c) i v)" k] Suc.prems by (simp del: fun_upd_apply add: fun_upd_same)
  then show ?case
    using Suc.prems by (simp add: Let_def v_def del: fun_upd_apply)
qed simp

lemma p64_sub_loop_alias:
  assumes "i \<le> 4" and "\<And>j. j < i \<Longrightarrow> arr (h a) j = arr A j" and "\<And>j. j < i \<Longrightarrow> arr (h b) j = arr B j"
  shows "p64_sub_loop i borrow a b c h = h(c := i64_sub_loop i borrow A B (h c))"
  using assms
proof (induction i arbitrary: borrow h)
  case (Suc i)
  define v where
    "v = (ucast (((ucast (arr A i) + (0xFFFF + 1)) - (ucast (arr B i) + borrow)) AND 0xFFFF :: u32) :: u16)"
  have "arr ((h(c := set_arr (h c) i v)) p) j = arr (h p) j" if "j < i" for p j
    using that Suc.prems(1) by (simp add: arr_set_arr_below)
  then have "p64_sub_loop i k a b c (h(c := set_arr (h c) i v)) =
      (h(c := set_arr (h c) i v))(c := i64_sub_loop i k A B (set_arr (h c) i v))" for k
    using Suc.IH [of "h(c := set_arr (h c) i v)" k] Suc.prems by (simp del: fun_upd_apply add: fun_upd_same)
  then show ?case
    using Suc.prems by (simp add: Let_def v_def del: fun_upd_apply)
qed simp

lemma ARRAY_SIZE64_le: "ARRAY_SIZE64 \<le> 4"
  by (simp add: ARRAY_SIZE64_def)

lemma add_loop_fresh: "i64_add_loop ARRAY_SIZE64 0 a b c = i64_add a b"
  by (cases c) (simp add: i64_add_def ARRAY_SIZE64_Suc i64_init_eq Let_def split del: if_split)

lemma sub_loop_fresh: "i64_sub_loop ARRAY_SIZE64 0 a b c = i64_sub a b"
  by (cases c) (simp add: i64_sub_def ARRAY_SIZE64_Suc i64_init_eq Let_def split del: if_split)

lemma p64_add_put:
  "a \<noteq> NULL \<Longrightarrow> b \<noteq> NULL \<Longrightarrow> c \<noteq> NULL \<Longrightarrow> p64_add a b c s = put c (i64_add (at s a) (at s b)) s"
  using p64_add_loop_alias [of ARRAY_SIZE64 "objs s" a "at s a" b "at s b" 0 c]
  by (simp add: p64_add_def put_def add_loop_fresh ARRAY_SIZE64_le)

lemma p64_sub_put:
  "a \<noteq> NULL \<Longrightarrow> b \<noteq> NULL \<Longrightarrow> c \<noteq> NULL \<Longrightarrow> p64_sub a b c s = put c (i64_sub (at s a) (at s b)) s"
  using p64_sub_loop_alias [of ARRAY_SIZE64 "objs s" a "at s a" b "at s b" 0 c]
  by (simp add: p64_sub_def put_def sub_loop_fresh ARRAY_SIZE64_le)

lemma int64_eqI: "u64_of m = w \<Longrightarrow> m = of_u64 w"
  by auto

section \<open>What is stored\<close>

text \<open>
  With three pointers that are not null, \<^verbatim>\<open>__64_add\<close> stores the sum modulo \<open>2 ^ 64\<close> in
  the object its third argument names and changes nothing else, whichever of the three
  arguments are the same object; \<^verbatim>\<open>__64_sub\<close> likewise the difference.  With a null pointer
  both do nothing.
\<close>

theorem p64_add_sub_stored:
  "p64_add a b c s =
     (if a = NULL \<or> b = NULL \<or> c = NULL then s
      else put c (of_u64 (u64_of (at s a) + u64_of (at s b))) s) \<and>
   p64_sub a b c s =
     (if a = NULL \<or> b = NULL \<or> c = NULL then s
      else put c (of_u64 (u64_of (at s a) - u64_of (at s b))) s)"
proof
  show "p64_add a b c s = (if a = NULL \<or> b = NULL \<or> c = NULL then s
      else put c (of_u64 (u64_of (at s a) + u64_of (at s b))) s)"
    using p64_add_put [of a b c s] int64_eqI [OF u64_of_add, of "at s a" "at s b"]
    by (cases "a = NULL \<or> b = NULL \<or> c = NULL") (auto simp: p64_add_def)
  show "p64_sub a b c s = (if a = NULL \<or> b = NULL \<or> c = NULL then s
      else put c (of_u64 (u64_of (at s a) - u64_of (at s b))) s)"
    using p64_sub_put [of a b c s] int64_eqI [OF u64_of_sub, of "at s a" "at s b"]
    by (cases "a = NULL \<or> b = NULL \<or> c = NULL") (auto simp: p64_sub_def)
qed

lemma put_u64: "u64_of n = w \<Longrightarrow> put p n s = put p (of_u64 w) s"
  by auto

text \<open>
  \<^verbatim>\<open>__64_mul\<close> stores the product modulo \<open>2 ^ 64\<close>, and the variants of addition,
  subtraction and multiplication that take an \<open>int32_t\<close> act on its sign extension, so a
  negative operand subtracts, adds and negates; again for any aliasing of \<open>a\<close>, \<open>b\<close> and \<open>c\<close>.
\<close>

theorem p64_mul_i32_stored:
  assumes "a \<noteq> NULL" and "b \<noteq> NULL" and "c \<noteq> NULL"
  shows "p64_mul a b c s = put c (of_u64 (u64_of (at s a) * u64_of (at s b))) s \<and>
    p64_add_i32 a i c s = put c (of_u64 (u64_of (at s a) + scast i)) s \<and>
    p64_sub_i32 a i c s = put c (of_u64 (u64_of (at s a) - scast i)) s \<and>
    p64_mul_i32 a i c s = put c (of_u64 (u64_of (at s a) * scast i)) s"
  using assms
  by (auto simp: p64_mul_def p64_add_i32_def p64_sub_i32_def p64_mul_i32_def u64_simps intro!: put_u64)

theorem p64_mul_i32_stored_witness:
  "p64_mul_i32 1 (- 3) 1 \<lparr>objs = (\<lambda>_. of_u64 7), errno = 0\<rparr> =
     put 1 (of_u64 (- 21)) \<lparr>objs = (\<lambda>_. of_u64 7), errno = 0\<rparr>"
  using p64_mul_i32_stored [where a = 1 and b = 2 and c = 1 and i = "- 3" and s = "\<lparr>objs = (\<lambda>_. of_u64 7), errno = 0\<rparr>"]
  by (simp add: NULL_def)

lemma put_divmod_i64:
  "put_divmod x y c d s =
     (put c (i64_div x y) (put d (i64_mod x y) s))\<lparr>errno := (if val y = 0 then EDOM else errno s)\<rparr>"
  by (simp add: put_divmod_def i64_mod_def i64_divmod_def i64_div_def div_edom split_beta Let_def put_def)

text \<open>
  C14: \<^verbatim>\<open>__64_divmod\<close> stores the quotient and the remainder of the unsigned division through
  \<open>c\<close> and \<open>d\<close> even when these name the operands, and leaves every other object alone.  A zero
  divisor gives quotient 0, the dividend as remainder and \<open>errno = EDOM\<close>; any other leaves
  \<open>errno\<close> as it was.
\<close>

theorem p64_divmod_stored:
  assumes "a \<noteq> NULL" and "b \<noteq> NULL" and "c \<noteq> NULL" and "d \<noteq> NULL" and "c \<noteq> d"
    and "s' = p64_divmod a b c d s"
  shows "val (at s' c) = val (at s a) div val (at s b) \<and>
    val (at s' d) = val (at s a) mod val (at s b) \<and>
    errno s' = (if val (at s b) = 0 then EDOM else errno s) \<and>
    (\<forall>p. p \<notin> {c, d} \<longrightarrow> at s' p = at s p)"
  using assms by (simp_all add: p64_divmod_def put_divmod_i64 val_div val_mod)

theorem p64_divmod_stored_witness:
  "val (at (p64_divmod 1 2 2 1 \<lparr>objs = (\<lambda>p. of_u64 (if p = 1 then 17 else 5)), errno = 0\<rparr>) 2) = 3 \<and>
   val (at (p64_divmod 1 2 2 1 \<lparr>objs = (\<lambda>p. of_u64 (if p = 1 then 17 else 5)), errno = 0\<rparr>) 1) = 2"
  using p64_divmod_stored [of 1 2 2 1 _ "\<lparr>objs = (\<lambda>p. of_u64 (if p = 1 then 17 else 5)), errno = 0\<rparr>", OF _ _ _ _ _ refl]
  by (simp add: NULL_def val_of_u64)

text \<open>
  C37: both loops of \<^verbatim>\<open>__64_div\<close> end for every dividend and every divisor that is not zero
  (which is the case the routine returns from before the loops): the doubling loop, and the
  halving loop from the state the doubling loop leaves.
\<close>

theorem div_loops_end:
  assumes "val b \<noteq> 0"
  shows "\<exists>current denom overflow t.
    while_option (div_up_cond a) div_up_step (i64_from_i32 1, i64_copy b, False)
      = Some (current, denom, overflow) \<and>
    while_option div_down_cond div_down_step
      (if \<not> overflow then i64_rshift_one_bit current else current,
       if \<not> overflow then i64_rshift_one_bit denom else denom, i64_copy a, i64_init) = Some t"
proof -
  obtain current denom overflow where
    up: "while_option (div_up_cond a) div_up_step (i64_from_i32 1, i64_copy b, False)
      = Some (current, denom, overflow)"
    using div_up_ends [OF assms, of a] by (metis prod_cases3)
  then have "while (div_up_cond a) div_up_step (i64_from_i32 1, i64_copy b, False) = (current, denom, overflow)"
    by (simp add: while_def)
  with div_up_result [OF assms, of a] have
    "div_up_inv a b (current, denom, overflow)" "\<not> div_up_cond a (current, denom, overflow)" by simp_all
  from div_down_ends [OF div_up_to_down [OF assms this]] up show ?thesis
    by (metis i64_copy_id)
qed

theorem div_loops_end_witness:
  "\<exists>current denom overflow t.
    while_option (div_up_cond (of_u64 100)) div_up_step (i64_from_i32 1, i64_copy (of_u64 7), False)
      = Some (current, denom, overflow) \<and>
    while_option div_down_cond div_down_step
      (if \<not> overflow then i64_rshift_one_bit current else current,
       if \<not> overflow then i64_rshift_one_bit denom else denom, i64_copy (of_u64 100), i64_init) = Some t"
  by (rule div_loops_end) (simp add: val_of_u64)

lemma shift_negative: "n < 0 \<Longrightarrow> i64_lshift old a n = old" "n < 0 \<Longrightarrow> i64_rshift old a n = old"
  by (simp_all add: i64_lshift_def i64_rshift_def)

lemma u64_of_nat: "val m = k mod B64 \<Longrightarrow> u64_of m = of_nat k"
  by (rule u64_eqI) (simp add: unat_of_nat)

text \<open>
  \<^verbatim>\<open>__64_lshift\<close> and \<^verbatim>\<open>__64_rshift\<close> by \<open>n\<close> bits store the operand times and divided by
  \<open>2 ^ n\<close>, for every count that is not negative (so 0 from 64 bits on) and also in place; a
  negative count changes nothing.
\<close>

theorem p64_shift_stored:
  assumes "a \<noteq> NULL" and "b \<noteq> NULL"
  shows "p64_lshift a b n s =
      (if n < 0 then s else put b (of_u64 (of_nat (val (at s a) * 2 ^ nat n))) s) \<and>
    p64_rshift a b n s =
      (if n < 0 then s else put b (of_u64 (of_nat (val (at s a) div 2 ^ nat n))) s)"
proof -
  have same: "put b (at s b) s = s" by (simp add: put_def)
  have l: "u64_of (i64_lshift (at s b) (at s a) n) = of_nat (val (at s a) * 2 ^ nat n)" if "\<not> n < 0"
    using that by (intro u64_of_nat val_lshift) simp
  have "val (at s a) div 2 ^ nat n < B64"
    using val_lt [of "at s a"] by (metis div_le_dividend le_less_trans)
  then have r: "u64_of (i64_rshift (at s b) (at s a) n) = of_nat (val (at s a) div 2 ^ nat n)" if "\<not> n < 0"
    using that val_rshift [of n "at s b" "at s a"] by (intro u64_of_nat) simp
  have "p64_lshift a b n s =
      (if n < 0 then s else put b (of_u64 (of_nat (val (at s a) * 2 ^ nat n))) s)"
    using assms same put_u64 [OF l] by (cases "n < 0") (simp_all only: p64_lshift_def shift_negative if_True if_False simp_thms)
  moreover have "p64_rshift a b n s =
      (if n < 0 then s else put b (of_u64 (of_nat (val (at s a) div 2 ^ nat n))) s)"
    using assms same put_u64 [OF r] by (cases "n < 0") (simp_all only: p64_rshift_def shift_negative if_True if_False simp_thms)
  ultimately show ?thesis ..
qed

theorem p64_shift_stored_witness:
  "p64_lshift 1 1 17 \<lparr>objs = (\<lambda>_. of_u64 3), errno = 0\<rparr> =
     put 1 (of_u64 393216) \<lparr>objs = (\<lambda>_. of_u64 3), errno = 0\<rparr>"
  using p64_shift_stored [of 1 1 17 "\<lparr>objs = (\<lambda>_. of_u64 3), errno = 0\<rparr>"]
  by (simp add: NULL_def val_of_u64)

text \<open>
  The loop of \<^verbatim>\<open>__64_pow\<close> works in the object for the result; when that is neither operand
  it computes what the loop on values does.
\<close>

lemma pow_loop_sim:
  assumes "a \<noteq> c"
  shows "while_option p64_pow_cond (p64_pow_step a c) (tmp, bc, s) =
    map_option (\<lambda>(tmp', bc'). (tmp', bc', if bc = i64_init then s else put c tmp' s))
      (while_option (\<lambda>(tmp, bc). \<not> i64_is_zero bc) (pow_step (at s a)) (tmp, bc))"
proof (induction "val bc" arbitrary: tmp bc s)
  case 0
  then have "bc = i64_init" by (simp flip: val_inject add: val_init)
  then show ?case
    by (simp add: while_option_unfold p64_pow_cond_def is_zero_val val_init)
next
  case (Suc n)
  define m where "m = i64_mul tmp (at s a)"
  define bc' where "bc' = i64_dec bc"
  from Suc.hyps(2) have n: "n = val bc'" by (simp add: bc'_def val_dec_pos)
  from Suc.hyps(2) have nz: "\<not> i64_is_zero bc" "bc \<noteq> i64_init" by (auto simp: is_zero_val val_init)
  have same: "at (put c m s) a = at s a" using assms by simp
  have put_twice: "put c x (put c m s) = put c x s" for x by (simp add: put_def)
  have stop: "while_option (\<lambda>(tmp, bc). \<not> i64_is_zero bc) (pow_step (at s a)) (m, i64_init) = Some (m, i64_init)"
    by (simp add: while_option_unfold is_zero_val val_init)
  have "while_option p64_pow_cond (p64_pow_step a c) (tmp, bc, s) =
      while_option p64_pow_cond (p64_pow_step a c) (m, bc', put c m s)"
    using nz by (subst while_option_unfold) (simp add: p64_pow_cond_def p64_pow_step_def Let_def m_def bc'_def)
  also have "\<dots> = map_option (\<lambda>(tmp', bc'). (tmp', bc', put c tmp' s))
      (while_option (\<lambda>(tmp, bc). \<not> i64_is_zero bc) (pow_step (at s a)) (m, bc'))"
    unfolding Suc.hyps(1) [OF n, of m "put c m s"] same put_twice
    by (rule option.map_cong [OF refl]) (auto simp: stop)
  also have "while_option (\<lambda>(tmp, bc). \<not> i64_is_zero bc) (pow_step (at s a)) (m, bc') =
      while_option (\<lambda>(tmp, bc). \<not> i64_is_zero bc) (pow_step (at s a)) (tmp, bc)"
    using nz by (subst (2) while_option_unfold) (simp add: pow_step_def m_def bc'_def)
  finally show ?case using nz by simp
qed

lemma pow_loop_ends:
  "\<exists>t. while_option (\<lambda>(tmp, bc). \<not> i64_is_zero bc) (pow_step a) s = Some t"
  by (rule measure_while_option_Some [where P = "\<lambda>_. True" and f = "\<lambda>s. val (snd s)"])
    (auto simp: is_zero_val pow_step_def Let_def val_dec_pos)

lemma p64_pow_put:
  assumes "a \<noteq> NULL" and "b \<noteq> NULL" and "c \<noteq> NULL" and "a \<noteq> c" and "b \<noteq> c"
  shows "p64_pow a b c s = put c (i64_pow (at s a) (at s b)) s"
proof (cases "at s b = i64_init")
  case True
  with assms show ?thesis
    by (simp add: p64_pow_def p64_init_def p64_cmp_def p64_inc_def i64_pow_def cmp_iffs put_def)
next
  case False
  obtain tmp bc where r: "while_option (\<lambda>(tmp, bc). \<not> i64_is_zero bc) (pow_step (at s a))
      (at s a, i64_dec (at s b)) = Some (tmp, bc)"
    using pow_loop_ends by fastforce
  then have "while_option p64_pow_cond (p64_pow_step a c) (at s a, i64_dec (at s b), put c i64_init s) =
      Some (tmp, bc, if i64_dec (at s b) = i64_init then put c i64_init s else put c tmp (put c i64_init s))"
    using pow_loop_sim [OF assms(4), of "at s a" "i64_dec (at s b)" "put c i64_init s"] assms(4) by simp
  with r False assms show ?thesis
    by (simp add: p64_pow_def p64_init_def p64_cmp_def i64_pow_def cmp_iffs while_def) (simp add: put_def Let_def)
qed

text \<open>
  \<^verbatim>\<open>__64_pow\<close> ends and stores the power modulo \<open>2 ^ 64\<close>, 1 for the exponent 0, provided
  the result is neither operand.  (It clears the result first: with \<open>c = b\<close> it stores 1 whatever
  the operands are.)
\<close>

theorem p64_pow_stored:
  assumes "a \<noteq> NULL" and "b \<noteq> NULL" and "c \<noteq> NULL"
  shows "(a \<noteq> c \<and> b \<noteq> c \<longrightarrow>
      p64_pow a b c s = put c (of_u64 (of_nat (val (at s a) ^ val (at s b)))) s) \<and>
    p64_pow a c c s = put c (of_u64 1) s"
proof -
  have "p64_pow a b c s = put c (of_u64 (of_nat (val (at s a) ^ val (at s b)))) s"
    if "a \<noteq> c" "b \<noteq> c"
    using p64_pow_put [OF assms that, of s] put_u64 [OF u64_of_nat [OF val_pow]] by simp
  moreover have "u64_of (i64_inc i64_init) = 1" by (rule u64_eqI) (simp add: val_inc val_init)
  then have "p64_pow a c c s = put c (of_u64 1) s"
    using assms by (auto simp: p64_pow_def p64_init_def p64_cmp_def p64_inc_def cmp_iffs put_def dest: int64_eqI)
  ultimately show ?thesis by blast
qed

theorem p64_pow_stored_witness:
  "p64_pow 1 2 3 \<lparr>objs = (\<lambda>p. of_u64 (of_nat p + 1)), errno = 0\<rparr> =
     put 3 (of_u64 8) \<lparr>objs = (\<lambda>p. of_u64 (of_nat p + 1)), errno = 0\<rparr>"
  using p64_pow_stored [of 1 2 3 "\<lparr>objs = (\<lambda>p. of_u64 (of_nat p + 1)), errno = 0\<rparr>"]
  by (simp add: NULL_def val_of_u64)

text \<open>
  \<^verbatim>\<open>__64_isqrt\<close> returns, with the square root rounded down stored in \<open>b\<close>, for every
  operand below \<open>2 ^ 33 - 2\<close>.
\<close>

theorem p64_isqrt_stored:
  assumes "a \<noteq> NULL" and "b \<noteq> NULL" and "val (at s a) < 2 ^ 33 - 2"
  shows "\<exists>r. p64_isqrt a b s = Some (put b r s) \<and>
    val r ^ 2 \<le> val (at s a) \<and> val (at s a) < (val r + 1) ^ 2"
  using isqrt_correct [OF assms(3)] assms(1,2) by (auto simp: p64_isqrt_def)

theorem p64_isqrt_stored_witness:
  "\<exists>r. p64_isqrt 1 2 \<lparr>objs = (\<lambda>_. of_u64 99), errno = 0\<rparr> =
       Some (put 2 r \<lparr>objs = (\<lambda>_. of_u64 99), errno = 0\<rparr>) \<and> val r ^ 2 \<le> 99 \<and> 99 < (val r + 1) ^ 2"
  using p64_isqrt_stored [of 1 2 "\<lparr>objs = (\<lambda>_. of_u64 99), errno = 0\<rparr>"]
  by (simp add: NULL_def val_of_u64)

text \<open>
  At \<open>2 ^ 33 - 2\<close> it is wrong: the first midpoint squared wraps to 0 and is taken for a
  lower bound, so the result stored is at least \<open>2 ^ 32\<close>, and its square exceeds the operand.
\<close>

theorem p64_isqrt_wraps:
  assumes "a \<noteq> NULL" and "b \<noteq> NULL" and "val (at s a) = 2 ^ 33 - 2"
  shows "\<exists>s'. p64_isqrt a b s = Some s' \<and> val (at s a) < val (at s' b) ^ 2"
  using isqrt_wraps [OF assms(3)] assms(1,2) by (auto simp: p64_isqrt_def)

theorem p64_isqrt_wraps_witness:
  "\<exists>s'. p64_isqrt 1 2 \<lparr>objs = (\<lambda>_. of_u64 (2 ^ 33 - 2)), errno = 0\<rparr> = Some s' \<and> 2 ^ 33 - 2 < val (at s' 2) ^ 2"
  using p64_isqrt_wraps [of 1 2 "\<lparr>objs = (\<lambda>_. of_u64 (2 ^ 33 - 2)), errno = 0\<rparr>"]
  by (simp add: NULL_def val_of_u64)

end
