(* ===== verification/Cmem.thy ===== *)
theory Cmem
  imports Prelude
begin

text \<open>
  The functions of \<^verbatim>\<open><string.h>\<close> on counted memory (\<^verbatim>\<open>src/string/mem*.c\<close>).  Memory is a function
  from addresses to bytes; a store returns the memory with one address changed, so that
  overlapping operands behave as they do in the code.  A null pointer result is \<open>None\<close>.
  \<^verbatim>\<open>memcpy()\<close> and \<^verbatim>\<open>memset()\<close> are one \<^verbatim>\<open>MVCL\<close> instruction each.
\<close>

type_synonym mem = "nat \<Rightarrow> byte"

section \<open>Definitions\<close>

text \<open>The loops over \<^verbatim>\<open>x < n\<close> are counted by the bytes that are left.\<close>

fun memchr_loop :: "mem \<Rightarrow> nat \<Rightarrow> byte \<Rightarrow> nat \<Rightarrow> nat option" where
  "memchr_loop m p c 0 = None"
| "memchr_loop m p c (Suc left) = (if m p = c then Some p else memchr_loop m (p + 1) c left)"

definition memchr :: "mem \<Rightarrow> nat \<Rightarrow> i32 \<Rightarrow> nat \<Rightarrow> nat option" where
  "memchr m s c n = memchr_loop m s (ucast c) n"

fun memcmp_loop :: "mem \<Rightarrow> nat \<Rightarrow> nat \<Rightarrow> nat \<Rightarrow> nat \<Rightarrow> int" where
  "memcmp_loop m p1 p2 x 0 = 0"
| "memcmp_loop m p1 p2 x (Suc left) =
     (if m (p1 + x) < m (p2 + x) then - 1
      else if m (p1 + x) > m (p2 + x) then 1
      else memcmp_loop m p1 p2 (x + 1) left)"

definition memcmp :: "mem \<Rightarrow> nat \<Rightarrow> nat \<Rightarrow> nat \<Rightarrow> int" where
  "memcmp m s1 s2 n = memcmp_loop m s1 s2 0 n"

fun move_up :: "mem \<Rightarrow> nat \<Rightarrow> nat \<Rightarrow> nat \<Rightarrow> mem" where
  "move_up m p cs2 0 = m"
| "move_up m p cs2 (Suc left) = move_up (m(p := m cs2)) (p + 1) (cs2 + 1) left"

text \<open>The loop from \<^verbatim>\<open>x = n - 1\<close> down to 1, and the move at 0 that follows it.\<close>

fun move_down :: "mem \<Rightarrow> nat \<Rightarrow> nat \<Rightarrow> nat \<Rightarrow> mem" where
  "move_down m p cs2 0 = m(p := m cs2)"
| "move_down m p cs2 (Suc x) = move_down (m(p + Suc x := m (cs2 + Suc x))) p cs2 x"

definition memmove :: "mem \<Rightarrow> nat \<Rightarrow> nat \<Rightarrow> nat \<Rightarrow> mem" where
  "memmove m s1 s2 n =
     (if s1 \<le> s2 then move_up m s1 s2 n
      else if n \<noteq> 0 then move_down m s1 s2 (n - 1)
      else m)"

text \<open>
  \<^verbatim>\<open>MVCL\<close> moves the bytes of the second operand to the first, from left to right, and fills the
  rest of a longer first operand with the pad byte.  Only the low 24 bits of each length count,
  and nothing is moved when a byte of the first operand would be used as source after it was
  stored into.
\<close>

fun pad_up :: "mem \<Rightarrow> nat \<Rightarrow> byte \<Rightarrow> nat \<Rightarrow> mem" where
  "pad_up m p b 0 = m"
| "pad_up m p b (Suc left) = pad_up (m(p := b)) (p + 1) b left"

definition mvcl :: "mem \<Rightarrow> nat \<Rightarrow> u32 \<Rightarrow> nat \<Rightarrow> u32 \<Rightarrow> mem" where
  "mvcl m r14 r15 r0 r1 =
     (let len1 = unat (r15 AND 0x00FFFFFF);
          len2 = unat (r1 AND 0x00FFFFFF);
          pad = ucast (drop_bit 24 r1);
          n = min len1 len2
      in if r0 < r14 \<and> r14 < r0 + n then m
         else pad_up (move_up m r14 r0 n) (r14 + n) pad (len1 - n))"

definition memcpy :: "mem \<Rightarrow> nat \<Rightarrow> nat \<Rightarrow> u32 \<Rightarrow> mem" where
  "memcpy m s1 s2 n = mvcl m s1 n s2 n"

definition memset :: "mem \<Rightarrow> nat \<Rightarrow> i32 \<Rightarrow> u32 \<Rightarrow> mem" where
  "memset m s c n = mvcl m s n 0 (push_bit 24 c)"

section \<open>Reading and writing blocks\<close>

definition block :: "mem \<Rightarrow> nat \<Rightarrow> nat \<Rightarrow> byte list" where
  "block m p n = map m [p..<p + n]"

definition store :: "mem \<Rightarrow> nat \<Rightarrow> byte list \<Rightarrow> mem" where
  "store m p bs = (\<lambda>a. if p \<le> a \<and> a < p + length bs then bs ! (a - p) else m a)"

lemma length_block [simp]: "length (block m p n) = n"
  by (simp add: block_def)

lemma nth_block [simp]: "i < n \<Longrightarrow> block m p n ! i = m (p + i)"
  by (simp add: block_def)

lemma block_0 [simp]: "block m p 0 = []"
  by (simp add: block_def)

lemma block_Suc: "block m p (Suc n) = m p # block m (Suc p) n"
proof -
  have "[p..<p + Suc n] = p # [Suc p..<Suc p + n]" by (simp add: upt_rec)
  then show ?thesis by (simp add: block_def)
qed

lemma store_Nil [simp]: "store m p [] = m"
  by (auto simp: store_def fun_eq_iff)

lemma store_Cons: "store m p (b # bs) = (store m (Suc p) bs)(p := b)"
  by (auto simp: store_def fun_eq_iff nth_Cons')

lemma store_Cons': "store m p (b # bs) = store (m(p := b)) (Suc p) bs"
  by (auto simp: store_def fun_eq_iff nth_Cons')

lemma store_append: "store m p (as @ bs) = store (store m p as) (p + length as) bs"
  by (auto simp: store_def fun_eq_iff nth_append)

lemma store_outside: "a < p \<or> p + length bs \<le> a \<Longrightarrow> store m p bs a = m a"
  by (auto simp: store_def)

lemma store_inside: "i < length bs \<Longrightarrow> store m p bs (p + i) = bs ! i"
  by (auto simp: store_def)

lemma block_store: "block (store m p bs) p (length bs) = bs"
  by (auto intro!: nth_equalityI simp: store_inside)

lemma block_store_apart:
  "p + length bs \<le> q \<or> q + n \<le> p \<Longrightarrow> block (store m p bs) q n = block m q n"
  by (auto intro!: nth_equalityI simp: store_outside)

lemma block_upd_apart: "a < q \<or> q + n \<le> a \<Longrightarrow> block (m(a := b)) q n = block m q n"
  by (auto intro!: nth_equalityI)

section \<open>What the functions do\<close>

lemma move_up_eq: "p \<le> q \<or> q + n \<le> p \<Longrightarrow> move_up m p q n = store m p (block m q n)"
proof (induction n arbitrary: m p q)
  case (Suc n)
  have "block (m(p := m q)) (q + 1) n = block m (q + 1) n" using Suc.prems by (intro block_upd_apart) auto
  moreover have "move_up (m(p := m q)) (p + 1) (q + 1) n = store (m(p := m q)) (p + 1) (block (m(p := m q)) (q + 1) n)"
    by (rule Suc.IH) (use Suc.prems in auto)
  ultimately show ?case by (simp add: block_Suc store_Cons')
qed simp

lemma block_snoc: "block m q (Suc n) = block m q n @ [m (q + n)]"
  by (simp add: block_def)

lemma move_down_eq: "q < p \<Longrightarrow> move_down m p q n = store m p (block m q (Suc n))"
proof (induction n arbitrary: m)
  case 0
  show ?case by (simp add: block_Suc store_Cons)
next
  case (Suc n)
  let ?m = "m(p + Suc n := m (q + Suc n))"
  have "block ?m q (Suc n) = block m q (Suc n)" using Suc.prems by (intro block_upd_apart) auto
  moreover have "store ?m p (block m q (Suc n)) = store m p (block m q (Suc n) @ [m (q + Suc n)])"
    unfolding store_append by (auto simp: fun_eq_iff store_def)
  ultimately show ?case using Suc by (simp add: block_snoc)
qed

lemma memmove_eq: "memmove m p q n = store m p (block m q n)"
proof (cases "p \<le> q")
  case True
  then show ?thesis by (simp add: memmove_def move_up_eq)
next
  case False
  then show ?thesis by (cases n) (simp_all add: memmove_def move_down_eq)
qed

lemma pad_up_eq: "pad_up m p b n = store m p (replicate n b)"
  by (induction n arbitrary: m p) (simp_all add: store_Cons')

lemma unat_and_24: "unat (x AND 0x00FFFFFF :: u32) = unat x mod 2 ^ 24"
  using unat_and_mask_eq [of x 24] by (simp add: mask_eq_exp_minus_1)

lemma unat_shift_24: "unat (push_bit 24 c AND 0x00FFFFFF :: u32) = 0"
proof -
  have "push_bit 24 c AND mask 24 = (0 :: u32)" by (rule bit_word_eqI) (auto simp: bit_simps)
  then show ?thesis by (simp add: mask_eq_exp_minus_1)
qed

lemma memcpy_eq:
  assumes "unat n < 2 ^ 24" and "s1 \<le> s2 \<or> s2 + unat n \<le> s1"
  shows "memcpy m s1 s2 n = store m s1 (block m s2 (unat n))"
  using assms by (auto simp: memcpy_def mvcl_def Let_def unat_and_24 move_up_eq)

lemma memset_eq:
  assumes "unat n < 2 ^ 24" shows "memset m s c n = store m s (replicate (unat n) (ucast c))"
proof -
  have "ucast (drop_bit 24 (push_bit 24 c)) = (ucast c :: byte)"
    by (rule bit_word_eqI) (simp add: bit_simps)
  then show ?thesis
    using assms unfolding memset_def mvcl_def unat_shift_24 Let_def by (simp add: unat_and_24 pad_up_eq)
qed

text \<open>The first place of a byte in a list, counted from an address.\<close>

definition first_at :: "nat \<Rightarrow> byte \<Rightarrow> byte list \<Rightarrow> nat option" where
  "first_at p c bs = (if c \<in> set bs then Some (p + length (takeWhile (\<lambda>b. b \<noteq> c) bs)) else None)"

lemma first_at_Nil [simp]: "first_at p c [] = None"
  by (simp add: first_at_def)

lemma first_at_Cons: "first_at p c (b # bs) = (if b = c then Some p else first_at (Suc p) c bs)"
  by (simp add: first_at_def)

lemma memchr_eq: "memchr m s c n = first_at s (ucast c) (block m s n)"
proof -
  have "memchr_loop m p b k = first_at p b (block m p k)" for p b k
    by (induction m p b k rule: memchr_loop.induct) (simp_all add: block_Suc first_at_Cons)
  then show ?thesis by (simp add: memchr_def)
qed

text \<open>The three-way comparison of byte strings in dictionary order.\<close>

definition cmp3 :: "byte list \<Rightarrow> byte list \<Rightarrow> int" where
  "cmp3 xs ys = (if ord_class.lexordp xs ys then - 1 else if ord_class.lexordp ys xs then 1 else 0)"

lemma cmp3_simps [simp]:
  "cmp3 [] [] = 0" "cmp3 [] (y # ys) = - 1" "cmp3 (x # xs) [] = 1"
  "cmp3 (x # xs) (y # ys) = (if x < y then - 1 else if x > y then 1 else cmp3 xs ys)"
  by (auto simp: cmp3_def)

lemma cmp3_eq_0: "cmp3 xs ys = 0 \<longleftrightarrow> xs = ys"
  by (induction xs ys rule: list_induct2') auto

lemma cmp3_swap: "cmp3 ys xs = - cmp3 xs ys"
  by (induction xs ys rule: list_induct2') auto

lemma cmp3_trans: "cmp3 xs ys \<le> 0 \<Longrightarrow> cmp3 ys zs \<le> 0 \<Longrightarrow> cmp3 xs zs \<le> 0"
proof (induction xs arbitrary: ys zs)
  case Nil
  then show ?case by (cases zs) auto
next
  case (Cons x xs)
  then show ?case by (cases ys; cases zs) (auto split: if_splits)
qed

lemma memcmp_eq: "memcmp m s1 s2 n = cmp3 (block m s1 n) (block m s2 n)"
proof -
  have "memcmp_loop m p q x k = cmp3 (block m (p + x) k) (block m (q + x) k)" for p q x k
    by (induction m p q x k rule: memcmp_loop.induct) (simp_all add: block_Suc)
  then show ?thesis by (simp add: memcmp_def)
qed

section \<open>Properties\<close>

text \<open>
  C25: \<^verbatim>\<open>memmove()\<close> leaves in the \<^verbatim>\<open>n\<close> bytes at \<^verbatim>\<open>s1\<close> what the \<^verbatim>\<open>n\<close> bytes at \<^verbatim>\<open>s2\<close> held before the
  call, and changes nothing else, however the two areas overlap.
\<close>

theorem memmove_moves:
  "block (memmove m s1 s2 n) s1 n = block m s2 n \<and>
   (\<forall>a. a < s1 \<or> s1 + n \<le> a \<longrightarrow> memmove m s1 s2 n a = m a)"
  using block_store [of m s1 "block m s2 n"] by (simp add: memmove_eq store_outside)

theorem memmove_moves_witness:
  "block (memmove (\<lambda>a. of_nat a) 3 2 4) 3 4 = [2, 3, 4, 5] \<and> memmove (\<lambda>a. of_nat a) 3 2 4 7 = 7"
  using memmove_moves [of "\<lambda>a. of_nat a" 3 2 4] by (simp add: block_Suc numeral_eq_Suc)

text \<open>
  \<^verbatim>\<open>memcpy()\<close> and \<^verbatim>\<open>memset()\<close> agree with the C standard for lengths below $2^{24}$, and
  \<^verbatim>\<open>memcpy()\<close> with \<^verbatim>\<open>memmove()\<close> wherever the source does not start before an overlapping target; in
  that case the instruction moves nothing.
\<close>

theorem memcpy_memset_store:
  assumes "unat n < 2 ^ 24"
  shows "(s1 \<le> s2 \<or> s2 + unat n \<le> s1 \<longrightarrow> memcpy m s1 s2 n = memmove m s1 s2 (unat n)) \<and>
    (s2 < s1 \<and> s1 < s2 + unat n \<longrightarrow> memcpy m s1 s2 n = m) \<and>
    block (memset m s1 c n) s1 (unat n) = replicate (unat n) (ucast c) \<and>
    (\<forall>a. a < s1 \<or> s1 + unat n \<le> a \<longrightarrow> memset m s1 c n a = m a)"
proof (intro conjI impI allI)
  show "memcpy m s1 s2 n = memmove m s1 s2 (unat n)" if "s1 \<le> s2 \<or> s2 + unat n \<le> s1"
    by (simp add: memcpy_eq [OF assms that] memmove_eq)
  show "memcpy m s1 s2 n = m" if "s2 < s1 \<and> s1 < s2 + unat n"
    using that assms by (simp add: memcpy_def mvcl_def Let_def unat_and_24)
  show "block (memset m s1 c n) s1 (unat n) = replicate (unat n) (ucast c)"
    using block_store [of m s1 "replicate (unat n) (ucast c)"] by (simp add: memset_eq [OF assms])
  show "memset m s1 c n a = m a" if "a < s1 \<or> s1 + unat n \<le> a" for a
    using that by (simp add: memset_eq [OF assms] store_outside)
qed

theorem memcpy_memset_store_witness:
  "memcpy (\<lambda>a. 0) 10 20 (5 :: u32) = memmove (\<lambda>a. 0) 10 20 5 \<and>
   block (memset (\<lambda>a. 0) 10 0x140 (3 :: u32)) 10 3 = replicate 3 0x40"
  using memcpy_memset_store [of "5 :: u32" 10 20 "\<lambda>a. 0"] memcpy_memset_store [of "3 :: u32" 10 20 "\<lambda>a. 0" "0x140"]
  by simp

end
