(* ===== verification/Ctype.thy ===== *)
theory Ctype
  imports Prelude
begin

text \<open>
  The character classes of \<^verbatim>\<open><ctype.h>\<close>: the three tables of 257 entries (the first one is for
  \<^verbatim>\<open>EOF\<close>, -1) as the sources list them, and the functions that read them.  The character set is
  EBCDIC, so the letters are in three runs for each case.  An argument that is neither -1 nor
  an unsigned char reads outside the table; the result is then \<open>None\<close>.
\<close>

unbundle bit_operations_syntax

section \<open>The tables\<close>

definition tolowR :: "int list" where
  "tolowR =
     [- 1,
      0x00, 0x01, 0x02, 0x03, 0x04, 0x05, 0x06, 0x07, 0x08, 0x09, 0x0A, 0x0B, 0x0C, 0x0D, 0x0E, 0x0F,
      0x10, 0x11, 0x12, 0x13, 0x14, 0x15, 0x16, 0x17, 0x18, 0x19, 0x1A, 0x1B, 0x1C, 0x1D, 0x1E, 0x1F,
      0x20, 0x21, 0x22, 0x23, 0x24, 0x25, 0x26, 0x27, 0x28, 0x29, 0x2A, 0x2B, 0x2C, 0x2D, 0x2E, 0x2F,
      0x30, 0x31, 0x32, 0x33, 0x34, 0x35, 0x36, 0x37, 0x38, 0x39, 0x3A, 0x3B, 0x3C, 0x3D, 0x3E, 0x3F,
      0x40, 0x41, 0x42, 0x43, 0x44, 0x45, 0x46, 0x47, 0x48, 0x49, 0x4A, 0x4B, 0x4C, 0x4D, 0x4E, 0x4F,
      0x50, 0x51, 0x52, 0x53, 0x54, 0x55, 0x56, 0x57, 0x58, 0x59, 0x5A, 0x5B, 0x5C, 0x5D, 0x5E, 0x5F,
      0x60, 0x61, 0x62, 0x63, 0x64, 0x65, 0x66, 0x67, 0x68, 0x69, 0x6A, 0x6B, 0x6C, 0x6D, 0x6E, 0x6F,
      0x70, 0x71, 0x72, 0x73, 0x74, 0x75, 0x76, 0x77, 0x78, 0x79, 0x7A, 0x7B, 0x7C, 0x7D, 0x7E, 0x7F,
      0x80, 0x81, 0x82, 0x83, 0x84, 0x85, 0x86, 0x87, 0x88, 0x89, 0x8A, 0x8B, 0x8C, 0x8D, 0x8E, 0x8F,
      0x90, 0x91, 0x92, 0x93, 0x94, 0x95, 0x96, 0x97, 0x98, 0x99, 0x9A, 0x9B, 0x9C, 0x9D, 0x9E, 0x9F,
      0xA0, 0xA1, 0xA2, 0xA3, 0xA4, 0xA5, 0xA6, 0xA7, 0xA8, 0xA9, 0xAA, 0xAB, 0xAC, 0xAD, 0xAE, 0xAF,
      0xB0, 0xB1, 0xB2, 0xB3, 0xB4, 0xB5, 0xB6, 0xB7, 0xB8, 0xB9, 0xBA, 0xBB, 0xBC, 0xBD, 0xBE, 0xBF,
      0xC0, 0x81, 0x82, 0x83, 0x84, 0x85, 0x86, 0x87, 0x88, 0x89, 0xCA, 0xCB, 0xCC, 0xCD, 0xCE, 0xCF,
      0xD0, 0x91, 0x92, 0x93, 0x94, 0x95, 0x96, 0x97, 0x98, 0x99, 0xDA, 0xDB, 0xDC, 0xDD, 0xDE, 0xDF,
      0xE0, 0xE1, 0xA2, 0xA3, 0xA4, 0xA5, 0xA6, 0xA7, 0xA8, 0xA9, 0xEA, 0xEB, 0xEC, 0xED, 0xEE, 0xEF,
      0xF0, 0xF1, 0xF2, 0xF3, 0xF4, 0xF5, 0xF6, 0xF7, 0xF8, 0xF9, 0xFA, 0xFB, 0xFC, 0xFD, 0xFE, 0xFF]"

definition toupR :: "int list" where
  "toupR =
     [- 1,
      0x00, 0x01, 0x02, 0x03, 0x04, 0x05, 0x06, 0x07, 0x08, 0x09, 0x0A, 0x0B, 0x0C, 0x0D, 0x0E, 0x0F,
      0x10, 0x11, 0x12, 0x13, 0x14, 0x15, 0x16, 0x17, 0x18, 0x19, 0x1A, 0x1B, 0x1C, 0x1D, 0x1E, 0x1F,
      0x20, 0x21, 0x22, 0x23, 0x24, 0x25, 0x26, 0x27, 0x28, 0x29, 0x2A, 0x2B, 0x2C, 0x2D, 0x2E, 0x2F,
      0x30, 0x31, 0x32, 0x33, 0x34, 0x35, 0x36, 0x37, 0x38, 0x39, 0x3A, 0x3B, 0x3C, 0x3D, 0x3E, 0x3F,
      0x40, 0x41, 0x42, 0x43, 0x44, 0x45, 0x46, 0x47, 0x48, 0x49, 0x4A, 0x4B, 0x4C, 0x4D, 0x4E, 0x4F,
      0x50, 0x51, 0x52, 0x53, 0x54, 0x55, 0x56, 0x57, 0x58, 0x59, 0x5A, 0x5B, 0x5C, 0x5D, 0x5E, 0x5F,
      0x60, 0x61, 0x62, 0x63, 0x64, 0x65, 0x66, 0x67, 0x68, 0x69, 0x6A, 0x6B, 0x6C, 0x6D, 0x6E, 0x6F,
      0x70, 0x71, 0x72, 0x73, 0x74, 0x75, 0x76, 0x77, 0x78, 0x79, 0x7A, 0x7B, 0x7C, 0x7D, 0x7E, 0x7F,
      0x80, 0xC1, 0xC2, 0xC3, 0xC4, 0xC5, 0xC6, 0xC7, 0xC8, 0xC9, 0x8A, 0x8B, 0x8C, 0x8D, 0x8E, 0x8F,
      0x90, 0xD1, 0xD2, 0xD3, 0xD4, 0xD5, 0xD6, 0xD7, 0xD8, 0xD9, 0x9A, 0x9B, 0x9C, 0x9D, 0x9E, 0x9F,
      0xA0, 0xA1, 0xE2, 0xE3, 0xE4, 0xE5, 0xE6, 0xE7, 0xE8, 0xE9, 0xAA, 0xAB, 0xAC, 0xAD, 0xAE, 0xAF,
      0xB0, 0xB1, 0xB2, 0xB3, 0xB4, 0xB5, 0xB6, 0xB7, 0xB8, 0xB9, 0xBA, 0xBB, 0xBC, 0xBD, 0xBE, 0xBF,
      0xC0, 0xC1, 0xC2, 0xC3, 0xC4, 0xC5, 0xC6, 0xC7, 0xC8, 0xC9, 0xCA, 0xCB, 0xCC, 0xCD, 0xCE, 0xCF,
      0xD0, 0xD1, 0xD2, 0xD3, 0xD4, 0xD5, 0xD6, 0xD7, 0xD8, 0xD9, 0xDA, 0xDB, 0xDC, 0xDD, 0xDE, 0xDF,
      0xE0, 0xE1, 0xE2, 0xE3, 0xE4, 0xE5, 0xE6, 0xE7, 0xE8, 0xE9, 0xEA, 0xEB, 0xEC, 0xED, 0xEE, 0xEF,
      0xF0, 0xF1, 0xF2, 0xF3, 0xF4, 0xF5, 0xF6, 0xF7, 0xF8, 0xF9, 0xFA, 0xFB, 0xFC, 0xFD, 0xFE, 0xFF]"

definition isbufR :: "16 word list" where
  "isbufR =
     [0x0000,
      0x0004, 0x0004, 0x0004, 0x0004, 0x0004, 0x0904, 0x0004, 0x0004, 0x0004, 0x0004, 0x0004, 0x0104, 0x0104, 0x0104, 0x0004, 0x0004,
      0x0004, 0x0004, 0x0004, 0x0004, 0x0004, 0x0104, 0x0004, 0x0004, 0x0004, 0x0004, 0x0004, 0x0004, 0x0004, 0x0004, 0x0004, 0x0004,
      0x0004, 0x0004, 0x0004, 0x0004, 0x0004, 0x0004, 0x0004, 0x0004, 0x0004, 0x0000, 0x0004, 0x0004, 0x0004, 0x0004, 0x0004, 0x0004,
      0x0000, 0x0000, 0x0004, 0x0004, 0x0004, 0x0004, 0x0004, 0x0004, 0x0004, 0x0004, 0x0004, 0x0004, 0x0004, 0x0004, 0x0000, 0x0004,
      0x0940, 0x0000, 0x0000, 0x0000, 0x0000, 0x0000, 0x0000, 0x0000, 0x0000, 0x0000, 0x00D0, 0x00D0, 0x00D0, 0x00D0, 0x00D0, 0x00D0,
      0x00D0, 0x0000, 0x0000, 0x0000, 0x0000, 0x0000, 0x0000, 0x0000, 0x0000, 0x0000, 0x00D0, 0x00D0, 0x00D0, 0x00D0, 0x00D0, 0x00D0,
      0x00D0, 0x00D0, 0x0000, 0x0000, 0x0000, 0x0000, 0x0000, 0x0000, 0x0000, 0x0000, 0x00D0, 0x00D0, 0x00D0, 0x00D0, 0x00D0, 0x00D0,
      0x0000, 0x0000, 0x0000, 0x0000, 0x0000, 0x0000, 0x0000, 0x0000, 0x0000, 0x00D0, 0x00D0, 0x00D0, 0x00D0, 0x00D0, 0x00D0, 0x00D0,
      0x0000, 0x0473, 0x0473, 0x0473, 0x0473, 0x0473, 0x0473, 0x0073, 0x0073, 0x0073, 0x0000, 0x0000, 0x0000, 0x0000, 0x0000, 0x0000,
      0x0000, 0x0073, 0x0073, 0x0073, 0x0073, 0x0073, 0x0073, 0x0073, 0x0073, 0x0073, 0x0000, 0x0000, 0x0000, 0x0000, 0x0000, 0x0000,
      0x0000, 0x00D0, 0x0073, 0x0073, 0x0073, 0x0073, 0x0073, 0x0073, 0x0073, 0x0073, 0x0000, 0x0000, 0x0000, 0x00D0, 0x0000, 0x0000,
      0x00D0, 0x0000, 0x0000, 0x0000, 0x0000, 0x0000, 0x0000, 0x0000, 0x0000, 0x0000, 0x00D0, 0x00D0, 0x0000, 0x00D0, 0x0000, 0x0000,
      0x00D0, 0x0653, 0x0653, 0x0653, 0x0653, 0x0653, 0x0653, 0x0253, 0x0253, 0x0253, 0x0000, 0x0000, 0x0000, 0x0000, 0x0000, 0x0000,
      0x00D0, 0x0253, 0x0253, 0x0253, 0x0253, 0x0253, 0x0253, 0x0253, 0x0253, 0x0253, 0x0000, 0x0000, 0x0000, 0x0000, 0x0000, 0x0000,
      0x00D0, 0x0000, 0x0253, 0x0253, 0x0253, 0x0253, 0x0253, 0x0253, 0x0253, 0x0253, 0x0000, 0x0000, 0x0000, 0x0000, 0x0000, 0x0000,
      0x0459, 0x0459, 0x0459, 0x0459, 0x0459, 0x0459, 0x0459, 0x0459, 0x0459, 0x0459, 0x0000, 0x0000, 0x0000, 0x0000, 0x0000, 0x0000]"

text \<open>\<^verbatim>\<open>__tolow\<close>, \<^verbatim>\<open>__toup\<close> and \<^verbatim>\<open>__isbuf\<close> point at the second entry of their tables.\<close>

definition ctype_at :: "'a list \<Rightarrow> int \<Rightarrow> 'a option" where
  "ctype_at table c = (if - 1 \<le> c \<and> c \<le> 255 then Some (table ! nat (c + 1)) else None)"

definition isbuf_test :: "16 word \<Rightarrow> int \<Rightarrow> int option" where
  "isbuf_test bits c = map_option (\<lambda>w. uint (w AND bits)) (ctype_at isbufR c)"

section \<open>The functions\<close>

definition isalnum :: "int \<Rightarrow> int option" where "isalnum c = isbuf_test 0x0001 c"
definition isalpha :: "int \<Rightarrow> int option" where "isalpha c = isbuf_test 0x0002 c"
definition iscntrl :: "int \<Rightarrow> int option" where "iscntrl c = isbuf_test 0x0004 c"
definition isdigit :: "int \<Rightarrow> int option" where "isdigit c = isbuf_test 0x0008 c"
definition isgraph :: "int \<Rightarrow> int option" where "isgraph c = isbuf_test 0x0010 c"
definition islower :: "int \<Rightarrow> int option" where "islower c = isbuf_test 0x0020 c"
definition isprint :: "int \<Rightarrow> int option" where "isprint c = isbuf_test 0x0040 c"
definition ispunct :: "int \<Rightarrow> int option" where "ispunct c = isbuf_test 0x0080 c"
definition isspace :: "int \<Rightarrow> int option" where "isspace c = isbuf_test 0x0100 c"
definition isupper :: "int \<Rightarrow> int option" where "isupper c = isbuf_test 0x0200 c"
definition isxdigit :: "int \<Rightarrow> int option" where "isxdigit c = isbuf_test 0x0400 c"
definition isblank :: "int \<Rightarrow> int option" where "isblank c = isbuf_test 0x0800 c"
definition tolower :: "int \<Rightarrow> int option" where "tolower c = ctype_at tolowR c"
definition toupper :: "int \<Rightarrow> int option" where "toupper c = ctype_at toupR c"

text \<open>A class test holds when its result is not zero.\<close>

definition holds :: "int option \<Rightarrow> bool" where
  "holds r \<longleftrightarrow> r \<noteq> None \<and> r \<noteq> Some 0"

section \<open>The classes by their codes\<close>

definition upper_code :: "int \<Rightarrow> bool" where
  "upper_code c \<longleftrightarrow> 0xC1 \<le> c \<and> c \<le> 0xC9 \<or> 0xD1 \<le> c \<and> c \<le> 0xD9 \<or> 0xE2 \<le> c \<and> c \<le> 0xE9"

definition lower_code :: "int \<Rightarrow> bool" where
  "lower_code c \<longleftrightarrow> 0x81 \<le> c \<and> c \<le> 0x89 \<or> 0x91 \<le> c \<and> c \<le> 0x99 \<or> 0xA2 \<le> c \<and> c \<le> 0xA9"

definition digit_code :: "int \<Rightarrow> bool" where
  "digit_code c \<longleftrightarrow> 0xF0 \<le> c \<and> c \<le> 0xF9"

definition xdigit_code :: "int \<Rightarrow> bool" where
  "xdigit_code c \<longleftrightarrow> digit_code c \<or> 0x81 \<le> c \<and> c \<le> 0x86 \<or> 0xC1 \<le> c \<and> c \<le> 0xC6"

definition blank_code :: "int \<Rightarrow> bool" where
  "blank_code c \<longleftrightarrow> c = 0x05 \<or> c = 0x40"

definition space_code :: "int \<Rightarrow> bool" where
  "space_code c \<longleftrightarrow> blank_code c \<or> 0x0B \<le> c \<and> c \<le> 0x0D \<or> c = 0x15"

definition punct_code :: "int \<Rightarrow> bool" where
  "punct_code c \<longleftrightarrow> 0x4A \<le> c \<and> c \<le> 0x50 \<or> 0x5A \<le> c \<and> c \<le> 0x61 \<or> 0x6A \<le> c \<and> c \<le> 0x6F \<or>
     0x79 \<le> c \<and> c \<le> 0x7F \<or> c \<in> {0xA1, 0xAD, 0xB0, 0xBA, 0xBB, 0xBD, 0xC0, 0xD0, 0xE0}"

definition cntrl_code :: "int \<Rightarrow> bool" where
  "cntrl_code c \<longleftrightarrow> 0 \<le> c \<and> c < 0x40 \<and> c \<notin> {0x29, 0x30, 0x31, 0x3E}"

definition alpha_code :: "int \<Rightarrow> bool" where
  "alpha_code c \<longleftrightarrow> upper_code c \<or> lower_code c"

definition alnum_code :: "int \<Rightarrow> bool" where
  "alnum_code c \<longleftrightarrow> alpha_code c \<or> digit_code c"

definition graph_code :: "int \<Rightarrow> bool" where
  "graph_code c \<longleftrightarrow> alnum_code c \<or> punct_code c"

definition print_code :: "int \<Rightarrow> bool" where
  "print_code c \<longleftrightarrow> graph_code c \<or> c = 0x40"

lemmas class_codes = upper_code_def lower_code_def digit_code_def xdigit_code_def blank_code_def space_code_def
  punct_code_def cntrl_code_def alpha_code_def alnum_code_def graph_code_def print_code_def

text \<open>The kernel compares each table with its description, entry by entry.\<close>

lemma tolowR_codes: "tolowR = map (\<lambda>c. if upper_code c then c - 0x40 else c) [-1..255]"
  by code_simp

lemma toupR_codes: "toupR = map (\<lambda>c. if lower_code c then c + 0x40 else c) [-1..255]"
  by code_simp

lemma isbufR_alnum: "map (\<lambda>w. uint (w AND 0x0001) \<noteq> 0) isbufR = map alnum_code [-1..255]"
  by code_simp

lemma isbufR_alpha: "map (\<lambda>w. uint (w AND 0x0002) \<noteq> 0) isbufR = map alpha_code [-1..255]"
  by code_simp

lemma isbufR_cntrl: "map (\<lambda>w. uint (w AND 0x0004) \<noteq> 0) isbufR = map cntrl_code [-1..255]"
  by code_simp

lemma isbufR_digit: "map (\<lambda>w. uint (w AND 0x0008) \<noteq> 0) isbufR = map digit_code [-1..255]"
  by code_simp

lemma isbufR_graph: "map (\<lambda>w. uint (w AND 0x0010) \<noteq> 0) isbufR = map graph_code [-1..255]"
  by code_simp

lemma isbufR_lower: "map (\<lambda>w. uint (w AND 0x0020) \<noteq> 0) isbufR = map lower_code [-1..255]"
  by code_simp

lemma isbufR_print: "map (\<lambda>w. uint (w AND 0x0040) \<noteq> 0) isbufR = map print_code [-1..255]"
  by code_simp

lemma isbufR_punct: "map (\<lambda>w. uint (w AND 0x0080) \<noteq> 0) isbufR = map punct_code [-1..255]"
  by code_simp

lemma isbufR_space: "map (\<lambda>w. uint (w AND 0x0100) \<noteq> 0) isbufR = map space_code [-1..255]"
  by code_simp

lemma isbufR_upper: "map (\<lambda>w. uint (w AND 0x0200) \<noteq> 0) isbufR = map upper_code [-1..255]"
  by code_simp

lemma isbufR_xdigit: "map (\<lambda>w. uint (w AND 0x0400) \<noteq> 0) isbufR = map xdigit_code [-1..255]"
  by code_simp

lemma isbufR_blank: "map (\<lambda>w. uint (w AND 0x0800) \<noteq> 0) isbufR = map blank_code [-1..255]"
  by code_simp

lemma nth_upto_code: "- 1 \<le> c \<Longrightarrow> c \<le> 255 \<Longrightarrow> [-1..255] ! nat (c + 1) = (c :: int)"
  by (subst nth_upto) simp_all

lemma code_index: "- 1 \<le> c \<Longrightarrow> c \<le> 255 \<Longrightarrow> nat (c + 1) < 257"
  by linarith

lemma ctype_at_codes:
  assumes "table = map f [-1..255]"
  shows "ctype_at table c = (if - 1 \<le> c \<and> c \<le> 255 then Some (f c) else None)"
  using code_index [of c] by (simp add: assms ctype_at_def nth_upto_code)

lemma isbuf_test_codes:
  assumes "map (\<lambda>w. uint (w AND bits) \<noteq> 0) isbufR = map P [-1..255]"
  shows "holds (isbuf_test bits c) \<longleftrightarrow> - 1 \<le> c \<and> c \<le> 255 \<and> P c"
proof (cases "- 1 \<le> c \<and> c \<le> 255")
  case True
  define i where "i = nat (c + 1)"
  have "length isbufR = 257" using arg_cong [OF assms, of length] by simp
  then have i: "i < length isbufR" "i < length [-1..255]" using True code_index [of c] by (simp_all add: i_def)
  have "map (\<lambda>w. uint (w AND bits) \<noteq> 0) isbufR ! i = map P [-1..255] ! i" by (simp only: assms)
  then have "(uint (isbufR ! i AND bits) \<noteq> 0) = P c"
    unfolding nth_map [OF i(1)] nth_map [OF i(2)] using True nth_upto_code [of c] by (simp add: i_def)
  with True show ?thesis by (auto simp: isbuf_test_def ctype_at_def holds_def i_def)
qed (auto simp: isbuf_test_def ctype_at_def holds_def)

lemma tolower_codes: "tolower c = (if - 1 \<le> c \<and> c \<le> 255 then Some (if upper_code c then c - 0x40 else c) else None)"
  unfolding tolower_def by (rule ctype_at_codes [OF tolowR_codes])

lemma toupper_codes: "toupper c = (if - 1 \<le> c \<and> c \<le> 255 then Some (if lower_code c then c + 0x40 else c) else None)"
  unfolding toupper_def by (rule ctype_at_codes [OF toupR_codes])

lemma class_test_codes:
  "holds (isalnum c) \<longleftrightarrow> - 1 \<le> c \<and> c \<le> 255 \<and> alnum_code c"
  "holds (isalpha c) \<longleftrightarrow> - 1 \<le> c \<and> c \<le> 255 \<and> alpha_code c"
  "holds (iscntrl c) \<longleftrightarrow> - 1 \<le> c \<and> c \<le> 255 \<and> cntrl_code c"
  "holds (isdigit c) \<longleftrightarrow> - 1 \<le> c \<and> c \<le> 255 \<and> digit_code c"
  "holds (isgraph c) \<longleftrightarrow> - 1 \<le> c \<and> c \<le> 255 \<and> graph_code c"
  "holds (islower c) \<longleftrightarrow> - 1 \<le> c \<and> c \<le> 255 \<and> lower_code c"
  "holds (isprint c) \<longleftrightarrow> - 1 \<le> c \<and> c \<le> 255 \<and> print_code c"
  "holds (ispunct c) \<longleftrightarrow> - 1 \<le> c \<and> c \<le> 255 \<and> punct_code c"
  "holds (isspace c) \<longleftrightarrow> - 1 \<le> c \<and> c \<le> 255 \<and> space_code c"
  "holds (isupper c) \<longleftrightarrow> - 1 \<le> c \<and> c \<le> 255 \<and> upper_code c"
  "holds (isxdigit c) \<longleftrightarrow> - 1 \<le> c \<and> c \<le> 255 \<and> xdigit_code c"
  "holds (isblank c) \<longleftrightarrow> - 1 \<le> c \<and> c \<le> 255 \<and> blank_code c"
  unfolding isalnum_def isalpha_def iscntrl_def isdigit_def isgraph_def islower_def isprint_def ispunct_def
    isspace_def isupper_def isxdigit_def isblank_def
  by (rule isbuf_test_codes, rule isbufR_alnum isbufR_alpha isbufR_cntrl isbufR_digit isbufR_graph isbufR_lower
      isbufR_print isbufR_punct isbufR_space isbufR_upper isbufR_xdigit isbufR_blank)+

section \<open>Properties\<close>

text \<open>
  The class tables are consistent, for the characters and \<^verbatim>\<open>EOF\<close>: a letter is exactly an
  upper-case or a lower-case one, \<^verbatim>\<open>isalnum\<close>, \<^verbatim>\<open>isgraph\<close> and \<^verbatim>\<open>isprint\<close> are the unions C99
  defines, no printing character is a control character, the digits are X'F0' to X'F9', every
  blank is white space, and nothing holds of \<^verbatim>\<open>EOF\<close> or outside the table.
\<close>

theorem ctype_classes:
  "(holds (isalpha c) \<longleftrightarrow> holds (isupper c) \<or> holds (islower c)) \<and> \<not> (holds (isupper c) \<and> holds (islower c)) \<and>
   (holds (isalnum c) \<longleftrightarrow> holds (isalpha c) \<or> holds (isdigit c)) \<and>
   (holds (isgraph c) \<longleftrightarrow> holds (isalnum c) \<or> holds (ispunct c)) \<and> \<not> (holds (isalnum c) \<and> holds (ispunct c)) \<and>
   (holds (isprint c) \<longleftrightarrow> holds (isgraph c) \<or> c = 0x40) \<and> \<not> (holds (isprint c) \<and> holds (iscntrl c)) \<and>
   (holds (isdigit c) \<longleftrightarrow> 0xF0 \<le> c \<and> c \<le> 0xF9) \<and>
   (holds (isblank c) \<longleftrightarrow> holds (isspace c) \<and> c \<in> {0x05, 0x40}) \<and>
   (holds (isxdigit c) \<longleftrightarrow> holds (isalnum c) \<and> c \<in> {0x81..0x86} \<union> {0xC1..0xC6} \<union> {0xF0..0xF9})"
  unfolding class_test_codes class_codes by auto

text \<open>
  \<^verbatim>\<open>tolower()\<close> and \<^verbatim>\<open>toupper()\<close> change exactly the letters of the other case, their results
  are letters of their own case, and on these they undo each other.
\<close>

theorem case_mapping:
  assumes "- 1 \<le> c" and "c \<le> 255"
  shows "(tolower c \<noteq> Some c \<longleftrightarrow> holds (isupper c)) \<and> (toupper c \<noteq> Some c \<longleftrightarrow> holds (islower c)) \<and>
    Option.bind (toupper c) tolower = tolower c \<and> Option.bind (tolower c) toupper = toupper c \<and>
    (holds (isupper c) \<longleftrightarrow> holds (Option.bind (tolower c) islower) \<and> \<not> holds (islower c))"
  using assms unfolding class_test_codes tolower_codes toupper_codes
  by (auto simp: class_test_codes toupper_codes tolower_codes upper_code_def lower_code_def)

theorem case_mapping_witness:
  "(tolower 0xC1 \<noteq> Some 0xC1 \<longleftrightarrow> holds (isupper 0xC1)) \<and> Option.bind (tolower 0xC1) toupper = toupper 0xC1"
  using case_mapping [of "0xC1"] by simp

end
