(* ===== verification/Cstring.thy ===== *)
theory Cstring
  imports Cmem Ctype "HOL-Library.Sublist"
begin

text \<open>
  The string functions of \<^verbatim>\<open><string.h>\<close> and \<^verbatim>\<open><strings.h>\<close> (\<^verbatim>\<open>src/string/str*.c\<close>, \<^verbatim>\<open>src/strings\<close>) on
  the memory of \<open>Cmem\<close>.  A loop that runs to the end of a string does not return when
  there is none: it is a \<open>partial_function\<close> into \<open>option\<close>, whose outer \<open>None\<close>
  means that the call does not return.  A null pointer result is an inner \<open>None\<close>.
\<close>

section \<open>Definitions\<close>

text \<open>\<^verbatim>\<open>while (*p != '\0') p++;\<close>\<close>

partial_function (option) scan_nul :: "mem \<Rightarrow> nat \<Rightarrow> nat option" where
  "scan_nul m p = (if m p \<noteq> 0 then scan_nul m (p + 1) else Some p)"

definition strlen :: "mem \<Rightarrow> nat \<Rightarrow> nat option" where
  "strlen m s = map_option (\<lambda>p. p - s) (scan_nul m s)"

partial_function (option) strchr :: "mem \<Rightarrow> nat \<Rightarrow> i32 \<Rightarrow> nat option option" where
  "strchr m s c =
     (if m s \<noteq> 0 then if m s = ucast c then Some (Some s) else strchr m (s + 1) c
      else Some (if c = 0 then Some s else None))"

fun strrchr_loop :: "mem \<Rightarrow> nat \<Rightarrow> byte \<Rightarrow> nat \<Rightarrow> nat option" where
  "strrchr_loop m s c 0 = None"
| "strrchr_loop m s c (Suc k) = (if m (s + k) = c then Some (s + k) else strrchr_loop m s c k)"

definition strrchr :: "mem \<Rightarrow> nat \<Rightarrow> i32 \<Rightarrow> nat option option" where
  "strrchr m s c = map_option (\<lambda>len. strrchr_loop m s (ucast c) (Suc len)) (strlen m s)"

partial_function (option) strcmp :: "mem \<Rightarrow> nat \<Rightarrow> nat \<Rightarrow> int option" where
  "strcmp m p1 p2 =
     (if m p1 \<noteq> 0 then
        if m p1 < m p2 then Some (- 1)
        else if m p1 > m p2 then Some 1
        else strcmp m (p1 + 1) (p2 + 1)
      else if m p2 = 0 then Some 0 else Some (- 1))"

definition strcoll :: "mem \<Rightarrow> nat \<Rightarrow> nat \<Rightarrow> int option" where
  "strcoll m s1 s2 = strcmp m s1 s2"

fun strncmp_loop :: "mem \<Rightarrow> nat \<Rightarrow> nat \<Rightarrow> nat \<Rightarrow> nat \<Rightarrow> int" where
  "strncmp_loop m p1 p2 x 0 = 0"
| "strncmp_loop m p1 p2 x (Suc left) =
     (if m (p1 + x) < m (p2 + x) then - 1
      else if m (p1 + x) > m (p2 + x) then 1
      else if m (p1 + x) = 0 then 0
      else strncmp_loop m p1 p2 (x + 1) left)"

definition strncmp :: "mem \<Rightarrow> nat \<Rightarrow> nat \<Rightarrow> nat \<Rightarrow> int" where
  "strncmp m s1 s2 n = strncmp_loop m s1 s2 0 n"

text \<open>\<^verbatim>\<open>c1 = tolower(*p1)\<close>, with the result stored in an unsigned char.\<close>

definition tolow_byte :: "byte \<Rightarrow> byte" where
  "tolow_byte b = word_of_int (the (tolower (uint b)))"

partial_function (option) strcasecmp :: "mem \<Rightarrow> nat \<Rightarrow> nat \<Rightarrow> int option" where
  "strcasecmp m p1 p2 =
     (if m p1 \<noteq> 0 then
        let c1 = tolow_byte (m p1); c2 = tolow_byte (m p2)
        in if c1 < c2 then Some (- 1)
           else if c1 > c2 then Some 1
           else strcasecmp m (p1 + 1) (p2 + 1)
      else if m p2 = 0 then Some 0 else Some (- 1))"

fun strncasecmp_loop :: "mem \<Rightarrow> nat \<Rightarrow> nat \<Rightarrow> nat \<Rightarrow> nat \<Rightarrow> int" where
  "strncasecmp_loop m p1 p2 x 0 = 0"
| "strncasecmp_loop m p1 p2 x (Suc left) =
     (let c1 = tolow_byte (m (p1 + x)); c2 = tolow_byte (m (p2 + x))
      in if c1 < c2 then - 1
         else if c1 > c2 then 1
         else if c1 = 0 then 0
         else strncasecmp_loop m p1 p2 (x + 1) left)"

definition strncasecmp :: "mem \<Rightarrow> nat \<Rightarrow> nat \<Rightarrow> nat \<Rightarrow> int" where
  "strncasecmp m s1 s2 n = strncasecmp_loop m s1 s2 0 n"

text \<open>The copying loop of \<^verbatim>\<open>strcpy()\<close> and of \<^verbatim>\<open>strcat()\<close>: each byte is stored before it is tested.\<close>

partial_function (option) copy_str :: "mem \<Rightarrow> nat \<Rightarrow> nat \<Rightarrow> mem option" where
  "copy_str m p s2 =
     (let m' = m(p := m s2) in if m' p \<noteq> 0 then copy_str m' (p + 1) (s2 + 1) else Some m')"

definition strcpy :: "mem \<Rightarrow> nat \<Rightarrow> nat \<Rightarrow> mem option" where
  "strcpy m s1 s2 = copy_str m s1 s2"

definition strcat :: "mem \<Rightarrow> nat \<Rightarrow> nat \<Rightarrow> mem option" where
  "strcat m s1 s2 = Option.bind (scan_nul m s1) (\<lambda>p. copy_str m p s2)"

fun strncat_loop :: "mem \<Rightarrow> nat \<Rightarrow> nat \<Rightarrow> nat \<Rightarrow> mem" where
  "strncat_loop m p s2 0 = m(p := 0)"
| "strncat_loop m p s2 (Suc left) =
     (if m s2 \<noteq> 0 then strncat_loop (m(p := m s2)) (p + 1) (s2 + 1) left else m(p := 0))"

definition strncat :: "mem \<Rightarrow> nat \<Rightarrow> nat \<Rightarrow> nat \<Rightarrow> mem option" where
  "strncat m s1 s2 n = map_option (\<lambda>p. strncat_loop m p s2 n) (scan_nul m s1)"

text \<open>The first loop of \<^verbatim>\<open>strncpy()\<close> ends at the terminator, with \<^verbatim>\<open>p\<close> still at it; the second one fills.\<close>

fun strncpy_loop :: "mem \<Rightarrow> nat \<Rightarrow> nat \<Rightarrow> nat \<Rightarrow> mem" where
  "strncpy_loop m p s2 0 = m"
| "strncpy_loop m p s2 (Suc left) =
     (let m' = m(p := m s2)
      in if m' s2 = 0 then pad_up m' p 0 (Suc left) else strncpy_loop m' (p + 1) (s2 + 1) left)"

definition strncpy :: "mem \<Rightarrow> nat \<Rightarrow> nat \<Rightarrow> nat \<Rightarrow> mem" where
  "strncpy m s1 s2 n = strncpy_loop m s1 s2 n"

text \<open>The inner loop of \<^verbatim>\<open>strspn()\<close>, \<^verbatim>\<open>strcspn()\<close> and \<^verbatim>\<open>strpbrk()\<close>: does \<^verbatim>\<open>*p1\<close> occur in the string at \<^verbatim>\<open>p2\<close>?\<close>

partial_function (option) among :: "mem \<Rightarrow> byte \<Rightarrow> nat \<Rightarrow> bool option" where
  "among m c p2 = (if m p2 \<noteq> 0 then if c = m p2 then Some True else among m c (p2 + 1) else Some False)"

partial_function (option) strcspn_loop :: "mem \<Rightarrow> nat \<Rightarrow> nat \<Rightarrow> nat \<Rightarrow> nat option" where
  "strcspn_loop m s1 s2 p1 =
     (if m p1 \<noteq> 0 then
        Option.bind (among m (m p1) s2)
          (\<lambda>found. if found then Some (p1 - s1) else strcspn_loop m s1 s2 (p1 + 1))
      else Some (p1 - s1))"

definition strcspn :: "mem \<Rightarrow> nat \<Rightarrow> nat \<Rightarrow> nat option" where
  "strcspn m s1 s2 = strcspn_loop m s1 s2 s1"

partial_function (option) strspn_loop :: "mem \<Rightarrow> nat \<Rightarrow> nat \<Rightarrow> nat \<Rightarrow> nat option" where
  "strspn_loop m s1 s2 p1 =
     (if m p1 \<noteq> 0 then
        Option.bind (among m (m p1) s2)
          (\<lambda>found. if \<not> found then Some (p1 - s1) else strspn_loop m s1 s2 (p1 + 1))
      else Some (p1 - s1))"

definition strspn :: "mem \<Rightarrow> nat \<Rightarrow> nat \<Rightarrow> nat option" where
  "strspn m s1 s2 = strspn_loop m s1 s2 s1"

partial_function (option) strpbrk :: "mem \<Rightarrow> nat \<Rightarrow> nat \<Rightarrow> nat option option" where
  "strpbrk m p1 s2 =
     (if m p1 \<noteq> 0 then
        Option.bind (among m (m p1) s2)
          (\<lambda>found. if found then Some (Some p1) else strpbrk m (p1 + 1) s2)
      else Some None)"

partial_function (option) strstr_match :: "mem \<Rightarrow> nat \<Rightarrow> nat \<Rightarrow> bool option" where
  "strstr_match m p1 p2 =
     (if m p2 \<noteq> 0 \<and> m p1 = m p2 then strstr_match m (p1 + 1) (p2 + 1) else Some (m p2 = 0))"

partial_function (option) strstr_loop :: "mem \<Rightarrow> nat \<Rightarrow> nat \<Rightarrow> nat option option" where
  "strstr_loop m p s2 =
     (if m p \<noteq> 0 then
        if m p = m s2 then
          Option.bind (strstr_match m p s2)
            (\<lambda>found. if found then Some (Some p) else strstr_loop m (p + 1) s2)
        else strstr_loop m (p + 1) s2
      else Some None)"

definition strstr :: "mem \<Rightarrow> nat \<Rightarrow> nat \<Rightarrow> nat option option" where
  "strstr m s1 s2 = (if m s2 = 0 then strchr m s1 (ucast (m s1)) else strstr_loop m s1 s2)"

text \<open>
  \<^verbatim>\<open>strtok()\<close>: the pointer it keeps between calls (in the C run-time anchor, or static) is passed
  in and out; the result is that pointer, the memory and the token.
\<close>

definition strtok :: "mem \<Rightarrow> nat option \<Rightarrow> nat option \<Rightarrow> nat \<Rightarrow> (nat option \<times> mem \<times> nat option) option" where
  "strtok m old s1 s2 =
     (let old = (if s1 \<noteq> None then s1 else old)
      in case old of None \<Rightarrow> Some (None, m, None)
         | Some p \<Rightarrow>
           Option.bind (strspn m p s2) (\<lambda>len.
           Option.bind (strlen m p) (\<lambda>remain.
             if remain \<le> len then Some (None, m, None)
             else
               let p = p + len in
               Option.bind (strcspn m p s2) (\<lambda>len.
               Option.bind (strlen m p) (\<lambda>remain.
                 if remain \<le> len then Some (None, m, Some p)
                 else Some (Some (p + len + 1), m(p + len := 0), Some p))))))"

definition strxfrm :: "mem \<Rightarrow> nat \<Rightarrow> nat \<Rightarrow> nat \<Rightarrow> (nat \<times> mem) option" where
  "strxfrm m s1 s2 n =
     map_option (\<lambda>oldlen. (oldlen,
        if oldlen < n then (memcpy m s1 s2 (of_nat oldlen))(s1 + oldlen := 0) else m)) (strlen m s2)"

section \<open>Strings in memory\<close>

fun str_at :: "mem \<Rightarrow> nat \<Rightarrow> byte list \<Rightarrow> bool" where
  "str_at m p [] \<longleftrightarrow> m p = 0"
| "str_at m p (b # bs) \<longleftrightarrow> b \<noteq> 0 \<and> m p = b \<and> str_at m (p + 1) bs"

lemma str_at_block: "str_at m p bs \<longleftrightarrow> block m p (length bs) = bs \<and> 0 \<notin> set bs \<and> m (p + length bs) = 0"
  by (induction bs arbitrary: p) (auto simp: block_Suc)

lemma str_at_unique: "str_at m p xs \<Longrightarrow> str_at m p ys \<Longrightarrow> xs = ys"
  by (induction xs arbitrary: p ys; case_tac ys) auto

lemma str_at_store: "0 \<notin> set bs \<Longrightarrow> str_at (store m p (bs @ [0])) p bs"
proof -
  assume "0 \<notin> set bs"
  moreover have "block (store m p (bs @ [0])) p (length (bs @ [0])) = bs @ [0]" by (rule block_store)
  then have "block (store m p (bs @ [0])) p (length bs) @ [store m p (bs @ [0]) (p + length bs)] = bs @ [0]"
    by (simp add: block_snoc)
  ultimately show ?thesis by (simp add: str_at_block)
qed

lemma str_at_upd_apart: "a < p \<or> p + length bs < a \<Longrightarrow> str_at (m(a := b)) p bs = str_at m p bs"
  by (auto simp: str_at_block block_upd_apart)

lemma str_at_store_apart: "q + length cs \<le> p \<or> p + length bs < q \<Longrightarrow> str_at (store m q cs) p bs = str_at m p bs"
  by (auto simp: str_at_block block_store_apart store_outside)

lemma str_at_drop: "str_at m p bs \<Longrightarrow> k \<le> length bs \<Longrightarrow> str_at m (p + k) (drop k bs)"
proof (induction k arbitrary: p bs)
  case (Suc k)
  then show ?case using Suc.IH [of "Suc p"] by (cases bs) auto
qed simp

lemma str_at_no_0: "str_at m p bs \<Longrightarrow> 0 \<notin> set bs"
  by (simp add: str_at_block)

lemma scan_nul_eq: "str_at m p bs \<Longrightarrow> scan_nul m p = Some (p + length bs)"
  by (induction bs arbitrary: p) (subst scan_nul.simps, simp)+

lemma strlen_eq: "str_at m s bs \<Longrightarrow> strlen m s = Some (length bs)"
  by (simp add: strlen_def scan_nul_eq)

section \<open>Searching\<close>

lemma strchr_eq:
  "str_at m s bs \<Longrightarrow> strchr m s c = Some (if c = 0 then Some (s + length bs) else first_at s (ucast c) bs)"
proof (induction bs arbitrary: s)
  case Nil
  then show ?case by (subst strchr.simps) simp
next
  case (Cons b bs)
  then show ?case by (subst strchr.simps) (auto simp: first_at_Cons)
qed

lemma strrchr_loop_eq:
  "strrchr_loop m s c k =
     (if c \<in> set (block m s k) then Some (s + (k - 1 - length (takeWhile (\<lambda>b. b \<noteq> c) (rev (block m s k))))) else None)"
  by (induction k) (auto simp: block_snoc)

lemma among_eq: "str_at m p bs \<Longrightarrow> among m c p = Some (c \<in> set bs)"
  by (induction bs arbitrary: p) (subst among.simps, auto)+

lemma strcspn_loop_eq:
  "str_at m s2 ds \<Longrightarrow> str_at m p xs \<Longrightarrow> s1 \<le> p \<Longrightarrow>
     strcspn_loop m s1 s2 p = Some (p - s1 + length (takeWhile (\<lambda>b. b \<notin> set ds) xs))"
  by (induction xs arbitrary: p) (subst strcspn_loop.simps, auto simp: among_eq)+

lemma strspn_loop_eq:
  "str_at m s2 ds \<Longrightarrow> str_at m p xs \<Longrightarrow> s1 \<le> p \<Longrightarrow>
     strspn_loop m s1 s2 p = Some (p - s1 + length (takeWhile (\<lambda>b. b \<in> set ds) xs))"
  by (induction xs arbitrary: p) (subst strspn_loop.simps, auto simp: among_eq)+

lemma span_eqs:
  assumes "str_at m s2 ds" and "str_at m s1 xs"
  shows "strcspn m s1 s2 = Some (length (takeWhile (\<lambda>b. b \<notin> set ds) xs))"
    and "strspn m s1 s2 = Some (length (takeWhile (\<lambda>b. b \<in> set ds) xs))"
  using strcspn_loop_eq [OF assms, of s1] strspn_loop_eq [OF assms, of s1] by (simp_all add: strcspn_def strspn_def)

lemma strpbrk_eq:
  "str_at m s2 ds \<Longrightarrow> str_at m p xs \<Longrightarrow>
     strpbrk m p s2 = Some (if set xs \<inter> set ds = {} then None else Some (p + length (takeWhile (\<lambda>b. b \<notin> set ds) xs)))"
proof (induction xs arbitrary: p)
  case Nil
  then show ?case by (subst strpbrk.simps) simp
next
  case (Cons x xs)
  then show ?case by (subst strpbrk.simps) (auto simp: among_eq)
qed

lemma strstr_match_eq: "str_at m p1 xs \<Longrightarrow> str_at m p2 ys \<Longrightarrow> strstr_match m p1 p2 = Some (prefix ys xs)"
proof (induction ys arbitrary: p1 p2 xs)
  case Nil
  then show ?case by (subst strstr_match.simps) simp
next
  case (Cons y ys)
  then show ?case by (subst strstr_match.simps) (cases xs; auto)
qed

text \<open>The first place from which a string starts with another one.\<close>

fun first_sub :: "nat \<Rightarrow> byte list \<Rightarrow> byte list \<Rightarrow> nat option" where
  "first_sub p ys [] = (if ys = [] then Some p else None)"
| "first_sub p ys (x # xs) = (if prefix ys (x # xs) then Some p else first_sub (Suc p) ys xs)"

lemma first_sub_None: "first_sub p ys xs = None \<longleftrightarrow> \<not> sublist ys xs"
  by (induction p ys xs rule: first_sub.induct) (auto simp: sublist_Cons_right)

lemma first_sub_Some:
  "first_sub p ys xs = Some q \<Longrightarrow>
     \<exists>i. q = p + i \<and> i \<le> length xs \<and> prefix ys (drop i xs) \<and> (\<forall>j < i. \<not> prefix ys (drop j xs))"
proof (induction p ys xs rule: first_sub.induct)
  case (2 p ys x xs)
  show ?case
  proof (cases "prefix ys (x # xs)")
    case True
    with 2 show ?thesis by auto
  next
    case False
    with 2 obtain i where "q = Suc p + i" "i \<le> length xs" "prefix ys (drop i xs)" "\<forall>j < i. \<not> prefix ys (drop j xs)"
      by auto
    then show ?thesis using False by (intro exI [of _ "Suc i"]) (auto simp: less_Suc_eq_0_disj)
  qed
qed (auto split: if_splits)

lemma strstr_eq:
  assumes s2: "str_at m s2 ys" and s1: "str_at m s1 xs"
  shows "strstr m s1 s2 = Some (first_sub s1 ys xs)"
proof (cases ys)
  case Nil
  have "ucast (ucast (m s1) :: i32) = m s1" by (rule bit_word_eqI) (simp add: bit_simps)
  then have "strchr m s1 (ucast (m s1)) = Some (Some s1)" by (subst strchr.simps) auto
  then show ?thesis using Nil s2 by (cases xs) (simp_all add: strstr_def)
next
  case (Cons y ys')
  have "strstr_loop m p s2 = Some (first_sub p ys xs)" if "str_at m p xs" for p
    using that
  proof (induction xs arbitrary: p)
    case Nil
    then show ?case using Cons by (subst strstr_loop.simps) simp
  next
    case (Cons x xs)
    then have "strstr_match m p s2 = Some (prefix ys (x # xs))" using s2 by (intro strstr_match_eq) auto
    moreover have "x \<noteq> y \<Longrightarrow> \<not> prefix ys (x # xs)" using \<open>ys = y # ys'\<close> by simp
    ultimately show ?case using Cons s2 \<open>ys = y # ys'\<close> by (subst strstr_loop.simps) auto
  qed
  then show ?thesis using s1 s2 Cons by (simp add: strstr_def)
qed


section \<open>Comparing\<close>

text \<open>
  All the comparisons go through two strings byte by byte and differ in the key they compare:
  the byte itself, or its lower-case letter.  The key keeps the terminator apart.
\<close>

locale byte_key =
  fixes key :: "byte \<Rightarrow> byte"
  assumes key_0: "key b = 0 \<longleftrightarrow> b = 0"

locale string_order = byte_key +
  fixes cmp :: "mem \<Rightarrow> nat \<Rightarrow> nat \<Rightarrow> int option"
  assumes cmp_step: "cmp m p1 p2 =
    (if m p1 \<noteq> 0 then
       if key (m p1) < key (m p2) then Some (- 1)
       else if key (m p1) > key (m p2) then Some 1
       else cmp m (p1 + 1) (p2 + 1)
     else if m p2 = 0 then Some 0 else Some (- 1))"
begin

lemma cmp_eq: "str_at m p1 xs \<Longrightarrow> str_at m p2 ys \<Longrightarrow> cmp m p1 p2 = Some (cmp3 (map key xs) (map key ys))"
proof (induction xs arbitrary: p1 p2 ys)
  case Nil
  then show ?case by (subst cmp_step) (cases ys; simp)
next
  case (Cons x xs)
  show ?case
  proof (cases ys)
    case Nil
    have "\<not> key x < 0" by (simp add: word_less_alt)
    then show ?thesis
      using Cons.prems Nil key_0 [of 0] key_0 [of x] by (subst cmp_step) (simp add: word_gt_0)
  next
    case (Cons y ys')
    then show ?thesis using Cons.prems Cons.IH [of "p1 + 1" "p2 + 1" ys'] by (subst cmp_step) simp
  qed
qed

lemma cmp_total_order:
  assumes "str_at m p xs" "str_at m q ys" "str_at m r zs"
  shows "(cmp m p q = Some 0 \<longleftrightarrow> map key xs = map key ys) \<and> cmp m q p = map_option uminus (cmp m p q) \<and>
    (the (cmp m p q) \<le> 0 \<longrightarrow> the (cmp m q r) \<le> 0 \<longrightarrow> the (cmp m p r) \<le> 0)"
  using assms cmp3_trans [of "map key xs" "map key ys" "map key zs"] cmp3_swap [of "map key ys" "map key xs"]
  by (simp add: cmp_eq cmp3_eq_0)

end

locale counted_order = byte_key +
  fixes ncmp :: "mem \<Rightarrow> nat \<Rightarrow> nat \<Rightarrow> nat \<Rightarrow> nat \<Rightarrow> int"
  assumes ncmp_0: "ncmp m p1 p2 x 0 = 0"
    and ncmp_Suc: "ncmp m p1 p2 x (Suc left) =
      (if key (m (p1 + x)) < key (m (p2 + x)) then - 1
       else if key (m (p1 + x)) > key (m (p2 + x)) then 1
       else if key (m (p1 + x)) = 0 then 0
       else ncmp m p1 p2 (x + 1) left)"
begin

lemma ncmp_eq:
  "str_at m (p1 + x) xs \<Longrightarrow> str_at m (p2 + x) ys \<Longrightarrow>
     ncmp m p1 p2 x n = cmp3 (map key (take n xs)) (map key (take n ys))"
proof (induction n arbitrary: x xs ys)
  case 0
  show ?case by (simp add: ncmp_0)
next
  case (Suc n)
  have k: "key 0 = 0" "\<And>b. b \<noteq> 0 \<Longrightarrow> 0 < key b" "\<And>b. b \<noteq> 0 \<Longrightarrow> key b \<noteq> 0" using key_0 by (auto simp: word_gt_0)
  have ns: "\<And>b. \<not> key b < 0" by (simp add: word_less_alt)
  show ?case
    using Suc.prems Suc.IH [of "x + 1" "tl xs" "tl ys"]
    by (cases xs; cases ys) (auto simp: ncmp_Suc k ns)
qed

end

lemma tolow_byte_codes: "tolow_byte b = (if upper_code (uint b) then b - 0x40 else b)"
proof -
  have b: "- 1 \<le> uint b" "uint b \<le> 255" using unat8_lt [of b] uint_nat [of b] by linarith+
  then have "tolow_byte b = word_of_int (if upper_code (uint b) then uint b - 0x40 else uint b)"
    by (simp add: tolow_byte_def tolower_codes)
  then show ?thesis by (cases "upper_code (uint b)") simp_all
qed

lemma tolow_byte_0: "tolow_byte b = 0 \<longleftrightarrow> b = 0"
proof -
  have "\<not> upper_code (uint (0x40 :: byte))" "\<not> upper_code (uint (0 :: byte))" by (simp_all add: upper_code_def)
  then show ?thesis by (auto simp: tolow_byte_codes)
qed

interpretation plain: string_order "\<lambda>b. b" strcmp
  by unfold_locales (simp, subst strcmp.simps, simp)

interpretation folded: string_order tolow_byte strcasecmp
  by unfold_locales (rule tolow_byte_0, subst strcasecmp.simps, simp)

interpretation plain_n: counted_order "\<lambda>b. b" strncmp_loop
  by unfold_locales simp_all

interpretation folded_n: counted_order tolow_byte strncasecmp_loop
  by unfold_locales (simp_all add: tolow_byte_0)

lemma strncmp_eq:
  assumes "str_at m s1 xs" and "str_at m s2 ys"
  shows "strncmp m s1 s2 n = cmp3 (take n xs) (take n ys)"
  using plain_n.ncmp_eq [of m s1 0 xs s2 ys n] assms by (simp add: strncmp_def)

lemma strncasecmp_eq:
  assumes "str_at m s1 xs" and "str_at m s2 ys"
  shows "strncasecmp m s1 s2 n = cmp3 (map tolow_byte (take n xs)) (map tolow_byte (take n ys))"
  using folded_n.ncmp_eq [of m s1 0 xs s2 ys n] assms by (simp add: strncasecmp_def)


section \<open>Copying\<close>

lemma copy_str_eq:
  "str_at m s xs \<Longrightarrow> p \<le> s \<or> s + length xs < p \<Longrightarrow> copy_str m p s = Some (store m p (xs @ [0]))"
proof (induction xs arbitrary: m p s)
  case Nil
  then show ?case by (subst copy_str.simps) (simp add: store_Cons')
next
  case (Cons x xs)
  then have "str_at (m(p := m s)) (s + 1) xs" by (subst str_at_upd_apart) auto
  then have "copy_str (m(p := m s)) (p + 1) (s + 1) = Some (store (m(p := m s)) (p + 1) (xs @ [0]))"
    by (rule Cons.IH) (use Cons.prems in auto)
  then show ?case using Cons.prems by (subst copy_str.simps) (simp add: store_Cons' Let_def)
qed

lemma strncat_loop_eq:
  "str_at m s ys \<Longrightarrow> p \<le> s \<or> s + length ys < p \<Longrightarrow> strncat_loop m p s n = store m p (take n ys @ [0])"
proof (induction n arbitrary: m p s ys)
  case 0
  show ?case by (simp add: store_Cons')
next
  case (Suc n)
  show ?case
  proof (cases ys)
    case Nil
    then show ?thesis using Suc.prems by (simp add: store_Cons')
  next
    case (Cons y ys')
    then have "str_at (m(p := m s)) (s + 1) ys'" using Suc.prems by (subst str_at_upd_apart) auto
    then have "strncat_loop (m(p := m s)) (p + 1) (s + 1) n = store (m(p := m s)) (p + 1) (take n ys' @ [0])"
      by (rule Suc.IH) (use Cons Suc.prems in auto)
    then show ?thesis using Cons Suc.prems by (simp add: store_Cons')
  qed
qed

lemma strncpy_loop_eq:
  "str_at m s xs \<Longrightarrow> p \<le> s \<or> s + length xs < p \<Longrightarrow>
     strncpy_loop m p s n = store m p (take n xs @ replicate (n - length xs) 0)"
proof (induction n arbitrary: m p s xs)
  case (Suc n)
  show ?case
  proof (cases xs)
    case Nil
    have "m(p := 0, p := b) = m(p := b)" for b by simp
    then show ?thesis using Suc.prems Nil by (simp add: pad_up_eq store_Cons')
  next
    case (Cons x xs')
    then have "str_at (m(p := m s)) (s + 1) xs'" using Suc.prems by (subst str_at_upd_apart) auto
    then have "strncpy_loop (m(p := m s)) (p + 1) (s + 1) n =
        store (m(p := m s)) (p + 1) (take n xs' @ replicate (n - length xs') 0)"
      by (rule Suc.IH) (use Cons Suc.prems in auto)
    moreover have "(m(p := m s)) s \<noteq> 0" using Cons Suc.prems by auto
    ultimately show ?thesis using Cons Suc.prems by (simp add: store_Cons' Let_def)
  qed
qed simp

lemma str_at_append_store:
  assumes "str_at m s1 xs" and "0 \<notin> set ys"
  shows "str_at (store m (s1 + length xs) (ys @ [0])) s1 (xs @ ys)"
  using assms(1)
proof (induction xs arbitrary: s1)
  case Nil
  then show ?case using str_at_store [OF assms(2)] by simp
next
  case (Cons x xs)
  then show ?case using Cons.IH [of "s1 + 1"] by (auto simp: store_outside)
qed

lemma strcat_eqs:
  assumes s1: "str_at m s1 xs" and s2: "str_at m s2 ys"
    and "s1 + length xs \<le> s2 \<or> s2 + length ys < s1 + length xs"
  shows "strcat m s1 s2 = Some (store m (s1 + length xs) (ys @ [0]))"
    and "strncat m s1 s2 n = Some (store m (s1 + length xs) (take n ys @ [0]))"
  using assms by (simp_all add: strcat_def strncat_def scan_nul_eq copy_str_eq strncat_loop_eq)

section \<open>Tokens\<close>

text \<open>The maximal runs of bytes that are no delimiters, from left to right.\<close>

function tokens :: "byte set \<Rightarrow> byte list \<Rightarrow> byte list list" where
  "tokens D xs =
     (let rest = dropWhile (\<lambda>b. b \<in> D) xs
      in if rest = [] then []
         else takeWhile (\<lambda>b. b \<notin> D) rest # tokens D (dropWhile (\<lambda>b. b \<notin> D) rest))"
  by pat_completeness auto
termination
proof (relation "measure (\<lambda>(D, xs). length xs)")
  fix D :: "byte set" and xs rest
  assume r: "rest = dropWhile (\<lambda>b. b \<in> D) xs" "rest \<noteq> []"
  then have "hd rest \<notin> D" using hd_dropWhile [of "\<lambda>b. b \<in> D" xs] by simp
  then have "length (dropWhile (\<lambda>b. b \<notin> D) rest) < length rest"
    using r(2) length_dropWhile_le [of "\<lambda>b. b \<notin> D" "tl rest"] by (cases rest) auto
  also have "\<dots> \<le> length xs" unfolding r(1) by (rule length_dropWhile_le)
  finally show "((D, dropWhile (\<lambda>b. b \<notin> D) rest), D, xs) \<in> measure (\<lambda>(D, xs). length xs)" by simp
qed simp

declare tokens.simps [simp del]

lemma tokens_Nil [simp]: "tokens D [] = []"
  by (simp add: tokens.simps)

lemma tokens_delimiter: "d \<in> D \<Longrightarrow> tokens D (d # xs) = tokens D xs"
  by (subst (1 2) tokens.simps) simp

lemma tokens_dropWhile: "tokens D xs =
    (if dropWhile (\<lambda>b. b \<in> D) xs = [] then []
     else takeWhile (\<lambda>b. b \<notin> D) (dropWhile (\<lambda>b. b \<in> D) xs) #
          tokens D (tl (dropWhile (\<lambda>b. b \<notin> D) (dropWhile (\<lambda>b. b \<in> D) xs))))"
proof -
  define r where "r = dropWhile (\<lambda>b. b \<notin> D) (dropWhile (\<lambda>b. b \<in> D) xs)"
  have "r \<noteq> [] \<Longrightarrow> hd r \<in> D" unfolding r_def using hd_dropWhile [of "\<lambda>b. b \<notin> D"] by blast
  then have "tokens D (tl r) = tokens D r" by (cases r) (simp_all add: tokens_delimiter)
  then show ?thesis by (subst tokens.simps) (simp add: Let_def r_def)
qed

lemma str_at_cong:
  "(\<And>a. p \<le> a \<Longrightarrow> a \<le> p + length bs \<Longrightarrow> m' a = m a) \<Longrightarrow> str_at m' p bs = str_at m p bs"
proof (induction bs arbitrary: p)
  case (Cons b bs)
  have "str_at m' (p + 1) bs = str_at m (p + 1) bs" by (rule Cons.IH) (use Cons.prems in auto)
  then show ?case using Cons.prems [of p] by auto
qed simp

lemma takeWhile_length_eq: "takeWhile P xs = take (length (takeWhile P xs)) xs" "dropWhile P xs = drop (length (takeWhile P xs)) xs"
  by (rule takeWhile_eq_take, rule dropWhile_eq_drop)

lemma str_at_cut:
  assumes "str_at m q xs" and "j \<le> length xs"
  shows "str_at (m(q + j := 0)) q (take j xs)"
  using assms
proof (induction j arbitrary: q xs)
  case (Suc j)
  then show ?case using Suc.IH [of "q + 1" "tl xs"] by (cases xs) auto
qed simp

lemma strtok_none:
  assumes start: "(if s1 \<noteq> None then s1 else old) = Some p" and x: "str_at m p xs" and d: "str_at m s2 ds"
    and "tokens (set ds) xs = []"
  shows "strtok m old s1 s2 = Some (None, m, None)"
proof -
  have "dropWhile (\<lambda>b. b \<in> set ds) xs = []" using assms(4) by (subst (asm) tokens_dropWhile) (simp split: if_splits)
  then have "length (takeWhile (\<lambda>b. b \<in> set ds) xs) = length xs"
    using takeWhile_dropWhile_id [of "\<lambda>b. b \<in> set ds" xs] by (metis append_Nil2)
  then show ?thesis unfolding strtok_def Let_def start using x d by (simp add: span_eqs strlen_eq)
qed

lemma strtok_some:
  assumes start: "(if s1 \<noteq> None then s1 else old) = Some p" and x: "str_at m p xs" and d: "str_at m s2 ds"
    and tk: "tokens (set ds) xs = t # ts"
  obtains q m' old' where "strtok m old s1 s2 = Some (old', m', Some q)" "str_at m' q t" "p \<le> q" "q + length t \<le> p + length xs"
    "\<And>a. a < p \<or> p + length xs \<le> a \<Longrightarrow> m' a = m a"
    "old' = None \<and> ts = [] \<or>
       (\<exists>ys. old' = Some (q + length t + 1) \<and> str_at m' (q + length t + 1) ys \<and> tokens (set ds) ys = ts \<and>
             q + length t + 1 + length ys = p + length xs)"
proof -
  let ?D = "set ds"
  define k where "k = length (takeWhile (\<lambda>b. b \<in> ?D) xs)"
  define rest where "rest = dropWhile (\<lambda>b. b \<in> ?D) xs"
  define j where "j = length (takeWhile (\<lambda>b. b \<notin> ?D) rest)"
  have rest: "rest = drop k xs" "k \<le> length xs"
    using takeWhile_length_eq [of "\<lambda>b. b \<in> ?D" xs] by (simp_all add: rest_def k_def length_takeWhile_le)
  have tw: "takeWhile (\<lambda>b. b \<notin> ?D) rest = take j rest" "dropWhile (\<lambda>b. b \<notin> ?D) rest = drop j rest"
    unfolding j_def by (rule takeWhile_length_eq)+
  have "(if rest = [] then [] else take j rest # tokens ?D (tl (drop j rest))) = t # ts"
    using tk by (simp only: tokens_dropWhile [of ?D xs] rest_def [symmetric] tw)
  then have t: "rest \<noteq> []" "t = take j rest" "ts = tokens ?D (tl (drop j rest))"
    by (simp_all split: if_splits)
  have t4: "j \<le> length rest" by (simp add: j_def length_takeWhile_le)
  have "k < length xs" using t(1) rest by simp
  have q: "str_at m (p + k) rest" using str_at_drop [OF x rest(2)] rest(1) by simp
  note calls = span_eqs [OF d x] span_eqs [OF d q] strlen_eq [OF x] strlen_eq [OF q]
  have lr: "length rest + k = length xs" using rest by simp
  show thesis
  proof (cases "j = length rest")
    case True
    have s: "strtok m old s1 s2 = Some (None, m, Some (p + k))"
      unfolding strtok_def Let_def start using \<open>k < length xs\<close> True by (simp add: calls k_def [symmetric] j_def [symmetric])
    have "ts = []" "t = rest" using t True by simp_all
    then show thesis by (intro that [OF s]) (use q lr in auto)
  next
    case False
    let ?m = "m(p + k + j := 0)"
    have s: "strtok m old s1 s2 = Some (Some (p + k + j + 1), ?m, Some (p + k))"
      unfolding strtok_def Let_def start using \<open>k < length xs\<close> t4 False
      by (simp add: calls k_def [symmetric] j_def [symmetric])
    have lt: "length t = j" using t t4 by simp
    have tl: "tl (drop j rest) = drop (Suc j) rest" by (simp add: drop_Suc drop_tl)
    have "str_at ?m (p + k + j + 1) (drop (Suc j) rest)"
      using str_at_drop [OF q, of "Suc j"] t4 False by (subst str_at_upd_apart) auto
    moreover have "str_at ?m (p + k) t" unfolding t(2) by (rule str_at_cut [OF q t4])
    ultimately show thesis
      by (intro that [OF s]) (use t(3) t4 lr lt tl False in auto)
  qed
qed


text \<open>A first call with the string and \<open>n\<close> more with a null pointer.\<close>

fun strtok_calls :: "nat \<Rightarrow> mem \<Rightarrow> nat option \<Rightarrow> nat option \<Rightarrow> nat \<Rightarrow> (nat option list \<times> mem \<times> nat option) option" where
  "strtok_calls 0 m old s1 s2 = Some ([], m, old)"
| "strtok_calls (Suc n) m old s1 s2 =
     Option.bind (strtok m old s1 s2)
       (\<lambda>(old', m', r). map_option (\<lambda>(rs, z). (r # rs, z)) (strtok_calls n m' old' None s2))"

lemma strtok_calls_eq:
  assumes "(if s1 \<noteq> None then s1 else old) = Some p" and "str_at m p xs" and "str_at m s2 ds"
    and "s2 + length ds < p \<or> p + length xs < s2" and "tokens (set ds) xs = ts"
  shows "\<exists>qs m'. strtok_calls (Suc (length ts)) m old s1 s2 = Some (map Some qs @ [None], m', None) \<and>
    list_all2 (str_at m') qs ts \<and> (\<forall>a. a < p \<or> p + length xs \<le> a \<longrightarrow> m' a = m a)"
  using assms
proof (induction ts arbitrary: m old s1 p xs)
  case Nil
  have "strtok m old s1 s2 = Some (None, m, None)" by (rule strtok_none [OF Nil(1,2,3,5)])
  then show ?case by simp
next
  case (Cons t ts)
  obtain q m1 old1 where st: "strtok m old s1 s2 = Some (old1, m1, Some q)" and tok: "str_at m1 q t"
    and q: "p \<le> q" "q + length t \<le> p + length xs"
    and frame: "\<And>a. a < p \<or> p + length xs \<le> a \<Longrightarrow> m1 a = m a"
    and next_state: "old1 = None \<and> ts = [] \<or>
       (\<exists>ys. old1 = Some (q + length t + 1) \<and> str_at m1 (q + length t + 1) ys \<and> tokens (set ds) ys = ts \<and>
             q + length t + 1 + length ys = p + length xs)"
    by (rule strtok_some [OF Cons.prems(1,2,3,5)]) (rule that; assumption)
  from next_state show ?case
  proof (elim disjE exE conjE)
    assume "old1 = None" "ts = []"
    moreover have "strtok m1 None None s2 = Some (None, m1, None)" by (simp add: strtok_def)
    ultimately show ?thesis
      using st tok frame by (intro exI [of _ "[q]"] exI [of _ m1]) simp
  next
    fix ys
    let ?p = "q + length t + 1"
    assume o: "old1 = Some ?p" and y: "str_at m1 ?p ys" "tokens (set ds) ys = ts" "?p + length ys = p + length xs"
    have d: "str_at m1 s2 ds" using Cons.prems(3,4) by (subst str_at_cong [of _ _ m1 m]) (use frame in auto)
    have apart: "s2 + length ds < ?p \<or> ?p + length ys < s2" using Cons.prems(4) q y(3) by linarith
    have start: "(if None \<noteq> None then None else old1) = Some ?p" using o by simp
    obtain qs m2 where c: "strtok_calls (Suc (length ts)) m1 old1 None s2 = Some (map Some qs @ [None], m2, None)"
        "list_all2 (str_at m2) qs ts" "\<And>a. a < ?p \<or> ?p + length ys \<le> a \<Longrightarrow> m2 a = m1 a"
      using Cons.IH [OF start y(1) d apart y(2)] by blast
    have "str_at m2 q t" using tok by (subst str_at_cong [of _ _ m2 m1]) (use c(3) in auto)
    moreover have "m2 a = m a" if "a < p \<or> p + length xs \<le> a" for a
    proof -
      have "a < ?p \<or> ?p + length ys \<le> a" using that q y(3) by linarith
      then show ?thesis using c(3) [of a] frame [OF that] by simp
    qed
    ultimately show ?thesis
      using st c(1,2) by (intro exI [of _ "q # qs"] exI [of _ m2])
        (simp only: strtok_calls.simps(2) [of "Suc (length ts)"] list.size add_0_right add_Suc_right Option.bind.simps
          option.map prod.case list.map append_Cons list.rel_inject simp_thms, blast)
  qed
qed


section \<open>Properties\<close>

text \<open>
  \<^verbatim>\<open>strcmp()\<close>, \<^verbatim>\<open>strcoll()\<close> and \<^verbatim>\<open>strcasecmp()\<close> return on all strings, and the result is the
  three-way comparison in dictionary order, of the bytes or of their lower-case letters; the
  counted versions compare the first \<^verbatim>\<open>n\<close> bytes.
\<close>

theorem string_comparisons:
  assumes "str_at m s1 xs" and "str_at m s2 ys"
  shows "strcmp m s1 s2 = Some (cmp3 xs ys) \<and> strcoll m s1 s2 = Some (cmp3 xs ys) \<and>
    strcasecmp m s1 s2 = Some (cmp3 (map tolow_byte xs) (map tolow_byte ys)) \<and>
    strncmp m s1 s2 n = cmp3 (take n xs) (take n ys) \<and>
    strncasecmp m s1 s2 n = cmp3 (map tolow_byte (take n xs)) (map tolow_byte (take n ys))"
  using plain.cmp_eq [OF assms] folded.cmp_eq [OF assms] strncmp_eq [OF assms] strncasecmp_eq [OF assms]
  by (simp add: strcoll_def)

theorem string_comparisons_witness:
  "strcmp (store (\<lambda>a. 0) 8 [0xC1, 0xC2]) 8 20 = Some 1"
  using string_comparisons [of "store (\<lambda>a. 0) 8 [0xC1, 0xC2]" 8 "[0xC1, 0xC2]" 20 "[]" 0] by (simp add: store_Cons)

text \<open>
  On three strings in memory \<^verbatim>\<open>strcasecmp()\<close> is a total preorder whose ties are the strings
  that differ in the case of their letters only.
\<close>

lemma strcasecmp_preorder:
  assumes "str_at m p xs" "str_at m q ys" "str_at m r zs"
  shows "(strcasecmp m p q = Some 0 \<longleftrightarrow> map tolow_byte xs = map tolow_byte ys) \<and>
    strcasecmp m q p = map_option uminus (strcasecmp m p q) \<and>
    (the (strcasecmp m p q) \<le> 0 \<longrightarrow> the (strcasecmp m q r) \<le> 0 \<longrightarrow> the (strcasecmp m p r) \<le> 0)"
  by (rule folded.cmp_total_order [OF assms])

text \<open>
  The searches return what the C standard says of the string in memory: its length, the
  first place of a byte, the length of the longest prefix in or outside a set, the first byte of a set,
  and the first place where one string occurs in another, or a null pointer when it does not.
\<close>

theorem string_searches:
  assumes "str_at m s1 xs" and "str_at m s2 ys"
  shows "strlen m s1 = Some (length xs) \<and>
    strchr m s1 c = Some (if c = 0 then Some (s1 + length xs) else first_at s1 (ucast c) xs) \<and>
    strspn m s1 s2 = Some (length (takeWhile (\<lambda>b. b \<in> set ys) xs)) \<and>
    strcspn m s1 s2 = Some (length (takeWhile (\<lambda>b. b \<notin> set ys) xs)) \<and>
    strpbrk m s1 s2 = Some (if set xs \<inter> set ys = {} then None
                            else Some (s1 + length (takeWhile (\<lambda>b. b \<notin> set ys) xs))) \<and>
    (strstr m s1 s2 = Some None \<longleftrightarrow> \<not> sublist ys xs) \<and>
    (\<forall>q. strstr m s1 s2 = Some (Some q) \<longrightarrow> (\<exists>i. q = s1 + i \<and> prefix ys (drop i xs) \<and> (\<forall>j < i. \<not> prefix ys (drop j xs))))"
  using strlen_eq [OF assms(1)] strchr_eq [OF assms(1)] span_eqs [OF assms(2,1)] strpbrk_eq [OF assms(2,1)]
    strstr_eq [OF assms(2,1)] first_sub_None [of s1 ys xs] first_sub_Some [of s1 ys xs]
  by auto

theorem string_searches_witness:
  "strstr (store (store (\<lambda>a. 0) 8 [0xC1, 0xC2]) 20 [0xC3]) 8 20 = Some None"
proof -
  let ?m = "store (store (\<lambda>a. 0) 8 [0xC1, 0xC2]) 20 [0xC3] :: mem"
  have "str_at ?m 8 [0xC1, 0xC2]" "str_at ?m 20 [0xC3]" by (simp_all add: store_Cons)
  then show ?thesis using string_searches [of ?m 8 "[0xC1, 0xC2]" 20 "[0xC3]" 0] by (simp add: sublist_Cons_right)
qed

text \<open>
  \<^verbatim>\<open>strcpy()\<close>, \<^verbatim>\<open>strcat()\<close>, \<^verbatim>\<open>strncat()\<close> and \<^verbatim>\<open>strncpy()\<close> return and change the target bytes they
  are given and nothing else: the copy, or the appended part, with its terminator, and for \<^verbatim>\<open>strncpy()\<close>
  exactly \<^verbatim>\<open>n\<close> bytes, filled with zeros and without a terminator when the source is as long as \<^verbatim>\<open>n\<close>.
\<close>

theorem string_copies:
  assumes "str_at m s1 xs" and "str_at m s2 ys" and "s1 + length xs < s2 \<or> s2 + length ys < s1"
  shows "strcpy m s1 s2 = Some (store m s1 (ys @ [0])) \<and>
    strcat m s1 s2 = Some (store m (s1 + length xs) (ys @ [0])) \<and>
    strncat m s1 s2 n = Some (store m (s1 + length xs) (take n ys @ [0])) \<and>
    strncpy m s1 s2 n = store m s1 (take n ys @ replicate (n - length ys) 0) \<and>
    str_at (store m (s1 + length xs) (ys @ [0])) s1 (xs @ ys)"
proof -
  have "s1 \<le> s2 \<or> s2 + length ys < s1" "s1 + length xs \<le> s2 \<or> s2 + length ys < s1 + length xs"
    using assms(3) by auto
  moreover have "0 \<notin> set ys" by (rule str_at_no_0 [OF assms(2)])
  ultimately show ?thesis
    using copy_str_eq [OF assms(2)] strcat_eqs [OF assms(1,2)] strncpy_loop_eq [OF assms(2)]
      str_at_append_store [OF assms(1)] by (simp add: strcpy_def strncpy_def)
qed

theorem string_copies_witness:
  "strncpy (store (\<lambda>a. 0) 20 [0xC3]) 8 20 3 = store (store (\<lambda>a. 0) 20 [0xC3]) 8 [0xC3, 0, 0]"
proof -
  let ?m = "store (\<lambda>a. 0) 20 [0xC3] :: mem"
  have "str_at ?m 8 []" "str_at ?m 20 [0xC3]" by (simp_all add: store_Cons)
  then show ?thesis using string_copies [of ?m 8 "[]" 20 "[0xC3]" 3] by (simp add: numeral_eq_Suc)
qed

text \<open>
  C12: a call of \<^verbatim>\<open>strtok()\<close> with a string and further calls with a null pointer return, one after
  the other, the maximal runs of characters that are no delimiters, each one terminated in
  place, and then a null pointer; nothing outside the string is changed.
\<close>

theorem strtok_tokens:
  assumes "str_at m p xs" and "str_at m s2 ds" and "s2 + length ds < p \<or> p + length xs < s2"
  shows "\<exists>qs m'. strtok_calls (Suc (length (tokens (set ds) xs))) m old (Some p) s2 = Some (map Some qs @ [None], m', None) \<and>
    list_all2 (str_at m') qs (tokens (set ds) xs) \<and> (\<forall>a. a < p \<or> p + length xs \<le> a \<longrightarrow> m' a = m a)"
  by (rule strtok_calls_eq) (use assms in auto)

theorem strtok_tokens_witness:
  "\<exists>qs m'. strtok_calls 3 (store (store (\<lambda>a. 0) 8 [0xC1, 0x6B, 0x6B, 0xC2, 0x6B]) 20 [0x6B]) None (Some 8) 20 =
      Some (map Some qs @ [None], m', None) \<and> list_all2 (str_at m') qs [[0xC1], [0xC2]]"
proof -
  let ?m = "store (store (\<lambda>a. 0) 8 [0xC1, 0x6B, 0x6B, 0xC2, 0x6B]) 20 [0x6B] :: mem"
  have "str_at ?m 8 [0xC1, 0x6B, 0x6B, 0xC2, 0x6B]" "str_at ?m 20 [0x6B]" by (simp_all add: store_Cons)
  moreover have "tokens {0x6B} [0xC1, 0x6B, 0x6B, 0xC2, 0x6B] = [[0xC1], [0xC2]]" by (simp add: tokens.simps)
  ultimately show ?thesis
    using strtok_tokens [of ?m 8 "[0xC1, 0x6B, 0x6B, 0xC2, 0x6B]" 20 "[0x6B]" None] by (auto simp: numeral_eq_Suc)
qed

end
