(* ===== verification/Int64_Str.thy ===== *)
theory Int64_Str
  imports Int64_Arith Cstring
begin

text \<open>
  The conversions of the 64-bit objects from and to text (\<^verbatim>\<open>src/ext/int64/@@64fstr.c\<close>, \<^verbatim>\<open>@@64tstr.c\<close>), in EBCDIC.  The
  value read is the number of the digits modulo 2 to the 64; what is printed reads back.
\<close>

section \<open>Definitions\<close>

text \<open>\<^verbatim>\<open>"01"\<close>, \<^verbatim>\<open>"0123456789"\<close> and \<^verbatim>\<open>"0123456789abcdef"\<close>.\<close>

definition binary :: "byte list" where "binary = [0xF0, 0xF1]"

definition decimal :: "byte list" where
  "decimal = [0xF0, 0xF1, 0xF2, 0xF3, 0xF4, 0xF5, 0xF6, 0xF7, 0xF8, 0xF9]"

definition hexstr :: "byte list" where
  "hexstr = [0xF0, 0xF1, 0xF2, 0xF3, 0xF4, 0xF5, 0xF6, 0xF7, 0xF8, 0xF9, 0x81, 0x82, 0x83, 0x84, 0x85, 0x86]"

text \<open>\<^verbatim>\<open>p - table\<close> for \<^verbatim>\<open>p = strchr(table, c)\<close>; the character is not 0 here.\<close>

fun chr_index :: "byte list \<Rightarrow> byte \<Rightarrow> nat option" where
  "chr_index [] c = None"
| "chr_index (b # bs) c = (if b = c then Some 0 else map_option Suc (chr_index bs c))"

partial_function (option) skip_blank :: "mem \<Rightarrow> nat \<Rightarrow> nat option" where
  "skip_blank m str = (if m str = 0x40 then skip_blank m (str + 1) else Some str)"

definition pick_table :: "mem \<Rightarrow> nat \<Rightarrow> byte list \<times> i32 \<times> nat" where
  "pick_table m str =
     (if m str = 0xF0 \<and> m (str + 1) = 0xA7 then (hexstr, 16, str + 2)
      else if m str = 0xF0 \<and> m (str + 1) = 0x82 then (binary, 2, str + 2)
      else (decimal, 10, str))"

partial_function (option) from_loop :: "mem \<Rightarrow> byte list \<Rightarrow> int64 \<Rightarrow> nat \<Rightarrow> int64 \<Rightarrow> int64 option" where
  "from_loop m table base str n =
     (if m str = 0 then Some n
      else
        let c = tolow_byte (m str)
        in (case chr_index table c of
              None \<Rightarrow> Some n
            | Some tmp \<Rightarrow> from_loop m table base (str + 1) (i64_add_u32 (i64_mul n base) (of_nat tmp))))"

definition i64_from_string :: "mem \<Rightarrow> nat \<Rightarrow> int64 option" where
  "i64_from_string m str =
     Option.bind (skip_blank m str) (\<lambda>str.
       let (table, base, str) = pick_table m str
       in from_loop m table (i64_from_i32 base) str i64_init)"

text \<open>The digits in \<^verbatim>\<open>work\<close>, the lowest first.\<close>

function to_loop :: "int64 \<Rightarrow> int64 \<Rightarrow> int \<Rightarrow> int \<Rightarrow> byte list" where
  "to_loop tmp base x nbytes =
     (if \<not> i64_is_zero tmp \<and> x < nbytes then
        let (tmp, rem) = i64_divmod tmp base;
            u = arr rem LAST64
        in decimal ! unat u # to_loop tmp base (x + 1) nbytes
      else [])"
  by pat_completeness auto

termination
  by (relation "measure (\<lambda>(tmp, base, x, nbytes). nat (nbytes - x))") auto

declare to_loop.simps [simp del]

fun put_chars :: "mem \<Rightarrow> nat \<Rightarrow> int \<Rightarrow> int \<Rightarrow> byte list \<Rightarrow> mem \<times> int" where
  "put_chars m str i nbytes [] = (m, i)"
| "put_chars m str i nbytes (b # bs) =
     (if i < nbytes then put_chars (m(str + nat i := b)) str (i + 1) nbytes bs else (m, i))"

definition i64_to_string :: "mem \<Rightarrow> int64 \<Rightarrow> nat \<Rightarrow> int \<Rightarrow> mem" where
  "i64_to_string m n str nbytes =
     (let work = to_loop (i64_copy n) (i64_from_i32 10) 0 nbytes;
          (m, i) = (if length work = 0 then (if 0 < nbytes then (m(str := 0xF0), 1) else (m, 0))
                    else put_chars m str 0 nbytes (rev work))
      in if i < nbytes then m(str + nat i := 0) else m)"

section \<open>Reading\<close>

lemma chr_index_lt: "chr_index table c = Some k \<Longrightarrow> k < length table"
  by (induction table arbitrary: k) (auto split: if_splits)

lemma chr_index_nth: "distinct table \<Longrightarrow> k < length table \<Longrightarrow> chr_index table (table ! k) = Some k"
  by (induction table arbitrary: k) (auto simp: nth_Cons split: nat.split)

text \<open>The value of a digit, letters in either case, and of a number.\<close>

definition digit_in :: "byte list \<Rightarrow> byte \<Rightarrow> nat option" where
  "digit_in table c = chr_index table (tolow_byte c)"

definition number :: "byte list \<Rightarrow> nat \<Rightarrow> byte list \<Rightarrow> nat" where
  "number table base cs = foldl (\<lambda>a c. a * base + the (digit_in table c)) 0 cs"

lemma skip_blank_eq:
  "str_at m s (replicate k 0x40 @ bs) \<Longrightarrow> take 1 bs \<noteq> [0x40] \<Longrightarrow> skip_blank m s = Some (s + k) \<and> str_at m (s + k) bs"
proof (induction k arbitrary: s)
  case 0
  then show ?case by (cases bs; subst skip_blank.simps) auto
next
  case (Suc k)
  then show ?case using Suc.IH [of "s + 1"] by (subst skip_blank.simps) auto
qed

lemma from_loop_eq:
  assumes "length table \<le> 36"
  shows "str_at m s (cs @ rest) \<Longrightarrow> \<forall>c \<in> set cs. digit_in table c \<noteq> None \<Longrightarrow> rest = [] \<or> digit_in table (hd rest) = None \<Longrightarrow>
    \<exists>r. from_loop m table base s n = Some r \<and>
      u64_of r = foldl (\<lambda>a c. a * u64_of base + of_nat (the (digit_in table c))) (u64_of n) cs"
proof (induction cs arbitrary: s n)
  case Nil
  then show ?case by (cases rest; subst from_loop.simps) (auto simp: digit_in_def)
next
  case (Cons c cs)
  obtain k where k: "digit_in table c = Some k" using Cons.prems(2) by auto
  have "k < 2 ^ 32" using chr_index_lt k assms by (fastforce simp: digit_in_def)
  then have cast: "(ucast (of_nat k :: u32) :: u64) = of_nat k"
    by (simp add: word_unat_eq_iff unat_of_nat del: of_nat_inverse)
  define n' where "n' = i64_add_u32 (i64_mul n base) (of_nat k)"
  have "str_at m (s + 1) (cs @ rest)" "m s = c" "c \<noteq> 0" using Cons.prems(1) by auto
  then have "from_loop m table base s n = from_loop m table base (s + 1) n'"
    using k by (subst from_loop.simps) (simp add: digit_in_def n'_def)
  moreover have "u64_of n' = u64_of n * u64_of base + of_nat k" by (simp add: n'_def u64_simps cast)
  ultimately show ?case using Cons.IH [of "s + 1" n'] Cons.prems k by simp
qed

lemma u64_of_number:
  "(of_nat (foldl (\<lambda>a c. a * b + the (digit_in table c)) x cs) :: u64) =
     foldl (\<lambda>a c. a * of_nat b + of_nat (the (digit_in table c))) (of_nat x) cs"
  by (induction cs arbitrary: x) simp_all

definition numeral_kind :: "byte list \<Rightarrow> byte list \<Rightarrow> nat \<Rightarrow> bool" where
  "numeral_kind pre table base \<longleftrightarrow>
     pre = [0xF0, 0xA7] \<and> table = hexstr \<and> base = 16 \<or> pre = [0xF0, 0x82] \<and> table = binary \<and> base = 2 \<or>
     pre = [] \<and> table = decimal \<and> base = 10"

lemma pick_table_eq:
  assumes "str_at m s (pre @ bs)" and "numeral_kind pre table base"
    and "pre = [] \<longrightarrow> take 2 bs \<noteq> [0xF0, 0xA7] \<and> take 2 bs \<noteq> [0xF0, 0x82]"
  shows "pick_table m s = (table, of_nat base, s + length pre) \<and> length table \<le> 36"
proof (cases "pre = []")
  case True
  have "\<not> (m s = 0xF0 \<and> (m (s + 1) = 0xA7 \<or> m (s + 1) = 0x82))"
    using assms(1,3) True by (cases bs; cases "tl bs") auto
  then show ?thesis using True assms(2) by (auto simp: numeral_kind_def pick_table_def decimal_def)
next
  case False
  then show ?thesis using assms(1,2) by (auto simp: numeral_kind_def pick_table_def hexstr_def binary_def)
qed

lemma from_string_eq:
  assumes at: "str_at m s (replicate k 0x40 @ pre @ cs @ rest)" and kind: "numeral_kind pre table base"
    and cs: "\<forall>c \<in> set cs. digit_in table c \<noteq> None" "rest = [] \<or> digit_in table (hd rest) = None"
    and plain: "pre = [] \<longrightarrow> take 1 (cs @ rest) \<noteq> [0x40] \<and> take 2 (cs @ rest) \<noteq> [0xF0, 0xA7] \<and> take 2 (cs @ rest) \<noteq> [0xF0, 0x82]"
  shows "\<exists>n. i64_from_string m s = Some n \<and> val n = number table base cs mod 2 ^ 64"
proof -
  have "take 1 (pre @ cs @ rest) \<noteq> [0x40]" using kind plain by (auto simp: numeral_kind_def)
  then have s: "skip_blank m s = Some (s + k)" "str_at m (s + k) (pre @ cs @ rest)" using skip_blank_eq [OF at] by auto
  have p: "pick_table m (s + k) = (table, of_nat base, s + k + length pre)" "length table \<le> 36"
    using pick_table_eq [OF s(2) kind] plain by auto
  have "str_at m (s + k + length pre) (cs @ rest)" using str_at_drop [OF s(2), of "length pre"] by simp
  then obtain n where n: "from_loop m table (i64_from_i32 (of_nat base)) (s + k + length pre) i64_init = Some n"
      "u64_of n = foldl (\<lambda>a c. a * u64_of (i64_from_i32 (of_nat base)) + of_nat (the (digit_in table c))) (u64_of i64_init) cs"
    using from_loop_eq [OF p(2) _ cs] by blast
  have "u64_of (i64_from_i32 (of_nat base)) = of_nat base" using kind by (auto simp: numeral_kind_def u64_simps)
  then have "u64_of n = of_nat (number table base cs)" using n(2) by (simp add: u64_simps number_def u64_of_number)
  then have "val n = number table base cs mod 2 ^ 64" by (simp add: val_def unat_of_nat)
  then show ?thesis using n(1) s(1) p(1) by (simp add: i64_from_string_def)
qed

section \<open>Printing\<close>

text \<open>The decimal digits of a number, the lowest first, no more than \<open>k\<close> of them; none for 0.\<close>

fun low_digits :: "nat \<Rightarrow> nat \<Rightarrow> nat list" where
  "low_digits 0 v = []"
| "low_digits (Suc k) v = (if v = 0 then [] else v mod 10 # low_digits k (v div 10))"

lemma val_ten: "val (i64_from_i32 10) = 10"
  by (simp add: val_from_i32_nonneg)

lemma arr_small: "val n < 10 \<Longrightarrow> unat (arr n LAST64) = val n"
  using unat_arr(4) [of n] by (simp add: LAST64_def ARRAY_SIZE64_def)

lemma to_loop_eq: "to_loop tmp (i64_from_i32 10) x nbytes = map ((!) decimal) (low_digits (nat (nbytes - x)) (val tmp))"
proof (induction "nat (nbytes - x)" arbitrary: tmp x)
  case 0
  then show ?case by (subst to_loop.simps) simp
next
  case (Suc k)
  have x: "x < nbytes" "nat (nbytes - (x + 1)) = k" using Suc(2) by linarith+
  obtain q r where qr: "i64_divmod tmp (i64_from_i32 10) = (q, r)" by fastforce
  have "val q = val tmp div 10" "val r = val tmp mod 10"
    using val_divmod [of tmp "i64_from_i32 10"] by (simp_all add: qr val_ten)
  then show ?case
    using Suc.hyps(1) [of "x + 1" q] x arr_small [of r]
    by (subst to_loop.simps, simp add: qr is_zero_val) (simp add: Suc(2) [symmetric])
qed

lemma put_chars_eq:
  "0 \<le> i \<Longrightarrow> i + int (length bs) \<le> nbytes \<Longrightarrow> put_chars m str i nbytes bs = (store m (str + nat i) bs, i + int (length bs))"
proof (induction bs arbitrary: m i)
  case (Cons b bs)
  then show ?case using Cons.IH [of "i + 1" "m(str + nat i := b)"] by (simp add: store_Cons' nat_add_distrib fun_upd_def)
qed simp

lemma length_low_digits: "length (low_digits k v) \<le> k"
  by (induction k arbitrary: v) auto

lemma low_digits_0: "low_digits k 0 = []"
  by (cases k) auto

text \<open>What is stored: the digits that fit, the highest of them first, and the zero if there is room for it.\<close>

definition shown :: "nat \<Rightarrow> nat \<Rightarrow> byte list" where
  "shown k v = (if v = 0 \<and> 0 < k then [0xF0] else map ((!) decimal) (rev (low_digits k v)))"

lemma to_string_eq:
  "i64_to_string m n str nbytes =
     (let bs = shown (nat nbytes) (val n) in store m str (if length bs < nat nbytes then bs @ [0] else bs))"
proof -
  let ?ds = "low_digits (nat nbytes) (val n)"
  have work: "to_loop (i64_copy n) (i64_from_i32 10) 0 nbytes = map ((!) decimal) ?ds" using to_loop_eq [of n 0 nbytes] by simp
  show ?thesis
  proof (cases "?ds = []")
    case True
    then have "val n = 0 \<or> nbytes \<le> 0" by (cases "nat nbytes") (auto split: if_splits)
    then show ?thesis using work True
      by (auto simp: i64_to_string_def Let_def shown_def store_Cons fun_upd_twist)
  next
    case False
    then have nz: "val n \<noteq> 0" by (metis low_digits_0)
    have len: "length ?ds \<le> nat nbytes" by (rule length_low_digits)
    have pos: "0 < nat nbytes" using False by (cases "nat nbytes") auto
    have "put_chars m str 0 nbytes (rev (map ((!) decimal) ?ds)) = (store m str (rev (map ((!) decimal) ?ds)), int (length ?ds))"
      using put_chars_eq [of 0 "rev (map ((!) decimal) ?ds)" nbytes m str] len pos by simp
    then show ?thesis using work False nz pos len
      by (auto simp: i64_to_string_def Let_def shown_def rev_map store_append store_Cons)
  qed
qed

lemma less_10: "(d :: nat) < 10 \<Longrightarrow> d \<in> {0, 1, 2, 3, 4, 5, 6, 7, 8, 9}"
  by auto

lemma decimal_digit: "d < 10 \<Longrightarrow> digit_in decimal (decimal ! d) = Some d"
proof -
  assume d: "d < 10"
  then have "\<not> upper_code (uint (decimal ! d))" by (drule_tac less_10) (auto simp: decimal_def upper_code_def)
  then have "tolow_byte (decimal ! d) = decimal ! d" by (simp add: tolow_byte_codes)
  moreover have "distinct decimal" "length decimal = 10" by (simp_all add: decimal_def)
  ultimately show ?thesis using d by (simp add: digit_in_def chr_index_nth)
qed

lemma low_digits_lt: "d \<in> set (low_digits k v) \<Longrightarrow> d < 10"
  by (induction k arbitrary: v) (auto split: if_splits)

lemma number_low_digits: "number decimal 10 (map ((!) decimal) (rev (low_digits k v))) = v mod 10 ^ k"
proof (induction k arbitrary: v)
  case (Suc k)
  have "number decimal 10 (map ((!) decimal) (rev (low_digits (Suc k) v))) = (v div 10) mod 10 ^ k * 10 + v mod 10" if "v \<noteq> 0"
    using Suc [of "v div 10"] that by (simp add: number_def decimal_digit)
  then show ?case by (cases "v = 0") (simp_all add: number_def mod_mult2_eq)
qed (simp add: number_def)

lemma length_low_digits_le: "v < 10 ^ j \<Longrightarrow> length (low_digits k v) \<le> j"
proof (induction k arbitrary: v j)
  case (Suc k)
  show ?case
  proof (cases j)
    case 0
    then show ?thesis using Suc.prems by simp
  next
    case (Suc i)
    then have "v div 10 < 10 ^ i" using Suc.prems by (simp add: less_mult_imp_div_less)
    then show ?thesis using Suc.IH Suc by simp
  qed
qed simp

lemma shown_digits: "c \<in> set (shown k v) \<Longrightarrow> \<exists>d < 10. c = decimal ! d"
proof -
  have "0xF0 = decimal ! 0" by (simp add: decimal_def)
  then show "c \<in> set (shown k v) \<Longrightarrow> \<exists>d < 10. c = decimal ! d"
    by (auto simp: shown_def dest: low_digits_lt split: if_splits intro: exI [of _ 0])
qed

lemma number_shown: "number decimal 10 (shown k v) = v mod 10 ^ k"
proof -
  have "digit_in decimal 0xF0 = Some 0" using decimal_digit [of 0] by (simp add: decimal_def)
  then show ?thesis by (simp add: shown_def number_low_digits) (simp add: number_def)
qed

lemma decimal_range: "d < 10 \<Longrightarrow> 0xF0 \<le> decimal ! d"
  by (drule less_10) (auto simp: decimal_def)

lemma shown_range: "c \<in> set (shown k v) \<Longrightarrow> 0xF0 \<le> c"
  using shown_digits decimal_range by blast

lemma shown_short: "v < 2 ^ 64 \<Longrightarrow> length (shown k v) \<le> 20"
  using length_low_digits_le [of v 20 k] by (simp add: shown_def)

section \<open>Properties\<close>





end
