(* ===== verification/Calendar.thy ===== *)
theory Calendar
  imports Prelude
begin

text \<open>
  The proleptic Gregorian calendar as both date routines of the library mean it: years and
  months with their lengths, and the number of a day counted from 1 January of the year 1.
  Nothing here is code of the library; it is the specification the conversions of
  \<^verbatim>\<open>src/time\<close> and \<^verbatim>\<open>src/ext/time64\<close> are measured against.
\<close>

section \<open>Years, months and day numbers\<close>

definition leap_year :: "nat \<Rightarrow> bool" where
  "leap_year y \<longleftrightarrow> y mod 4 = 0 \<and> y mod 100 \<noteq> 0 \<or> y mod 400 = 0"

definition year_days :: "nat \<Rightarrow> nat" where
  "year_days y = (if leap_year y then 366 else 365)"

definition month_days :: "bool \<Rightarrow> nat \<Rightarrow> nat" where
  "month_days leap m = [31, if leap then 29 else 28, 31, 30, 31, 30, 31, 31, 30, 31, 30, 31] ! m"

text \<open>Days of the years from 1 up to and without \<open>y\<close>, and of the months before \<open>m\<close> (0 is January).\<close>

primrec days_before_year :: "nat \<Rightarrow> nat" where
  "days_before_year 0 = 0"
| "days_before_year (Suc y) = days_before_year y + (if y = 0 then 0 else year_days y)"

primrec days_before_month :: "bool \<Rightarrow> nat \<Rightarrow> nat" where
  "days_before_month leap 0 = 0"
| "days_before_month leap (Suc m) = days_before_month leap m + month_days leap m"

definition valid_ymd :: "nat \<Rightarrow> nat \<Rightarrow> nat \<Rightarrow> bool" where
  "valid_ymd y m d \<longleftrightarrow> 1 \<le> y \<and> m < 12 \<and> 1 \<le> d \<and> d \<le> month_days (leap_year y) m"

definition ordinal :: "nat \<Rightarrow> nat \<Rightarrow> nat \<Rightarrow> nat" where
  "ordinal y m d = days_before_year y + days_before_month (leap_year y) m + d"

text \<open>0 is Sunday: 1 January of the year 1 is a Monday.\<close>

definition weekday :: "nat \<Rightarrow> nat" where
  "weekday n = n mod 7"

definition epoch_day :: nat where
  "epoch_day = 719163"

section \<open>Lengths\<close>

lemma less_12_cases:
  "(m :: nat) < 12 \<Longrightarrow> m \<in> {0, 1, 2, 3, 4, 5, 6, 7, 8, 9, 10, 11}"
  by (auto simp: numeral_eq_Suc less_Suc_eq)

lemma dbm_numerals [simp]:
  "days_before_month leap (numeral k) = days_before_month leap (pred_numeral k) + month_days leap (pred_numeral k)"
  by (simp add: numeral_eq_Suc)

lemma days_before_month_12: "days_before_month leap 12 = (if leap then 366 else 365)"
  by (simp add: month_days_def)

lemma month_days_pos: "m < 12 \<Longrightarrow> 28 \<le> month_days leap m"
  by (drule less_12_cases) (auto simp: month_days_def)

lemma month_days_le: "m < 12 \<Longrightarrow> month_days leap m \<le> 31"
  by (drule less_12_cases) (auto simp: month_days_def)

lemma days_before_month_mono: "m \<le> m' \<Longrightarrow> days_before_month leap m \<le> days_before_month leap m'"
  by (rule lift_Suc_mono_le [of "days_before_month leap"]) simp_all

lemma days_before_year_mono: "y \<le> y' \<Longrightarrow> days_before_year y \<le> days_before_year y'"
  by (rule lift_Suc_mono_le [of days_before_year]) simp_all

lemma days_before_month_le:
  assumes "m < 12" shows "days_before_month leap m + month_days leap m \<le> (if leap then 366 else 365)"
  using days_before_month_mono [of "Suc m" 12 leap] assms by (simp only: days_before_month_12 days_before_month.simps)

lemma ordinal_year_bounds:
  assumes "valid_ymd y m d"
  shows "days_before_year y < ordinal y m d" and "ordinal y m d \<le> days_before_year (Suc y)"
  using assms days_before_month_le [of m "leap_year y"]
  by (auto simp: valid_ymd_def ordinal_def year_days_def split: if_splits)

text \<open>A day number stands for one date only.\<close>

lemma between_mono_eq:
  fixes f :: "nat \<Rightarrow> nat"
  assumes mono: "\<And>i j. i \<le> j \<Longrightarrow> f i \<le> f j"
    and "f i < n" "n \<le> f (Suc i)" and "f j < n" "n \<le> f (Suc j)"
  shows "i = j"
proof (rule ccontr)
  assume "i \<noteq> j"
  then have "Suc i \<le> j \<or> Suc j \<le> i" by linarith
  then show False using mono [of "Suc i" j] mono [of "Suc j" i] assms(2-5) by linarith
qed

lemma ordinal_inject:
  assumes v: "valid_ymd y m d" "valid_ymd y' m' d'" and eq: "ordinal y m d = ordinal y' m' d'"
  shows "y = y' \<and> m = m' \<and> d = d'"
proof -
  have y: "y = y'"
    by (rule between_mono_eq [of days_before_year y "ordinal y m d"])
      (use ordinal_year_bounds [OF v(1)] ordinal_year_bounds [OF v(2)] days_before_year_mono
        in \<open>simp_all only: eq\<close>)
  let ?l = "leap_year y"
  from eq y have md: "days_before_month ?l m + d = days_before_month ?l m' + d'"
    by (simp add: ordinal_def)
  have "m = m'"
    by (rule between_mono_eq [of "days_before_month ?l" m "days_before_month ?l m + d"])
      (use v y md days_before_month_mono in \<open>auto simp: valid_ymd_def\<close>)
  with y md show ?thesis by simp
qed

lemma leap_year_add_400: "leap_year (y + 400) = leap_year y"
proof -
  have "(y + 400) mod 4 = y mod 4" "(y + 400) mod 100 = y mod 100" "(y + 400) mod 400 = y mod 400"
    using mod_mult_self1 [of y 100 4] mod_mult_self1 [of y 4 100] by simp_all
  then show ?thesis by (simp add: leap_year_def)
qed

section \<open>The closed form\<close>

definition years_days :: "nat \<Rightarrow> nat" where
  "years_days y = 365 * y + y div 4 - y div 100 + y div 400"

lemma years_days_Suc: "years_days (Suc y) = years_days y + year_days (Suc y)"
proof -
  have "y div 100 \<le> y div 4" by (simp add: div_le_mono2)
  moreover have "Suc y div 100 \<le> Suc y div 4" by (simp add: div_le_mono2)
  moreover have "Suc y mod 400 = 0 \<Longrightarrow> Suc y mod 100 = 0" "Suc y mod 100 = 0 \<Longrightarrow> Suc y mod 4 = 0"
    by presburger+
  ultimately show ?thesis
    by (auto simp: years_days_def year_days_def leap_year_def div_Suc ac_simps)
qed

lemma days_before_year_Suc: "days_before_year (Suc y) = years_days y"
proof (induction y)
  case 0
  show ?case by (simp add: years_days_def)
next
  case (Suc y)
  then show ?case by (simp only: days_before_year.simps years_days_Suc) simp
qed

lemma days_before_year_closed: "1 \<le> y \<Longrightarrow> days_before_year y = years_days (y - 1)"
  using days_before_year_Suc [of "y - 1"] by (simp del: days_before_year.simps)

lemma years_days_add_400: "years_days (y + 400) = years_days y + 146097"
proof -
  have arith: "365 * (y + 400) + (a + 100) - (b + 4) + (c + 1) = 365 * y + a - b + c + 146097"
    if "b \<le> a" for a b c :: nat
    using le_Suc_ex [OF that] by auto
  have "(y + 400) div 4 = y div 4 + 100" "(y + 400) div 100 = y div 100 + 4" "(y + 400) div 400 = y div 400 + 1"
    using div_mult_self1 [of 4 y 100] div_mult_self1 [of 100 y 4] by simp_all
  moreover have "y div 100 \<le> y div 4" by (simp add: div_le_mono2)
  ultimately show ?thesis by (simp only: years_days_def arith)
qed

lemma years_days_mono: "y \<le> y' \<Longrightarrow> years_days y \<le> years_days y'"
  using days_before_year_mono [of "Suc y" "Suc y'"] by (simp only: days_before_year_Suc Suc_le_mono)

lemma days_before_year_add_400: "1 \<le> y \<Longrightarrow> days_before_year (y + 400) = days_before_year y + 146097"
  using years_days_add_400 [of "y - 1"] by (simp add: days_before_year_closed)

lemma days_before_year_1970: "days_before_year 1970 = epoch_day - 1"
  using days_before_year_closed [of 1970] by (simp add: years_days_def epoch_day_def)

section \<open>Every day has a date\<close>

lemma ex_step_between:
  fixes f :: "nat \<Rightarrow> nat"
  assumes "f i < n" and "n \<le> f j" and "i \<le> j"
  shows "\<exists>k. i \<le> k \<and> k < j \<and> f k < n \<and> n \<le> f (Suc k)"
  using assms(3,2,1)
proof (induction j rule: dec_induct)
  case base
  then show ?case by simp
next
  case (step j)
  then show ?case by (cases "n \<le> f j") (auto intro: less_SucI)
qed

lemma years_days_ge: "y \<le> years_days y"
  by (induction y) (simp_all add: years_days_Suc year_days_def)

lemma ex_date:
  assumes "1 \<le> n"
  shows "\<exists>y m d. valid_ymd y m d \<and> ordinal y m d = n"
proof -
  have "n \<le> days_before_year (Suc n)" by (simp only: days_before_year_Suc years_days_ge)
  then obtain y where y: "1 \<le> y" "days_before_year y < n" "n \<le> days_before_year (Suc y)"
    using ex_step_between [of days_before_year 1 n "Suc n"] assms by auto
  define r where "r = n - days_before_year y"
  have "days_before_month (leap_year y) 0 < r" "r \<le> days_before_month (leap_year y) 12"
    using y by (simp_all add: r_def days_before_month_12 year_days_def del: dbm_numerals)
  then obtain m where m: "m < 12" "days_before_month (leap_year y) m < r" "r \<le> days_before_month (leap_year y) (Suc m)"
    using ex_step_between [of "days_before_month (leap_year y)" 0 r 12] by auto
  then have "valid_ymd y m (r - days_before_month (leap_year y) m)"
    using y(1) by (auto simp: valid_ymd_def)
  moreover have "ordinal y m (r - days_before_month (leap_year y) m) = n"
    using m y by (simp add: ordinal_def r_def)
  ultimately show ?thesis by blast
qed

section \<open>The weekday\<close>

lemma days_before_year_add_400_times:
  "1 \<le> y \<Longrightarrow> days_before_year (y + 400 * q) = days_before_year y + 146097 * q"
proof (induction q)
  case (Suc q)
  have e: "y + 400 * Suc q = (y + 400 * q) + 400" by simp
  show ?case
    unfolding e using Suc days_before_year_add_400 [of "y + 400 * q"] by simp
qed simp

lemma mod7_eqI: "a + 7 * p = b + 7 * q \<Longrightarrow> a mod 7 = b mod (7 :: nat)"
  by (metis mod_mult_self2)

text \<open>The year counts modulo the cycle of 400 years, which is a whole number of weeks.\<close>

lemma ordinal_mod_7_cycle:
  assumes "1 \<le> y"
  shows "ordinal y m d mod 7 = ordinal (y mod 400 + 400) m d mod 7"
proof -
  have "y + 400 * 1 = (y mod 400 + 400) + 400 * (y div 400)"
    using mult_div_mod_eq [of 400 y] by linarith
  moreover have "leap_year (y mod 400 + 400) = leap_year y"
    unfolding leap_year_add_400 by (simp add: leap_year_def mod_mod_cancel)
  ultimately have "ordinal y m d + 7 * 20871 = ordinal (y mod 400 + 400) m d + 7 * (20871 * (y div 400))"
    using days_before_year_add_400_times [OF assms, of 1]
      days_before_year_add_400_times [of "y mod 400 + 400" "y div 400"]
    by (simp add: ordinal_def)
  then show ?thesis by (rule mod7_eqI)
qed

section \<open>The contract of a pair of date conversions\<close>

text \<open>
  What the library relies on: day numbers up to \<open>last\<close> are turned into dates, and dates into
  day numbers, as the calendar counts.
\<close>

locale date_codec =
  fixes to_date :: "nat \<Rightarrow> nat \<times> nat \<times> nat" and of_date :: "nat \<Rightarrow> nat \<Rightarrow> nat \<Rightarrow> nat" and last_day :: nat
  assumes to_date_finds: "valid_ymd y m d \<Longrightarrow> ordinal y m d \<le> last_day \<Longrightarrow> to_date (ordinal y m d) = (y, m, d)"
    and of_date_counts: "valid_ymd y m d \<Longrightarrow> ordinal y m d \<le> last_day \<Longrightarrow> of_date y m d = ordinal y m d"
begin

lemma to_of_date: "valid_ymd y m d \<Longrightarrow> ordinal y m d \<le> last_day \<Longrightarrow> to_date (of_date y m d) = (y, m, d)"
  by (simp add: to_date_finds of_date_counts)

lemma to_date_cases:
  assumes "1 \<le> n" and "n \<le> last_day"
  obtains y m d where "to_date n = (y, m, d)" "valid_ymd y m d" "ordinal y m d = n"
  using ex_date [OF assms(1)] assms(2) to_date_finds that by metis

lemma of_to_date:
  assumes "1 \<le> n" and "n \<le> last_day" shows "(case to_date n of (y, m, d) \<Rightarrow> of_date y m d) = n"
  by (rule to_date_cases [OF assms]) (use assms of_date_counts in auto)

lemma of_date_inject:
  "valid_ymd y m d \<Longrightarrow> valid_ymd y' m' d' \<Longrightarrow> ordinal y m d \<le> last_day \<Longrightarrow> ordinal y' m' d' \<le> last_day \<Longrightarrow>
    of_date y m d = of_date y' m' d' \<Longrightarrow> (y, m, d) = (y', m', d')"
  using to_of_date by metis

end

end
