(* ===== verification/Caltime.thy ===== *)
theory Caltime
  imports Calendar "HOL-Library.Signed_Division"
begin

text \<open>
  The 32-bit time functions: the scalar dates of \<^verbatim>\<open>src/time/@@isleap.c\<close>, \<^verbatim>\<open>@@mtd.c\<close>,
  \<^verbatim>\<open>@@ytd.c\<close>, \<^verbatim>\<open>@@ymdts.c\<close> and \<^verbatim>\<open>@@stymd.c\<close>, \<^verbatim>\<open>gmtime_r()\<close>, \<^verbatim>\<open>timegm()\<close>,
  \<^verbatim>\<open>localtime_r()\<close> and \<^verbatim>\<open>mktime()\<close>.  An \<open>unsigned\<close> or \<open>time_t\<close> is a 32-bit word, so its
  arithmetic wraps; a \<open>long\<close> is the same word read with \<open>sint\<close>; an \<open>int\<close> member of
  \<^verbatim>\<open>struct tm\<close> is an \<open>int\<close>, converted where the code converts it.  The time-zone offset
  \<^verbatim>\<open>__tzget()\<close> returns is a parameter.
\<close>

section \<open>Definitions\<close>

record tm =
  tm_sec :: int
  tm_min :: int
  tm_hour :: int
  tm_mday :: int
  tm_mon :: int
  tm_year :: int
  tm_wday :: int
  tm_yday :: int
  tm_isdst :: int

definition isleap :: "u32 \<Rightarrow> bool" where
  "isleap yr \<longleftrightarrow> yr mod 400 = 0 \<or> (yr mod 4 = 0 \<and> yr mod 100 \<noteq> 0)"

definition mtd :: "u32 \<Rightarrow> u32" where
  "mtd month = (month * 3057 - 3007) div 100"

definition ytd :: "u32 \<Rightarrow> i32" where
  "ytd yr = yr * 365 + yr div 4 - yr div 100 + yr div 400"

definition ymdts :: "u32 \<Rightarrow> u32 \<Rightarrow> u32 \<Rightarrow> i32" where
  "ymdts yr mo day =
     (let scalar = day + mtd mo;
          scalar = (if mo > 2 then scalar - (if isleap yr then 1 else 2) else scalar);
          yr = yr - 1
      in scalar + ytd yr)"

text \<open>Division of two \<open>long\<close>s truncates.\<close>

definition sdiv32 :: "i32 \<Rightarrow> i32 \<Rightarrow> i32" where
  "sdiv32 a b = word_of_int (sint a sdiv sint b)"

definition ytd_below :: "i32 \<Rightarrow> u32 \<Rightarrow> bool" where
  "ytd_below scalar n \<longleftrightarrow> sint (ytd n) < sint scalar"

definition ytd_search :: "i32 \<Rightarrow> u32 \<Rightarrow> u32" where
  "ytd_search scalar n = while (ytd_below scalar) (\<lambda>n. n + 1) n"

text \<open>The code runs the same search twice; the value the first one finds is not used.\<close>

definition stymd :: "i32 \<Rightarrow> u32 \<times> u32 \<times> u32" where
  "stymd scalar =
     (let n = sdiv32 (scalar * 400) 146097;
          n = ytd_search scalar n;
          n = ytd_search scalar (sdiv32 (scalar * 400) 146097);
          yr = n;
          n = scalar - ytd (n - 1);
          n = (if n > 59
               then let n = n + 2 in if isleap yr then n - (if n > 62 then 1 else 2) else n
               else n);
          mo = (n * 100 + 3007) div 3057;
          day = n - mtd mo
      in (yr, mo, day))"

definition dow :: "int \<Rightarrow> u32 \<Rightarrow> u32 \<Rightarrow> u32" where
  "dow y m d =
     (push_bit 4 ((m + 9) mod 12 + 1) mod 27 + d + 1
      + word_of_int (y smod 400 + 400) + word_of_int ((y smod 400 + 400) sdiv 4)
      - word_of_int ((y smod 400 + 400) sdiv 100)
      + (if m \<le> 2 then if y smod 4 = 0 \<and> y smod 100 \<noteq> 0 \<or> y smod 400 = 0 then 5 else 6 else 0)) mod 7"

definition gmtime_r :: "u32 \<Rightarrow> tm" where
  "gmtime_r timer =
     (let days = timer div (60 * 60 * 24);
          secs = timer mod (60 * 60 * 24);
          (yr, mo, da) = stymd (days + 719163);
          year = sint (yr - 1900)
      in \<lparr>tm_sec = sint (secs mod 60),
          tm_min = sint (secs div 60 mod 60),
          tm_hour = sint (secs div 60 div 60),
          tm_mday = sint da,
          tm_mon = sint (mo - 1),
          tm_year = year,
          tm_wday = sint (dow (year + 1900) mo da),
          tm_yday = sint (ymdts (word_of_int (year + 1900)) mo da - ymdts (word_of_int (year + 1900)) 1 1),
          tm_isdst = -1\<rparr>)"

definition timegm :: "tm \<Rightarrow> u32 \<times> tm" where
  "timegm t =
     (if tm_year t < 70 \<or> tm_year t > 205 then (-1, t)
      else
        let tt = ymdts (word_of_int (tm_year t + 1900)) (word_of_int (tm_mon t + 1)) (word_of_int (tm_mday t))
                 - 719163;
            tt = tt * 24 + word_of_int (tm_hour t);
            tt = tt * 60 + word_of_int (tm_min t);
            tt = tt * 60 + word_of_int (tm_sec t)
        in (tt, gmtime_r tt))"

definition localtime_r :: "int \<Rightarrow> u32 \<Rightarrow> tm" where
  "localtime_r tz timer = gmtime_r (timer + word_of_int tz)"

definition mktime :: "int \<Rightarrow> tm \<Rightarrow> u32 \<times> tm" where
  "mktime tz timeptr =
     (let t = fst (timegm timeptr) in
      if t = -1 then (-1, timeptr)
      else if tz \<ge> 0 then
        let n = word_of_int tz in
        if t < n then (-1, timeptr) else (t - n, localtime_r tz (t - n))
      else
        let n = word_of_int (- tz) in
        if n > 0xFFFFFFFE - t then (-1, timeptr) else (t + n, localtime_r tz (t + n)))"

section \<open>The scalar dates and the calendar\<close>

lemma sdiv_nonneg: "0 \<le> a \<Longrightarrow> 0 < b \<Longrightarrow> (a :: int) sdiv b = a div b"
  by (cases "a = 0") (simp_all add: signed_divide_int_def sgn_if)

lemma smod_nonneg: "0 \<le> a \<Longrightarrow> 0 < b \<Longrightarrow> (a :: int) smod b = a mod b"
  by (cases "a = 0") (simp_all add: signed_modulo_int_def sgn_if)

lemma isleap_leap_year: "isleap y \<longleftrightarrow> leap_year (unat y)"
  by (auto simp: isleap_def leap_year_def word_unat_eq_iff unat_mod)

lemma years_days_le: "years_days y \<le> 366 * y"
proof -
  have "y div 4 \<le> y" "y div 400 \<le> y div 100" by (simp_all add: div_le_mono2)
  then show ?thesis unfolding years_days_def by linarith
qed

lemma unat_ytd: "unat y \<le> 100000 \<Longrightarrow> unat (ytd y) = years_days (unat y)"
proof -
  assume y: "unat y \<le> 100000"
  define a b c where "a = unat y div 4" and "b = unat y div 100" and "c = unat y div 400"
  have abc: "b \<le> a" "a \<le> 100000" "c \<le> 100000"
    using y by (auto simp: a_def b_def c_def div_le_mono2 intro: order_trans [OF div_le_dividend])
  have d: "unat (y div 4) = a" "unat (y div 100) = b" "unat (y div 400) = c"
    by (simp_all add: a_def b_def c_def unat_div)
  have 1: "unat (y * 365) = 365 * unat y" using y by (subst unat32_mult) simp_all
  have 2: "unat (y * 365 + y div 4) = 365 * unat y + a" using y abc by (subst unat32_add) (simp_all add: 1 d)
  have 3: "unat (y * 365 + y div 4 - y div 100) = 365 * unat y + a - b"
    using y abc by (subst unat32_sub) (simp_all add: 2 d)
  show ?thesis
    unfolding ytd_def years_days_def using y abc
    by (subst unat32_add) (simp_all add: 3 d flip: a_def b_def c_def)
qed

lemma mtd_table:
  "mtd 1 = 0" "mtd 2 = 31" "mtd 3 = 61" "mtd 4 = 92" "mtd 5 = 122" "mtd 6 = 153"
  "mtd 7 = 183" "mtd 8 = 214" "mtd 9 = 245" "mtd 10 = 275" "mtd 11 = 306" "mtd 12 = 336"
  by (simp_all add: mtd_def)

lemma month_word_cases:
  "1 \<le> unat (mo :: u32) \<Longrightarrow> unat mo \<le> 12 \<Longrightarrow> mo \<in> {1, 2, 3, 4, 5, 6, 7, 8, 9, 10, 11, 12}"
proof -
  assume "1 \<le> unat mo" "unat mo \<le> 12"
  then have "unat mo \<in> {1, 2, 3, 4, 5, 6, 7, 8, 9, 10, 11, 12}"
    by (auto simp: numeral_eq_Suc le_Suc_eq)
  then show ?thesis by (auto simp: word_unat_eq_iff)
qed

lemma month_part:
  assumes "1 \<le> unat mo" and "unat mo \<le> 12"
  shows "unat (if mo > 2 then mtd mo - (if leap then 1 else 2) else mtd mo) =
    days_before_month leap (unat mo - 1)"
  using month_word_cases [OF assms] by (auto simp: mtd_table month_days_def)

lemma ymdts_parts:
  "ymdts yr mo day =
    day + (if mo > 2 then mtd mo - (if isleap yr then 1 else 2) else mtd mo) + ytd (yr - 1)"
  by (simp add: ymdts_def Let_def algebra_simps)

lemma unat_ymdts:
  assumes v: "valid_ymd (unat yr) (unat mo - 1) (unat day)" and mo: "1 \<le> unat mo" and yr: "unat yr \<le> 100000"
  shows "unat (ymdts yr mo day) = ordinal (unat yr) (unat mo - 1) (unat day)"
proof -
  from v mo have m12: "unat mo \<le> 12" and y1: "1 \<le> unat yr" and d: "unat day \<le> 31"
    using month_days_le [of "unat mo - 1" "leap_year (unat yr)"] by (auto simp: valid_ymd_def)
  define mpart where "mpart = (if mo > 2 then mtd mo - (if isleap yr then 1 else 2) else mtd mo)"
  have mp: "unat mpart = days_before_month (leap_year (unat yr)) (unat mo - 1)"
    unfolding mpart_def isleap_leap_year by (rule month_part [OF mo m12])
  have "unat mpart \<le> 366"
    using days_before_month_le [of "unat mo - 1" "leap_year (unat yr)"] v
    by (auto simp: mp valid_ymd_def split: if_splits)
  then have 1: "unat (day + mpart) = unat day + unat mpart" "unat (day + mpart) \<le> 397"
    using d by (simp_all add: unat32_add)
  have "unat (yr - 1) = unat yr - 1" using y1 by (subst unat32_sub) simp_all
  then have y: "unat (ytd (yr - 1)) = years_days (unat yr - 1)"
    using unat_ytd [of "yr - 1"] yr by simp
  have "years_days (unat yr - 1) \<le> 36600000" using years_days_le [of "unat yr - 1"] yr by linarith
  then have "unat (day + mpart + ytd (yr - 1)) = unat day + unat mpart + years_days (unat yr - 1)"
    using 1 y by (subst unat32_add) simp_all
  then show ?thesis
    by (simp add: ymdts_parts ordinal_def mp days_before_year_closed [OF y1] flip: mpart_def)
qed

text \<open>
  The search for the year starts at \<open>400 * scalar / 146097\<close>, which is never past it, and
  stops at the first year whose days reach the scalar.
\<close>

lemma years_days_start: "400 * years_days y < 146097 * (y + 1)"
proof -
  have arith: "400 * (365 * y + a - b + c) < 146097 * (y + 1)"
    if "4 * a \<le> y" "400 * c \<le> y" "y < 100 * b + 100" "b \<le> a" for a b c :: nat
    using le_Suc_ex [OF that(4)] that(1-3) by auto
  have "y mod 100 < 100" by simp
  then have "y < 100 * (y div 100) + 100" using mult_div_mod_eq [of 100 y] by linarith
  then show ?thesis
    unfolding years_days_def by (intro arith) (simp_all add: div_le_mono2)
qed

lemma ytd_below_years_days:
  assumes "unat n \<le> 14699" and "unat scalar < 2147483648"
  shows "ytd_below scalar n \<longleftrightarrow> years_days (unat n) < unat scalar"
proof -
  have "years_days (unat n) < 2147483648" using years_days_le [of "unat n"] assms(1) by linarith
  then have "sint (ytd n) = int (years_days (unat n))"
    using assms(1) by (subst sint32_small) (simp_all add: unat_ytd)
  then show ?thesis by (simp only: ytd_below_def sint32_small [OF assms(2)] of_nat_less_iff)
qed

lemma ytd_search_finds:
  assumes y: "1 \<le> y" "y \<le> 14699" and scalar: "days_before_year y < unat scalar" "unat scalar \<le> days_before_year (Suc y)"
    and n: "unat n \<le> y"
  shows "unat (ytd_search scalar n) = y" and "\<exists>t. while_option (ytd_below scalar) (\<lambda>n. n + 1) n = Some t"
proof -
  have sc: "years_days (y - 1) < unat scalar" "unat scalar \<le> years_days y"
    using scalar days_before_year_closed [OF y(1)] by (simp_all only: days_before_year_Suc)
  have small: "unat scalar < 2147483648" using sc(2) years_days_le [of y] y(2) by linarith
  have below: "ytd_below scalar n \<longleftrightarrow> unat n < y" if "unat n \<le> y" for n
  proof -
    have "years_days (unat n) < unat scalar \<longleftrightarrow> unat n < y"
    proof
      assume "unat n < y"
      then have "years_days (unat n) \<le> years_days (y - 1)" by (intro years_days_mono) linarith
      with sc(1) show "years_days (unat n) < unat scalar" by linarith
    next
      assume lt: "years_days (unat n) < unat scalar"
      then have "unat n \<noteq> y" using sc(2) by auto
      with that show "unat n < y" by simp
    qed
    with ytd_below_years_days [OF _ small, of n] that y(2) show ?thesis by simp
  qed
  have step: "unat (n + 1) = unat n + 1" if "unat n \<le> y" for n :: u32
    using that y(2) by (subst unat32_add) simp_all
  show "unat (ytd_search scalar n) = y"
    unfolding ytd_search_def
    by (rule while_rule [where P = "\<lambda>n. unat n \<le> y" and r = "measure (\<lambda>n. y - unat n)"])
      (use n below step in \<open>auto simp: in_measure\<close>)
  show "\<exists>t. while_option (ytd_below scalar) (\<lambda>n. n + 1) n = Some t"
    by (rule measure_while_option_Some [where P = "\<lambda>n. unat n \<le> y" and f = "\<lambda>n. y - unat n"])
      (use n below step in auto)
qed

definition mtd_nat :: "nat \<Rightarrow> nat" where
  "mtd_nat m = [0, 31, 61, 92, 122, 153, 183, 214, 245, 275, 306, 336] ! m"

lemma unat_mtd: "m < 12 \<Longrightarrow> unat mo = m + 1 \<Longrightarrow> unat (mtd mo) = mtd_nat m"
  using month_word_cases [of mo] by (auto simp: mtd_table mtd_nat_def nth_Cons')

lemma mtd_nat_dbm:
  assumes "m < 12"
  shows "mtd_nat m = (if 2 \<le> m then days_before_month leap m + (if leap then 1 else 2) else days_before_month leap m)"
  using less_12_cases [OF assms] by (auto simp: mtd_nat_def month_days_def nth_Cons')

lemma month_inverse:
  assumes "m < 12" and "1 \<le> d" and "d \<le> month_days leap m"
  shows "((mtd_nat m + d) * 100 + 3007) div 3057 = m + 1"
  using assms less_12_cases [OF assms(1)]
  by (intro div_nat_eqI) (auto simp: mtd_nat_def month_days_def split: if_splits)

definition day_adjust :: "bool \<Rightarrow> u32 \<Rightarrow> u32" where
  "day_adjust leap n =
     (if n > 59 then let n = n + 2 in if leap then n - (if n > 62 then 1 else 2) else n else n)"

lemma unat_day_adjust:
  assumes m: "m < 12" and d: "1 \<le> d" "d \<le> month_days leap m" and n: "unat n = days_before_month leap m + d"
  shows "unat (day_adjust leap n) = mtd_nat m + d"
proof -
  have small: "unat n \<le> 366"
    using days_before_month_le [OF m, of leap] d n by (auto split: if_splits)
  have plus: "unat (n + 2) = unat n + 2" "unat (n + 1) = unat n + 1"
    using small by (simp_all add: unat32_add)
  have minus: "unat (n + 2 - 1) = unat n + 1" "unat (n + 2 - 2) = unat n"
    by (simp_all add: plus flip: add_diff_eq)
  consider "m = 0" | "m = 1" | "2 \<le> m" by linarith
  then show ?thesis
  proof cases
    case 3
    have "days_before_month leap 2 \<le> days_before_month leap m" using 3 by (rule days_before_month_mono)
    then have "59 < unat n" "leap \<Longrightarrow> 62 < unat n + 2"
      using n d(1) by (auto simp: month_days_def split: if_splits)
    then show ?thesis
      using mtd_nat_dbm [OF m, of leap] n 3 minus plus
      by (cases leap) (simp_all add: day_adjust_def Let_def word_less_nat_alt)
  qed (use n d in \<open>auto simp: day_adjust_def Let_def word_less_nat_alt plus minus mtd_nat_def month_days_def split: if_splits\<close>)
qed

lemma stymd_parts:
  "stymd scalar =
    (let yr = ytd_search scalar (sdiv32 (scalar * 400) 146097);
         n = day_adjust (isleap yr) (scalar - ytd (yr - 1));
         mo = (n * 100 + 3007) div 3057
     in (yr, mo, n - mtd mo))"
  by (simp add: stymd_def day_adjust_def Let_def)

lemma ordinal_le_last:
  assumes "valid_ymd y m d" and "y \<le> 14699" shows "ordinal y m d \<le> 5368699"
proof -
  have "ordinal y m d \<le> years_days y"
    using ordinal_year_bounds(2) [OF assms(1)] by (simp only: days_before_year_Suc)
  also have "\<dots> \<le> years_days 14699" using assms(2) by (rule years_days_mono)
  finally show ?thesis by (simp add: years_days_def)
qed

lemma search_start:
  assumes "valid_ymd y m d" and "y \<le> 14699" and "unat scalar = ordinal y m d"
  shows "unat (sdiv32 (scalar * 400) 146097) \<le> y"
proof -
  have le: "ordinal y m d \<le> 5368699" by (rule ordinal_le_last [OF assms(1,2)])
  then have u: "unat (scalar * 400) = 400 * ordinal y m d"
    using assms(3) by (subst unat32_mult) simp_all
  define q where "q = 400 * ordinal y m d div 146097"
  have "sint (scalar * 400) = int (400 * ordinal y m d)"
    using le sint32_small [of "scalar * 400"] by (simp only: u)
  then have "sint (scalar * 400) sdiv sint (146097 :: i32) = int q"
    by (simp add: q_def sdiv_nonneg zdiv_int)
  then have "unat (sdiv32 (scalar * 400) 146097) = q"
    using le by (simp add: sdiv32_def unat_of_nat q_def)
  moreover have "q < y + 1"
  proof -
    have "400 * ordinal y m d < 146097 * (y + 1)"
      using ordinal_year_bounds(2) [OF assms(1)] years_days_start [of y] by (simp only: days_before_year_Suc)
    then show ?thesis unfolding q_def by (simp add: div_less_iff_less_mult)
  qed
  ultimately show ?thesis by simp
qed

lemma stymd_finds:
  assumes v: "valid_ymd y m d" and y: "y \<le> 14699" and scalar: "unat scalar = ordinal y m d"
  shows "stymd scalar = (of_nat y, of_nat (m + 1), of_nat d)"
proof -
  define yr where "yr = ytd_search scalar (sdiv32 (scalar * 400) 146097)"
  have y1: "1 \<le> y" and m: "m < 12" and d: "1 \<le> d" "d \<le> month_days (leap_year y) m"
    using v by (simp_all add: valid_ymd_def)
  have yr: "unat yr = y"
    unfolding yr_def
    by (rule ytd_search_finds [OF y1 y _ _ search_start [OF v y scalar]])
      (use ordinal_year_bounds [OF v] scalar in simp_all)
  have "unat (yr - 1) = y - 1" using y1 yr by (subst unat32_sub) simp_all
  then have "unat (ytd (yr - 1)) = days_before_year y"
    using unat_ytd [of "yr - 1"] y days_before_year_closed [OF y1] by simp
  then have doy: "unat (scalar - ytd (yr - 1)) = days_before_month (leap_year y) m + d"
    using scalar by (subst unat32_sub) (simp_all add: ordinal_def)
  define n where "n = day_adjust (isleap yr) (scalar - ytd (yr - 1))"
  have n: "unat n = mtd_nat m + d"
    unfolding n_def isleap_leap_year yr by (rule unat_day_adjust [OF m d doy])
  have small: "mtd_nat m + d \<le> 400"
    using less_12_cases [OF m] d by (auto simp: mtd_nat_def month_days_def nth_Cons' split: if_splits)
  define mo where "mo = (n * 100 + 3007) div 3057"
  have "unat (n * 100) = (mtd_nat m + d) * 100" using small n by (subst unat32_mult) simp_all
  then have "unat (n * 100 + 3007) = (mtd_nat m + d) * 100 + 3007" using small by (subst unat32_add) simp_all
  then have mo: "unat mo = m + 1"
    using month_inverse [OF m d] by (simp add: mo_def unat_div)
  have "unat (n - mtd mo) = d"
    using n unat_mtd [OF m mo] by (subst unat32_sub) simp_all
  note words = word_of_unat [OF this] word_of_unat [OF yr] word_of_unat [OF mo]
  have "stymd scalar = (yr, mo, n - mtd mo)"
    by (simp add: stymd_parts Let_def flip: yr_def n_def mo_def)
  then have "stymd scalar = (yr, mo, of_nat d)" by (simp only: words(1))
  then show ?thesis by (simp only: words(2,3))
qed

section \<open>The weekday\<close>

definition dow_month :: "nat \<Rightarrow> nat" where
  "dow_month m = 16 * ((m + 10) mod 12 + 1) mod 27"

lemma dow_month_word:
  "m < 12 \<Longrightarrow> unat (push_bit 4 ((of_nat (m + 1) + 9 :: u32) mod 12 + 1) mod 27) = dow_month m"
  by (drule less_12_cases) (auto simp: dow_month_def)

lemma dow_month_balance:
  assumes "m < 12"
  shows "(dow_month m + 1 + (if m < 2 then if leap then 5 else 6 else 0) + (if leap then 1 else 0)) mod 7 =
    days_before_month leap m mod 7"
  using less_12_cases [OF assms] by (auto simp: dow_month_def month_days_def)

lemma ordinal_mod_7:
  assumes z: "400 \<le> z" "z < 800" and m: "m < 12"
  shows "ordinal z m d mod 7 =
    (dow_month m + d + 1 + z + z div 4 - z div 100 + (if m < 2 then if leap_year z then 5 else 6 else 0)) mod 7"
proof -
  define A where "A = z + z div 4 - z div 100"
  define k L where "k = (if m < 2 then if leap_year z then 5 else 6 else 0 :: nat)" and
    "L = (if leap_year z then 1 else 0 :: nat)"
  define D where "D = days_before_month (leap_year z) m"
  have "z div 400 = 1" using z by (intro div_nat_eqI) simp_all
  moreover have le: "z div 100 \<le> z" by simp
  ultimately have yd: "years_days z = 364 * z + A + 1" by (simp add: years_days_def A_def)
  have "(q + 6 * p) mod 7 = 0" if "p mod 7 = q mod 7" for p q :: nat
    using mod_add_cong [OF that refl, of "6 * p"] by simp
  from this [OF dow_month_balance [OF m, of "leap_year z"]]
  have "(D + 6 * (dow_month m + 1 + k + L)) mod 7 = 0" by (simp only: k_def L_def D_def)
  then obtain u where u: "D + 6 * (dow_month m + 1 + k + L) = 7 * u" by auto
  have "ordinal z m d + 365 + L = years_days z + D + d"
    using z days_before_year_Suc [of z] by (auto simp: ordinal_def D_def L_def year_days_def)
  then have "ordinal z m d + 7 * (52 + (dow_month m + 1 + k + L)) = (dow_month m + d + 1 + A + k) + 7 * (52 * z + u)"
    using yd u by presburger
  then have "ordinal z m d mod 7 = (dow_month m + d + 1 + A + k) mod 7" by (rule mod7_eqI)
  moreover have "dow_month m + d + 1 + A = dow_month m + d + 1 + (z + z div 4) - z div 100"
    unfolding A_def by (rule add_diff_assoc) (rule trans_le_add1 [OF le])
  then have "dow_month m + d + 1 + A = dow_month m + d + 1 + z + z div 4 - z div 100"
    by (simp only: add.assoc)
  ultimately show ?thesis by (simp only: k_def)
qed

lemma unat_dow:
  assumes v: "valid_ymd y m d" and y: "y \<le> 100000"
  shows "unat (dow (int y) (of_nat (m + 1)) (of_nat d)) = weekday (ordinal y m d)"
proof -
  define z where "z = y mod 400 + 400"
  have z: "400 \<le> z" "z < 800" by (simp_all add: z_def)
  have m: "m < 12" and d: "d \<le> 31" and y1: "1 \<le> y"
    using v month_days_le [of m "leap_year y"] by (auto simp: valid_ymd_def)
  have "int y smod 400 + 400 = int z" by (simp add: smod_nonneg z_def zmod_int)
  moreover have "int z div 4 = int (z div 4)" "int z div 100 = int (z div 100)"
    by (simp_all add: zdiv_int)
  ultimately have w: "word_of_int (int y smod 400 + 400) = (of_nat z :: u32)"
      "word_of_int ((int y smod 400 + 400) sdiv 4) = (of_nat (z div 4) :: u32)"
      "word_of_int ((int y smod 400 + 400) sdiv 100) = (of_nat (z div 100) :: u32)"
    by (simp_all add: sdiv_nonneg)
  have l: "(int y smod 4 = 0 \<and> int y smod 100 \<noteq> 0 \<or> int y smod 400 = 0) = leap_year z"
  proof -
    have "int y smod 4 = int (y mod 4)" "int y smod 100 = int (y mod 100)" "int y smod 400 = int (y mod 400)"
      by (simp_all add: smod_nonneg zmod_int)
    moreover have "leap_year z = leap_year (y mod 400)" unfolding z_def by (rule leap_year_add_400)
    ultimately show ?thesis by (simp add: leap_year_def mod_mod_cancel)
  qed
  define k where "k = (if m < 2 then if leap_year z then 5 else 6 else 0 :: nat)"
  have k: "(if (of_nat (m + 1) :: u32) \<le> 2 then if leap_year z then 5 else 6 else 0) = (of_nat k :: u32)"
    using less_12_cases [OF m] by (auto simp: k_def)
  define c where "c = push_bit 4 ((of_nat (m + 1) + 9 :: u32) mod 12 + 1) mod 27"
  have c: "c = of_nat (dow_month m)" unfolding c_def by (rule word_of_unat [OF dow_month_word [OF m]])
  have le: "z div 100 \<le> dow_month m + d + 1 + z + z div 4" by (simp add: trans_le_add2)
  define X where "X = dow_month m + d + 1 + z + z div 4 - z div 100 + k"
  have "dow (int y) (of_nat (m + 1)) (of_nat d) = of_nat X mod 7"
    unfolding dow_def w l k c_def [symmetric] c X_def using le by (simp add: of_nat_diff algebra_simps)
  moreover have "X < 4294967296"
  proof -
    have "c + d + 1 + z + q - r + k < 4294967296" if "c < 27" "q \<le> z" "k \<le> 6" for c q r k :: nat
      using that z d by linarith
    moreover have "dow_month m < 27" "k \<le> 6" "z div 4 \<le> z" by (simp_all add: dow_month_def k_def)
    ultimately show ?thesis unfolding X_def by blast
  qed
  ultimately have "unat (dow (int y) (of_nat (m + 1)) (of_nat d)) = X mod 7"
    by (simp add: unat_mod unat_of_nat)
  moreover have "ordinal z m d mod 7 = X mod 7"
    unfolding X_def k_def by (rule ordinal_mod_7 [OF z m])
  ultimately show ?thesis
    using ordinal_mod_7_cycle [OF y1, of m d] by (simp only: weekday_def z_def)
qed

section \<open>Broken-down times\<close>

text \<open>
  \<open>is_utc t p\<close>: the members of \<open>p\<close>, but for \<open>tm_isdst\<close>, are the UTC date and time \<open>t\<close>
  seconds after the epoch.
\<close>

definition is_utc :: "nat \<Rightarrow> tm \<Rightarrow> bool" where
  "is_utc t p \<longleftrightarrow>
     (\<exists>y m d. valid_ymd y m d \<and> ordinal y m d = epoch_day + t div 86400 \<and>
        tm_year p = int y - 1900 \<and> tm_mon p = int m \<and> tm_mday p = int d \<and>
        tm_yday p = int (days_before_month (leap_year y) m + d) - 1) \<and>
     tm_wday p = int (weekday (epoch_day + t div 86400)) \<and>
     tm_hour p = int (t mod 86400 div 3600) \<and>
     tm_min p = int (t mod 3600 div 60) \<and>
     tm_sec p = int (t mod 60)"

lemma is_utc_unique:
  assumes "is_utc t p" and "is_utc t q"
  shows "p\<lparr>tm_isdst := i\<rparr> = q\<lparr>tm_isdst := i\<rparr>"
proof -
  from assms obtain y m d y' m' d' where
    p: "valid_ymd y m d" "ordinal y m d = epoch_day + t div 86400"
      "tm_year p = int y - 1900" "tm_mon p = int m" "tm_mday p = int d"
      "tm_yday p = int (days_before_month (leap_year y) m + d) - 1" and
    q: "valid_ymd y' m' d'" "ordinal y' m' d' = epoch_day + t div 86400"
      "tm_year q = int y' - 1900" "tm_mon q = int m'" "tm_mday q = int d'"
      "tm_yday q = int (days_before_month (leap_year y') m' + d') - 1"
    unfolding is_utc_def by blast
  with ordinal_inject [of y m d y' m' d'] assms show ?thesis
    by (intro tm.equality) (simp_all add: is_utc_def)
qed

lemma day_seconds:
  "t mod 86400 div 60 div 60 = t mod 86400 div (3600 :: nat)"
  "t mod 86400 div 60 mod 60 = t mod 3600 div (60 :: nat)"
  "t mod 86400 mod 60 = t mod (60 :: nat)"
proof -
  show "t mod 86400 div 60 div 60 = t mod 86400 div 3600" by (simp add: div_mult2_eq [symmetric])
  show "t mod 86400 mod 60 = t mod 60" by (rule mod_mod_cancel) simp
  have "t mod 86400 mod 3600 = t mod 3600" by (rule mod_mod_cancel) simp
  moreover have "x div 60 mod 60 = x mod 3600 div 60" for x :: nat
    using mod_mult2_eq [of x 60 60] by simp
  ultimately show "t mod 86400 div 60 mod 60 = t mod 3600 div 60" by simp
qed

lemma sint_of_nat32: "n < 2147483648 \<Longrightarrow> sint (of_nat n :: u32) = int n"
  by (subst sint32_small) (simp_all add: unat_of_nat)

lemma day_year_le:
  assumes "valid_ymd y m d" and "ordinal y m d \<le> 800000"
  shows "y \<le> 2191"
proof (rule ccontr)
  assume "\<not> y \<le> 2191"
  then have "days_before_year (Suc 2191) \<le> days_before_year y" by (intro days_before_year_mono) simp
  then have "years_days 2191 \<le> days_before_year y" by (simp only: days_before_year_Suc)
  moreover have "years_days 2191 = 800246" by (simp add: years_days_def)
  ultimately show False using ordinal_year_bounds(1) [OF assms(1)] assms(2) by linarith
qed

lemma gmtime_r_parts:
  assumes v: "valid_ymd y m d" and o: "ordinal y m d = epoch_day + unat t div 86400"
  shows "tm_year (gmtime_r t) = int y - 1900" and "tm_mon (gmtime_r t) = int m"
    and "tm_mday (gmtime_r t) = int d"
    and "tm_yday (gmtime_r t) = int (days_before_month (leap_year y) m + d) - 1"
    and "tm_wday (gmtime_r t) = int (weekday (ordinal y m d))"
proof -
  have le: "unat t div 86400 \<le> 49710" using unat32_lt [of t] by linarith
  then have y: "y \<le> 2191" by (intro day_year_le [OF v]) (simp add: o epoch_day_def)
  have y1970: "1970 \<le> y"
  proof (rule ccontr)
    assume "\<not> 1970 \<le> y"
    then have "days_before_year (Suc y) \<le> days_before_year 1970" by (intro days_before_year_mono) simp
    then show False using ordinal_year_bounds(2) [OF v] o by (simp only: days_before_year_1970 epoch_day_def)
  qed
  have m: "m < 12" and d: "1 \<le> d" "d \<le> 31" and y1: "1 \<le> y"
    using v month_days_le [of m "leap_year y"] by (auto simp: valid_ymd_def)
  have "unat (t div (60 * 60 * 24) + 719163) = ordinal y m d"
    using le by (subst unat32_add) (simp_all add: unat_div o epoch_day_def)
  then have st: "stymd (t div (60 * 60 * 24) + 719163) = (of_nat y, of_nat (m + 1), of_nat d)"
    using y by (intro stymd_finds [OF v]) simp_all
  have "sint (of_nat y - 1900 :: u32) = sint (of_nat (y - 1900) :: u32)"
    using y1970 by (simp add: of_nat_diff)
  then have yr: "sint (of_nat y - 1900 :: u32) = int y - 1900"
    using y y1970 by (simp add: sint_of_nat32 del: of_nat_diff)
  have mon: "sint (of_nat (m + 1) - 1 :: u32) = int m" using m by (simp add: sint_of_nat32)
  have u: "unat (of_nat y :: u32) = y" "unat (of_nat (m + 1) :: u32) = m + 1" "unat (of_nat d :: u32) = d"
    using y m d by (simp_all add: unat_of_nat del: of_nat_add of_nat_Suc)
  have "unat (ymdts (of_nat y) (of_nat (m + 1)) (of_nat d)) = ordinal y m d"
    using unat_ymdts [of "of_nat y" "of_nat (m + 1)" "of_nat d"] v y by (simp only: u) simp
  moreover have v1: "valid_ymd y 0 1" using y1 by (simp add: valid_ymd_def month_days_def)
  then have "unat (ymdts (of_nat y) 1 1) = ordinal y 0 1"
    using unat_ymdts [of "of_nat y" 1 1] y by (simp add: u)
  ultimately have "unat (ymdts (of_nat y) (of_nat (m + 1)) (of_nat d) - ymdts (of_nat y) 1 1) =
      days_before_month (leap_year y) m + d - 1"
    using d by (subst unat32_sub) (simp_all add: ordinal_def)
  moreover have "days_before_month (leap_year y) m + d \<le> 366"
    using days_before_month_le [OF m, of "leap_year y"] v by (auto simp: valid_ymd_def split: if_splits)
  ultimately have yd: "sint (ymdts (of_nat y) (of_nat (m + 1)) (of_nat d) - ymdts (of_nat y) 1 1) =
      int (days_before_month (leap_year y) m + d) - 1"
    using d by (subst sint32_small) simp_all
  have "weekday (ordinal y m d) < 7" by (simp add: weekday_def)
  then have wd: "sint (dow (int y) (of_nat (m + 1)) (of_nat d)) = int (weekday (ordinal y m d))"
    using y unat_dow [OF v] sint32_small [of "dow (int y) (of_nat (m + 1)) (of_nat d)"] by simp
  show "tm_year (gmtime_r t) = int y - 1900" "tm_mon (gmtime_r t) = int m" "tm_mday (gmtime_r t) = int d"
      "tm_yday (gmtime_r t) = int (days_before_month (leap_year y) m + d) - 1"
      "tm_wday (gmtime_r t) = int (weekday (ordinal y m d))"
    unfolding gmtime_r_def Let_def st prod.case yr
    using d yd wd mon by (simp_all add: sint_of_nat32)
qed

lemma gmtime_r_time:
  "tm_hour (gmtime_r t) = int (unat t mod 86400 div 3600)"
  "tm_min (gmtime_r t) = int (unat t mod 3600 div 60)"
  "tm_sec (gmtime_r t) = int (unat t mod 60)"
proof -
  have s: "sint w = int (unat w)" if "unat w \<le> 86400" for w :: u32 using that by (simp add: sint32_small)
  have "unat t mod 86400 < 86400" "unat t mod 3600 < 3600" by simp_all
  then have le: "unat t mod 86400 div 3600 \<le> 86400" "unat t mod 3600 div 60 \<le> 86400" "unat t mod 60 \<le> 86400"
    by linarith+
  define secs where "secs = t mod (60 * 60 * 24)"
  have "unat (secs div 60 div 60) = unat t mod 86400 div 3600" "unat (secs div 60 mod 60) = unat t mod 3600 div 60"
    "unat (secs mod 60) = unat t mod 60"
    by (simp_all add: secs_def unat_div unat_mod day_seconds)
  with le have "sint (secs div 60 div 60) = int (unat t mod 86400 div 3600)"
    "sint (secs div 60 mod 60) = int (unat t mod 3600 div 60)" "sint (secs mod 60) = int (unat t mod 60)"
    using s by metis+
  then show "tm_hour (gmtime_r t) = int (unat t mod 86400 div 3600)"
    "tm_min (gmtime_r t) = int (unat t mod 3600 div 60)" "tm_sec (gmtime_r t) = int (unat t mod 60)"
    by (simp_all add: gmtime_r_def Let_def secs_def split_beta)
qed

lemma gmtime_r_is_utc: "is_utc (unat t) (gmtime_r t)"
proof -
  obtain y m d where vo: "valid_ymd y m d" "ordinal y m d = epoch_day + unat t div 86400"
    using ex_date [of "epoch_day + unat t div 86400"] by (auto simp: epoch_day_def)
  from vo gmtime_r_parts [OF vo] gmtime_r_time [of t] show ?thesis
    unfolding is_utc_def by (metis)
qed

text \<open>
  \<open>utc_seconds y m d h mi s\<close>: the seconds from the epoch to the given date and time, with a
  day, hour, minute or second outside its range carried into the next.
\<close>

definition utc_seconds :: "nat \<Rightarrow> nat \<Rightarrow> int \<Rightarrow> int \<Rightarrow> int \<Rightarrow> int \<Rightarrow> int" where
  "utc_seconds y m d h mi s =
     86400 * (int (ordinal y m 1) - 1 + d - int epoch_day) + 3600 * h + 60 * mi + s"

lemma ymdts_day: "ymdts yr mo day = ymdts yr mo 1 - 1 + day"
  by (simp add: ymdts_parts)

lemma timegm_value:
  assumes y: "tm_year p = int y - 1900" "1970 \<le> y" "y \<le> 2105" and m: "tm_mon p = int m" "m < 12"
  shows "timegm p =
    (let tt = word_of_int (utc_seconds y m (tm_mday p) (tm_hour p) (tm_min p) (tm_sec p)) in (tt, gmtime_r tt))"
proof -
  have v: "valid_ymd y m 1" using y m month_days_pos [of m "leap_year y"] by (auto simp: valid_ymd_def)
  have u: "unat (of_nat y :: u32) = y" "unat (of_nat (m + 1) :: u32) = m + 1"
    using y m by (simp_all add: unat_of_nat del: of_nat_add of_nat_Suc)
  have "unat (ymdts (of_nat y) (of_nat (m + 1)) 1) = ordinal y m 1"
    using unat_ymdts [of "of_nat y" "of_nat (m + 1)" 1] v y by (simp only: u) simp
  then have o: "ymdts (of_nat y) (of_nat (m + 1)) 1 = of_nat (ordinal y m 1)" by (rule word_of_unat)
  have args: "word_of_int (tm_year p + 1900) = (of_nat y :: u32)" "word_of_int (tm_mon p + 1) = (of_nat (m + 1) :: u32)"
    using y m by simp_all
  define D where "D = int (ordinal y m 1) - 1 + tm_mday p - int epoch_day"
  have days: "ymdts (word_of_int (tm_year p + 1900)) (word_of_int (tm_mon p + 1)) (word_of_int (tm_mday p)) - 719163 =
      word_of_int D"
    unfolding args D_def by (subst ymdts_day) (simp only: o, simp add: epoch_day_def)
  have secs: "((word_of_int D * 24 + word_of_int (tm_hour p)) * 60 + word_of_int (tm_min p)) * 60 + word_of_int (tm_sec p) =
      (word_of_int (utc_seconds y m (tm_mday p) (tm_hour p) (tm_min p) (tm_sec p)) :: u32)"
    unfolding utc_seconds_def D_def [symmetric] by (simp add: algebra_simps)
  have "\<not> (tm_year p < 70 \<or> tm_year p > 205)" using y by simp
  then show ?thesis unfolding timegm_def Let_def days secs by simp
qed

lemma utc_seconds_split:
  "86400 * int (t div 86400) + 3600 * int (t mod 86400 div 3600) + 60 * int (t mod 3600 div 60) + int (t mod 60) = int t"
proof -
  have join: "86400 * int d + 3600 * int a + 60 * int b + int c = int t"
    if "t = 86400 * d + x" "x = 3600 * a + y" "y = 60 * b + c" for a b c d x y
    using that by simp
  show ?thesis
    by (rule join [of _ "t mod 86400" _ "t mod 3600"])
      (use mult_div_mod_eq [of 3600 "t mod 86400"] mod_mod_cancel [of 3600 86400 t]
        mult_div_mod_eq [of 60 "t mod 3600"] mod_mod_cancel [of 60 3600 t] in simp_all)
qed

lemma is_utc_seconds:
  assumes "is_utc t p"
  obtains y m where "1970 \<le> y" "m < 12" "tm_year p = int y - 1900" "tm_mon p = int m"
    "utc_seconds y m (tm_mday p) (tm_hour p) (tm_min p) (tm_sec p) = int t"
    "days_before_year y < epoch_day + t div 86400" "epoch_day + t div 86400 \<le> days_before_year (Suc y)"
proof -
  from assms obtain y m d where
    v: "valid_ymd y m d" and o: "ordinal y m d = epoch_day + t div 86400" and
    p: "tm_year p = int y - 1900" "tm_mon p = int m" "tm_mday p = int d"
    unfolding is_utc_def by blast
  have "1970 \<le> y"
  proof (rule ccontr)
    assume "\<not> 1970 \<le> y"
    then have "days_before_year (Suc y) \<le> days_before_year 1970" by (intro days_before_year_mono) simp
    then show False using ordinal_year_bounds(2) [OF v] o by (simp only: days_before_year_1970 epoch_day_def)
  qed
  moreover have "int (ordinal y m 1) - 1 + int d - int epoch_day = int (t div 86400)"
    using o v by (simp add: ordinal_def valid_ymd_def)
  then have "utc_seconds y m (tm_mday p) (tm_hour p) (tm_min p) (tm_sec p) = int t"
    using assms utc_seconds_split [of t] unfolding utc_seconds_def p is_utc_def by simp
  moreover have "m < 12" using v by (simp add: valid_ymd_def)
  ultimately show thesis using that p ordinal_year_bounds [OF v] o by metis
qed

section \<open>The contracts of the scalar dates\<close>

definition scalar_to_date :: "nat \<Rightarrow> nat \<times> nat \<times> nat" where
  "scalar_to_date n = (case stymd (of_nat n) of (y, m, d) \<Rightarrow> (unat y, unat m - 1, unat d))"

definition scalar_of_date :: "nat \<Rightarrow> nat \<Rightarrow> nat \<Rightarrow> nat" where
  "scalar_of_date y m d = unat (ymdts (of_nat y) (of_nat (m + 1)) (of_nat d))"

definition last_scalar :: nat where
  "last_scalar = 5368699"

lemma date_words:
  assumes "valid_ymd y m d" and "y \<le> 14699"
  shows "unat (of_nat y :: u32) = y" "unat (of_nat (m + 1) :: u32) = m + 1" "unat (of_nat d :: u32) = d"
  using assms month_days_le [of m "leap_year y"]
  by (auto simp: unat_of_nat valid_ymd_def simp del: of_nat_add of_nat_Suc)

lemma last_scalar_year: "valid_ymd y m d \<Longrightarrow> ordinal y m d \<le> last_scalar \<Longrightarrow> y \<le> 14699"
proof (rule ccontr)
  assume v: "valid_ymd y m d" "ordinal y m d \<le> last_scalar" and "\<not> y \<le> 14699"
  then have "days_before_year (Suc 14699) \<le> days_before_year y" by (intro days_before_year_mono) simp
  then have "years_days 14699 < ordinal y m d"
    using ordinal_year_bounds(1) [OF v(1)] by (simp only: days_before_year_Suc)
  with v(2) show False by (simp add: years_days_def last_scalar_def)
qed

interpretation scalar: date_codec scalar_to_date scalar_of_date last_scalar
proof
  fix y m d assume v: "valid_ymd y m d" and le: "ordinal y m d \<le> last_scalar"
  have y: "y \<le> 14699" by (rule last_scalar_year [OF v le])
  have "unat (of_nat (ordinal y m d) :: u32) = ordinal y m d"
    using le by (simp add: unat_of_nat last_scalar_def)
  from stymd_finds [OF v y this] show "scalar_to_date (ordinal y m d) = (y, m, d)"
    by (simp only: scalar_to_date_def prod.case date_words [OF v y]) simp
  show "scalar_of_date y m d = ordinal y m d"
    using unat_ymdts [of "of_nat y" "of_nat (m + 1)" "of_nat d"] v y
    by (simp only: scalar_of_date_def date_words [OF v y]) simp
qed

text \<open>
  Over the range the source gives, 1 January of the year 1 to 31 December 14699, \<^verbatim>\<open>__ymdts\<close>
  counts the days of the Gregorian calendar and \<^verbatim>\<open>__stymd\<close> inverts it, and its year search ends.
\<close>

theorem scalar_dates_round_trip:
  assumes "valid_ymd y m d" and "y \<le> 14699"
  shows "ymdts (of_nat y) (of_nat (m + 1)) (of_nat d) = of_nat (ordinal y m d) \<and>
    stymd (ymdts (of_nat y) (of_nat (m + 1)) (of_nat d)) = (of_nat y, of_nat (m + 1), of_nat d) \<and>
    (\<exists>n. while_option (ytd_below (of_nat (ordinal y m d))) (\<lambda>n. n + 1)
       (sdiv32 (of_nat (ordinal y m d) * 400) 146097) = Some n)"
proof -
  have le: "ordinal y m d \<le> 5368699" by (rule ordinal_le_last [OF assms])
  have o: "ymdts (of_nat y) (of_nat (m + 1)) (of_nat d) = of_nat (ordinal y m d)"
    using scalar.of_date_counts [OF assms(1)] le
    by (intro word_of_unat) (simp add: scalar_of_date_def last_scalar_def)
  have u: "unat (of_nat (ordinal y m d) :: u32) = ordinal y m d" using le by (simp add: unat_of_nat)
  have "1 \<le> y" using assms by (simp add: valid_ymd_def)
  with ytd_search_finds(2) [OF _ assms(2) _ _ search_start [OF assms u]] ordinal_year_bounds [OF assms(1)] u o
    stymd_finds [OF assms u]
  show ?thesis by simp
qed

theorem scalar_dates_round_trip_witness:
  "stymd (ymdts 2000 2 29) = (2000, 2, 29) \<and> ymdts 2000 2 29 = 730179"
  using scalar_dates_round_trip [of 2000 1 29]
  by (simp add: valid_ymd_def month_days_def leap_year_def ymdts_def mtd_def ytd_def isleap_def)

text \<open>
  \<^verbatim>\<open>gmtime_r\<close> breaks every 32-bit time down into the UTC date and time, weekday and day of
  the year included, and sets \<open>tm_isdst\<close> to -1.
\<close>

theorem gmtime_r_utc: "is_utc (unat t) (gmtime_r t) \<and> tm_isdst (gmtime_r t) = -1"
  using gmtime_r_is_utc [of t] by (simp add: gmtime_r_def Let_def split_beta)

text \<open>
  \<^verbatim>\<open>timegm\<close> of a year from 1970 to 2105 and a month from 0 to 11 counts the seconds with
  \<open>tm_mday\<close>, \<open>tm_hour\<close>, \<open>tm_min\<close> and \<open>tm_sec\<close> carried from any value, modulo \<open>2 ^ 32\<close>, and
  stores the broken-down form of the result; outside these years it gives -1 and keeps the
  structure.
\<close>

theorem timegm_carries:
  assumes "m < 12" and "tm_mon p = int m" and "tm_year p = int y - 1900"
  shows "(1970 \<le> y \<and> y \<le> 2105 \<longrightarrow>
      timegm p = (let tt = word_of_int (utc_seconds y m (tm_mday p) (tm_hour p) (tm_min p) (tm_sec p))
                  in (tt, gmtime_r tt))) \<and>
    (\<not> (1970 \<le> y \<and> y \<le> 2105) \<longrightarrow> timegm p = (-1, p))"
  using timegm_value [OF assms(3) _ _ assms(2,1)] assms(3) by (auto simp: timegm_def)

theorem timegm_carries_witness:
  "fst (timegm \<lparr>tm_sec = 45296, tm_min = 0, tm_hour = 0, tm_mday = 292, tm_mon = 0, tm_year = 70,
      tm_wday = 0, tm_yday = 0, tm_isdst = 0\<rparr>) = 25187696"
  using timegm_carries [of 0 "\<lparr>tm_sec = 45296, tm_min = 0, tm_hour = 0, tm_mday = 292, tm_mon = 0, tm_year = 70,
      tm_wday = 0, tm_yday = 0, tm_isdst = 0\<rparr>" 1970]
  by (simp add: Let_def utc_seconds_def ordinal_def days_before_year_1970 epoch_day_def del: days_before_year.simps)

section \<open>Round trips\<close>

definition end_2105 :: nat where
  "end_2105 = 4291747200"

lemma end_2105_year:
  assumes "t < end_2105" and "days_before_year y < epoch_day + t div 86400"
  shows "y \<le> 2105"
proof (rule ccontr)
  assume "\<not> y \<le> 2105"
  then have "days_before_year (Suc 2105) \<le> days_before_year y" by (intro days_before_year_mono) simp
  then have "years_days 2105 \<le> days_before_year y" by (simp only: days_before_year_Suc)
  moreover have "years_days 2105 = epoch_day + 49672" by (simp add: years_days_def epoch_day_def)
  moreover have "t div 86400 < 49673" using assms(1) by (simp add: end_2105_def div_less_iff_less_mult)
  ultimately show False using assms(2) by linarith
qed

lemma timegm_is_utc:
  assumes "is_utc t p" and "t < end_2105"
  shows "timegm p = (of_nat t, gmtime_r (of_nat t))"
proof -
  obtain y m where p: "1970 \<le> y" "m < 12" "tm_year p = int y - 1900" "tm_mon p = int m"
      "utc_seconds y m (tm_mday p) (tm_hour p) (tm_min p) (tm_sec p) = int t"
      "days_before_year y < epoch_day + t div 86400"
    using is_utc_seconds [OF assms(1)] by metis
  from end_2105_year [OF assms(2) p(6)] show ?thesis
    using timegm_value [OF p(3,1) _ p(4,2)] p(5) by (simp add: Let_def)
qed

text \<open>
  \<^verbatim>\<open>timegm\<close> is the inverse of \<^verbatim>\<open>gmtime_r\<close> on every time of the years 1970 to 2105, and
  normalises nothing there.
\<close>

theorem timegm_gmtime_r:
  assumes "unat t < end_2105" shows "timegm (gmtime_r t) = (t, gmtime_r t)"
  using timegm_is_utc [OF gmtime_r_is_utc assms] by simp

theorem timegm_gmtime_r_witness: "timegm (gmtime_r 1700000000) = (1700000000, gmtime_r 1700000000)"
  by (rule timegm_gmtime_r) (simp add: end_2105_def)

text \<open>
  \<^verbatim>\<open>mktime\<close> is the inverse of \<^verbatim>\<open>localtime_r\<close> for every time-zone offset, as long as the
  local time lies in the years 1970 to 2105.
\<close>

theorem mktime_localtime_r:
  assumes "0 \<le> int (unat t) + tz" and "int (unat t) + tz < int end_2105" and "t \<noteq> -1"
  shows "mktime tz (localtime_r tz t) = (t, localtime_r tz t)"
proof -
  define l where "l = t + word_of_int tz"
  have l: "l = word_of_int (int (unat t) + tz)" by (simp add: l_def)
  have ul: "int (unat l) = int (unat t) + tz"
    using assms(1,2) unat32_of_int [of "int (unat t) + tz"] unfolding l end_2105_def by linarith
  with assms(2) have "unat l < end_2105" by linarith
  from timegm_is_utc [OF gmtime_r_is_utc this] have g: "fst (timegm (localtime_r tz t)) = l"
    by (simp add: localtime_r_def flip: l_def)
  have lne: "l \<noteq> -1"
  proof
    assume "l = -1"
    then have "unat l = 4294967295" by simp
    with \<open>unat l < end_2105\<close> show False by (simp add: end_2105_def)
  qed
  have t: "unat t < 4294967295" 
  proof -
    have "unat t \<noteq> unat (-1 :: u32)" using assms(3) by (metis word_unat_eq_iff)
    then show ?thesis using unat32_lt [of t] unfolding unat32_minus1 by linarith
  qed
  show ?thesis
  proof (cases "0 \<le> tz")
    case True
    moreover have "tz < 4294967296" using assms(2) unfolding end_2105_def by linarith
    ultimately have n: "unat (word_of_int tz :: u32) = nat tz" by (rule unat32_of_int)
    then have "\<not> l < word_of_int tz" using ul True unfolding word_less_nat_alt by linarith
    then show ?thesis using True lne by (simp add: mktime_def Let_def g) (simp add: l_def)
  next
    case False
    then have n: "unat (word_of_int (- tz) :: u32) = nat (- tz)"
      using assms(1) t by (intro unat32_of_int) linarith+
    have "unat (0xFFFFFFFE - l) = 4294967294 - unat l"
      using \<open>unat l < end_2105\<close> by (subst unat32_sub) (simp_all add: end_2105_def)
    then have "\<not> word_of_int (- tz) > 0xFFFFFFFE - l"
      using n ul t False by (simp only: word_less_nat_alt)
    then show ?thesis using False lne by (simp add: mktime_def Let_def g l_def)
  qed
qed

theorem mktime_localtime_r_witness:
  "mktime (- 18000) (localtime_r (- 18000) 1700000000) = (1700000000, localtime_r (- 18000) 1700000000)"
  by (rule mktime_localtime_r) (simp_all add: end_2105_def)

text \<open>
  When \<^verbatim>\<open>mktime\<close> returns -1 it leaves the caller's structure as it was, and it returns -1
  for every year outside 1970 to 2105.
\<close>

theorem mktime_error:
  "(fst (mktime tz p) = -1 \<longrightarrow> snd (mktime tz p) = p) \<and>
   (tm_year p < 70 \<or> tm_year p > 205 \<longrightarrow> mktime tz p = (-1, p))"
proof -
  define t where "t = fst (timegm p)"
  have "t - n \<noteq> -1" if "t \<noteq> -1" "\<not> t < n" for n :: u32
  proof
    assume eq: "t - n = -1"
    have "unat (t - n) = unat t - unat n"
      using that(2) by (subst unat32_sub) (simp_all add: word_less_nat_alt)
    with eq have "unat t - unat n = unat (-1 :: u32)" by simp
    then have "unat t = unat (-1 :: u32)" using unat32_lt [of t] unfolding unat32_minus1 by linarith
    with that(1) show False by (metis word_unat_eq_iff)
  qed
  moreover have "t + n \<noteq> -1" if "t \<noteq> -1" "\<not> n > 0xFFFFFFFE - t" for n :: u32
  proof
    assume eq: "t + n = -1"
    have "unat t \<noteq> unat (-1 :: u32)" using that(1) by (metis word_unat_eq_iff)
    then have t: "unat t \<le> 4294967294" using unat32_lt [of t] unfolding unat32_minus1 by linarith
    then have "unat (0xFFFFFFFE - t) = 4294967294 - unat t" by (subst unat32_sub) simp_all
    with that(2) have "unat n \<le> 4294967294 - unat t" by (simp add: word_less_nat_alt)
    then have "unat (t + n) = unat t + unat n" "unat t + unat n \<le> 4294967294"
      using t by (simp_all add: unat32_add)
    moreover have "unat (t + n) = 4294967295" by (simp add: eq)
    ultimately show False by simp
  qed
  moreover define k n :: u32 where "k = word_of_int tz" and "n = word_of_int (- tz)"
  ultimately have "fst (mktime tz p) = -1 \<longrightarrow> snd (mktime tz p) = p"
    unfolding mktime_def Let_def t_def [symmetric] k_def [symmetric] n_def [symmetric] by auto
  moreover have "tm_year p < 70 \<or> tm_year p > 205 \<longrightarrow> mktime tz p = (-1, p)"
    by (simp add: mktime_def timegm_def)
  ultimately show ?thesis by blast
qed

theorem mktime_error_witness:
  "mktime 3600 \<lparr>tm_sec = 0, tm_min = 0, tm_hour = 0, tm_mday = 1, tm_mon = 0, tm_year = 69,
      tm_wday = 0, tm_yday = 0, tm_isdst = 0\<rparr> =
   (-1, \<lparr>tm_sec = 0, tm_min = 0, tm_hour = 0, tm_mday = 1, tm_mon = 0, tm_year = 69,
      tm_wday = 0, tm_yday = 0, tm_isdst = 0\<rparr>)"
  using mktime_error [of 3600 "\<lparr>tm_sec = 0, tm_min = 0, tm_hour = 0, tm_mday = 1, tm_mon = 0, tm_year = 69,
      tm_wday = 0, tm_yday = 0, tm_isdst = 0\<rparr>"]
  by simp

end
