(* ===== verification/Tod.thy ===== *)
theory Tod
  imports Int64_Arith
begin

text \<open>
  The clock readings: \<^verbatim>\<open>__todsec()\<close> and \<^verbatim>\<open>time()\<close> of \<^verbatim>\<open>src/time\<close>, which get by with 32-bit
  arithmetic, and the 64-bit \<^verbatim>\<open>clock64()\<close>, \<^verbatim>\<open>mclock64()\<close>, \<^verbatim>\<open>uclock64()\<close> with the functions on
  top of them of \<^verbatim>\<open>src/ext/time64\<close>.  The doubleword the STCK instruction stores is a parameter.
\<close>

unbundle bit_operations_syntax

section \<open>Definitions\<close>

text \<open>The two fullwords of the TOD value are the arguments of \<open>todsec\<close>.\<close>

definition todsec :: "u32 \<Rightarrow> u32 \<Rightarrow> u32" where
  "todsec t0 t1 =
     (let uh = drop_bit 12 t0;
          ul = push_bit 20 t0 OR drop_bit 12 t1;
          uh = (if ul < 0x48BCA000 then uh - 1 else uh);
          ul = ul - 0x48BCA000;
          uh = uh - 0x0007D910;
          ul = push_bit 26 uh OR drop_bit 6 ul;
          uh = drop_bit 6 uh;
          n = push_bit 16 uh OR drop_bit 16 ul;
          q = n div 15625;
          r = n mod 15625;
          n = push_bit 16 r OR (ul AND 0xFFFF)
      in push_bit 16 q OR (n div 15625))"

definition tod_hi :: "u64 \<Rightarrow> u32" where
  "tod_hi tod = ucast (drop_bit 32 tod)"

definition tod_lo :: "u64 \<Rightarrow> u32" where
  "tod_lo tod = ucast tod"

definition getclk :: "u64 \<Rightarrow> u32" where
  "getclk tod = todsec (tod_hi tod) (tod_lo tod)"

text \<open>\<open>time()\<close> returns the seconds and stores them where a pointer that is not null points.\<close>

definition time_c :: "u64 \<Rightarrow> u32 option \<Rightarrow> u32 \<times> u32 option" where
  "time_c tod timer = (let tt = getclk tod in (tt, map_option (\<lambda>_. tt) timer))"

definition stck_1970 :: u64 where
  "stck_1970 = 0x7D91048BCA000000"

definition uclock64 :: "u64 \<Rightarrow> u64" where
  "uclock64 tod = drop_bit 12 (tod - stck_1970)"

definition clock64 :: "u64 \<Rightarrow> u64" where
  "clock64 tod =
     (let clock = of_u64 (drop_bit 12 (tod - stck_1970));
          clock = i64_div_u32 clock 1000000
      in u64_of clock)"

definition mclock64 :: "u64 \<Rightarrow> u64" where
  "mclock64 tod =
     (let clock = of_u64 (drop_bit 12 (tod - stck_1970));
          clock = i64_div_u32 clock 1000
      in u64_of clock)"

definition time64 :: "u64 \<Rightarrow> int64 option \<Rightarrow> int64 \<times> int64 option" where
  "time64 tod timer = (let tt = of_u64 (clock64 tod) in (tt, map_option (\<lambda>_. tt) timer))"

definition mtime64 :: "u64 \<Rightarrow> int64 option \<Rightarrow> int64 \<times> int64 option" where
  "mtime64 tod mtimer = (let tt = of_u64 (mclock64 tod) in (tt, map_option (\<lambda>_. tt) mtimer))"

definition utime64 :: "u64 \<Rightarrow> int64 option \<Rightarrow> int64 \<times> int64 option" where
  "utime64 tod utimer = (let tt = of_u64 (uclock64 tod) in (tt, map_option (\<lambda>_. tt) utimer))"

section \<open>The seconds of the clock\<close>

text \<open>A pair of words is the number \<open>hi * 2 ^ 32 + lo\<close>; shifting it right in two pieces.\<close>

lemma unat_or_shifted:
  assumes "unat (x :: u32) * 2 ^ k < 2 ^ 32" and "unat y < 2 ^ k"
  shows "unat (push_bit k x OR y) = unat x * 2 ^ k + unat y"
proof -
  have "unat (push_bit k x) = unat x * 2 ^ k" using assms(1) by (simp add: unat_push_bit_mod)
  then show ?thesis using unat_or_disjoint [OF assms(2), of "push_bit k x"] by simp
qed

lemma unat_push_or:
  assumes "unat (y :: u32) < 2 ^ k" and "k \<le> 32"
  shows "unat (push_bit k (x :: u32) OR y) = (unat x mod 2 ^ (32 - k)) * 2 ^ k + unat y"
proof -
  have e: "2 ^ (32 - k) * 2 ^ k = B32" using power_add [of "2 :: nat" "32 - k" k] assms(2) by simp
  have "unat (push_bit k x) = unat x * 2 ^ k mod B32" by (simp add: unat_push_bit_mod)
  also have "\<dots> = (unat x mod 2 ^ (32 - k)) * 2 ^ k" unfolding e [symmetric] by (rule mult_mod_left [symmetric])
  finally have "unat (push_bit k x) = (unat x mod 2 ^ (32 - k)) * 2 ^ k" .
  then show ?thesis using unat_or_disjoint [OF assms(1), of "push_bit k x"] by simp
qed

text \<open>The pair \<open>(h, l)\<close> shifted right by \<open>k\<close> bits.\<close>

lemma split_at: "y < n \<Longrightarrow> (x * n + y) div n = x" "y < n \<Longrightarrow> (x * n + y) mod n = (y :: nat)"
  by simp_all

lemma pair_shift_parts:
  fixes h l P Q :: nat
  assumes "l < Q * P" and "0 < P"
  shows "(h mod P) * Q + l div P = (h * (Q * P) + l) div P mod (Q * P)"
    and "h div P = (h * (Q * P) + l) div P div (Q * P)"
proof -
  have lq: "l div P < Q" using assms by (simp add: div_less_iff_less_mult)
  have "h * (Q * P) + l = l + (h * Q) * P" by simp
  moreover have "(l + (h * Q) * P) div P = h * Q + l div P" using assms(2) by (intro div_mult_self1) simp
  ultimately have "(h * (Q * P) + l) div P = h * Q + l div P" by (simp only:)
  also have "h = h div P * P + h mod P" by simp
  then have "h * Q + l div P = (h div P) * (Q * P) + ((h mod P) * Q + l div P)"
    by (metis add.assoc add_mult_distrib mult.assoc mult.commute)
  finally have eq: "(h * (Q * P) + l) div P = (h div P) * (Q * P) + ((h mod P) * Q + l div P)" .
  have "(h mod P + 1) * Q \<le> P * Q" using assms(2) by (intro mult_le_mono1) (simp add: Suc_leI)
  then have "(h mod P) * Q + l div P < Q * P" using lq by (simp add: mult.commute [of Q])
  from split_at [OF this] show "(h mod P) * Q + l div P = (h * (Q * P) + l) div P mod (Q * P)"
    "h div P = (h * (Q * P) + l) div P div (Q * P)"
    unfolding eq by simp_all
qed

lemma pair_shift_right:
  fixes h l :: nat
  assumes "l < B32" and "k \<le> 32"
  shows "(h mod 2 ^ k) * 2 ^ (32 - k) + l div 2 ^ k = (h * B32 + l) div 2 ^ k mod B32"
    and "h div 2 ^ k = (h * B32 + l) div 2 ^ k div B32"
proof -
  have "2 ^ (32 - k) * 2 ^ k = B32" using power_add [of "2 :: nat" "32 - k" k] assms(2) by simp
  then show "(h mod 2 ^ k) * 2 ^ (32 - k) + l div 2 ^ k = (h * B32 + l) div 2 ^ k mod B32"
    "h div 2 ^ k = (h * B32 + l) div 2 ^ k div B32"
    using pair_shift_parts [of l "2 ^ (32 - k)" "2 ^ k" h] assms(1) by simp_all
qed

lemma borrow_pair:
  fixes h l hs ls :: nat
  assumes "hs * B32 + ls \<le> h * B32 + l" and "l < B32" and "ls < B32"
  shows "(h * B32 + l - (hs * B32 + ls)) div B32 = (if l < ls then h - 1 else h) - hs"
    and "(h * B32 + l - (hs * B32 + ls)) mod B32 = (if l < ls then B32 + l - ls else l - ls)"
    and "hs \<le> (if l < ls then h - 1 else h)" and "l < ls \<Longrightarrow> 1 \<le> h"
proof -
  have ge: "hs < h \<or> hs = h \<and> ls \<le> l" using assms by (cases "hs < h") linarith+
  then show "hs \<le> (if l < ls then h - 1 else h)" "l < ls \<Longrightarrow> 1 \<le> h" by auto
  define hd where "hd = (if l < ls then h - 1 else h) - hs"
  define ld where "ld = (if l < ls then B32 + l - ls else l - ls)"
  have "h * B32 + l - (hs * B32 + ls) = hd * B32 + ld"
    using ge assms by (auto simp: hd_def ld_def algebra_simps)
  moreover have "ld < B32" using assms(2,3) unfolding ld_def by (auto simp del: diff_diff_left)
  ultimately show "(h * B32 + l - (hs * B32 + ls)) div B32 = (if l < ls then h - 1 else h) - hs"
    "(h * B32 + l - (hs * B32 + ls)) mod B32 = (if l < ls then B32 + l - ls else l - ls)"
    by (simp_all add: hd_def [symmetric] ld_def [symmetric])
qed

lemma div_two_steps:
  fixes v :: nat
  shows "v div 15625 = v div B16 div 15625 * B16 + (v div B16 mod 15625 * B16 + v mod B16) div 15625"
    and "(v div B16 mod 15625 * B16 + v mod B16) div 15625 < B16"
proof -
  define n r low where "n = v div B16" and "r = n mod 15625" and "low = v mod B16"
  have "v = n * B16 + low" by (simp add: n_def low_def)
  also have "n = n div 15625 * 15625 + r" by (simp add: r_def)
  finally have "v = (r * B16 + low) + (n div 15625 * B16) * 15625" by simp
  then have "v div 15625 = n div 15625 * B16 + (r * B16 + low) div 15625"
    using div_mult_self1 [of 15625 "r * B16 + low" "n div 15625 * B16"] by simp
  then show "v div 15625 = v div B16 div 15625 * B16 + (v div B16 mod 15625 * B16 + v mod B16) div 15625"
    by (simp add: n_def r_def low_def)
  have "r < 15625" "low < B16" by (simp_all add: r_def low_def)
  then have "r * B16 + low < B16 * 15625" by simp
  then show "(v div B16 mod 15625 * B16 + v mod B16) div 15625 < B16"
    by (simp add: div_less_iff_less_mult n_def r_def low_def)
qed

definition stck_us_1970 :: nat where
  "stck_us_1970 = 514320 * B32 + 1220321280"

lemma todsec_value:
  assumes "stck_us_1970 \<le> (unat t0 * B32 + unat t1) div 4096"
  shows "unat (todsec t0 t1) = ((unat t0 * B32 + unat t1) div 4096 - stck_us_1970) div 1000000"
proof -
  define M where "M = (unat t0 * B32 + unat t1) div 4096"
  define U where "U = M - stck_us_1970"
  define V where "V = U div 64"
  have "unat t0 * B32 + unat t1 < B64" using unat32_lt [of t0] unat32_lt [of t1] by linarith
  then have "M < 4503599627370496" unfolding M_def by (simp add: div_less_iff_less_mult)
  then have U: "U < 2294610827370496" using assms by (simp add: U_def M_def stck_us_1970_def)
  then have V: "V < 35853294177664" by (simp add: V_def div_less_iff_less_mult)
  define uh1 ul1 where "uh1 = drop_bit 12 t0" and "ul1 = push_bit 20 t0 OR drop_bit 12 t1"
  have uh1: "unat uh1 = M div B32"
    using pair_shift_right(2) [of "unat t1" 12 "unat t0"] by (simp add: uh1_def M_def unat_drop_bit_div)
  have "unat (drop_bit 12 t1) < 2 ^ 20"
    using unat32_lt [of t1] by (simp add: unat_drop_bit_div div_less_iff_less_mult)
  then have ul1: "unat ul1 = M mod B32"
    using unat_push_or [of "drop_bit 12 t1" 20 t0] pair_shift_right(1) [of "unat t1" 12 "unat t0"]
    by (simp add: ul1_def M_def unat_drop_bit_div)
  define uh2 ul2 where "uh2 = (if ul1 < 0x48BCA000 then uh1 - 1 else uh1) - 0x0007D910" and "ul2 = ul1 - 0x48BCA000"
  have "514320 * B32 + 1220321280 \<le> M div B32 * B32 + M mod B32"
    using assms by (simp add: M_def stck_us_1970_def)
  note borrow = borrow_pair [OF this, unfolded div_mult_mod_eq]
  have uh2: "unat uh2 = U div B32"
  proof -
    have "unat (if ul1 < 0x48BCA000 then uh1 - 1 else uh1) = (if M mod B32 < 1220321280 then M div B32 - 1 else M div B32)"
      using borrow(4) by (simp add: word_less_nat_alt ul1 uh1 unat32_sub)
    then show ?thesis
      using borrow(1,3) by (simp add: uh2_def unat32_sub U_def stck_us_1970_def)
  qed
  have ul2: "unat ul2 = U mod B32"
    using borrow(2) by (simp add: ul2_def unat_sub_if' ul1 U_def stck_us_1970_def)
  define uh3 ul3 where "uh3 = drop_bit 6 uh2" and "ul3 = push_bit 26 uh2 OR drop_bit 6 ul2"
  have UU: "unat uh2 * B32 + unat ul2 = U" by (simp add: uh2 ul2)
  have uh3: "unat uh3 = V div B32"
    using pair_shift_right(2) [of "unat ul2" 6 "unat uh2"] by (simp add: uh3_def V_def unat_drop_bit_div UU)
  have "unat (drop_bit 6 ul2) < 2 ^ 26"
    using unat32_lt [of ul2] by (simp add: unat_drop_bit_div div_less_iff_less_mult)
  then have ul3: "unat ul3 = V mod B32"
    using unat_push_or [of "drop_bit 6 ul2" 26 uh2] pair_shift_right(1) [of "unat ul2" 6 "unat uh2"]
    by (simp add: ul3_def V_def unat_drop_bit_div UU)
  define n where "n = push_bit 16 uh3 OR drop_bit 16 ul3"
  have VV: "unat uh3 * B32 + unat ul3 = V" by (simp add: uh3 ul3)
  have "unat (drop_bit 16 ul3) < 2 ^ 16"
    using unat32_lt [of ul3] by (simp add: unat_drop_bit_div div_less_iff_less_mult)
  then have "unat n = V div B16 mod B32"
    using unat_push_or [of "drop_bit 16 ul3" 16 uh3] pair_shift_right(1) [of "unat ul3" 16 "unat uh3"]
    by (simp add: n_def unat_drop_bit_div VV)
  then have n: "unat n = V div B16" using V by (simp add: div_less_iff_less_mult)
  define n2 where "n2 = push_bit 16 (n mod 15625) OR (ul3 AND 0xFFFF)"
  have low: "unat (ul3 AND 0xFFFF) = V mod B16"
    unfolding unat_ffff_and ul3 by (rule mod_mod_cancel) simp
  have r: "V div B16 mod 15625 < 15625" by simp
  have n2: "unat n2 = V div B16 mod 15625 * B16 + V mod B16"
    using unat_or_shifted [of "n mod 15625" 16 "ul3 AND 0xFFFF"] r
    by (simp add: n2_def unat_mod n low)
  have q: "V div B16 div 15625 < B16" using V by (simp add: div_less_iff_less_mult)
  have "unat (push_bit 16 (n div 15625) OR (n2 div 15625)) =
      V div B16 div 15625 * B16 + (V div B16 mod 15625 * B16 + V mod B16) div 15625"
    using unat_or_shifted [of "n div 15625" 16 "n2 div 15625"] q div_two_steps(2) [of V]
    by (simp add: unat_div n n2)
  then have "unat (push_bit 16 (n div 15625) OR (n2 div 15625)) = U div 1000000"
    unfolding div_two_steps(1) [of V, symmetric] by (simp add: V_def div_mult2_eq [symmetric])
  moreover have "todsec t0 t1 = push_bit 16 (n div 15625) OR (n2 div 15625)"
    unfolding n2_def n_def uh3_def ul3_def uh2_def ul2_def uh1_def ul1_def todsec_def Let_def ..
  ultimately show ?thesis by (simp only: U_def M_def)
qed

text \<open>
  From 1970 on \<^verbatim>\<open>__todsec\<close>, which never divides more than 32 bits, is \<^verbatim>\<open>clock64\<close>, which
  divides 64: both are the whole seconds since the epoch, up to the end of the TOD clock.
\<close>

theorem todsec_clock64:
  assumes "stck_1970 \<le> tod"
  shows "unat (getclk tod) = (unat tod - unat stck_1970) div 4096 div 1000000 \<and>
    unat (clock64 tod) = unat (getclk tod)"
proof -
  have hl: "unat (tod_hi tod) * B32 + unat (tod_lo tod) = unat tod"
  proof -
    have "unat tod div B32 < B32" using unat64_lt [of tod] by (simp add: div_less_iff_less_mult)
    then show ?thesis by (simp add: tod_hi_def tod_lo_def unat_ucast_mod unat_drop_bit_div)
  qed
  have ge: "unat stck_1970 \<le> unat tod" using assms by (simp add: word_le_nat_alt)
  have shift: "(x - 4096 * k) div 4096 = x div 4096 - k" for x k :: nat
    by (simp add: div_mult_self_is_m diff_mult_distrib flip: minus_mult_div_eq_mod)
  have k: "unat stck_1970 = 4096 * stck_us_1970" by (simp add: stck_1970_def stck_us_1970_def)
  have "stck_us_1970 \<le> unat tod div 4096" using ge unfolding k by (simp add: less_eq_div_iff_mult_less_eq)
  then have "unat (getclk tod) = (unat tod div 4096 - stck_us_1970) div 1000000"
    using todsec_value [of "tod_hi tod" "tod_lo tod"] by (simp add: getclk_def hl)
  moreover have "(unat tod - unat stck_1970) div 4096 = unat tod div 4096 - stck_us_1970"
    unfolding k by (rule shift)
  moreover have "unat (clock64 tod) = (unat tod - unat stck_1970) div 4096 div 1000000"
    using assms by (simp add: clock64_def Let_def u64_simps unat_div unat_drop_bit_div unat_sub)
  ultimately show ?thesis by simp
qed

theorem todsec_clock64_witness:
  "unat (getclk 0xD6A1B2C3D4E5F607) = 1566850836 \<and> unat (clock64 0xD6A1B2C3D4E5F607) = 1566850836"
  using todsec_clock64 [of "0xD6A1B2C3D4E5F607"] by (simp add: stck_1970_def)

end
