(* ===== verification/Time64.thy ===== *)
theory Time64
  imports Int64_Arith Caltime
begin

text \<open>
  The 64-bit time functions of \<^verbatim>\<open>src/ext/time64\<close>: \<^verbatim>\<open>gmtime64_r()\<close>, \<^verbatim>\<open>timegm64()\<close>,
  \<^verbatim>\<open>localtime64_r()\<close> and \<^verbatim>\<open>mktime64()\<close> with the calendar helpers under them.  A \<^verbatim>\<open>time64_t\<close> is
  a software 64-bit integer, so every step goes through the routines of the theory \<open>Int64\<close>.
  A null result is \<open>None\<close>.
\<close>

section \<open>Calendar tables and macros\<close>

definition days_in_gregorian_cycle :: u32 where
  "days_in_gregorian_cycle = (365 * 400) + 100 - 4 + 1"

definition years_in_gregorian_cycle :: int where
  "years_in_gregorian_cycle = 400"

definition seconds_in_gregorian_cycle :: u64 where
  "seconds_in_gregorian_cycle = 12622780800"

definition MAX_SAFE_YEAR :: int where "MAX_SAFE_YEAR = 2037"
definition MIN_SAFE_YEAR :: int where "MIN_SAFE_YEAR = 1970"
definition SOLAR_CYCLE_LENGTH :: int where "SOLAR_CYCLE_LENGTH = 28"

definition CHEAT_DAYS :: u32 where
  "CHEAT_DAYS = 1199145600 div 24 div 60 div 60"

definition CHEAT_YEARS :: int where
  "CHEAT_YEARS = 108"

definition IS_LEAP :: "int \<Rightarrow> bool" where
  "IS_LEAP n \<longleftrightarrow> (n + 1900) smod 400 = 0 \<or> ((n + 1900) smod 4 = 0 \<and> (n + 1900) smod 100 \<noteq> 0)"

definition is_exception_century :: "int \<Rightarrow> bool" where
  "is_exception_century year \<longleftrightarrow> year smod 100 = 0 \<and> \<not> year smod 400 = 0"

definition length_of_year :: "bool \<Rightarrow> int" where
  "length_of_year leap = (if leap then 366 else 365)"

definition dim :: "bool \<Rightarrow> int list" where
  "dim leap =
     (if leap then [31, 29, 31, 30, 31, 30, 31, 31, 30, 31, 30, 31]
      else [31, 28, 31, 30, 31, 30, 31, 31, 30, 31, 30, 31])"

definition days_in_month :: "bool \<Rightarrow> int \<Rightarrow> int" where
  "days_in_month leap month = dim leap ! nat month"

definition jdbm :: "bool \<Rightarrow> int list" where
  "jdbm leap =
     (if leap then [0, 31, 60, 91, 121, 152, 182, 213, 244, 274, 305, 335]
      else [0, 31, 59, 90, 120, 151, 181, 212, 243, 273, 304, 334])"

definition julian_days_by_month :: "bool \<Rightarrow> int \<Rightarrow> int" where
  "julian_days_by_month leap month = jdbm leap ! nat month"

section \<open>Breaking a time down\<close>

definition gm64_year_cond :: "int64 \<times> int \<times> bool \<Rightarrow> bool" where
  "gm64_year_cond = (\<lambda>(m, year, leap). i64_cmp_i32 m (word_of_int (length_of_year leap)) \<noteq> SMALLER64)"

definition gm64_year_step :: "int64 \<times> int \<times> bool \<Rightarrow> int64 \<times> int \<times> bool" where
  "gm64_year_step = (\<lambda>(m, year, leap).
     let m = i64_sub_i32 m (word_of_int (length_of_year leap));
         year = int32 (year + 1);
         leap = IS_LEAP year
     in (m, year, leap))"

definition gm64_month_cond :: "bool \<Rightarrow> int64 \<times> int \<Rightarrow> bool" where
  "gm64_month_cond leap = (\<lambda>(m, mon). i64_cmp_i32 m (word_of_int (days_in_month leap mon)) \<noteq> SMALLER64)"

definition gm64_month_step :: "bool \<Rightarrow> int64 \<times> int \<Rightarrow> int64 \<times> int" where
  "gm64_month_step leap = (\<lambda>(m, mon).
     (i64_sub_i32 m (word_of_int (days_in_month leap mon)), mon + 1))"

text \<open>The date part: the days left and the year after the cheat and the cycles, then the loops.\<close>

definition gm64_date :: "int64 \<Rightarrow> int64 \<times> int \<times> bool \<times> int" where
  "gm64_date tday =
     (let m = tday;
          (m, year) = (if i64_cmp_u32 m CHEAT_DAYS \<noteq> SMALLER64
                       then (i64_sub_u32 m CHEAT_DAYS, CHEAT_YEARS) else (m, 70))
      in if i64_cmp_u32 m 0 \<noteq> SMALLER64 then
           let tmp = i64_div_u32 m days_in_gregorian_cycle;
               cycles = sint (i64_to_i32 tmp);
               (m, year) =
                 (if cycles \<noteq> 0 then
                    let tmp = i64_from_u32 days_in_gregorian_cycle;
                        tmp = i64_mul_u32 tmp (word_of_int cycles);
                        m = i64_sub m tmp;
                        tmp = i64_from_u32 (word_of_int years_in_gregorian_cycle);
                        tmp = i64_mul_u32 tmp (word_of_int cycles)
                    in (m, int32 (year + sint (i64_to_i32 tmp)))
                  else (m, year));
               (m, year, leap) = while gm64_year_cond gm64_year_step (m, year, IS_LEAP year);
               (m, mon) = while (gm64_month_cond leap) (gm64_month_step leap) (m, 0)
           in (m, year, leap, mon)
         else (m, year, False, 0))"

definition gmtime64_r :: "int64 \<Rightarrow> tm \<Rightarrow> tm option" where
  "gmtime64_r in_time p =
     (let (time, rem) = i64_divmod_u32 in_time 60;
          v_tm_sec = sint (i64_to_i32 rem);
          (time, rem) = i64_divmod_u32 time 60;
          v_tm_min = sint (i64_to_i32 rem);
          (time, rem) = i64_divmod_u32 time 24;
          v_tm_hour = sint (i64_to_i32 rem);
          v_tm_tday = time;
          tmp = i64_add_u32 v_tm_tday 4;
          tmp = i64_mod_u32 tmp 7;
          v_tm_wday = sint (i64_to_i32 tmp);
          v_tm_wday = (if v_tm_wday < 0 then v_tm_wday + 7 else v_tm_wday);
          (m, year, leap, v_tm_mon) = gm64_date v_tm_tday;
          p = p\<lparr>tm_year := year\<rparr>
      in if tm_year p \<noteq> year then None
         else
           let i = sint (i64_to_i32 m)
           in Some (p\<lparr>tm_mday := i + 1,
                      tm_yday := julian_days_by_month leap v_tm_mon + i,
                      tm_sec := v_tm_sec, tm_min := v_tm_min, tm_hour := v_tm_hour,
                      tm_mon := v_tm_mon, tm_wday := v_tm_wday\<rparr>))"

text \<open>The functions on milliseconds and microseconds.\<close>

definition mgmtime64 :: "int64 \<Rightarrow> tm \<Rightarrow> tm option" where
  "mgmtime64 mtimer tms = gmtime64_r (i64_div_u32 mtimer 1000) tms"

definition ugmtime64 :: "int64 \<Rightarrow> tm \<Rightarrow> tm option" where
  "ugmtime64 utimer tms = gmtime64_r (i64_div_u32 utimer 1000000) tms"

section \<open>Counting the seconds of a date\<close>

definition tg64_cycle_cond :: "int64 \<times> int \<Rightarrow> bool" where
  "tg64_cycle_cond = (\<lambda>(days, orig_year). orig_year > years_in_gregorian_cycle + 70)"

definition tg64_cycle_step :: "int64 \<times> int \<Rightarrow> int64 \<times> int" where
  "tg64_cycle_step = (\<lambda>(days, orig_year).
     (i64_add_u32 days days_in_gregorian_cycle, orig_year - years_in_gregorian_cycle))"

definition tg64_year_cond :: "int \<Rightarrow> int64 \<times> int \<Rightarrow> bool" where
  "tg64_year_cond orig_year = (\<lambda>(days, year). year < orig_year)"

definition tg64_year_step :: "int64 \<times> int \<Rightarrow> int64 \<times> int" where
  "tg64_year_step = (\<lambda>(days, year).
     (i64_add_i32 days (word_of_int (length_of_year (IS_LEAP year))), year + 1))"

definition timegm64 :: "tm \<Rightarrow> int64" where
  "timegm64 date =
     (let days = i64_init; seconds = i64_init;
          (days, orig_year) = while tg64_cycle_cond tg64_cycle_step (days, tm_year date)
      in if orig_year < 70 then i64_sub_i32 seconds 1
         else
           let days = (if orig_year > 70
                       then fst (while (tg64_year_cond orig_year) tg64_year_step (days, 70)) else days);
               days = i64_add_i32 days (word_of_int (julian_days_by_month (IS_LEAP orig_year) (tm_mon date)));
               days = i64_add_i32 days (word_of_int (tm_mday date - 1));
               seconds = i64_mul_i32 days (60 * 60 * 24);
               seconds = i64_add_i32 seconds (word_of_int (tm_hour date * 60 * 60));
               seconds = i64_add_i32 seconds (word_of_int (tm_min date * 60));
               seconds = i64_add_i32 seconds (word_of_int (tm_sec date))
           in seconds)"

section \<open>The tables and the calendar\<close>

lemma sint_word_small: "- 2147483648 \<le> i \<Longrightarrow> i < 2147483648 \<Longrightarrow> sint (word_of_int i :: i32) = i"
  using int32_small by (simp add: int32_def)

lemma days_in_month_days: "m < 12 \<Longrightarrow> days_in_month leap (int m) = int (month_days leap m)"
  by (drule less_12_cases) (auto simp: days_in_month_def dim_def month_days_def)

lemma julian_days_before: "m < 12 \<Longrightarrow> julian_days_by_month leap (int m) = int (days_before_month leap m)"
  by (drule less_12_cases) (auto simp: julian_days_by_month_def jdbm_def month_days_def)

lemma length_of_year_days: "length_of_year (leap_year y) = int (year_days y)"
  by (simp add: length_of_year_def year_days_def)

lemma IS_LEAP_leap_year: "IS_LEAP (int y - 1900) = leap_year y"
proof -
  have "int y smod 4 = int (y mod 4)" "int y smod 100 = int (y mod 100)" "int y smod 400 = int (y mod 400)"
    by (simp_all add: smod_nonneg zmod_int)
  then show ?thesis by (auto simp: IS_LEAP_def leap_year_def)
qed

lemmas calendar_constants = days_in_gregorian_cycle_def years_in_gregorian_cycle_def
  seconds_in_gregorian_cycle_def CHEAT_DAYS_def CHEAT_YEARS_def

text \<open>The routines with a small positive \<open>int32_t\<close>.\<close>

lemma i32_small:
  assumes "k < 2147483648"
  shows "i64_cmp_i32 m (word_of_int (int k)) \<noteq> SMALLER64 \<longleftrightarrow> k \<le> val m"
    and "k \<le> val m \<Longrightarrow> val (i64_sub_i32 m (word_of_int (int k))) = val m - k"
    and "val (i64_add_i32 m (word_of_int (int k))) = (val m + k) mod B64"
    and "val (i64_mul_i32 m (word_of_int (int k))) = (val m * k) mod B64"
proof -
  have s: "sint (word_of_int (int k) :: i32) = int k" using assms by (intro sint_word_small) simp_all
  have p: "0 \<le> sint (word_of_int (int k) :: i32)" by (simp only: s)
  show "i64_cmp_i32 m (word_of_int (int k)) \<noteq> SMALLER64 \<longleftrightarrow> k \<le> val m"
    "k \<le> val m \<Longrightarrow> val (i64_sub_i32 m (word_of_int (int k))) = val m - k"
    "val (i64_add_i32 m (word_of_int (int k))) = (val m + k) mod B64"
    "val (i64_mul_i32 m (word_of_int (int k))) = (val m * k) mod B64"
    unfolding val_i32_variants [OF p, unfolded s nat_int]
    by (auto simp: val_i32_variants [OF p, unfolded s nat_int] cmp_results)
qed

section \<open>Breaking a time down is right\<close>

definition days_2_31 :: nat where
  "days_2_31 = 784352295939"

lemma year_below_2_31:
  assumes "days_before_year y \<le> n" and "n < days_2_31" shows "y < 2147483648"
proof (rule ccontr)
  assume "\<not> y < 2147483648"
  then have "days_before_year (Suc 2147483647) \<le> days_before_year y" by (intro days_before_year_mono) simp
  then have "years_days 2147483647 \<le> days_before_year y" by (simp only: days_before_year_Suc)
  with assms show False by (simp add: years_days_def days_2_31_def)
qed

text \<open>The year loop: the days before the year and the days left add up.\<close>

definition gm64_inv :: "nat \<Rightarrow> int64 \<times> int \<times> bool \<Rightarrow> bool" where
  "gm64_inv n = (\<lambda>(m, year, leap).
     \<exists>y. 1 \<le> y \<and> year = int y - 1900 \<and> leap = leap_year y \<and> days_before_year y + val m = n)"

lemma year_days_bound: "year_days y < 2147483648" "0 < year_days y"
  by (simp_all add: year_days_def)

lemma gm64_year_cond_iff:
  "gm64_year_cond (m, int y - 1900, leap_year y) \<longleftrightarrow> year_days y \<le> val m"
  by (simp only: gm64_year_cond_def prod.case length_of_year_days i32_small(1) [OF year_days_bound(1)])

lemma gm64_year_step_inv:
  assumes n: "n < days_2_31" and inv: "gm64_inv n s" and cond: "gm64_year_cond s"
  shows "gm64_inv n (gm64_year_step s)" and "val (fst (gm64_year_step s)) < val (fst s)"
proof -
  from inv obtain m y where s: "s = (m, int y - 1900, leap_year y)" and y: "1 \<le> y" and
    sum: "days_before_year y + val m = n"
    by (auto simp: gm64_inv_def)
  have le: "year_days y \<le> val m" using cond by (simp only: s gm64_year_cond_iff)
  define m' where "m' = i64_sub_i32 m (word_of_int (int (year_days y)))"
  have m': "val m' = val m - year_days y"
    unfolding m'_def by (rule i32_small(2) [OF year_days_bound(1) le])
  have sum': "days_before_year (Suc y) + val m' = n" using y le sum m' by simp
  then have "Suc y < 2147483648" by (intro year_below_2_31 [OF _ n]) simp
  then have year: "int32 (int y - 1900 + 1) = int (Suc y) - 1900" by (subst int32_small) simp_all
  have step: "gm64_year_step s = (m', int (Suc y) - 1900, leap_year (Suc y))"
    by (simp only: gm64_year_step_def s prod.case Let_def length_of_year_days year IS_LEAP_leap_year m'_def)
  show "gm64_inv n (gm64_year_step s)"
    unfolding step gm64_inv_def prod.case using sum' by (intro exI [of _ "Suc y"]) simp
  show "val (fst (gm64_year_step s)) < val (fst s)"
    unfolding step using m' le year_days_bound(2) [of y] by (simp add: s)
qed

lemma gm64_years:
  assumes "n < days_2_31" and "gm64_inv n s"
  obtains m y where "while gm64_year_cond gm64_year_step s = (m, int y - 1900, leap_year y)"
    "1 \<le> y" "days_before_year y + val m = n" "val m < year_days y"
    "\<exists>t. while_option gm64_year_cond gm64_year_step s = Some t"
proof -
  have "gm64_inv n (while gm64_year_cond gm64_year_step s) \<and> \<not> gm64_year_cond (while gm64_year_cond gm64_year_step s)"
    by (rule while_rule [where P = "gm64_inv n" and r = "measure (\<lambda>s. val (fst s))"])
      (use assms gm64_year_step_inv [OF assms(1)] in \<open>auto simp: in_measure\<close>)
  then obtain m y where r: "while gm64_year_cond gm64_year_step s = (m, int y - 1900, leap_year y)"
      "1 \<le> y" "days_before_year y + val m = n" "\<not> gm64_year_cond (m, int y - 1900, leap_year y)"
    by (auto simp: gm64_inv_def)
  then have "val m < year_days y" by (simp only: gm64_year_cond_iff not_le)
  moreover have "\<exists>t. while_option gm64_year_cond gm64_year_step s = Some t"
    by (rule measure_while_option_Some [where P = "gm64_inv n" and f = "\<lambda>s. val (fst s)"])
      (use assms gm64_year_step_inv [OF assms(1)] in auto)
  ultimately show thesis using that r by blast
qed

text \<open>The month loop: the days before the month and the days left are the day of the year.\<close>

lemma month_days_bound: "mo < 12 \<Longrightarrow> month_days leap mo < 2147483648"
  using month_days_le [of mo leap] by simp

lemma gm64_month_cond_iff:
  "mo < 12 \<Longrightarrow> gm64_month_cond leap (m, int mo) \<longleftrightarrow> month_days leap mo \<le> val m"
  by (simp only: gm64_month_cond_def prod.case days_in_month_days i32_small(1) [OF month_days_bound])

definition gm64_month_inv :: "bool \<Rightarrow> nat \<Rightarrow> int64 \<times> int \<Rightarrow> bool" where
  "gm64_month_inv leap n = (\<lambda>(m, mon). \<exists>mo < 12. mon = int mo \<and> days_before_month leap mo + val m = n)"

lemma gm64_month_step_inv:
  assumes n: "n < (if leap then 366 else 365)" and inv: "gm64_month_inv leap n s" and cond: "gm64_month_cond leap s"
  shows "gm64_month_inv leap n (gm64_month_step leap s)" and "val (fst (gm64_month_step leap s)) < val (fst s)"
proof -
  from inv obtain m mo where s: "s = (m, int mo)" and mo: "mo < 12" and sum: "days_before_month leap mo + val m = n"
    by (auto simp: gm64_month_inv_def)
  have le: "month_days leap mo \<le> val m" using cond by (simp only: s gm64_month_cond_iff [OF mo])
  define m' where "m' = i64_sub_i32 m (word_of_int (int (month_days leap mo)))"
  have m': "val m' = val m - month_days leap mo"
    unfolding m'_def by (rule i32_small(2) [OF month_days_bound [OF mo] le])
  have step: "gm64_month_step leap s = (m', int (Suc mo))"
    by (simp add: gm64_month_step_def s days_in_month_days [OF mo] m'_def)
  have sum': "days_before_month leap (Suc mo) + val m' = n" using sum le m' by simp
  moreover have "Suc mo < 12"
  proof (rule ccontr)
    assume "\<not> Suc mo < 12"
    then have "Suc mo = 12" using mo by simp
    with sum' n show False by (simp only: days_before_month_12)
  qed
  ultimately show "gm64_month_inv leap n (gm64_month_step leap s)"
    unfolding step gm64_month_inv_def prod.case by (intro exI [of _ "Suc mo"]) simp
  show "val (fst (gm64_month_step leap s)) < val (fst s)"
    unfolding step using m' le month_days_pos [OF mo, of leap] by (simp add: s)
qed

lemma gm64_months:
  assumes "val m < (if leap then 366 else 365)"
  obtains m' mo where "while (gm64_month_cond leap) (gm64_month_step leap) (m, 0) = (m', int mo)"
    "mo < 12" "days_before_month leap mo + val m' = val m" "val m' < month_days leap mo"
    "\<exists>t. while_option (gm64_month_cond leap) (gm64_month_step leap) (m, 0) = Some t"
proof -
  let ?w = "while (gm64_month_cond leap) (gm64_month_step leap) (m, 0)"
  have start: "gm64_month_inv leap (val m) (m, 0)" by (simp add: gm64_month_inv_def)
  have "gm64_month_inv leap (val m) ?w \<and> \<not> gm64_month_cond leap ?w"
    by (rule while_rule [where P = "gm64_month_inv leap (val m)" and r = "measure (\<lambda>s. val (fst s))"])
      (use start gm64_month_step_inv [OF assms] in \<open>auto simp: in_measure\<close>)
  then obtain m' mo where r: "?w = (m', int mo)" "mo < 12" "days_before_month leap mo + val m' = val m"
      "\<not> gm64_month_cond leap (m', int mo)"
    by (auto simp: gm64_month_inv_def)
  then have "val m' < month_days leap mo" by (simp only: gm64_month_cond_iff not_le)
  moreover have "\<exists>t. while_option (gm64_month_cond leap) (gm64_month_step leap) (m, 0) = Some t"
    by (rule measure_while_option_Some [where P = "gm64_month_inv leap (val m)" and f = "\<lambda>s. val (fst s)"])
      (use start gm64_month_step_inv [OF assms] in auto)
  ultimately show thesis using that r by blast
qed

text \<open>Whole cycles of 400 years, which are 146097 days each.\<close>

lemma gm64_cycles:
  fixes m :: int64
  assumes n: "n < days_2_31" and y: "1900 \<le> y" and sum: "days_before_year y + val m = n"
  defines "c \<equiv> sint (i64_to_i32 (i64_div_u32 m days_in_gregorian_cycle))"
  defines "s \<equiv> (if c \<noteq> 0 then
      (i64_sub m (i64_mul_u32 (i64_from_u32 days_in_gregorian_cycle) (word_of_int c)),
       int32 (int y - 1900 + sint (i64_to_i32 (i64_mul_u32 (i64_from_u32 (word_of_int years_in_gregorian_cycle)) (word_of_int c)))))
    else (m, int y - 1900))"
  shows "gm64_inv n (fst s, snd s, IS_LEAP (snd s))"
proof -
  define q where "q = val m div 146097"
  have qy: "days_before_year (y + 400 * q) + val m mod 146097 = n"
    using days_before_year_add_400_times [of y q] y sum mult_div_mod_eq [of 146097 "val m"]
    by (simp add: q_def)
  then have small: "y + 400 * q < 2147483648" by (intro year_below_2_31 [OF _ n]) simp
  have vd: "val (i64_div_u32 m days_in_gregorian_cycle) = q"
    by (simp add: val_u32_variants q_def calendar_constants)
  have c: "c = int q" unfolding c_def using small by (subst to_i32_small) (simp_all only: vd, simp)
  have u: "unat (word_of_int c :: u32) = q" using small by (simp add: c unat_of_nat)
  have md: "val (i64_mul_u32 (i64_from_u32 days_in_gregorian_cycle) (word_of_int c)) = 146097 * q"
    using small by (simp add: val_u32_variants val_from_u32 u calendar_constants)
  have my: "val (i64_mul_u32 (i64_from_u32 (word_of_int years_in_gregorian_cycle)) (word_of_int c)) = 400 * q"
    using small by (simp add: val_u32_variants val_from_u32 u calendar_constants)
  have "val (i64_sub m (i64_mul_u32 (i64_from_u32 days_in_gregorian_cycle) (word_of_int c))) = val m mod 146097"
    using mult_div_mod_eq [of 146097 "val m"] by (subst val_sub_le) (simp_all add: md q_def minus_mult_div_eq_mod)
  moreover have "sint (i64_to_i32 (i64_mul_u32 (i64_from_u32 (word_of_int years_in_gregorian_cycle)) (word_of_int c))) = int (400 * q)"
    using small by (subst to_i32_small) (simp_all add: my)
  moreover have "int32 (int y - 1900 + int (400 * q)) = int (y + 400 * q) - 1900"
    using small y by (subst int32_small) simp_all
  ultimately have s: "val (fst s) = val m mod 146097" "snd s = int (y + 400 * q) - 1900"
    by (cases "q = 0"; auto simp: s_def c q_def)+
  have "IS_LEAP (snd s) = leap_year (y + 400 * q)" by (simp only: s IS_LEAP_leap_year)
  with s qy y show ?thesis
    unfolding gm64_inv_def prod.case by (intro exI [of _ "y + 400 * q"]) simp
qed

lemma gm64_start:
  assumes "r = (if i64_cmp_u32 tday CHEAT_DAYS \<noteq> SMALLER64
                then (i64_sub_u32 tday CHEAT_DAYS, CHEAT_YEARS) else (tday, 70))"
  obtains y where "1970 \<le> y" "snd r = int y - 1900" "days_before_year y + val (fst r) = epoch_day - 1 + val tday"
proof (cases "13879 \<le> val tday")
  case True
  have "days_before_year 2008 = epoch_day - 1 + 13879"
    using days_before_year_closed [of 2008] by (simp add: years_days_def epoch_day_def)
  with True assms that [of 2008] show thesis
    by (simp add: val_u32_variants calendar_constants cmp_results)
next
  case False
  with assms that [of 1970] show thesis
    by (simp add: val_u32_variants calendar_constants cmp_results days_before_year_1970)
qed

lemma gm64_date_finds:
  assumes "epoch_day + val tday \<le> days_2_31"
  obtains m y mo where "gm64_date tday = (m, int y - 1900, leap_year y, int mo)"
    "valid_ymd y mo (val m + 1)" "ordinal y mo (val m + 1) = epoch_day + val tday" "val m < 31"
proof -
  define n where "n = epoch_day - 1 + val tday"
  have n: "n < days_2_31" using assms by (simp add: n_def epoch_day_def)
  define r where "r = (if i64_cmp_u32 tday CHEAT_DAYS \<noteq> SMALLER64
      then (i64_sub_u32 tday CHEAT_DAYS, CHEAT_YEARS) else (tday, 70))"
  obtain y0 where y0: "1970 \<le> y0" "snd r = int y0 - 1900" "days_before_year y0 + val (fst r) = n"
    using gm64_start [OF r_def] unfolding n_def by metis
  define c where "c = sint (i64_to_i32 (i64_div_u32 (fst r) days_in_gregorian_cycle))"
  define s where "s = (if c \<noteq> 0 then
      (i64_sub (fst r) (i64_mul_u32 (i64_from_u32 days_in_gregorian_cycle) (word_of_int c)),
       int32 (int y0 - 1900 + sint (i64_to_i32 (i64_mul_u32 (i64_from_u32 (word_of_int years_in_gregorian_cycle)) (word_of_int c)))))
    else (fst r, int y0 - 1900))"
  have inv: "gm64_inv n (fst s, snd s, IS_LEAP (snd s))"
    unfolding s_def c_def by (rule gm64_cycles [OF n _ y0(3)]) (use y0(1) in simp)
  obtain m1 y where w1: "while gm64_year_cond gm64_year_step (fst s, snd s, IS_LEAP (snd s)) = (m1, int y - 1900, leap_year y)"
      "1 \<le> y" "days_before_year y + val m1 = n" "val m1 < year_days y"
    using gm64_years [OF n inv] by metis
  have "val m1 < (if leap_year y then 366 else 365)" using w1(4) by (simp add: year_days_def)
  from gm64_months [OF this] obtain m mo where
    w2: "while (gm64_month_cond (leap_year y)) (gm64_month_step (leap_year y)) (m1, 0) = (m, int mo)"
      "mo < 12" "days_before_month (leap_year y) mo + val m = val m1" "val m < month_days (leap_year y) mo"
    by metis
  have zero: "i64_cmp_u32 (fst r) 0 \<noteq> SMALLER64" by (simp add: val_u32_variants cmp_results)
  have "gm64_date tday = (m, int y - 1900, leap_year y, int mo)"
  proof -
    have "gm64_date tday =
      (let (m, year, leap) = while gm64_year_cond gm64_year_step (fst s, snd s, IS_LEAP (snd s));
           (m, mon) = while (gm64_month_cond leap) (gm64_month_step leap) (m, 0) in (m, year, leap, mon))"
      unfolding gm64_date_def Let_def r_def [symmetric] split_beta fst_conv snd_conv
      using zero y0(2) by (simp add: s_def c_def Let_def)
    then show ?thesis by (simp add: w1(1) w2(1))
  qed
  moreover have "valid_ymd y mo (val m + 1)" using w1(2) w2(2,4) by (simp add: valid_ymd_def)
  moreover have "ordinal y mo (val m + 1) = epoch_day + val tday"
    using w1(3) w2(3) by (simp add: ordinal_def n_def epoch_day_def)
  moreover have "val m < 31" using w2(4) month_days_le [OF w2(2), of "leap_year y"] by simp
  ultimately show thesis using that by blast
qed

definition end_gm64 :: nat where
  "end_gm64 = 67767976233532800"

lemma end_gm64_days: "t < end_gm64 \<Longrightarrow> epoch_day + t div 86400 \<le> days_2_31"
proof -
  assume "t < end_gm64"
  then have "t div 86400 < 784351576777" by (simp add: end_gm64_def div_less_iff_less_mult)
  then show ?thesis by (simp add: epoch_day_def days_2_31_def)
qed

lemma mod_mult_div: "x mod (a * b) div a = x div a mod (b :: nat)"
  by (cases "a = 0") (simp_all add: mod_mult2_eq)

lemma gmtime64_r_is_utc:
  assumes "val t < end_gm64"
  shows "\<exists>q. gmtime64_r t p = Some q \<and> is_utc (val t) q \<and> tm_isdst q = tm_isdst p"
proof -
  let ?t = "val t"
  define time1 rem1 where "time1 = fst (i64_divmod_u32 t 60)" and "rem1 = snd (i64_divmod_u32 t 60)"
  define time2 rem2 where "time2 = fst (i64_divmod_u32 time1 60)" and "rem2 = snd (i64_divmod_u32 time1 60)"
  define tday rem3 where "tday = fst (i64_divmod_u32 time2 24)" and "rem3 = snd (i64_divmod_u32 time2 24)"
  have v: "val rem1 = ?t mod 60" "val rem2 = ?t div 60 mod 60" "val rem3 = ?t div 3600 mod 24" "val tday = ?t div 86400"
    by (simp_all add: time1_def rem1_def time2_def rem2_def tday_def rem3_def val_u32_variants div_mult2_eq [symmetric])
  have hm: "?t div 60 mod 60 = ?t mod 3600 div 60" "?t div 3600 mod 24 = ?t mod 86400 div 3600"
    using mod_mult_div [of ?t 60 60] mod_mult_div [of ?t 3600 24] by simp_all
  have lt: "?t mod 60 < 60" "?t div 60 mod 60 < 60" "?t div 3600 mod 24 < 24" by simp_all
  have s: "sint (i64_to_i32 rem1) = int (?t mod 60)" "sint (i64_to_i32 rem2) = int (?t mod 3600 div 60)"
    "sint (i64_to_i32 rem3) = int (?t mod 86400 div 3600)"
    using lt by (subst to_i32_small; simp add: v hm)+
  define wd where "wd = i64_mod_u32 (i64_add_u32 tday 4) 7"
  have tdlt: "?t div 86400 < 784351576777" using assms by (simp add: end_gm64_def div_less_iff_less_mult)
  have "val wd = (?t div 86400 + 4) mod 7"
    using tdlt by (simp add: wd_def val_u32_variants v)
  also have "\<dots> = weekday (epoch_day + ?t div 86400)"
    unfolding weekday_def epoch_day_def by (rule mod7_eqI [of _ 102737 _ 0]) simp
  finally have wd: "sint (i64_to_i32 wd) = int (weekday (epoch_day + ?t div 86400))"
    by (subst to_i32_small) (simp_all add: weekday_def)
  obtain m y mo where d: "gm64_date tday = (m, int y - 1900, leap_year y, int mo)"
      "valid_ymd y mo (val m + 1)" "ordinal y mo (val m + 1) = epoch_day + ?t div 86400" "val m < 31"
    using gm64_date_finds [of tday] end_gm64_days [OF assms] unfolding v by metis
  have m: "sint (i64_to_i32 m) = int (val m)" using d(4) by (intro to_i32_small) simp
  have mo: "mo < 12" using d(2) by (simp add: valid_ymd_def)
  define q where "q = p\<lparr>tm_year := int y - 1900, tm_mday := int (val m) + 1,
      tm_yday := int (days_before_month (leap_year y) mo) + int (val m),
      tm_sec := int (?t mod 60), tm_min := int (?t mod 3600 div 60), tm_hour := int (?t mod 86400 div 3600),
      tm_mon := int mo, tm_wday := int (weekday (epoch_day + ?t div 86400))\<rparr>"
  have "gmtime64_r t p = Some q"
    unfolding gmtime64_r_def Let_def split_beta time1_def [symmetric] rem1_def [symmetric]
      time2_def [symmetric] rem2_def [symmetric] tday_def [symmetric] rem3_def [symmetric] wd_def [symmetric]
    by (simp add: d(1) s wd m julian_days_before [OF mo] q_def)
  moreover have "is_utc ?t q"
    unfolding is_utc_def using d(2,3)
    by (intro conjI exI [of _ y] exI [of _ mo] exI [of _ "val m + 1"]) (simp_all add: q_def)
  ultimately show ?thesis by (auto simp: q_def)
qed

section \<open>Counting seconds is right\<close>

definition tg64_cycle_inv :: "int \<Rightarrow> int64 \<times> int \<Rightarrow> bool" where
  "tg64_cycle_inv year = (\<lambda>(days, y). 70 \<le> y \<and> (\<exists>q. year = y + 400 * int q \<and> val days = 146097 * q mod B64))"

lemma tg64_cycle_step_inv:
  assumes inv: "tg64_cycle_inv year s" and c: "tg64_cycle_cond s"
  shows "tg64_cycle_inv year (tg64_cycle_step s)" and "nat (snd (tg64_cycle_step s)) < nat (snd s)"
proof -
  obtain days y where s: "s = (days, y)" by (cases s)
  have y: "470 < y" using c by (simp add: s tg64_cycle_cond_def years_in_gregorian_cycle_def)
  from inv obtain q where q: "year = y + 400 * int q" "val days = 146097 * q mod B64"
    by (auto simp: s tg64_cycle_inv_def)
  have step: "tg64_cycle_step s = (i64_add_u32 days days_in_gregorian_cycle, y - 400)"
    by (simp add: s tg64_cycle_step_def years_in_gregorian_cycle_def)
  have "val (i64_add_u32 days days_in_gregorian_cycle) = (146097 * q mod B64 + 146097) mod B64"
    by (simp add: val_u32_variants q(2) days_in_gregorian_cycle_def)
  also have "\<dots> = (146097 * q + 146097) mod B64" by (rule mod_add_left_eq)
  also have "146097 * q + 146097 = 146097 * Suc q" by simp
  finally have "val (i64_add_u32 days days_in_gregorian_cycle) = 146097 * Suc q mod B64" .
  moreover have "year = y - 400 + 400 * int (Suc q)" using q(1) by simp
  ultimately show "tg64_cycle_inv year (tg64_cycle_step s)"
    unfolding step tg64_cycle_inv_def prod.case using y by (intro conjI exI [of _ "Suc q"]) simp_all
  show "nat (snd (tg64_cycle_step s)) < nat (snd s)" unfolding step using y by (simp add: s)
qed

lemma tg64_cycles:
  assumes "70 \<le> year"
  obtains days y q where
    "while tg64_cycle_cond tg64_cycle_step (i64_init, year) = (days, y)" "70 \<le> y" "y \<le> 470"
    "year = y + 400 * int q" "val days = 146097 * q mod B64"
    "\<exists>t. while_option tg64_cycle_cond tg64_cycle_step (i64_init, year) = Some t"
proof -
  have start: "tg64_cycle_inv year (i64_init, year)"
    unfolding tg64_cycle_inv_def prod.case using assms by (intro conjI exI [of _ 0]) (simp_all add: val_init)
  let ?w = "while tg64_cycle_cond tg64_cycle_step (i64_init, year)"
  have "tg64_cycle_inv year ?w \<and> \<not> tg64_cycle_cond ?w"
    by (rule while_rule [where P = "tg64_cycle_inv year" and r = "measure (\<lambda>s. nat (snd s))"])
      (use start tg64_cycle_step_inv in \<open>auto simp: in_measure\<close>)
  moreover obtain days y where w: "?w = (days, y)" by (cases ?w)
  ultimately obtain q where "70 \<le> y" "y \<le> 470" "year = y + 400 * int q" "val days = 146097 * q mod B64"
    by (auto simp: tg64_cycle_inv_def tg64_cycle_cond_def years_in_gregorian_cycle_def)
  moreover have "\<exists>t. while_option tg64_cycle_cond tg64_cycle_step (i64_init, year) = Some t"
    by (rule measure_while_option_Some [where P = "tg64_cycle_inv year" and f = "\<lambda>s. nat (snd s)"])
      (use start tg64_cycle_step_inv in auto)
  ultimately show thesis using that w by blast
qed

lemma tg64_years:
  assumes "1970 \<le> y"
  shows "val (fst (while (tg64_year_cond (int y - 1900)) tg64_year_step (days, 70))) =
      (val days + (days_before_year y - days_before_year 1970)) mod B64"
    and "\<exists>t. while_option (tg64_year_cond (int y - 1900)) tg64_year_step (days, 70) = Some t"
proof -
  define P where "P = (\<lambda>(ds, year). \<exists>z. 1970 \<le> z \<and> z \<le> y \<and> year = int z - 1900 \<and>
      val ds = (val days + (days_before_year z - days_before_year 1970)) mod B64)"
  have start: "P (days, 70)" using assms unfolding P_def by (auto intro!: exI [of _ 1970])
  have step: "P (tg64_year_step s) \<and> nat (int y - 1900 - snd (tg64_year_step s)) < nat (int y - 1900 - snd s)"
    if Ps: "P s" and c: "tg64_year_cond (int y - 1900) s" for s
  proof -
    from Ps obtain ds z where s: "s = (ds, int z - 1900)" and z: "1970 \<le> z" "z \<le> y" and
      ds: "val ds = (val days + (days_before_year z - days_before_year 1970)) mod B64"
      by (auto simp: P_def)
    have zy: "z < y" using c by (simp add: s tg64_year_cond_def)
    have mono: "days_before_year 1970 \<le> days_before_year z" using z(1) by (rule days_before_year_mono)
    have "val (i64_add_i32 ds (word_of_int (length_of_year (IS_LEAP (int z - 1900))))) = (val ds + year_days z) mod B64"
      unfolding IS_LEAP_leap_year length_of_year_days by (rule i32_small(3) [OF year_days_bound(1)])
    also have "\<dots> = (val days + (days_before_year (Suc z) - days_before_year 1970)) mod B64"
      using z mono by (simp add: ds mod_add_left_eq add.assoc)
    finally show ?thesis
      using z zy by (auto simp: s P_def tg64_year_step_def intro!: exI [of _ "Suc z"])
  qed
  let ?w = "while (tg64_year_cond (int y - 1900)) tg64_year_step (days, 70)"
  have "P ?w \<and> \<not> tg64_year_cond (int y - 1900) ?w"
    by (rule while_rule [where P = P and r = "measure (\<lambda>s. nat (int y - 1900 - snd s))"])
      (use start step in \<open>auto simp: in_measure\<close>)
  then show "val (fst ?w) = (val days + (days_before_year y - days_before_year 1970)) mod B64"
    by (cases ?w) (auto simp: P_def tg64_year_cond_def)
  show "\<exists>t. while_option (tg64_year_cond (int y - 1900)) tg64_year_step (days, 70) = Some t"
    by (rule measure_while_option_Some [where P = P and f = "\<lambda>s. nat (int y - 1900 - snd s)"])
      (use start step in auto)
qed

lemma is_utc_date:
  assumes "is_utc t p"
  obtains y m d where "valid_ymd y m d" "ordinal y m d = epoch_day + t div 86400" "1970 \<le> y"
    "tm_year p = int y - 1900" "tm_mon p = int m" "tm_mday p = int d"
proof -
  from assms obtain y m d where
    v: "valid_ymd y m d" and o: "ordinal y m d = epoch_day + t div 86400" and
    p: "tm_year p = int y - 1900" "tm_mon p = int m" "tm_mday p = int d"
    unfolding is_utc_def by blast
  moreover have "1970 \<le> y"
  proof (rule ccontr)
    assume "\<not> 1970 \<le> y"
    then have "days_before_year (Suc y) \<le> days_before_year 1970" by (intro days_before_year_mono) simp
    then show False using ordinal_year_bounds(2) [OF v] o by (simp only: days_before_year_1970 epoch_day_def)
  qed
  ultimately show thesis using that by blast
qed

lemma leap_year_add_cycles: "leap_year (y + 400 * q) = leap_year y"
proof (induction q)
  case (Suc q)
  have "y + 400 * Suc q = (y + 400 * q) + 400" by simp
  then show ?case using Suc by (simp only: leap_year_add_400)
qed simp

lemma timegm64_is_utc:
  assumes utc: "is_utc t p" and t: "t < B64"
  shows "val (timegm64 p) = t"
proof -
  obtain y m d where v: "valid_ymd y m d" and o: "ordinal y m d = epoch_day + t div 86400" and y: "1970 \<le> y"
      and p: "tm_year p = int y - 1900" "tm_mon p = int m" "tm_mday p = int d"
    using is_utc_date [OF utc] by blast
  have m: "m < 12" and d: "1 \<le> d" "d \<le> 31"
    using v month_days_le [of m "leap_year y"] by (auto simp: valid_ymd_def)
  have ph: "tm_hour p = int (t mod 86400 div 3600)" "tm_min p = int (t mod 3600 div 60)" "tm_sec p = int (t mod 60)"
    using utc by (simp_all add: is_utc_def)
  have "70 \<le> tm_year p" using p(1) y by simp
  then obtain days oy q where w: "while tg64_cycle_cond tg64_cycle_step (i64_init, tm_year p) = (days, oy)"
      "70 \<le> oy" "tm_year p = oy + 400 * int q" "val days = 146097 * q mod B64"
    using tg64_cycles [of "tm_year p"] by metis
  define z where "z = nat (oy + 1900)"
  have z: "oy = int z - 1900" "1970 \<le> z" "y = z + 400 * q" using w(2,3) p(1) by (auto simp: z_def)
  define days1 where "days1 = (if oy > 70 then fst (while (tg64_year_cond oy) tg64_year_step (days, 70)) else days)"
  have mono: "days_before_year 1970 \<le> days_before_year z" using z(2) by (rule days_before_year_mono)
  have days1: "val days1 = (146097 * q + (days_before_year z - days_before_year 1970)) mod B64"
  proof (cases "oy > 70")
    case True
    then show ?thesis using tg64_years(1) [OF z(2), of days] w(4) by (simp add: days1_def z(1) mod_add_left_eq)
  next
    case False
    then have "z = 1970" using z by simp
    then show ?thesis using False w(4) by (simp add: days1_def)
  qed
  have leap: "leap_year z = leap_year y" by (simp add: z(3) leap_year_add_cycles)
  have small: "days_before_month (leap_year y) m < 2147483648" "d - 1 < 2147483648"
    using days_before_month_le [OF m, of "leap_year y"] d by (auto split: if_splits)
  define days2 where "days2 = i64_add_i32 days1 (word_of_int (julian_days_by_month (IS_LEAP oy) (tm_mon p)))"
  have days2: "val days2 = (val days1 + days_before_month (leap_year y) m) mod B64"
    unfolding days2_def z(1) IS_LEAP_leap_year leap p(2) julian_days_before [OF m] by (rule i32_small(3) [OF small(1)])
  define days3 where "days3 = i64_add_i32 days2 (word_of_int (tm_mday p - 1))"
  have "tm_mday p - 1 = int (d - 1)" using d p(3) by simp
  then have "val days3 = (val days2 + (d - 1)) mod B64"
    unfolding days3_def by (simp only: i32_small(3) [OF small(2)])
  also have "\<dots> = (146097 * q + (days_before_year z - days_before_year 1970) + days_before_month (leap_year y) m + (d - 1)) mod B64"
    by (simp only: days2 days1 mod_add_left_eq)
  also have "146097 * q + (days_before_year z - days_before_year 1970) + days_before_month (leap_year y) m + (d - 1) = t div 86400"
    using o mono d z days_before_year_add_400_times [of z q] days_before_year_1970
    by (simp add: ordinal_def epoch_day_def)
  finally have days3: "val days3 = t div 86400" using t by simp
  define h mi se where "h = t mod 86400 div 3600" and "mi = t mod 3600 div 60" and "se = t mod 60"
  have "t mod 86400 < 86400" "t mod 3600 < 3600" "t mod 60 < 60" by simp_all
  then have lt: "h * 3600 < 2147483648" "mi * 60 < 2147483648" "se < 2147483648"
    unfolding h_def mi_def se_def by (simp_all add: less_mult_imp_div_less)
  have hms: "tm_hour p * 60 * 60 = int (h * 3600)" "tm_min p * 60 = int (mi * 60)" "tm_sec p = int se"
    by (simp_all add: ph h_def mi_def se_def)
  have "timegm64 p =
      i64_add_i32 (i64_add_i32 (i64_add_i32 (i64_mul_i32 days3 (word_of_int (int 86400)))
        (word_of_int (int (h * 3600)))) (word_of_int (int (mi * 60)))) (word_of_int (int se))"
    unfolding timegm64_def Let_def w(1) prod.case days1_def [symmetric] days2_def [symmetric] days3_def [symmetric] hms
    using w(2) by simp
  also have "val \<dots> = (t div 86400 * 86400 + h * 3600 + mi * 60 + se) mod B64"
    unfolding i32_small(3) [OF lt(1)] i32_small(3) [OF lt(2)] i32_small(3) [OF lt(3)]
    by (subst i32_small(4)) (simp, simp only: days3 mod_add_left_eq)
  also have "int (t div 86400 * 86400 + h * 3600 + mi * 60 + se) = int t"
    using utc_seconds_split [of t] by (simp add: h_def mi_def se_def)
  then have "t div 86400 * 86400 + h * 3600 + mi * 60 + se = t" by (simp only: of_nat_eq_iff)
  finally show ?thesis using t by simp
qed

section \<open>What the two conversions promise\<close>

text \<open>
  C24: for every time before the year \<open>2 ^ 31\<close>, \<^verbatim>\<open>gmtime64_r\<close> returns the UTC date and time, the
  weekday and the day of the year included, and leaves \<open>tm_isdst\<close> as it was.
\<close>

theorem gmtime64_r_utc:
  assumes "val t < end_gm64"
  shows "\<exists>q. gmtime64_r t p = Some q \<and> is_utc (val t) q \<and> tm_isdst q = tm_isdst p"
  by (rule gmtime64_r_is_utc [OF assms])

theorem gmtime64_r_utc_witness:
  "\<exists>q. gmtime64_r (of_u64 253402300799) (gmtime_r 0) = Some q \<and> is_utc 253402300799 q"
  using gmtime64_r_utc [of "of_u64 253402300799" "gmtime_r 0"] by (auto simp: val_of_u64 end_gm64_def)

text \<open>
  On the 32-bit times \<^verbatim>\<open>gmtime64_r\<close>, which counts years and months in loops on software
  integers, and \<^verbatim>\<open>gmtime_r\<close>, which computes them, fill in the same members.
\<close>

theorem gmtime64_r_gmtime_r:
  "gmtime64_r (i64_from_u32 t) p = Some ((gmtime_r t)\<lparr>tm_isdst := tm_isdst p\<rparr>)"
proof -
  have "val (i64_from_u32 t) < end_gm64" using unat32_lt [of t] by (simp add: val_from_u32 end_gm64_def del: unat32_lt)
  then obtain q where q: "gmtime64_r (i64_from_u32 t) p = Some q" "is_utc (unat t) q" "tm_isdst q = tm_isdst p"
    using gmtime64_r_is_utc [of "i64_from_u32 t" p] by (auto simp: val_from_u32)
  have "q = (gmtime_r t)\<lparr>tm_isdst := tm_isdst p\<rparr>"
    using is_utc_unique [OF q(2) gmtime_r_is_utc, of "tm_isdst p"] q(3) by (metis tm.surjective tm.update_convs(9) tm.select_convs(9))
  with q(1) show ?thesis by simp
qed

text \<open>\<^verbatim>\<open>timegm64\<close> is the inverse of \<^verbatim>\<open>gmtime64_r\<close> on every time before the year \<open>2 ^ 31\<close>.\<close>

theorem timegm64_gmtime64_r:
  assumes "val t < end_gm64" shows "map_option timegm64 (gmtime64_r t p) = Some t"
proof -
  obtain q where "gmtime64_r t p = Some q" "is_utc (val t) q" using gmtime64_r_is_utc [OF assms, of p] by blast
  moreover from this have "val (timegm64 q) = val t" by (intro timegm64_is_utc) simp_all
  ultimately show ?thesis by (simp only: val_inject option.map)
qed

theorem timegm64_gmtime64_r_witness:
  "map_option timegm64 (gmtime64_r (of_u64 253402300799) (gmtime_r 0)) = Some (of_u64 253402300799)"
  by (rule timegm64_gmtime64_r) (simp add: val_of_u64 end_gm64_def)

text \<open>The year is always an \<open>int\<close>, so the test for an overflow never fails.\<close>

definition int_range :: "int \<Rightarrow> bool" where
  "int_range i \<longleftrightarrow> - 2147483648 \<le> i \<and> i < 2147483648"

lemma int32_range: "int_range (int32 i)"
proof -
  have "- (2 ^ 31) \<le> signed_take_bit 31 i" "signed_take_bit 31 i < 2 ^ 31" for i :: int
    by (rule signed_take_bit_int_greater_eq_minus_exp, rule signed_take_bit_int_less_exp)
  then show ?thesis unfolding int_range_def int32_def by (subst signed_of_int)+ simp
qed

lemma gm64_years_range:
  assumes "int_range (fst (snd s))"
  shows "int_range (fst (snd (while gm64_year_cond gm64_year_step s)))"
proof (rule while_rule [where P = "\<lambda>s. int_range (fst (snd s))" and r = "measure (\<lambda>s. val (fst s))"])
  show "int_range (fst (snd s))" by (rule assms)
  show "int_range (fst (snd (gm64_year_step s)))" for s
    by (simp add: gm64_year_step_def int32_range split_beta Let_def)
  show "(gm64_year_step s, s) \<in> measure (\<lambda>s. val (fst s))" if "gm64_year_cond s" for s
  proof -
    obtain m year leap where s: "s = (m, year, leap)" by (cases s)
    have l: "length_of_year leap = int (if leap then 366 else 365)" by (simp add: length_of_year_def)
    have b: "(if leap then 366 else 365) < (2147483648 :: nat)" by simp
    have "(if leap then 366 else 365) \<le> val m"
      using that i32_small(1) [OF b, of m] by (simp only: s gm64_year_cond_def prod.case l)
    moreover from i32_small(2) [OF b this] have
      "val (fst (gm64_year_step s)) = val m - (if leap then 366 else 365)"
      by (simp only: s gm64_year_step_def prod.case Let_def l fst_conv)
    ultimately show ?thesis by (simp add: s split: if_splits)
  qed
qed simp_all

lemma gm64_date_range: "int_range (fst (snd (gm64_date tday)))"
proof -
  have 70: "int_range 70" "int_range CHEAT_YEARS" by (simp_all add: int_range_def CHEAT_YEARS_def)
  show ?thesis
    using gm64_years_range [of "(m, y, l)" for m y l] 70 int32_range
    by (auto simp: gm64_date_def Let_def split_beta intro!: gm64_years_range)
qed

text \<open>
  For a time whose year does not fit an \<open>int\<close>, \<^verbatim>\<open>gmtime64_r\<close> returns a result all the
  same, and the result is not the date: the test for the overflow compares the member just
  stored with the value stored in it.
\<close>

theorem gmtime64_r_no_overflow_check:
  assumes "86400 * (days_before_year 2147485548 + 1 - epoch_day) \<le> val t"
  shows "\<exists>q. gmtime64_r t p = Some q \<and> \<not> is_utc (val t) q"
proof -
  obtain q where q: "gmtime64_r t p = Some q"
    by (simp add: gmtime64_r_def Let_def split_beta)
  have "int_range (tm_year q)"
    using q gm64_date_range by (auto simp: gmtime64_r_def Let_def split_beta)
  moreover have "2147483648 \<le> tm_year q" if utc: "is_utc (val t) q"
  proof -
    obtain y m d where v: "valid_ymd y m d" and o: "ordinal y m d = epoch_day + val t div 86400"
        and y: "tm_year q = int y - 1900"
      using is_utc_date [OF utc] by blast
    have "days_before_year 2147485548 + 1 - epoch_day \<le> val t div 86400"
      using div_le_mono [OF assms, of 86400] by simp
    then have "days_before_year 2147485548 < ordinal y m d" using o by linarith
    with ordinal_year_bounds(2) [OF v] have "days_before_year 2147485548 < days_before_year (Suc y)" by linarith
    then have "\<not> Suc y \<le> 2147485548" using days_before_year_mono [of "Suc y" 2147485548] by linarith
    then show ?thesis using y by simp
  qed
  ultimately show ?thesis using q by (auto simp: int_range_def)
qed

theorem gmtime64_r_no_overflow_check_witness:
  "\<exists>q. gmtime64_r (of_u64 67768036191676800) (gmtime_r 0) = Some q \<and> \<not> is_utc 67768036191676800 q"
  using gmtime64_r_no_overflow_check [of "of_u64 67768036191676800" "gmtime_r 0"] days_before_year_closed [of 2147485548]
  by (simp add: val_of_u64 years_days_def epoch_day_def)

end
