(* ===== verification/Localtime64.thy ===== *)
theory Localtime64
  imports Time64
begin

text \<open>
  Local time in 64 bits: \<^verbatim>\<open>localtime64_r()\<close> and \<^verbatim>\<open>mktime64()\<close>.  They map a year after 2037 to one
  of the last 28 with the same calendar (\<^verbatim>\<open>tm64syr.c\<close>), let the 32-bit functions do the work
  in that year, and put the year back.  The time-zone offset \<^verbatim>\<open>__tzget()\<close> returns is a
  parameter, a null pointer is \<open>None\<close>, and so is a failed assertion of \<^verbatim>\<open>safe_year()\<close>.
\<close>

section \<open>Definitions\<close>

definition safe_years_high :: "int list" where
  "safe_years_high =
     [2016, 2017, 2018, 2019, 2020, 2021, 2022, 2023, 2024, 2025, 2026, 2027, 2028, 2029,
      2030, 2031, 2032, 2033, 2034, 2035, 2036, 2037, 2010, 2011, 2012, 2013, 2014, 2015]"

definition safe_years_low :: "int list" where
  "safe_years_low =
     [1996, 1997, 1998, 1971, 1972, 1973, 1974, 1975, 1976, 1977, 1978, 1979, 1980, 1981,
      1982, 1983, 1984, 1985, 1986, 1987, 1988, 1989, 1990, 1991, 1992, 1993, 1994, 1995]"

definition cycle_offset :: "int \<Rightarrow> int" where
  "cycle_offset year =
     (let start_year = 2000;
          year_diff = year - start_year;
          year_diff = (if year > start_year then year_diff - 1 else year_diff);
          exceptions = year_diff sdiv 100;
          exceptions = exceptions - year_diff sdiv 400
      in exceptions * 16)"

definition safe_year :: "int \<Rightarrow> int option" where
  "safe_year year =
     (if year \<ge> MIN_SAFE_YEAR \<and> year \<le> MAX_SAFE_YEAR then Some year
      else
        let year_cycle = year + cycle_offset year;
            year_cycle = (if year < MIN_SAFE_YEAR then year_cycle - 8 else year_cycle);
            year_cycle = (if is_exception_century year then year_cycle + 11 else year_cycle);
            year_cycle = (if is_exception_century (year - 1) then year_cycle + 17 else year_cycle);
            year_cycle = year_cycle smod SOLAR_CYCLE_LENGTH;
            year_cycle = (if year_cycle < 0 then SOLAR_CYCLE_LENGTH + year_cycle else year_cycle)
        in if \<not> (year_cycle \<ge> 0 \<and> year_cycle < SOLAR_CYCLE_LENGTH) then None
           else
             let s = (if year < MIN_SAFE_YEAR then safe_years_low ! nat year_cycle
                      else safe_years_high ! nat year_cycle)
             in if s \<le> MAX_SAFE_YEAR \<and> s \<ge> MIN_SAFE_YEAR then Some s else None)"

definition sby_cond :: "int \<Rightarrow> int64 \<times> int \<Rightarrow> bool" where
  "sby_cond left_year = (\<lambda>(seconds, right_year). left_year \<noteq> right_year)"

definition sby_step :: "int \<Rightarrow> int64 \<times> int \<Rightarrow> int64 \<times> int" where
  "sby_step increment = (\<lambda>(seconds, right_year).
     (i64_add_i32 seconds (word_of_int (length_of_year (IS_LEAP (right_year - 1900)) * 60 * 60 * 24)),
      right_year + increment))"

definition seconds_between_years :: "int \<Rightarrow> int \<Rightarrow> u64" where
  "seconds_between_years left_year right_year =
     (let increment = (if left_year > right_year then 1 else -1);
          seconds = i64_init;
          (seconds, left_year) =
            (if left_year > 2400 then
               let cycles = (left_year - 2400) sdiv 400
               in (i64_mul_i32 (i64_from_u64 seconds_in_gregorian_cycle) (word_of_int cycles), left_year - cycles * 400)
             else if left_year < 1600 then
               let cycles = (left_year - 1600) sdiv 400
               in (i64_mul_i32 (i64_from_u64 seconds_in_gregorian_cycle) (word_of_int cycles), left_year + cycles * 400)
             else (seconds, left_year));
          (seconds, _) = while (sby_cond left_year) (sby_step increment) (seconds, right_year)
      in u64_of seconds)"

text \<open>
  The automatic variable \<^verbatim>\<open>gm_tm\<close> starts out with any contents; \<^verbatim>\<open>gmtime64_r\<close> sets every
  member of it that is read.
\<close>

definition auto_tm :: tm where
  "auto_tm = \<lparr>tm_sec = 0, tm_min = 0, tm_hour = 0, tm_mday = 0, tm_mon = 0, tm_year = 0,
              tm_wday = 0, tm_yday = 0, tm_isdst = 0\<rparr>"

definition localtime64_fix :: "tm \<Rightarrow> int \<Rightarrow> tm \<Rightarrow> tm" where
  "localtime64_fix gm_tm orig_year safe_date =
     (let local_tm = safe_date\<lparr>tm_year := orig_year\<rparr>;
          month_diff = tm_mon local_tm - tm_mon gm_tm;
          local_tm = (if month_diff = 11 then local_tm\<lparr>tm_year := tm_year local_tm - 1\<rparr> else local_tm);
          local_tm = (if month_diff = -11 then local_tm\<lparr>tm_year := tm_year local_tm + 1\<rparr> else local_tm)
      in if \<not> IS_LEAP (tm_year local_tm) \<and> tm_yday local_tm = 365
         then local_tm\<lparr>tm_yday := tm_yday local_tm - 1\<rparr> else local_tm)"

definition localtime64_r :: "int \<Rightarrow> int64 option \<Rightarrow> tm option \<Rightarrow> tm option" where
  "localtime64_r tz timep local_tm =
     (case timep of None \<Rightarrow> None
      | Some time \<Rightarrow>
     (case local_tm of None \<Rightarrow> None
      | Some _ \<Rightarrow>
     (case gmtime64_r time auto_tm of None \<Rightarrow> None
      | Some gm_tm \<Rightarrow>
        let orig_year = tm_year gm_tm;
            safe = (if tm_year gm_tm > 2037 - 1900 \<or> tm_year gm_tm < 1970 - 1900
                    then map_option (\<lambda>s. s - 1900) (safe_year (tm_year gm_tm + 1900))
                    else Some (tm_year gm_tm))
        in case safe of None \<Rightarrow> None
           | Some year \<Rightarrow>
             let gm_tm = gm_tm\<lparr>tm_year := year\<rparr>;
                 tmp = timegm64 gm_tm;
                 safe_time = i64_to_u32 tmp;
                 safe_date = localtime_r tz safe_time
             in Some (localtime64_fix gm_tm orig_year safe_date))))"

text \<open>The fields of \<^verbatim>\<open>mktime64()\<close>'s argument read as UTC; \<open>None\<close> is an assertion of \<^verbatim>\<open>safe_year()\<close> that fails.\<close>

definition mktime64_utc :: "tm \<Rightarrow> int \<Rightarrow> int64 option" where
  "mktime64_utc date year =
     (if MIN_SAFE_YEAR \<le> year \<and> year \<le> MAX_SAFE_YEAR
      then Some (i64_from_u32 (fst (timegm date)))
      else
        case safe_year year of None \<Rightarrow> None
        | Some s \<Rightarrow>
          let date = date\<lparr>tm_year := s - 1900\<rparr>;
              (secs, safe_date) = timegm date;
              time = i64_from_u32 secs;
              seconds = seconds_between_years year (tm_year safe_date + 1900)
          in Some (i64_add_u64 time seconds))"

definition mktime64 :: "int \<Rightarrow> tm \<Rightarrow> int64 \<times> tm" where
  "mktime64 tz input_date =
     (let year = int32 (tm_year input_date + 1900);
          fail = (i64_sub_i32 i64_init 1, input_date)
      in if year < 1970 \<or> year > 9999 then fail
         else
           case mktime64_utc input_date year of None \<Rightarrow> fail
           | Some time \<Rightarrow>
             if tz > 0 \<and> i64_cmp_u32 time (word_of_int tz) = SMALLER64 then fail
             else
               let time = i64_sub_i32 time (word_of_int tz)
               in case localtime64_r tz (Some time) (Some auto_tm) of
                    None \<Rightarrow> fail
                  | Some local \<Rightarrow> (time, local))"

section \<open>Equivalent years\<close>

text \<open>The year table depends on the year modulo 400 only, so 400 years decide all of them.\<close>

definition exception_century :: "nat \<Rightarrow> bool" where
  "exception_century y \<longleftrightarrow> y mod 100 = 0 \<and> y mod 400 \<noteq> 0"

definition solar_index :: "nat \<Rightarrow> nat" where
  "solar_index y =
     (y + 16 * ((y - 2001) div 100 - (y - 2001) div 400) + (if exception_century y then 11 else 0) +
      (if exception_century (y - 1) then 17 else 0)) mod 28"

lemma exception_century_int: "is_exception_century (int y) = exception_century y"
proof -
  have "int y smod 100 = int (y mod 100)" "int y smod 400 = int (y mod 400)"
    by (simp_all add: smod_nonneg zmod_int)
  then show ?thesis by (simp add: is_exception_century_def exception_century_def)
qed

lemma safe_years_high_range: "i < 28 \<Longrightarrow> 2010 \<le> safe_years_high ! i \<and> safe_years_high ! i \<le> 2037"
proof -
  have "\<forall>y \<in> set safe_years_high. 2010 \<le> y \<and> y \<le> 2037" "length safe_years_high = 28"
    by (simp_all add: safe_years_high_def)
  moreover assume "i < 28"
  ultimately show ?thesis using nth_mem [of i safe_years_high] by simp
qed

lemma safe_year_index:
  assumes "2038 \<le> y"
  shows "safe_year (int y) = Some (safe_years_high ! solar_index y)"
proof -
  define e where "e = (y - 2001) div 100 - (y - 2001) div 400"
  have le: "(y - 2001) div 400 \<le> (y - 2001) div 100" by (rule div_le_mono2) simp_all
  have yd: "int y - 2000 - 1 = int (y - 2001)" using assms by simp
  have q: "int (y - 2001) sdiv 100 = int ((y - 2001) div 100)" "int (y - 2001) sdiv 400 = int ((y - 2001) div 400)"
    by (simp_all add: sdiv_nonneg zdiv_int)
  have "cycle_offset (int y) = (int (y - 2001) sdiv 100 - int (y - 2001) sdiv 400) * 16"
    using assms unfolding cycle_offset_def Let_def yd [symmetric] by simp
  then have co: "cycle_offset (int y) = int (16 * e)" using le by (simp add: q e_def)
  define c where "c = y + 16 * e + (if exception_century y then 11 else 0) + (if exception_century (y - 1) then 17 else 0)"
  have y1: "int y - 1 = int (y - 1)" using assms by simp
  have c: "(let year_cycle = int y + cycle_offset (int y);
            year_cycle = (if is_exception_century (int y) then year_cycle + 11 else year_cycle)
        in (if is_exception_century (int y - 1) then year_cycle + 17 else year_cycle)) = int c"
    unfolding Let_def y1 exception_century_int co c_def by simp
  have idx: "int c smod 28 = int (solar_index y)" "solar_index y < 28"
    by (simp_all add: smod_nonneg zmod_int solar_index_def c_def e_def)
  show ?thesis
    using assms c safe_years_high_range [OF idx(2)] idx
    by (simp add: safe_year_def Let_def MIN_SAFE_YEAR_def MAX_SAFE_YEAR_def SOLAR_CYCLE_LENGTH_def)
qed

lemma solar_index_add_400: "2038 \<le> y \<Longrightarrow> solar_index (y + 400) = solar_index y"
proof -
  assume y: "2038 \<le> y"
  define x where "x = y - 2001"
  have le: "x div 400 \<le> x div 100" by (rule div_le_mono2) simp_all
  have "(x + 400) div 100 = x div 100 + 4" "(x + 400) div 400 = x div 400 + 1"
    using div_mult_self1 [of 100 x 4] by simp_all
  then have e: "(y + 400 - 2001) div 100 - (y + 400 - 2001) div 400 = (y - 2001) div 100 - (y - 2001) div 400 + 3"
    using y le by (simp add: x_def add.commute)
  have ex: "exception_century (z + 400) = exception_century z" for z
    using mod_mult_self1 [of z 4 100] by (simp add: exception_century_def)
  have "y + 400 - 1 = (y - 1) + 400" using y by simp
  then have p: "exception_century (y + 400 - 1) = exception_century (y - 1)" by (simp only: ex)
  have "solar_index (y + 400) = (y + 16 * ((y - 2001) div 100 - (y - 2001) div 400) +
      (if exception_century y then 11 else 0) + (if exception_century (y - 1) then 17 else 0) + 28 * 16) mod 28"
    unfolding solar_index_def e ex p by (simp add: algebra_simps)
  also have "\<dots> = solar_index y" unfolding solar_index_def by (rule mod_mult_self2)
  finally show ?thesis .
qed

text \<open>1 January, and the year before and after, fall on the same weekday in both years.\<close>

definition same_calendar :: "nat \<Rightarrow> nat \<Rightarrow> bool" where
  "same_calendar s y \<longleftrightarrow>
     leap_year s = leap_year y \<and> leap_year (s - 1) = leap_year (y - 1) \<and>
     days_before_year s mod 7 = days_before_year y mod 7"

lemma same_calendar_closed:
  "1 \<le> s \<Longrightarrow> 1 \<le> y \<Longrightarrow> same_calendar s y \<longleftrightarrow>
     leap_year s = leap_year y \<and> leap_year (s - 1) = leap_year (y - 1) \<and>
     years_days (s - 1) mod 7 = years_days (y - 1) mod 7"
  by (simp add: same_calendar_def days_before_year_closed)

text \<open>The same test on binary integers, so that the kernel can run through the 400 years.\<close>

definition leap_int :: "int \<Rightarrow> bool" where
  "leap_int y \<longleftrightarrow> y mod 4 = 0 \<and> y mod 100 \<noteq> 0 \<or> y mod 400 = 0"

definition years_days_int :: "int \<Rightarrow> int" where
  "years_days_int y = 365 * y + y div 4 - y div 100 + y div 400"

definition solar_index_int :: "int \<Rightarrow> int" where
  "solar_index_int y =
     (y + 16 * ((y - 2001) div 100 - (y - 2001) div 400) +
      (if y mod 100 = 0 \<and> y mod 400 \<noteq> 0 then 11 else 0) +
      (if (y - 1) mod 100 = 0 \<and> (y - 1) mod 400 \<noteq> 0 then 17 else 0)) mod 28"

definition safe_check :: "int \<Rightarrow> bool" where
  "safe_check y \<longleftrightarrow> (let s = safe_years_high ! nat (solar_index_int y) in
     leap_int s = leap_int y \<and> leap_int (s - 1) = leap_int (y - 1) \<and>
     years_days_int (s - 1) mod 7 = years_days_int (y - 1) mod 7)"

lemma safe_check_century_1: "list_all safe_check [2038..2137]"
  by code_simp

lemma safe_check_century_2: "list_all safe_check [2138..2237]"
  by code_simp

lemma safe_check_century_3: "list_all safe_check [2238..2337]"
  by code_simp

lemma safe_check_century_4: "list_all safe_check [2338..2437]"
  by code_simp

lemma list_all_upto: "list_all P [a..b] \<Longrightarrow> a \<le> i \<Longrightarrow> i \<le> b \<Longrightarrow> P i"
  by (simp add: list_all_iff)

lemma safe_check_range:
  assumes "2038 \<le> i" and "i \<le> 2437" shows "safe_check i"
proof -
  consider "2038 \<le> i \<and> i \<le> 2137" | "2138 \<le> i \<and> i \<le> 2237" | "2238 \<le> i \<and> i \<le> 2337" | "2338 \<le> i \<and> i \<le> 2437"
    using assms by linarith
  then show ?thesis
    using safe_check_century_1 safe_check_century_2 safe_check_century_3 safe_check_century_4
    by cases (blast intro: list_all_upto)+
qed

lemma leap_int_nat: "leap_int (int y) = leap_year y"
proof -
  have "int y mod 4 = int (y mod 4)" "int y mod 100 = int (y mod 100)" "int y mod 400 = int (y mod 400)"
    by (simp_all add: zmod_int)
  then show ?thesis unfolding leap_int_def leap_year_def by simp
qed

lemma years_days_int_nat: "years_days_int (int y) = int (years_days y)"
proof -
  have "y div 100 \<le> 365 * y + y div 4" by (simp add: trans_le_add2 div_le_mono2)
  moreover have "int y div 4 = int (y div 4)" "int y div 100 = int (y div 100)" "int y div 400 = int (y div 400)"
    by (simp_all add: zdiv_int)
  ultimately show ?thesis unfolding years_days_int_def years_days_def by (simp add: of_nat_diff)
qed

lemma solar_index_int_nat: "2038 \<le> y \<Longrightarrow> solar_index_int (int y) = int (solar_index y)"
proof -
  assume y: "2038 \<le> y"
  define a b where "a = (y - 2001) div 100" and "b = (y - 2001) div 400"
  define c where "c = y + 16 * (a - b) + (if exception_century y then 11 else 0) + (if exception_century (y - 1) then 17 else 0)"
  have ba: "b \<le> a" unfolding a_def b_def by (rule div_le_mono2) simp_all
  have y1: "int y - 2001 = int (y - 2001)" "int y - 1 = int (y - 1)" using y by simp_all
  have d: "int (y - 2001) div 100 = int a" "int (y - 2001) div 400 = int b"
    by (simp_all only: a_def b_def zdiv_int of_nat_numeral)
  have ex: "(int z mod 100 = 0 \<and> int z mod 400 \<noteq> 0) = exception_century z" for z
  proof -
    have "int z mod 100 = int (z mod 100)" "int z mod 400 = int (z mod 400)" by (simp_all add: zmod_int)
    then show ?thesis by (simp add: exception_century_def)
  qed
  have "solar_index_int (int y) = int c mod 28"
    unfolding solar_index_int_def y1 d ex c_def using ba by (simp add: of_nat_diff)
  also have "\<dots> = int (c mod 28)" by (simp only: zmod_int of_nat_numeral)
  also have "c mod 28 = solar_index y" by (simp only: c_def solar_index_def a_def b_def)
  finally show ?thesis .
qed

lemma safe_check_same:
  assumes "2038 \<le> y" and "safe_check (int y)"
  shows "same_calendar (nat (safe_years_high ! solar_index y)) y"
proof -
  define s where "s = nat (safe_years_high ! solar_index y)"
  have "solar_index y < 28" by (simp add: solar_index_def)
  then have s: "safe_years_high ! solar_index y = int s" "2010 \<le> s"
    using safe_years_high_range [of "solar_index y"] by (auto simp: s_def)
  have m: "int s - 1 = int (s - 1)" "int y - 1 = int (y - 1)" using s assms(1) by simp_all
  have "leap_year s = leap_year y \<and> leap_year (s - 1) = leap_year (y - 1) \<and>
      int (years_days (s - 1)) mod 7 = int (years_days (y - 1)) mod 7"
    using assms(2) unfolding safe_check_def solar_index_int_nat [OF assms(1)] nat_int s(1) Let_def m
      leap_int_nat years_days_int_nat .
  then have "same_calendar s y"
    using s(2) assms(1) by (subst same_calendar_closed) (simp_all flip: zmod_int [of _ 7, simplified])
  then show ?thesis by (simp only: s_def)
qed

lemma same_calendar_add_400: "1 \<le> y - 1 \<Longrightarrow> same_calendar s (y + 400) = same_calendar s y"
proof -
  assume y: "1 \<le> y - 1"
  have "y + 400 - 1 = (y - 1) + 400" using y by simp
  then have "leap_year (y + 400 - 1) = leap_year (y - 1)" by (simp only: leap_year_add_400)
  moreover have "days_before_year (y + 400) + 7 * 0 = days_before_year y + 7 * 20871"
    using y days_before_year_add_400 [of y] by simp
  then have "days_before_year (y + 400) mod 7 = days_before_year y mod 7" by (rule mod7_eqI)
  ultimately show ?thesis by (simp add: same_calendar_def leap_year_add_400)
qed

lemma safe_year_matches:
  assumes "2038 \<le> y"
  obtains s where "safe_year (int y) = Some (int s)" "2010 \<le> s" "s \<le> 2037" "same_calendar s y"
proof -
  have "same_calendar (nat (safe_years_high ! solar_index y)) y"
    using assms
  proof (induction y rule: less_induct)
    case (less y)
    show ?case
    proof (cases "y < 2438")
      case True
      then have "safe_check (int y)" using less.prems by (intro safe_check_range) simp_all
      then show ?thesis by (rule safe_check_same [OF less.prems])
    next
      case False
      define z where "z = y - 400"
      have z: "y = z + 400" "2038 \<le> z" "z < y" using False by (simp_all add: z_def)
      then show ?thesis
        using less.IH [OF z(3,2)] by (simp add: solar_index_add_400 same_calendar_add_400)
    qed
  qed
  moreover have "solar_index y < 28" by (simp add: solar_index_def)
  note safe_years_high_range [OF this]
  ultimately show thesis
    using safe_year_index [OF assms] that [of "nat (safe_years_high ! solar_index y)"] by auto
qed

section \<open>Moving a date between equivalent years\<close>

lemma ordinal_december_31: "1 \<le> y \<Longrightarrow> valid_ymd y 11 31 \<and> ordinal y 11 31 = days_before_year (Suc y)"
  by (simp add: valid_ymd_def ordinal_def month_days_def year_days_def)

lemma ordinal_january_1: "1 \<le> y \<Longrightarrow> valid_ymd y 0 1 \<and> ordinal y 0 1 = days_before_year y + 1"
  by (simp add: valid_ymd_def ordinal_def month_days_def)

text \<open>The date of the next day: the same year, or 1 January after 31 December.\<close>

lemma next_day_year:
  assumes v: "valid_ymd y m d" "valid_ymd y' m' d'" and o: "ordinal y' m' d' = ordinal y m d + 1"
  shows "y' = y \<and> \<not> (m = 11 \<and> m' = 0) \<and> \<not> (m = 0 \<and> m' = 11) \<or> y' = Suc y \<and> m = 11 \<and> m' = 0"
proof -
  note b = ordinal_year_bounds [OF v(1)] ordinal_year_bounds [OF v(2)]
  have y: "1 \<le> y" using v by (simp add: valid_ymd_def)
  show ?thesis
  proof (cases "ordinal y m d = days_before_year (Suc y)")
    case True
    then have "m = 11" using ordinal_inject [OF v(1), of y 11 31] ordinal_december_31 [OF y] by simp
    moreover have "ordinal y' m' d' = ordinal (Suc y) 0 1" using True o ordinal_january_1 [of "Suc y"] by simp
    then have "y' = Suc y \<and> m' = 0" using ordinal_inject [OF v(2), of "Suc y" 0 1] ordinal_january_1 [of "Suc y"] by simp
    ultimately show ?thesis by simp
  next
    case False
    then have "y' = y"
      using between_mono_eq [of days_before_year y' "ordinal y' m' d'" y] b o days_before_year_mono by simp
    moreover have "m \<le> m'" "m = 0 \<Longrightarrow> m' \<le> 1"
    proof -
      let ?l = "leap_year y"
      have e: "days_before_month ?l m' + d' = days_before_month ?l m + d + 1"
        using o \<open>y' = y\<close> by (simp add: ordinal_def)
      have d: "1 \<le> d" "d \<le> month_days ?l m" "1 \<le> d'" "d' \<le> month_days ?l m'" "m < 12" "m' < 12"
        using v \<open>y' = y\<close> by (auto simp: valid_ymd_def)
      show "m \<le> m'"
      proof (rule ccontr)
        assume "\<not> m \<le> m'"
        then show False using days_before_month_mono [of "Suc m'" m ?l] e d by simp
      qed
      show "m' \<le> 1" if "m = 0"
      proof (rule ccontr)
        assume "\<not> m' \<le> 1"
        then have "days_before_month ?l 2 \<le> days_before_month ?l m'" by (intro days_before_month_mono) simp
        then show False using e d that by (simp add: month_days_def split: if_splits)
      qed
    qed
    ultimately show ?thesis by auto
  qed
qed

lemma adjacent_day_year:
  assumes v: "valid_ymd y m d" "valid_ymd y' m' d'"
    and o: "ordinal y' m' d' \<le> ordinal y m d + 1" "ordinal y m d \<le> ordinal y' m' d' + 1"
  shows "int y' - int y = (if int m' - int m = 11 then -1 else if int m' - int m = -11 then 1 else 0)"
proof -
  have m: "m < 12" "m' < 12" using v by (simp_all add: valid_ymd_def)
  then have c: "int m' - int m = 11 \<longleftrightarrow> m' = 11 \<and> m = 0" "int m' - int m = -11 \<longleftrightarrow> m' = 0 \<and> m = 11" by auto
  consider "ordinal y' m' d' = ordinal y m d" | "ordinal y' m' d' = ordinal y m d + 1" | "ordinal y m d = ordinal y' m' d' + 1"
    using o by linarith
  then show ?thesis
  proof cases
    case 1
    then show ?thesis using ordinal_inject [OF v] by simp
  next
    case 2
    then show ?thesis unfolding c using next_day_year [OF v 2] by auto
  next
    case 3
    then show ?thesis unfolding c using next_day_year [OF v(2,1) 3] by auto
  qed
qed

text \<open>
  A date moved to a year with the same calendar, from its month on, stands for the same time
  of day and weekday a whole number of weeks later or earlier.
\<close>

lemma is_utc_move:
  assumes utc: "is_utc t p" and p: "tm_year p = int a - 1900" and b: "1 \<le> b"
    and cal: "leap_year a = leap_year b \<or> tm_mon p = 0"
    and weeks: "days_before_year a + 7 * k = days_before_year b + 7 * j" "t + 604800 * k = t' + 604800 * j"
  shows "is_utc t' (p\<lparr>tm_year := int b - 1900\<rparr>)"
proof -
  from utc obtain y m d where v: "valid_ymd y m d" and o: "ordinal y m d = epoch_day + t div 86400"
    and q: "tm_year p = int y - 1900" "tm_mon p = int m" "tm_mday p = int d"
      "tm_yday p = int (days_before_month (leap_year y) m + d) - 1"
      "tm_wday p = int (weekday (epoch_day + t div 86400))" "tm_hour p = int (t mod 86400 div 3600)"
      "tm_min p = int (t mod 3600 div 60)" "tm_sec p = int (t mod 60)"
    unfolding is_utc_def by blast
  have ya: "y = a" using p q(1) by simp
  have dm: "month_days (leap_year b) m = month_days (leap_year a) m"
    "days_before_month (leap_year b) m = days_before_month (leap_year a) m"
    using cal q(2) by (auto simp: month_days_def)
  have day: "t div 86400 + 7 * k = t' div 86400 + 7 * j"
  proof -
    have "t + 86400 * (7 * k) = t' + 86400 * (7 * j)" using weeks(2) by simp
    then have "(t + 86400 * (7 * k)) div 86400 = (t' + 86400 * (7 * j)) div 86400" by (rule arg_cong)
    moreover have "(x + 86400 * (7 * i)) div 86400 = x div 86400 + 7 * i" for x i :: nat
      using div_mult_self2 [of 86400 x "7 * i"] by (simp only: add.commute zero_neq_numeral not_False_eq_True simp_thms)
    ultimately show ?thesis by (simp only:)
  qed
  have parts: "t' mod n = t mod n" if "n dvd 604800" for n
  proof -
    have "(t + 604800 * k) mod n = (t' + 604800 * j) mod n" using weeks(2) by simp
    then show ?thesis using that by (elim dvdE) (simp add: mult.assoc)
  qed
  have "valid_ymd b m d" using v b by (simp add: valid_ymd_def ya dm)
  moreover have "ordinal b m d + 7 * j = ordinal y m d + 7 * k" using weeks(1) by (simp add: ordinal_def ya dm)
  then have "ordinal b m d = epoch_day + t' div 86400" using o day by linarith
  moreover have "weekday (epoch_day + t' div 86400) = weekday (epoch_day + t div 86400)"
    unfolding weekday_def by (rule mod7_eqI [of _ j _ k]) (use day in linarith)
  moreover have "t' mod 86400 = t mod 86400" "t' mod 3600 = t mod 3600" "t' mod 60 = t mod 60"
    using parts [of 86400] parts [of 3600] parts [of 60] by simp_all
  ultimately show ?thesis unfolding is_utc_def using q ya dm by (auto simp: exI [of _ b])
qed

section \<open>Local time\<close>

definition end_lt64 :: nat where
  "end_lt64 = 2 ^ 55"

lemma is_utc_year_unique: "is_utc t p \<Longrightarrow> is_utc t q \<Longrightarrow> tm_year p = tm_year q"
  using is_utc_unique [of t p q 0] by (metis tm.select_convs(6) tm.surjective tm.update_convs(9))

text \<open>The correction of the year after the time-zone offset was applied.\<close>

lemma local_year_shift:
  assumes g: "is_utc t g" and q: "is_utc t' q" and near: "t' \<le> t + 86400" "t \<le> t' + 86400"
  shows "tm_year q - tm_year g = (if tm_mon q - tm_mon g = 11 then -1 else if tm_mon q - tm_mon g = -11 then 1 else 0)"
proof -
  obtain y m d where a: "valid_ymd y m d" "ordinal y m d = epoch_day + t div 86400"
      "tm_year g = int y - 1900" "tm_mon g = int m" using is_utc_date [OF g] by metis
  obtain y' m' d' where b: "valid_ymd y' m' d'" "ordinal y' m' d' = epoch_day + t' div 86400"
      "tm_year q = int y' - 1900" "tm_mon q = int m'" using is_utc_date [OF q] by metis
  have "t' div 86400 \<le> t div 86400 + 1" "t div 86400 \<le> t' div 86400 + 1"
    using div_le_mono [OF near(1), of 86400] div_le_mono [OF near(2), of 86400] by simp_all
  then show ?thesis using adjacent_day_year [OF a(1) b(1)] a b by simp
qed

lemma is_utc_yday_365: "is_utc t p \<Longrightarrow> tm_yday p = 365 \<Longrightarrow> IS_LEAP (tm_year p)"
proof -
  assume "is_utc t p" and yd: "tm_yday p = 365"
  then obtain y m d where v: "valid_ymd y m d" "tm_year p = int y - 1900"
      "int (days_before_month (leap_year y) m + d) - 1 = 365" unfolding is_utc_def by force
  moreover have "days_before_month (leap_year y) m + d \<le> (if leap_year y then 366 else 365)"
    using days_before_month_le [of m "leap_year y"] v(1) by (simp add: valid_ymd_def)
  ultimately show ?thesis by (simp add: IS_LEAP_leap_year split: if_splits)
qed

lemma localtime64_fix_is_utc:
  assumes g: "is_utc t (g\<lparr>tm_year := s\<rparr>)" and q: "is_utc t' q" and near: "t' \<le> t + 86400" "t \<le> t' + 86400"
    and moved: "is_utc u (q\<lparr>tm_year := orig + (tm_year q - s)\<rparr>)"
  shows "is_utc u (localtime64_fix (g\<lparr>tm_year := s\<rparr>) orig q)"
proof -
  let ?r = "q\<lparr>tm_year := orig + (tm_year q - s)\<rparr>"
  have d: "tm_year q - s = (if tm_mon q - tm_mon g = 11 then -1 else if tm_mon q - tm_mon g = -11 then 1 else 0)"
    using local_year_shift [OF g q near] by simp
  have "localtime64_fix (g\<lparr>tm_year := s\<rparr>) orig q =
      (if \<not> IS_LEAP (tm_year ?r) \<and> tm_yday ?r = 365 then ?r\<lparr>tm_yday := tm_yday ?r - 1\<rparr> else ?r)"
    unfolding d localtime64_fix_def Let_def by (simp add: d)
  also have "\<dots> = ?r" using is_utc_yday_365 [OF moved] by auto
  finally show ?thesis using moved by simp
qed
lemma is_utc_before_2038:
  assumes g: "is_utc t g" and y: "tm_year g \<le> 137"
  shows "t < 2145916800"
proof -
  obtain y m d where a: "valid_ymd y m d" "ordinal y m d = epoch_day + t div 86400" "tm_year g = int y - 1900"
    using is_utc_date [OF g] by metis
  have "ordinal y m d \<le> days_before_year (Suc 2037)"
    using ordinal_year_bounds(2) [OF a(1)] days_before_year_mono [of "Suc y" "Suc 2037"] y a(3) by linarith
  then have "t div 86400 \<le> 24836" using a(2) unfolding days_before_year_Suc by (simp add: years_days_def epoch_day_def)
  then show ?thesis by (simp add: div_less_iff_less_mult flip: less_Suc_eq_le)
qed

lemma safe_local:
  assumes g: "is_utc t g" and y: "tm_year g \<le> 137" and tz: "\<bar>tz\<bar> < 86400" "0 \<le> int t + tz"
  shows "is_utc (nat (int t + tz)) (localtime_r tz (i64_to_u32 (timegm64 g)))"
proof -
  have t: "t < 2145916800" by (rule is_utc_before_2038 [OF g y])
  have "val (timegm64 g) = t" using timegm64_is_utc [OF g] t by simp
  then have "unat (i64_to_u32 (timegm64 g)) = t" using t by (simp add: i64_to_u32_def unat_u32_lo)
  then have "i64_to_u32 (timegm64 g) = of_nat t" by (rule word_of_unat)
  then have "i64_to_u32 (timegm64 g) + word_of_int tz = word_of_int (int t + tz)" by simp
  moreover have "unat (word_of_int (int t + tz) :: u32) = nat (int t + tz)"
    using t tz by (subst unat32_of_int) simp_all
  ultimately show ?thesis using gmtime_r_is_utc [of "word_of_int (int t + tz)"] unfolding localtime_r_def by simp
qed


lemma same_calendar_weeks:
  assumes "same_calendar s y" and "s \<le> y"
  obtains k where "days_before_year y = days_before_year s + 7 * k"
proof -
  have le: "days_before_year s \<le> days_before_year y" by (rule days_before_year_mono [OF assms(2)])
  have "days_before_year y mod 7 = days_before_year s mod 7" using assms(1) by (simp add: same_calendar_def)
  then have "7 dvd days_before_year y - days_before_year s" by (simp only: mod_eq_dvd_iff_nat [OF le])
  then show thesis using that le by (elim dvdE) (metis le_add_diff_inverse)
qed

lemma same_calendar_move:
  assumes q: "is_utc us q" and us: "us + 604800 * k = u + 604800 * 0"
    and cal: "same_calendar s y" and k: "days_before_year y = days_before_year s + 7 * k" and sy: "2 \<le> s" "2 \<le> y"
    and near: "tm_year q = int s - 1900 \<or> tm_year q = int s - 1 - 1900 \<or> tm_year q = int s + 1 - 1900 \<and> tm_mon q = 0"
  shows "is_utc u (q\<lparr>tm_year := int y - 1900 + (tm_year q - (int s - 1900))\<rparr>)"
  using near
proof (elim disjE conjE)
  assume a: "tm_year q = int s - 1900"
  have "is_utc u (q\<lparr>tm_year := int y - 1900\<rparr>)"
    by (rule is_utc_move [OF q a _ _ _ us]) (use cal k sy in \<open>auto simp: same_calendar_def\<close>)
  then show ?thesis by (simp add: a)
next
  assume a: "tm_year q = int s - 1 - 1900"
  obtain s' y' where p: "s = Suc s'" "y = Suc y'" "1 \<le> s'" "1 \<le> y'" using sy by (cases s; cases y) auto
  have "is_utc u (q\<lparr>tm_year := int y' - 1900\<rparr>)"
    by (rule is_utc_move [OF q _ _ _ _ us, of s'])
      (use a cal k p in \<open>auto simp: same_calendar_def year_days_def\<close>)
  then show ?thesis by (simp add: a p)
next
  assume a: "tm_year q = int s + 1 - 1900" and m: "tm_mon q = 0"
  have "is_utc u (q\<lparr>tm_year := int (Suc y) - 1900\<rparr>)"
    by (rule is_utc_move [OF q _ _ _ _ us, of "Suc s"])
      (use a m cal k sy in \<open>auto simp: same_calendar_def year_days_def\<close>)
  then show ?thesis by (simp add: a algebra_simps)
qed

text \<open>A date after 2037 and its image in the equivalent year.\<close>

lemma safe_year_date:
  assumes g: "is_utc t g" and y: "tm_year g = int y - 1900" "2038 \<le> y"
  obtains s k ts where "safe_year (int y) = Some (int s)" "2010 \<le> s" "s \<le> 2037" "same_calendar s y"
    "days_before_year y = days_before_year s + 7 * k" "t = ts + 604800 * k" "172800 \<le> ts"
    "is_utc ts (g\<lparr>tm_year := int s - 1900\<rparr>)"
proof -
  obtain s where s: "safe_year (int y) = Some (int s)" "2010 \<le> s" "s \<le> 2037" "same_calendar s y"
    using safe_year_matches [OF y(2)] .
  obtain k where k: "days_before_year y = days_before_year s + 7 * k"
    using same_calendar_weeks [OF s(4)] s(3) y(2) by auto
  obtain m d where v: "valid_ymd y m d" "ordinal y m d = epoch_day + t div 86400"
    using is_utc_date [OF g] y(1) by (metis diff_add_cancel of_nat_eq_iff)
  have "days_before_year (Suc 2009) \<le> days_before_year s" by (rule days_before_year_mono) (use s(2) in simp)
  moreover have "days_before_year (Suc 2009) = 733772" unfolding days_before_year_Suc by (simp add: years_days_def)
  ultimately have "733772 \<le> days_before_year s" by linarith
  then have "epoch_day + 7 * k + 2 \<le> epoch_day + t div 86400"
    using ordinal_year_bounds(1) [OF v(1)] v(2) k by (simp add: epoch_day_def)
  then have "604800 * k + 172800 \<le> t" using mult_div_mod_eq [of 86400 t] by linarith
  then obtain ts where ts: "t = ts + 604800 * k" "172800 \<le> ts"
    by (metis add.commute le_add_diff_inverse add_leD1 add_le_imp_le_left)
  moreover have "is_utc ts (g\<lparr>tm_year := int s - 1900\<rparr>)"
    by (rule is_utc_move [OF g y(1), of s 0 k]) (use s k ts in \<open>auto simp: same_calendar_def\<close>)
  ultimately show thesis using that s k by blast
qed

lemma localtime64_r_is_utc:
  assumes t: "val t < end_lt64" and tz: "\<bar>tz\<bar> < 86400" "0 \<le> int (val t) + tz"
  shows "\<exists>q. localtime64_r tz (Some t) (Some p) = Some q \<and> is_utc (nat (int (val t) + tz)) q"
proof -
  have "val t < end_gm64" using t by (simp add: end_lt64_def end_gm64_def)
  then obtain g where g: "gmtime64_r t auto_tm = Some g" "is_utc (val t) g"
    using gmtime64_r_is_utc [of t auto_tm] by blast
  obtain y m d where y: "1970 \<le> y" "tm_year g = int y - 1900"
    and v: "valid_ymd y m d" "ordinal y m d = epoch_day + val t div 86400"
    using is_utc_date [OF g(2)] by metis
  let ?u = "nat (int (val t) + tz)"
  show ?thesis
  proof (cases "y \<le> 2037")
    case True
    let ?q = "localtime_r tz (i64_to_u32 (timegm64 g))"
    have q: "is_utc ?u ?q" using safe_local [OF g(2)] y True tz by simp
    have ge: "g\<lparr>tm_year := tm_year g\<rparr> = g" by simp
    have r: "localtime64_r tz (Some t) (Some p) = Some (localtime64_fix (g\<lparr>tm_year := tm_year g\<rparr>) (tm_year g) ?q)"
    proof -
      have "\<not> (tm_year g > 2037 - 1900 \<or> tm_year g < 1970 - 1900)" using y True by simp
      then show ?thesis unfolding localtime64_r_def Let_def g by (simp only: option.case g(1) if_False ge)
    qed
    have "is_utc ?u (localtime64_fix (g\<lparr>tm_year := tm_year g\<rparr>) (tm_year g) ?q)"
      by (rule localtime64_fix_is_utc [where t = "val t" and t' = ?u]) (use g q tz in simp_all)
    then show ?thesis using r by blast
  next
    case False
    then have y': "2038 \<le> y" by simp
    obtain s k ts where s: "safe_year (int y) = Some (int s)" "2010 \<le> s" "s \<le> 2037" "same_calendar s y"
      and k: "days_before_year y = days_before_year s + 7 * k" and ts: "val t = ts + 604800 * k" "172800 \<le> ts"
      and sg: "is_utc ts (g\<lparr>tm_year := int s - 1900\<rparr>)"
      using safe_year_date [OF g(2) y(2) y'] by blast
    let ?g = "g\<lparr>tm_year := int s - 1900\<rparr>"
    let ?q = "localtime_r tz (i64_to_u32 (timegm64 ?g))"
    define us where "us = nat (int ts + tz)"
    have q: "is_utc us ?q" unfolding us_def by (rule safe_local [OF sg]) (use s tz ts in simp_all)
    have near: "us \<le> ts + 86400" "ts \<le> us + 86400" using tz ts by (auto simp: us_def)
    have r: "localtime64_r tz (Some t) (Some p) = Some (localtime64_fix ?g (tm_year g) ?q)"
      using y False s(1) by (simp add: localtime64_r_def g Let_def)
    have "is_utc ?u (localtime64_fix ?g (tm_year g) ?q)"
    proof (rule localtime64_fix_is_utc [OF sg q near])
      have us: "us + 604800 * k = ?u + 604800 * 0" using tz ts by (simp add: us_def)
      have "tm_year ?q - (int s - 1900) =
          (if tm_mon ?q - tm_mon g = 11 then -1 else if tm_mon ?q - tm_mon g = -11 then 1 else 0)"
        using local_year_shift [OF sg q near] by simp
      moreover have "tm_mon g \<le> 11" using g(2) by (auto simp: is_utc_def valid_ymd_def)
      moreover have "0 \<le> tm_mon ?q" using q by (auto simp: is_utc_def)
      ultimately have "tm_year ?q = int s - 1900 \<or> tm_year ?q = int s - 1 - 1900 \<or> tm_year ?q = int s + 1 - 1900 \<and> tm_mon ?q = 0"
        by (auto split: if_splits)
      then show "is_utc ?u (?q\<lparr>tm_year := tm_year g + (tm_year ?q - (int s - 1900))\<rparr>)"
        using same_calendar_move [OF q us s(4) k] s(2) False y(2) by simp
    qed
    then show ?thesis using r by blast
  qed
qed

section \<open>Local time to calendar time\<close>

lemma sby_loop:
  "1 \<le> s \<Longrightarrow> u64_of (fst (while (sby_cond (int (s + n))) (sby_step 1) (x, int s))) + of_nat (86400 * days_before_year s)
     = u64_of x + of_nat (86400 * days_before_year (s + n))"
proof (induction n arbitrary: s x)
  case 0
  show ?case by (subst while_unfold) (simp add: sby_cond_def)
next
  case (Suc n)
  let ?x = "i64_add_i32 x (word_of_int (length_of_year (IS_LEAP (int s - 1900)) * 60 * 60 * 24))"
  have step: "while (sby_cond (int (s + Suc n))) (sby_step 1) (x, int s) =
      while (sby_cond (int (Suc s + n))) (sby_step 1) (?x, int (Suc s))"
    by (subst while_unfold) (simp add: sby_cond_def sby_step_def add.commute)
  have sec: "u64_of ?x = u64_of x + of_nat (86400 * year_days s)"
    by (simp add: u64_simps IS_LEAP_leap_year length_of_year_def year_days_def)
  show ?case
    using Suc.IH [of "Suc s" ?x] Suc.prems unfolding step sec by (simp add: algebra_simps)
qed

lemma seconds_between_years_value:
  assumes "1600 \<le> s" "s \<le> 2400" "s < y" "y < 2 ^ 30"
  shows "seconds_between_years (int y) (int s) = of_nat (86400 * (days_before_year y - days_before_year s))"
proof -
  define c where "c = (if 2400 < y then (y - 2400) div 400 else 0)"
  define z where "z = y - 400 * c"
  have cy: "400 * c + s \<le> y"
  proof (cases "2400 < y")
    case True
    then show ?thesis using assms(2) times_div_less_eq_dividend [of 400 "y - 2400"] unfolding c_def by simp
  qed (use assms in \<open>simp add: c_def\<close>)
  then have z: "y = z + 400 * c" "s \<le> z" by (simp_all add: z_def)
  then obtain n where n: "z = s + n" using le_Suc_ex by blast
  define x where "x = (if 2400 < y then i64_mul_i32 (i64_from_u64 seconds_in_gregorian_cycle) (word_of_int (int c)) else i64_init)"
  have c: "c < 2 ^ 31" using assms(4) cy by simp
  have x: "u64_of x = of_nat (86400 * (146097 * c))"
  proof -
    have "sint (of_nat c :: i32) = int c" using c sint32_small [of "of_nat c"] by (simp add: unat_of_nat)
    then have "scast (word_of_int (int c) :: i32) = (of_nat c :: u64)" by (simp add: scast_eq)
    then show ?thesis by (cases "2400 < y") (simp_all add: x_def u64_simps seconds_in_gregorian_cycle_def c_def del: of_nat_div)
  qed
  have "seconds_between_years (int y) (int s) = u64_of (fst (while (sby_cond (int (s + n))) (sby_step 1) (x, int s)))"
  proof -
    have c': "(int y - 2400) sdiv 400 = int c" if "2400 < y"
      using that by (simp add: sdiv_nonneg c_def zdiv_int of_nat_diff)
    have l: "int y - int c * 400 = int (s + n)" using z n by simp
    have "int s < int y" "\<not> int y < 1600" using assms by simp_all
    show ?thesis
    proof (cases "2400 < y")
      case True
      then have "2400 < int y" by simp
      then show ?thesis
        using \<open>int s < int y\<close>
        by (simp only: seconds_between_years_def Let_def if_True c' [OF True] l x_def True prod.case case_prod_beta fst_conv snd_conv)
    next
      case False
      then have "\<not> 2400 < int y" "c = 0" by (simp_all add: c_def)
      moreover have "int (s + n) = int y" using l \<open>c = 0\<close> by simp
      ultimately show ?thesis
        using \<open>int s < int y\<close> \<open>\<not> int y < 1600\<close> False
        by (simp add: seconds_between_years_def Let_def x_def case_prod_beta)
    qed
  qed
  then have "seconds_between_years (int y) (int s) + of_nat (86400 * days_before_year s) =
      of_nat (86400 * (146097 * c)) + of_nat (86400 * days_before_year z)"
    using sby_loop [of s n x] assms(1) n x by simp
  also have "\<dots> = of_nat (86400 * days_before_year y)"
    using days_before_year_add_400_times [of z c] assms(1) z by (simp add: algebra_simps)
  finally show ?thesis
    using days_before_year_mono [of s y] assms(3) by (simp add: of_nat_diff right_diff_distrib' eq_diff_eq)
qed

lemma mktime64_utc_value:
  assumes p: "is_utc l p" "tm_year p = int y - 1900" and y: "1970 \<le> y" "y < 2 ^ 30"
  shows "\<exists>x. mktime64_utc p (int y) = Some x \<and> u64_of x = of_nat l"
proof (cases "y \<le> 2037")
  case True
  then have l: "l < 2145916800" using is_utc_before_2038 [OF p(1)] p(2) by simp
  then have "fst (timegm p) = of_nat l" using timegm_is_utc [OF p(1)] by (simp add: end_2105_def)
  moreover have "ucast (of_nat l :: u32) = (of_nat l :: u64)"
    using l by (simp add: unat_of_nat word_unat_eq_iff)
  ultimately show ?thesis using True y by (simp add: mktime64_utc_def MIN_SAFE_YEAR_def MAX_SAFE_YEAR_def u64_simps)
next
  case False
  then have y': "2038 \<le> y" by simp
  obtain s k ts where s: "safe_year (int y) = Some (int s)" "2010 \<le> s" "s \<le> 2037" "same_calendar s y"
    and k: "days_before_year y = days_before_year s + 7 * k" and ts: "l = ts + 604800 * k" "172800 \<le> ts"
    and sg: "is_utc ts (p\<lparr>tm_year := int s - 1900\<rparr>)"
    using safe_year_date [OF p y'] by blast
  have lt: "ts < 2145916800" using is_utc_before_2038 [OF sg] s(3) by simp
  have tg: "timegm (p\<lparr>tm_year := int s - 1900\<rparr>) = (of_nat ts, gmtime_r (of_nat ts))"
    using timegm_is_utc [OF sg] lt by (simp add: end_2105_def)
  have "is_utc ts (gmtime_r (of_nat ts))" using gmtime_r_is_utc [of "of_nat ts"] lt by (simp add: unat_of_nat)
  then have yr: "tm_year (gmtime_r (of_nat ts)) + 1900 = int s" using is_utc_year_unique [OF _ sg] by simp
  have sb: "seconds_between_years (int y) (int s) = of_nat (604800 * k)"
    using seconds_between_years_value [of s y] s y' y(2) k by simp
  have "ucast (of_nat ts :: u32) = (of_nat ts :: u64)" using lt by (simp add: unat_of_nat word_unat_eq_iff)
  then show ?thesis
    using y' by (simp add: mktime64_utc_def MIN_SAFE_YEAR_def MAX_SAFE_YEAR_def s(1) tg yr sb u64_simps ts(1))
qed

lemma mktime64_localtime64_r_lemma:
  assumes tz: "\<bar>tz\<bar> < 86400" "0 \<le> int (val t) + tz" "int (val t) + tz < 253402300800"
  shows "\<exists>q. localtime64_r tz (Some t) (Some p) = Some q \<and> is_utc (nat (int (val t) + tz)) q \<and> mktime64 tz q = (t, q)"
proof -
  have "val t < end_lt64" using tz by (simp add: end_lt64_def)
  then obtain q where q: "localtime64_r tz (Some t) (Some p) = Some q" "is_utc (nat (int (val t) + tz)) q"
    using localtime64_r_is_utc [OF _ tz(1,2)] by blast
  define l where "l = nat (int (val t) + tz)"
  obtain y m d where v: "valid_ymd y m d" "ordinal y m d = epoch_day + l div 86400" "1970 \<le> y" "tm_year q = int y - 1900"
    using is_utc_date [OF q(2)] l_def by metis
  have y: "y \<le> 9999"
  proof (rule ccontr)
    assume "\<not> y \<le> 9999"
    then have "days_before_year (Suc 9999) \<le> days_before_year y" by (intro days_before_year_mono) simp
    then have "years_days 9999 \<le> days_before_year y" by (simp only: days_before_year_Suc)
    then have "3652059 < ordinal y m d" using ordinal_year_bounds(1) [OF v(1)] by (simp add: years_days_def)
    moreover have "l < 253402300800" using tz by (simp add: l_def)
    then have "l div 86400 < 2932897" by (simp add: div_less_iff_less_mult)
    ultimately show False using v(2) by (simp add: epoch_day_def)
  qed
  obtain x where x: "mktime64_utc q (int y) = Some x" "u64_of x = of_nat l"
    using mktime64_utc_value [OF _ v(4,3), of l] q(2) y l_def by auto
  have l: "int l = int (val t) + tz" using tz by (simp add: l_def)
  have "l < B64" using tz by (simp add: l_def)
  then have vx: "val x = l" using x(2) by (simp add: val_def unat_of_nat)
  have "sint (word_of_int tz :: i32) = tz"
    using tz(1) by (intro sint_word_small) simp_all
  then have "u64_of (i64_sub_i32 x (word_of_int tz)) = of_nat l - word_of_int tz"
    by (simp add: u64_simps x(2) scast_eq)
  also have "\<dots> = word_of_int (int l - tz)" by simp
  also have "\<dots> = u64_of t" by (simp add: l u64_of_eq)
  finally have sub: "i64_sub_i32 x (word_of_int tz) = t" by (metis of_u64_u64_of)
  have cmp: "\<not> (tz > 0 \<and> i64_cmp_u32 x (word_of_int tz) = SMALLER64)"
    using tz l by (auto simp: val_u32_variants vx unat32_of_int cmp_results)
  have "int32 (tm_year q + 1900) = int y" using v(4) y by (simp add: int32_small)
  moreover have "localtime64_r tz (Some t) (Some auto_tm) = Some q" using q(1) by (simp add: localtime64_r_def)
  ultimately have "mktime64 tz q = (t, q)"
    using v(3) y cmp by (auto simp: mktime64_def Let_def x(1) sub)
  then show ?thesis using q by blast
qed
section \<open>Properties\<close>

text \<open>
  For every year after 2037 \<^verbatim>\<open>safe_year()\<close> passes its assertions and returns a year from
  2010 to 2037 whose months are as long, whose 1 January falls on the same weekday, and whose
  preceding year is a leap year exactly when the preceding year of the argument is.
\<close>

theorem safe_year_equivalent:
  assumes "2038 \<le> y"
  shows "\<exists>s. safe_year (int y) = Some (int s) \<and> 2010 \<le> s \<and> s \<le> 2037 \<and> leap_year s = leap_year y \<and>
    leap_year (s - 1) = leap_year (y - 1) \<and> weekday (ordinal s 0 1) = weekday (ordinal y 0 1)"
proof -
  obtain s where "safe_year (int y) = Some (int s)" "2010 \<le> s" "s \<le> 2037" and c: "same_calendar s y"
    using safe_year_matches [OF assms] .
  moreover have "(days_before_year s + 1) mod 7 = (days_before_year y + 1) mod 7"
    using c by (intro mod_add_cong) (simp_all add: same_calendar_def)
  ultimately show ?thesis by (auto simp: same_calendar_def weekday_def ordinal_def)
qed

theorem safe_year_equivalent_witness:
  "\<exists>s. safe_year 2100 = Some (int s) \<and> 2010 \<le> s \<and> s \<le> 2037 \<and> \<not> leap_year s \<and> leap_year (s - 1) = leap_year 2099"
  using safe_year_equivalent [of 2100] by (auto simp: leap_year_def)

text \<open>
  C23: \<^verbatim>\<open>localtime64_r()\<close> returns the broken-down time of the count plus the time-zone offset,
  for every count below $2^{55}$ seconds (the year 1141709097) and every offset of less than a day
  that does not lead before the epoch: the detour through an equivalent 32-bit year is exact.
\<close>

theorem localtime64_r_local:
  assumes "val t < end_lt64" and "\<bar>tz\<bar> < 86400" and "0 \<le> int (val t) + tz"
  shows "\<exists>q. localtime64_r tz (Some t) (Some p) = Some q \<and> is_utc (nat (int (val t) + tz)) q"
  by (rule localtime64_r_is_utc [OF assms])

theorem localtime64_r_local_witness:
  "\<exists>q. localtime64_r (- 3600) (Some (of_u64 4102444800)) (Some auto_tm) = Some q \<and> is_utc 4102441200 q"
  using localtime64_r_local [of "of_u64 4102444800" "- 3600" auto_tm]
  by (simp add: val_of_u64 end_lt64_def)

text \<open>
  C9: \<^verbatim>\<open>mktime64()\<close> undoes \<^verbatim>\<open>localtime64_r()\<close>, for every offset of less than a day, as long as
  the local time is from 1970 to 9999; the structure it normalises stays as it is.
\<close>

theorem mktime64_localtime64_r:
  assumes "\<bar>tz\<bar> < 86400" and "0 \<le> int (val t) + tz" and "int (val t) + tz < 253402300800"
  shows "\<exists>q. localtime64_r tz (Some t) (Some p) = Some q \<and> mktime64 tz q = (t, q)"
  using mktime64_localtime64_r_lemma [OF assms, of p] by blast

theorem mktime64_localtime64_r_witness:
  "\<exists>q. localtime64_r 3600 (Some (of_u64 253402297199)) (Some auto_tm) = Some q \<and>
     mktime64 3600 q = (of_u64 253402297199, q)"
  by (rule mktime64_localtime64_r) (simp_all add: val_of_u64)

text \<open>
  \<^verbatim>\<open>mktime64()\<close> refuses a year before 1970 or after 9999: all 64 bits of the result are set
  and the caller's structure is unchanged.
\<close>

theorem mktime64_refuses:
  assumes "int_range (tm_year p + 1900)" and "tm_year p < 70 \<or> 8099 < tm_year p"
  shows "mktime64 tz p = (of_u64 (- 1), p)"
proof -
  have "int32 (tm_year p + 1900) = tm_year p + 1900" using assms(1) by (simp add: int32_small int_range_def)
  moreover have "u64_of (i64_sub_i32 i64_init 1) = - 1" by (simp add: u64_simps)
  then have "i64_sub_i32 i64_init 1 = of_u64 (- 1)" by (metis of_u64_u64_of)
  ultimately show ?thesis using assms(2) by (auto simp: mktime64_def Let_def)
qed

theorem mktime64_refuses_witness: "mktime64 0 auto_tm = (of_u64 (- 1), auto_tm)"
  by (rule mktime64_refuses) (simp_all add: auto_tm_def int_range_def)

lemma mktime64_utc_carry:
  "mktime64_utc (auto_tm\<lparr>tm_year := 140, tm_mon := 11, tm_mday := 32\<rparr>) 2040 = Some (of_u64 2208988800)"
proof -
  have s: "safe_year 2040 = Some 2012" by code_simp
  have t: "timegm (auto_tm\<lparr>tm_mon := 11, tm_mday := 32, tm_year := 112\<rparr>) = (1356998400, gmtime_r 1356998400)"
    by code_simp
  have y: "tm_year (gmtime_r 1356998400) = 113" by code_simp
  have "seconds_between_years (int 2040) (int 2013) = 851990400"
    using days_before_year_closed [of 2040] days_before_year_closed [of 2013]
    by (subst seconds_between_years_value) (simp_all add: years_days_def)
  then have sb: "seconds_between_years 2040 2013 = 851990400" by simp
  have "u64_of (i64_add_u64 (i64_from_u32 1356998400) 851990400) = 2208988800" by (simp add: u64_simps)
  then have "i64_add_u64 (i64_from_u32 1356998400) 851990400 = of_u64 2208988800" by (metis of_u64_u64_of)
  then show ?thesis by (simp add: mktime64_utc_def MIN_SAFE_YEAR_def MAX_SAFE_YEAR_def s t y sb)
qed


end
