(* ===== verification/Sorting.thy ===== *)
theory Sorting
  imports Cmem "HOL-Library.Multiset"
begin

text \<open>
  \<^verbatim>\<open>qsort()\<close> and \<^verbatim>\<open>bsearch()\<close> (\<^verbatim>\<open>src/stdlib/qsort.c\<close>, \<^verbatim>\<open>bsearch.c\<close>) on an array in memory, element by
  element and byte by byte.  The comparison function is a parameter: it is given the bytes of the two
  elements it is called with.  A loop that would not end is \<open>None\<close>, and so is an index
  counted down below 0.
\<close>

section \<open>Definitions\<close>

text \<open>The element at index \<open>i\<close>, \<^verbatim>\<open>&base2[size*i]\<close>, and the array.\<close>

definition elem :: "mem \<Rightarrow> nat \<Rightarrow> nat \<Rightarrow> nat \<Rightarrow> byte list" where
  "elem m base sz i = block m (base + sz * i) sz"

definition elems :: "mem \<Rightarrow> nat \<Rightarrow> nat \<Rightarrow> nat \<Rightarrow> byte list list" where
  "elems m base sz n = map (elem m base sz) [0..<n]"

fun swap_bytes :: "mem \<Rightarrow> nat \<Rightarrow> nat \<Rightarrow> nat \<Rightarrow> mem" where
  "swap_bytes m p q 0 = m"
| "swap_bytes m p q (Suc left) = swap_bytes (m(p := m q, q := m p)) (p + 1) (q + 1) left"

type_synonym compar = "byte list \<Rightarrow> byte list \<Rightarrow> int"

partial_function (option) scan_up :: "compar \<Rightarrow> nat \<Rightarrow> mem \<Rightarrow> nat \<Rightarrow> nat \<Rightarrow> nat \<Rightarrow> nat option" where
  "scan_up compar sz m base2 c a =
     (if compar (elem m base2 sz c) (elem m base2 sz a) > 0 then scan_up compar sz m base2 c (a + 1)
      else Some a)"

partial_function (option) scan_down :: "compar \<Rightarrow> nat \<Rightarrow> mem \<Rightarrow> nat \<Rightarrow> nat \<Rightarrow> nat \<Rightarrow> nat option" where
  "scan_down compar sz m base2 c b =
     (if compar (elem m base2 sz c) (elem m base2 sz b) < 0
      then if b = 0 then None else scan_down compar sz m base2 c (b - 1)
      else Some b)"

partial_function (option) qsort_part ::
  "compar \<Rightarrow> nat \<Rightarrow> mem \<Rightarrow> nat \<Rightarrow> nat \<Rightarrow> nat \<Rightarrow> nat \<Rightarrow> (mem \<times> nat) option"
where
  "qsort_part compar sz m base2 a b c =
     Option.bind (scan_up compar sz m base2 c a) (\<lambda>a.
     Option.bind (scan_down compar sz m base2 c b) (\<lambda>b.
       if a \<ge> b then Some (m, b)
       else
         qsort_part compar sz (swap_bytes m (base2 + sz * a) (base2 + sz * b) sz) base2 (a + 1) (b - 1)
           (if c = a then b else if c = b then a else c)))"

partial_function (option) qsort :: "compar \<Rightarrow> nat \<Rightarrow> mem \<Rightarrow> nat \<Rightarrow> nat \<Rightarrow> mem option" where
  "qsort compar sz m base2 nmemb =
     (if nmemb > 1 then
        Option.bind (qsort_part compar sz m base2 0 (nmemb - 1) ((0 + (nmemb - 1)) div 2)) (\<lambda>(m, b).
          if b + 1 < nmemb - (b + 1) then
            Option.bind (qsort compar sz m base2 (b + 1)) (\<lambda>m.
              qsort compar sz m (base2 + sz * (b + 1)) (nmemb - (b + 1)))
          else
            Option.bind (qsort compar sz m (base2 + sz * (b + 1)) (nmemb - (b + 1))) (\<lambda>m.
              qsort compar sz m base2 (b + 1)))
      else Some m)"

function bsearch :: "compar \<Rightarrow> byte list \<Rightarrow> mem \<Rightarrow> nat \<Rightarrow> nat \<Rightarrow> nat \<Rightarrow> nat option" where
  "bsearch compar key m base nmemb sz =
     (if nmemb > 0 then
        let try = nmemb div 2;
            ptr = base + try * sz;
            res = compar key (block m ptr sz)
        in if res = 0 then Some ptr
           else if res > 0 then bsearch compar key m (ptr + sz) (nmemb - try - 1) sz
           else bsearch compar key m base try sz
      else None)"
  by pat_completeness auto
termination
  by (relation "measure (\<lambda>(compar, key, m, base, nmemb, sz). nmemb)") auto

declare bsearch.simps [simp del]

section \<open>Arrays\<close>

lemma elem_at_0: "elem m base sz 0 = block m base sz"
  by (simp add: elem_def)

lemma elem_shift: "elem m (base + sz * s) sz i = elem m base sz (s + i)"
  by (simp add: elem_def algebra_simps)

lemma length_elems [simp]: "length (elems m base sz n) = n"
  by (simp add: elems_def)

lemma nth_elems [simp]: "i < n \<Longrightarrow> elems m base sz n ! i = elem m base sz i"
  by (simp add: elems_def)

lemma elems_split: "elems m base sz (s + r) = elems m base sz s @ elems m (base + sz * s) sz r"
  by (rule nth_equalityI) (auto simp: nth_append elem_shift)

definition same_outside :: "nat \<Rightarrow> nat \<Rightarrow> mem \<Rightarrow> mem \<Rightarrow> bool" where
  "same_outside p len m m' \<longleftrightarrow> (\<forall>a. a < p \<or> p + len \<le> a \<longrightarrow> m' a = m a)"

lemma same_outside_refl [simp]: "same_outside p len m m"
  by (simp add: same_outside_def)

lemma same_outside_trans: "same_outside p len m m' \<Longrightarrow> same_outside p len m' m'' \<Longrightarrow> same_outside p len m m''"
  by (simp add: same_outside_def)

lemma same_outside_mono:
  "same_outside q k m m' \<Longrightarrow> p \<le> q \<Longrightarrow> q + k \<le> p + len \<Longrightarrow> same_outside p len m m'"
  by (auto simp: same_outside_def)

lemma block_same: "same_outside p len m m' \<Longrightarrow> q + n \<le> p \<or> p + len \<le> q \<Longrightarrow> block m' q n = block m q n"
  by (rule nth_equalityI) (auto simp: same_outside_def)

lemma elems_same:
  assumes "same_outside p len m m'" and "base + sz * n \<le> p \<or> p + len \<le> base"
  shows "elems m' base sz n = elems m base sz n"
proof (rule nth_equalityI)
  fix i assume "i < length (elems m' base sz n)"
  then have i: "i < n" by simp
  then have "sz * Suc i \<le> sz * n" by (intro mult_le_mono2) simp
  then have "elem m' base sz i = elem m base sz i"
    unfolding elem_def by (intro block_same [OF assms(1)]) (use assms(2) in auto)
  then show "elems m' base sz n ! i = elems m base sz n ! i" using i by simp
qed simp

lemma store_upd_commute: "a < p \<or> p + length bs \<le> a \<Longrightarrow> (store m p bs)(a := b) = store (m(a := b)) p bs"
  by (auto simp: store_def fun_eq_iff)

lemma swap_bytes_eq:
  "p + n \<le> q \<or> q + n \<le> p \<Longrightarrow> swap_bytes m p q n = store (store m p (block m q n)) q (block m p n)"
proof (induction n arbitrary: m p q)
  case (Suc n)
  let ?m = "m(p := m q, q := m p)"
  have "swap_bytes ?m (p + 1) (q + 1) n = store (store ?m (p + 1) (block ?m (q + 1) n)) (q + 1) (block ?m (p + 1) n)"
    by (rule Suc.IH) (use Suc.prems in auto)
  moreover have "block ?m (q + 1) n = block m (q + 1) n" "block ?m (p + 1) n = block m (p + 1) n"
    using Suc.prems by (subst block_upd_apart; auto)+
  moreover have "(store (m(p := m q)) (p + 1) (block m (q + 1) n))(q := m p) = store ?m (p + 1) (block m (q + 1) n)"
    using Suc.prems by (intro store_upd_commute) auto
  ultimately show ?case by (simp add: block_Suc store_Cons')
qed simp

text \<open>The elements after a swap.\<close>

lemma block_swap:
  assumes pq: "p + n \<le> q" and n: "0 < n"
  shows "block (swap_bytes m p q n) q n = block m p n"
    and "block (swap_bytes m p q n) p n = block m q n"
    and "r + n \<le> p \<or> p + n \<le> r \<Longrightarrow> r + n \<le> q \<or> q + n \<le> r \<Longrightarrow> block (swap_bytes m p q n) r n = block m r n"
proof -
  have e: "swap_bytes m p q n = store (store m p (block m q n)) q (block m p n)"
    using pq by (intro swap_bytes_eq) simp
  show "block (swap_bytes m p q n) q n = block m p n"
    unfolding e using block_store [of "store m p (block m q n)" q "block m p n"] by simp
  have "block (swap_bytes m p q n) p n = block (store m p (block m q n)) p n"
    unfolding e using pq by (intro block_store_apart) simp
  then show "block (swap_bytes m p q n) p n = block m q n" using block_store [of m p "block m q n"] by simp
  assume r: "r + n \<le> p \<or> p + n \<le> r" "r + n \<le> q \<or> q + n \<le> r"
  have "block (swap_bytes m p q n) r n = block (store m p (block m q n)) r n"
    unfolding e using r(2) by (intro block_store_apart) auto
  also have "\<dots> = block m r n" using r(1) by (intro block_store_apart) auto
  finally show "block (swap_bytes m p q n) r n = block m r n" .
qed

lemma elem_apart: "i < j \<Longrightarrow> base + sz * i + sz \<le> base + sz * (j :: nat)"
  using mult_le_mono2 [of "Suc i" j sz] by simp

lemma elem_swap:
  assumes "a < b"
  shows "elem (swap_bytes m (base + sz * a) (base + sz * b) sz) base sz i =
    elem m base sz (if i = a then b else if i = b then a else i)"
proof (cases "sz = 0")
  case True
  then show ?thesis by (simp add: elem_def)
next
  case False
  then have sz: "0 < sz" by simp
  note sw = block_swap(1,2) [OF elem_apart [OF assms] sz]
  have sep: "base + sz * i + sz \<le> base + sz * j \<or> base + sz * j + sz \<le> base + sz * i" if "i \<noteq> j" for i j
    using that elem_apart [of i j] elem_apart [of j i] by (metis nat_neq_iff)
  consider "i = a" | "i = b" | "i \<noteq> a" "i \<noteq> b" by blast
  then show ?thesis
  proof cases
    case 3
    then show ?thesis
      unfolding elem_def using block_swap(3) [OF elem_apart [OF assms] sz sep [OF 3(1)] sep [OF 3(2)]] by simp
  qed (use sw assms in \<open>simp_all add: elem_def\<close>)
qed

lemma elems_swap:
  assumes "a < b" "b < n"
  shows "elems (swap_bytes m (base + sz * a) (base + sz * b) sz) base sz n =
    (elems m base sz n)[a := elems m base sz n ! b, b := elems m base sz n ! a]"
  by (rule nth_equalityI) (use assms in \<open>auto simp: elem_swap nth_list_update\<close>)

lemma mset_elems_swap:
  assumes "a < b" "b < n"
  shows "mset (elems (swap_bytes m (base + sz * a) (base + sz * b) sz) base sz n) = mset (elems m base sz n)"
  unfolding elems_swap [OF assms] using assms by (intro mset_swap) simp_all

lemma same_outside_swap:
  assumes "a < b" "b < n"
  shows "same_outside base (sz * n) m (swap_bytes m (base + sz * a) (base + sz * b) sz)"
proof -
  have "sz * Suc a \<le> sz * b" "sz * Suc b \<le> sz * n" using assms by (intro mult_le_mono2, simp)+
  then have "base + sz * a + sz \<le> base + sz * b" "base + sz * b + sz \<le> base + sz * n" by simp_all
  then show ?thesis by (auto simp: swap_bytes_eq same_outside_def store_outside)
qed

section \<open>The contract of a comparison function\<close>

text \<open>What the C standard asks of the function: the sign of its result is a total preorder.\<close>

locale comparator =
  fixes cmp :: "byte list \<Rightarrow> byte list \<Rightarrow> int"
  assumes cmp_swap: "0 < cmp x y \<longleftrightarrow> cmp y x < 0"
    and cmp_trans: "cmp x y \<le> 0 \<Longrightarrow> cmp y z \<le> 0 \<Longrightarrow> cmp x z \<le> 0"
begin

lemma cmp_refl: "cmp x x = 0"
  using cmp_swap [of x x] by linarith

lemma cmp_ge: "0 \<le> cmp x y \<longleftrightarrow> cmp y x \<le> 0"
  using cmp_swap [of x y] cmp_swap [of y x] by linarith

lemma scan_up_stops:
  assumes "a \<le> k" and "\<not> 0 < cmp (elem m base sz c) (elem m base sz k)"
  shows "\<exists>a'. scan_up cmp sz m base c a = Some a' \<and> a \<le> a' \<and> a' \<le> k \<and>
    (\<forall>i. a \<le> i \<and> i < a' \<longrightarrow> cmp (elem m base sz i) (elem m base sz c) \<le> 0) \<and>
    cmp (elem m base sz c) (elem m base sz a') \<le> 0"
  using assms(1)
proof (induction a rule: inc_induct)
  case base
  show ?case using assms(2) by (subst scan_up.simps) auto
next
  case (step a)
  show ?case
  proof (cases "0 < cmp (elem m base sz c) (elem m base sz a)")
    case True
    then have "cmp (elem m base sz a) (elem m base sz c) \<le> 0" using cmp_swap by fastforce
    moreover obtain a' where a': "scan_up cmp sz m base c (Suc a) = Some a'" "Suc a \<le> a'" "a' \<le> k"
        "\<And>i. Suc a \<le> i \<Longrightarrow> i < a' \<Longrightarrow> cmp (elem m base sz i) (elem m base sz c) \<le> 0"
        "cmp (elem m base sz c) (elem m base sz a') \<le> 0"
      using step.IH by blast
    ultimately have "cmp (elem m base sz i) (elem m base sz c) \<le> 0" if "a \<le> i" "i < a'" for i
      using that by (cases "i = a") auto
    moreover have "scan_up cmp sz m base c a = Some a'" using True a'(1) by (subst scan_up.simps) simp
    ultimately show ?thesis using a' by auto
  next
    case False
    then show ?thesis using step.hyps by (subst scan_up.simps) auto
  qed
qed

lemma scan_down_stops:
  assumes "k \<le> b" and "\<not> cmp (elem m base sz c) (elem m base sz k) < 0"
  shows "\<exists>b'. scan_down cmp sz m base c b = Some b' \<and> k \<le> b' \<and> b' \<le> b \<and>
    (\<forall>i. b' < i \<and> i \<le> b \<longrightarrow> cmp (elem m base sz c) (elem m base sz i) \<le> 0) \<and>
    cmp (elem m base sz b') (elem m base sz c) \<le> 0"
  using assms(1)
proof (induction b rule: dec_induct)
  case base
  have "cmp (elem m base sz k) (elem m base sz c) \<le> 0" using assms(2) cmp_ge by (auto simp: not_less)
  then show ?case using assms(2) by (subst scan_down.simps) simp
next
  case (step b)
  show ?case
  proof (cases "cmp (elem m base sz c) (elem m base sz (Suc b)) < 0")
    case True
    with step.IH show ?thesis by (subst scan_down.simps) (auto simp: le_Suc_eq less_imp_le)
  next
    case False
    then have "cmp (elem m base sz (Suc b)) (elem m base sz c) \<le> 0" using cmp_ge by (auto simp: not_less)
    then show ?thesis using step.hyps False by (subst scan_down.simps) simp
  qed
qed

text \<open>
  What holds at the head of the partition loop: the elements before \<open>a\<close> are at most, those
  after \<open>b\<close> at least the middle element, and the scans are bounded by the middle element
  before the first swap and by the swapped elements after it.
\<close>

definition part_inv :: "nat \<Rightarrow> nat \<Rightarrow> nat \<Rightarrow> mem \<Rightarrow> nat \<Rightarrow> nat \<Rightarrow> nat \<Rightarrow> bool" where
  "part_inv base sz n m a b c \<longleftrightarrow>
     c < n \<and> b < n \<and> (\<forall>i < a. cmp (elem m base sz i) (elem m base sz c) \<le> 0) \<and>
     (\<forall>i. b < i \<and> i < n \<longrightarrow> cmp (elem m base sz c) (elem m base sz i) \<le> 0) \<and>
     (a = 0 \<and> b = n - 1 \<and> c < n - 1 \<or> 1 \<le> a \<and> b + 1 < n \<and> a \<le> b + 1)"

definition part_result :: "nat \<Rightarrow> nat \<Rightarrow> nat \<Rightarrow> mem \<Rightarrow> mem \<times> nat \<Rightarrow> bool" where
  "part_result base sz n m r \<longleftrightarrow>
     (case r of (m', b) \<Rightarrow>
       b + 1 < n \<and> same_outside base (sz * n) m m' \<and> mset (elems m' base sz n) = mset (elems m base sz n) \<and>
       (\<exists>p. (\<forall>i \<le> b. cmp (elem m' base sz i) p \<le> 0) \<and> (\<forall>i. b < i \<and> i < n \<longrightarrow> cmp p (elem m' base sz i) \<le> 0)))"

lemma part_inv_stops:
  assumes "part_inv base sz n m a b c"
  obtains k l where "a \<le> k" "k < n" "\<not> 0 < cmp (elem m base sz c) (elem m base sz k)"
    "l \<le> b" "\<not> cmp (elem m base sz c) (elem m base sz l) < 0" "k = c \<and> l = c \<and> a = 0 \<or> k \<le> b + 1 \<and> b + 1 < n \<and> a \<le> l + 1"
proof (cases "a = 0 \<and> b = n - 1 \<and> c < n - 1")
  case True
  then show thesis using that [of c c] assms by (simp add: cmp_refl part_inv_def)
next
  case False
  then have a: "1 \<le> a" "b + 1 < n" "a \<le> b + 1" using assms by (auto simp: part_inv_def)
  have "cmp (elem m base sz c) (elem m base sz (b + 1)) \<le> 0" "cmp (elem m base sz (a - 1)) (elem m base sz c) \<le> 0"
    using assms a by (auto simp: part_inv_def)
  then have "\<not> 0 < cmp (elem m base sz c) (elem m base sz (b + 1))" "\<not> cmp (elem m base sz c) (elem m base sz (a - 1)) < 0"
    using cmp_ge by force+
  then show thesis using that [of "b + 1" "a - 1"] a by simp
qed

lemma part_inv_swap:
  assumes inv: "part_inv base sz n m a b c" and ab: "a \<le> a'" "a' < b'" "b' \<le> b"
    and up: "\<forall>i. a \<le> i \<and> i < a' \<longrightarrow> cmp (elem m base sz i) (elem m base sz c) \<le> 0" "cmp (elem m base sz c) (elem m base sz a') \<le> 0"
    and down: "\<forall>i. b' < i \<and> i \<le> b \<longrightarrow> cmp (elem m base sz c) (elem m base sz i) \<le> 0" "cmp (elem m base sz b') (elem m base sz c) \<le> 0"
  shows "part_inv base sz n (swap_bytes m (base + sz * a') (base + sz * b') sz) (a' + 1) (b' - 1)
    (if c = a' then b' else if c = b' then a' else c)"
proof -
  have "b < n" using inv by (simp add: part_inv_def)
  have lo: "cmp (elem m base sz i) (elem m base sz c) \<le> 0" if "i < a'" for i
    using that inv up(1) by (cases "i < a") (auto simp: part_inv_def)
  have hi: "cmp (elem m base sz c) (elem m base sz i) \<le> 0" if "b' < i" "i < n" for i
    using that inv down(1) by (cases "b < i") (auto simp: part_inv_def)
  have "c < n" using inv by (simp add: part_inv_def)
  then show ?thesis
    unfolding part_inv_def elem_swap [OF ab(2)] using ab \<open>b < n\<close> lo hi up(2) down(2)
    by (auto simp: less_Suc_eq)
qed

lemma qsort_part_correct:
  assumes "part_inv base sz n m a b c"
  shows "\<exists>r. qsort_part cmp sz m base a b c = Some r \<and> part_result base sz n m r"
  using assms
proof (induction "b - a" arbitrary: m a b c rule: less_induct)
  case less
  obtain k l where kl: "a \<le> k" "k < n" "\<not> 0 < cmp (elem m base sz c) (elem m base sz k)"
    "l \<le> b" "\<not> cmp (elem m base sz c) (elem m base sz l) < 0"
    "k = c \<and> l = c \<and> a = 0 \<or> k \<le> b + 1 \<and> b + 1 < n \<and> a \<le> l + 1"
    using part_inv_stops [OF less.prems] by blast
  obtain a' where a': "scan_up cmp sz m base c a = Some a'" "a \<le> a'" "a' \<le> k"
    "\<forall>i. a \<le> i \<and> i < a' \<longrightarrow> cmp (elem m base sz i) (elem m base sz c) \<le> 0"
    "cmp (elem m base sz c) (elem m base sz a') \<le> 0"
    using scan_up_stops [OF kl(1,3)] by blast
  obtain b' where b': "scan_down cmp sz m base c b = Some b'" "l \<le> b'" "b' \<le> b"
    "\<forall>i. b' < i \<and> i \<le> b \<longrightarrow> cmp (elem m base sz c) (elem m base sz i) \<le> 0"
    "cmp (elem m base sz b') (elem m base sz c) \<le> 0"
    using scan_down_stops [OF kl(4,5)] by blast
  show ?case
  proof (cases "a' \<ge> b'")
    case True
    have lo: "cmp (elem m base sz i) (elem m base sz c) \<le> 0" if "i \<le> b'" for i
    proof (cases "i = b'")
      case False
      then have "i < a'" using that True by simp
      then show ?thesis using less.prems a'(4) by (cases "i < a") (auto simp: part_inv_def)
    qed (use b'(5) in simp)
    have hi: "cmp (elem m base sz c) (elem m base sz i) \<le> 0" if "b' < i" "i < n" for i
      using that less.prems b'(4) by (cases "b < i") (auto simp: part_inv_def)
    have "b' + 1 < n" using kl(6) a'(3) b'(2,3) True less.prems by (auto simp: part_inv_def)
    then have "part_result base sz n m (m, b')" using lo hi by (auto simp: part_result_def)
    moreover have "qsort_part cmp sz m base a b c = Some (m, b')"
      using a'(1) b'(1) True by (subst qsort_part.simps) simp
    ultimately show ?thesis by blast
  next
    case False
    let ?m = "swap_bytes m (base + sz * a') (base + sz * b') sz" and ?c = "if c = a' then b' else if c = b' then a' else c"
    have ab: "a' < b'" "b' < n" using False b'(3) less.prems by (auto simp: part_inv_def)
    have smaller: "b' - 1 - (a' + 1) < b - a" using ab a'(2) b'(3) by linarith
    have "part_inv base sz n ?m (a' + 1) (b' - 1) ?c"
      by (rule part_inv_swap [OF less.prems a'(2) ab(1) b'(3) a'(4,5) b'(4,5)])
    then obtain r where r: "qsort_part cmp sz ?m base (a' + 1) (b' - 1) ?c = Some r" "part_result base sz n ?m r"
      using less.hyps [OF smaller] by blast
    have "part_result base sz n m r"
      using r(2) same_outside_trans [OF same_outside_swap [OF ab]] mset_elems_swap [OF ab]
      by (auto simp: part_result_def split: prod.splits)
    moreover have "qsort_part cmp sz m base a b c = Some r"
      using a'(1) b'(1) False r(1) by (subst qsort_part.simps) simp
    ultimately show ?thesis by blast
  qed
qed

text \<open>Sorted in place: a permutation of the elements in order, and nothing else changed.\<close>

definition sorts :: "nat \<Rightarrow> nat \<Rightarrow> nat \<Rightarrow> mem \<Rightarrow> mem \<Rightarrow> bool" where
  "sorts base sz n m m' \<longleftrightarrow>
     same_outside base (sz * n) m m' \<and> mset (elems m' base sz n) = mset (elems m base sz n) \<and>
     sorted_wrt (\<lambda>x y. cmp x y \<le> 0) (elems m' base sz n)"

lemma set_elems: "set (elems m base sz n) = elem m base sz ` {..<n}"
  by (simp add: elems_def lessThan_atLeast0)

text \<open>Two sorted parts, the first of them at most and the second at least the middle element.\<close>

lemma sorts_parts:
  assumes b: "b + 1 < n" and part: "part_result base sz n m (m1, b)"
    and left: "mset (elems m' base sz (b + 1)) = mset (elems m1 base sz (b + 1))"
      "sorted_wrt (\<lambda>x y. cmp x y \<le> 0) (elems m' base sz (b + 1))"
    and right: "mset (elems m' (base + sz * (b + 1)) sz (n - (b + 1))) = mset (elems m1 (base + sz * (b + 1)) sz (n - (b + 1)))"
      "sorted_wrt (\<lambda>x y. cmp x y \<le> 0) (elems m' (base + sz * (b + 1)) sz (n - (b + 1)))"
    and frame: "same_outside base (sz * n) m1 m'"
  shows "sorts base sz n m m'"
proof -
  let ?s = "b + 1" and ?r = "n - (b + 1)"
  have n: "?s + ?r = n" using b by simp
  have split: "elems x base sz n = elems x base sz ?s @ elems x (base + sz * ?s) sz ?r" for x
    using elems_split [of x base sz ?s ?r] unfolding n .
  obtain p where p: "\<forall>i \<le> b. cmp (elem m1 base sz i) p \<le> 0" "\<forall>i. b < i \<and> i < n \<longrightarrow> cmp p (elem m1 base sz i) \<le> 0"
    using part by (auto simp: part_result_def)
  have lo: "cmp x p \<le> 0" if "x \<in> set (elems m' base sz ?s)" for x
  proof -
    have "x \<in> set (elems m1 base sz ?s)" using that mset_eq_setD [OF left(1)] by simp
    then show ?thesis using p(1) by (auto simp: set_elems)
  qed
  have hi: "cmp p y \<le> 0" if "y \<in> set (elems m' (base + sz * ?s) sz ?r)" for y
  proof -
    have "y \<in> set (elems m1 (base + sz * ?s) sz ?r)" using that mset_eq_setD [OF right(1)] by simp
    then obtain i where i: "i < ?r" "y = elem m1 (base + sz * ?s) sz i" unfolding set_elems by blast
    then show ?thesis using p(2) by (simp only: elem_shift) simp
  qed
  have "cmp x y \<le> 0" if "x \<in> set (elems m' base sz ?s)" "y \<in> set (elems m' (base + sz * ?s) sz ?r)" for x y
    by (rule cmp_trans [OF lo [OF that(1)] hi [OF that(2)]])
  then have "sorted_wrt (\<lambda>x y. cmp x y \<le> 0) (elems m' base sz n)"
    unfolding split sorted_wrt_append by (intro conjI ballI left(2) right(2))
  moreover have "mset (elems m' base sz n) = mset (elems m base sz n)"
  proof -
    have "mset (elems m' base sz n) = mset (elems m1 base sz n)" by (simp only: split mset_append left(1) right(1))
    then show ?thesis using part by (simp add: part_result_def)
  qed
  moreover have "same_outside base (sz * n) m m1" using part by (simp add: part_result_def)
  then have "same_outside base (sz * n) m m'" using frame by (rule same_outside_trans)
  ultimately show ?thesis by (simp add: sorts_def)
qed

lemma sorts_frame:
  assumes "sorts q sz k m m'" and "base + sz * n \<le> q \<or> q + sz * k \<le> base"
  shows "elems m' base sz n = elems m base sz n"
  by (rule elems_same [of q "sz * k"]) (use assms in \<open>simp_all add: sorts_def\<close>)

lemma qsort_correct: "\<exists>m'. qsort cmp sz m base n = Some m' \<and> sorts base sz n m m'"
proof (induction n arbitrary: m base rule: less_induct)
  case (less n)
  show ?case
  proof (cases "n > 1")
    case False
    then have "n = 0 \<or> n = 1" by linarith
    then have "sorts base sz n m m" by (auto simp: sorts_def elems_def)
    then show ?thesis using False by (subst qsort.simps) simp
  next
    case True
    have mid: "(0 + (n - 1)) div 2 < n - 1" using True by (simp add: div_less_iff_less_mult)
    have "\<not> (n - 1 < i \<and> i < n)" for i by linarith
    then have "part_inv base sz n m 0 (n - 1) ((0 + (n - 1)) div 2)" using True mid unfolding part_inv_def by auto
    then obtain m1 b where part: "qsort_part cmp sz m base 0 (n - 1) ((0 + (n - 1)) div 2) = Some (m1, b)"
        "part_result base sz n m (m1, b)"
      using qsort_part_correct by fastforce
    then have b: "b + 1 < n" by (simp add: part_result_def)
    let ?s = "b + 1" and ?r = "n - (b + 1)" and ?q = "base + sz * (b + 1)"
    have lt: "?s < n" "?r < n" using b by simp_all
    have span: "?q + sz * ?r = base + sz * n" using b by (simp add: distrib_left [symmetric] del: add_mult_distrib2 mult_Suc_right)
    show ?thesis
    proof (cases "?s < ?r")
      case small: True
      obtain m2 where m2: "qsort cmp sz m1 base ?s = Some m2" "sorts base sz ?s m1 m2" using less.IH [OF lt(1)] by blast
      obtain m3 where m3: "qsort cmp sz m2 ?q ?r = Some m3" "sorts ?q sz ?r m2 m3" using less.IH [OF lt(2)] by blast
      have left: "elems m3 base sz ?s = elems m2 base sz ?s" by (rule sorts_frame [OF m3(2)]) simp
      have right: "elems m2 ?q sz ?r = elems m1 ?q sz ?r" by (rule sorts_frame [OF m2(2)]) simp
      have "sorts base sz n m m3"
      proof (rule sorts_parts [OF b part(2)])
        show "same_outside base (sz * n) m1 m3"
          by (rule same_outside_trans [of _ _ _ m2]; rule same_outside_mono)
            (use m2(2) m3(2) span in \<open>auto simp: sorts_def\<close>)
      qed (use m2(2) m3(2) left right in \<open>simp_all add: sorts_def\<close>)
      then show ?thesis using True part(1) small m2(1) m3(1) by (subst qsort.simps) simp
    next
      case False
      obtain m2 where m2: "qsort cmp sz m1 ?q ?r = Some m2" "sorts ?q sz ?r m1 m2" using less.IH [OF lt(2)] by blast
      obtain m3 where m3: "qsort cmp sz m2 base ?s = Some m3" "sorts base sz ?s m2 m3" using less.IH [OF lt(1)] by blast
      have right: "elems m3 ?q sz ?r = elems m2 ?q sz ?r" by (rule sorts_frame [OF m3(2)]) simp
      have left: "elems m2 base sz ?s = elems m1 base sz ?s" by (rule sorts_frame [OF m2(2)]) simp
      have "sorts base sz n m m3"
      proof (rule sorts_parts [OF b part(2)])
        show "same_outside base (sz * n) m1 m3"
          by (rule same_outside_trans [of _ _ _ m2]; rule same_outside_mono)
            (use m2(2) m3(2) span in \<open>auto simp: sorts_def\<close>)
      qed (use m2(2) m3(2) left right in \<open>simp_all add: sorts_def\<close>)
      then show ?thesis using True part(1) False m2(1) m3(1) by (subst qsort.simps) simp
    qed
  qed
qed

lemma bsearch_correct:
  assumes "sorted_wrt (\<lambda>x y. cmp x y \<le> 0) (elems m base sz n)"
  shows "case bsearch cmp key m base n sz of
      Some p \<Rightarrow> \<exists>i < n. p = base + sz * i \<and> cmp key (elem m base sz i) = 0
    | None \<Rightarrow> \<forall>i < n. cmp key (elem m base sz i) \<noteq> 0"
  using assms
proof (induction n arbitrary: base rule: less_induct)
  case (less n)
  show ?case
  proof (cases "n = 0")
    case True
    then show ?thesis by (subst bsearch.simps) simp
  next
    case False
    define k where "k = n div 2"
    have k: "k < n" using False by (simp add: k_def)
    define res where "res = cmp key (elem m base sz k)"
    have le: "cmp (elem m base sz i) (elem m base sz j) \<le> 0" if "i \<le> j" "j < n" for i j
    proof (cases "i = j")
      case False
      then show ?thesis using sorted_wrt_nth_less [OF less.prems, of i j] that by simp
    qed (simp add: cmp_refl)
    have step: "bsearch cmp key m base n sz =
        (if res = 0 then Some (base + sz * k)
         else if res > 0 then bsearch cmp key m (base + sz * (k + 1)) (n - (k + 1)) sz
         else bsearch cmp key m base k sz)"
      using False by (subst bsearch.simps) (simp add: Let_def res_def k_def elem_def ac_simps)
    consider "res = 0" | "res > 0" | "res < 0" by linarith
    then show ?thesis
    proof cases
      case 1
      then show ?thesis using k by (auto simp: step res_def)
    next
      case 2
      have n: "n = (k + 1) + (n - (k + 1))" using k by simp
      have "sorted_wrt (\<lambda>x y. cmp x y \<le> 0) (elems m base sz ((k + 1) + (n - (k + 1))))" using less.prems n by simp
      then have "sorted_wrt (\<lambda>x y. cmp x y \<le> 0) (elems m (base + sz * (k + 1)) sz (n - (k + 1)))"
        by (simp only: elems_split sorted_wrt_append)
      note right = this
      have e: "base + sz * (k + 1) + sz * i = base + sz * (k + 1 + i)" for i by (simp add: algebra_simps)
      have "n - (k + 1) < n" using k by simp
      then have IH: "case bsearch cmp key m (base + sz * (k + 1)) (n - (k + 1)) sz of
          Some p \<Rightarrow> \<exists>i < n - (k + 1). p = base + sz * (k + 1 + i) \<and> cmp key (elem m base sz (k + 1 + i)) = 0
        | None \<Rightarrow> \<forall>i < n - (k + 1). cmp key (elem m base sz (k + 1 + i)) \<noteq> 0"
        using less.IH [OF _ right] unfolding elem_shift e by blast
      have low: "cmp key (elem m base sz i) \<noteq> 0" if "i \<le> k" for i
        using cmp_trans [of key "elem m base sz i" "elem m base sz k"] le [OF that k] 2 by (auto simp: res_def)
      show ?thesis
      proof (cases "bsearch cmp key m (base + sz * (k + 1)) (n - (k + 1)) sz")
        case None
        then have "cmp key (elem m base sz i) \<noteq> 0" if "i < n" for i
          using IH low [of i] that by (cases "i \<le> k") (auto dest!: not_le_imp_less less_imp_Suc_add)
        then show ?thesis using 2 None by (simp add: step)
      next
        case (Some p)
        then obtain i where "i < n - (k + 1)" "p = base + sz * (k + 1 + i)" "cmp key (elem m base sz (k + 1 + i)) = 0"
          using IH by auto
        then show ?thesis using 2 Some by (auto simp: step intro!: exI [of _ "k + 1 + i"])
      qed
    next
      case 3
      have "sorted_wrt (\<lambda>x y. cmp x y \<le> 0) (elems m base sz (k + (n - k)))" using less.prems k by simp
      then have "sorted_wrt (\<lambda>x y. cmp x y \<le> 0) (elems m base sz k)" by (simp only: elems_split sorted_wrt_append)
      then have IH: "case bsearch cmp key m base k sz of
          Some p \<Rightarrow> \<exists>i < k. p = base + sz * i \<and> cmp key (elem m base sz i) = 0
        | None \<Rightarrow> \<forall>i < k. cmp key (elem m base sz i) \<noteq> 0" by (rule less.IH [OF k])
      have high: "cmp key (elem m base sz i) \<noteq> 0" if "k \<le> i" "i < n" for i
        using cmp_trans [of "elem m base sz k" "elem m base sz i" key] le [OF that] cmp_ge [of key "elem m base sz i"]
          cmp_ge [of key "elem m base sz k"] 3 by (auto simp: res_def)
      show ?thesis
      proof (cases "bsearch cmp key m base k sz")
        case None
        then have "cmp key (elem m base sz i) \<noteq> 0" if "i < n" for i
          using IH high [of i] that by (cases "i < k") auto
        then show ?thesis using 3 None by (simp add: step)
      next
        case (Some p)
        then show ?thesis using 3 IH k by (auto simp: step intro: less_trans)
      qed
    qed
  qed
qed

end

text \<open>\<^verbatim>\<open>memcmp()\<close>'s order of byte strings, the comparison the library itself provides.\<close>

interpretation bytes: comparator cmp3
proof
  show "0 < cmp3 x y \<longleftrightarrow> cmp3 y x < 0" for x y using cmp3_swap [of x y] by linarith
qed (rule cmp3_trans)

section \<open>Properties\<close>

text \<open>
  C1: for every comparison function whose sign is a total preorder, \<^verbatim>\<open>qsort()\<close> ends and leaves the
  elements of the array in order, a permutation of what they were, and changes no byte outside
  the array; no index leaves the array on the way.
\<close>

theorem qsort_sorts:
  assumes "comparator cmp"
  shows "\<exists>m'. qsort cmp sz m base n = Some m' \<and>
    sorted_wrt (\<lambda>x y. cmp x y \<le> 0) (elems m' base sz n) \<and>
    mset (elems m' base sz n) = mset (elems m base sz n) \<and>
    (\<forall>a. a < base \<or> base + sz * n \<le> a \<longrightarrow> m' a = m a)"
  using comparator.qsort_correct [OF assms, of sz m base n]
  by (auto simp: comparator.sorts_def [OF assms] same_outside_def)

theorem qsort_sorts_witness:
  "\<exists>m'. qsort cmp3 2 (\<lambda>a. of_nat (a * a)) 16 7 = Some m' \<and> sorted_wrt (\<lambda>x y. cmp3 x y \<le> 0) (elems m' 16 2 7)"
  using qsort_sorts [OF bytes.comparator_axioms, of 2 "\<lambda>a. of_nat (a * a)" 16 7] by blast

text \<open>
  C27: in an array that is sorted by the comparison function \<^verbatim>\<open>bsearch()\<close> returns the address of
  an element equal to the key, and a null pointer exactly when there is none.
\<close>

theorem bsearch_finds:
  assumes "comparator cmp" and "sorted_wrt (\<lambda>x y. cmp x y \<le> 0) (elems m base sz n)"
  shows "case bsearch cmp key m base n sz of
      Some p \<Rightarrow> \<exists>i < n. p = base + sz * i \<and> cmp key (elem m base sz i) = 0
    | None \<Rightarrow> \<forall>i < n. cmp key (elem m base sz i) \<noteq> 0"
  by (rule comparator.bsearch_correct [OF assms])

theorem bsearch_finds_witness:
  "case bsearch cmp3 [3] (\<lambda>a. of_nat a) 0 4 1 of
      Some p \<Rightarrow> \<exists>i < 4. p = 0 + 1 * i \<and> cmp3 [3] (elem (\<lambda>a. of_nat a) 0 1 i) = 0
    | None \<Rightarrow> \<forall>i < 4. cmp3 [3] (elem (\<lambda>a. of_nat a) 0 1 i) \<noteq> 0"
proof (rule bsearch_finds [OF bytes.comparator_axioms])
  show "sorted_wrt (\<lambda>x y. cmp3 x y \<le> 0) (elems (\<lambda>a. of_nat a) 0 1 4)"
    by (simp add: elems_def elem_def block_def upt_rec)
qed

end
