(* ===== verification/Errno.thy ===== *)
theory Errno
  imports Prelude
begin

text \<open>
  The error numbers the modelled functions set (\<^verbatim>\<open>include/errno.h\<close>) and their texts
  (\<^verbatim>\<open>src/string/strerror.c\<close>).  A null entry of the table is \<open>None\<close>.
\<close>

section \<open>Definitions\<close>

definition EINVAL :: int where "EINVAL = 22"
definition ERANGE :: int where "ERANGE = 34"
definition ENOMEM :: int where "ENOMEM = 12"
definition EIO :: int where "EIO = 5"
definition EBADF :: int where "EBADF = 9"
definition EBUSY :: int where "EBUSY = 16"
definition ENOSPC :: int where "ENOSPC = 28"
definition ESPIPE :: int where "ESPIPE = 29"
definition EOPNOTSUPP :: int where "EOPNOTSUPP = 45"

definition ENOTRECOVERABLE :: int where "ENOTRECOVERABLE = 131"
definition EVSTYPE :: int where "EVSTYPE = 150"
definition EVSERROR :: int where "EVSERROR = 154"

definition vserrors :: "string list" where
  "vserrors =
     [''Invalid VSAM type'',
      ''Invalid VSAM access'',
      ''Invalid VSAM mode'',
      ''VSAM cluster could not be opened'',
      ''VSAM error occurred'']"

definition errors :: "string option list" where
  "errors =
     [Some ''No Error'',
      Some ''Operation not permitted'',
      Some ''No such file or directory'',
      Some ''No such process'',
      Some ''Interrupted system call'',
      Some ''I/O error'',
      Some ''No such device or address'',
      Some ''Argument list too long'',
      Some ''Exec format error'',
      Some ''Bad file number'',
      Some ''No child processes'',
      None,
      Some ''Out of memory'',
      Some ''Permission denied'',
      Some ''Bad address'',
      Some ''Block device required'',
      Some ''Device or resource busy'',
      Some ''File exists'',
      Some ''Cross-device link'',
      Some ''No such device'',
      Some ''Not a directory'',
      Some ''Is a directory'',
      Some ''Invalid argument'',
      Some ''File table overflow'',
      Some ''Too many open files'',
      Some ''Not a typewriter'',
      Some ''Text file busy'',
      Some ''File too large'',
      Some ''No space left on device'',
      Some ''Illegal seek'',
      Some ''Read-only file system'',
      Some ''Too many links'',
      Some ''Broken pipe'',
      Some ''Math argument out of domain of func'',
      Some ''Math result not representable'',
      Some ''Resource temporarily unavailable'',
      Some ''Operation now in progress'',
      Some ''Operation already in progress'',
      Some ''Socket operation on non-socket'',
      Some ''Destination address required'',
      Some ''Message too long'',
      Some ''Protocol wrong type for socket'',
      Some ''Protocol not available'',
      Some ''Protocol not supported'',
      Some ''Socket type not supported'',
      Some ''Operation not supported'',
      Some ''Protocol family not supported'',
      Some ''Address family not supported by protocol family'',
      Some ''Address already in use'',
      Some ''Can't assign requested address'',
      Some ''Network is down'',
      Some ''Network is unreachable'',
      Some ''Network dropped connection on reset'',
      Some ''Software caused connection abort'',
      Some ''Connection reset by peer'',
      Some ''No buffer space available'',
      Some ''Socket is already connected'',
      Some ''Socket is not connected'',
      Some ''Can't send after socket shutdown'',
      Some ''Too many references: can't splice'',
      Some ''Operation timed out'',
      Some ''Connection refused'',
      Some ''Too many levels of symbolic links'',
      Some ''File name too long'',
      Some ''Host is down'',
      Some ''No route to host'',
      Some ''Directory not empty'',
      Some ''Too many processes'',
      Some ''Too many users'',
      Some ''Disc quota exceeded'',
      Some ''Stale NFS file handle'',
      Some ''Too many levels of remote in path'',
      Some ''Multihop attempted'',
      Some ''RFS specific error'',
      Some ''Not a data message'',
      Some ''Value too large for defined data type'',
      Some ''Name not unique on network'',
      Some ''File descriptor in bad state'',
      Some ''Remote address changed'',
      Some ''Can not access a needed shared library'',
      Some ''Accessing a corrupted shared library'',
      Some ''.lib section in a.out corrupted'',
      Some ''Attempting to link in too many shared libraries'',
      Some ''Cannot exec a shared library directly'',
      Some ''Illegal byte sequence'',
      Some ''Interrupted system call should be restarted'',
      Some ''Streams pipe error'',
      None, None, None, None, None, None, None, None, None, None, None, None, None, None, None, None, None, None, None, None, None, None, None, None, None, None, None, None, None, None,
      Some ''Structure needs cleaning'',
      Some ''Not a named type file'',
      Some ''No semaphores available'',
      Some ''Is a named type file'',
      Some ''Remote I/O error'',
      None,
      Some ''No medium found'',
      Some ''Wrong medium type'',
      Some ''Operation Canceled'',
      Some ''Required key not available'',
      Some ''Key has expired'',
      Some ''Key has been revoked'',
      Some ''Key was rejected by service'',
      Some ''Owner died'',
      Some ''State not recoverable'']"

definition strerror :: "int \<Rightarrow> string" where
  "strerror err =
     (let str = (if err \<ge> 0 \<and> err \<le> ENOTRECOVERABLE then errors ! nat err
                 else if err \<ge> EVSTYPE \<and> err \<le> EVSERROR then Some (vserrors ! nat (err - EVSTYPE))
                 else None)
      in case str of Some t \<Rightarrow> t | None \<Rightarrow> ''Unknown error'')"

end
