(* ===== verification/Array.thy ===== *)
theory Array
  imports Errno
begin

text \<open>
  The dynamic array of pointers (\<^verbatim>\<open>src/ext/array\<close>, \<^verbatim>\<open>include/ext/array.h\<close>).  The state holds the allocated
  blocks by the address of their header, the caller's variables that point at the first item of
  an array, and \<^verbatim>\<open>errno\<close>; 0 is the null pointer.  The operations are given the address of
  a variable.  \<^verbatim>\<open>__getm()\<close>, which asks the system for storage, is the parameter
  \<open>getm\<close>; \<^verbatim>\<open>malloc()\<close> and \<^verbatim>\<open>calloc()\<close> are the sources' own limits around it.
\<close>

section \<open>Definitions\<close>

record array =
  eye :: string
  asize :: u32
  acount :: u32
  slots :: "u32 list"

record astate =
  blocks :: "nat \<Rightarrow> array option"
  vars :: "nat \<Rightarrow> nat"
  errno :: int

type_synonym getm = "(nat \<Rightarrow> array option) \<Rightarrow> u32 \<Rightarrow> nat option"

definition ARRAY_EYE :: string where "ARRAY_EYE = ''ARRY''"
definition ARRAY_SIZE :: u32 where "ARRAY_SIZE = 3"
definition ARRAY_DEFAULT :: u32 where "ARRAY_DEFAULT = 20"
definition MAX_CHUNK :: u32 where "MAX_CHUNK = 6 * 1024 * 1024"

text \<open>\<^verbatim>\<open>sizeof(ARRAY)\<close> is 12 bytes, three pointers.\<close>

definition header :: nat where "header = 12"

definition malloc :: "getm \<Rightarrow> astate \<Rightarrow> u32 \<Rightarrow> nat option \<times> astate" where
  "malloc getm s n =
     (if n = 0 then (None, s)
      else
        let ptr = (if n > MAX_CHUNK then None else getm (blocks s) n)
        in if ptr = None then (None, s\<lparr>errno := ENOMEM\<rparr>) else (ptr, s))"

definition calloc_total :: "u32 \<Rightarrow> u32 \<Rightarrow> u32" where
  "calloc_total nmemb n = (nmemb * n + 7) AND 0xFFFFFFF8"

definition calloc :: "getm \<Rightarrow> astate \<Rightarrow> u32 \<Rightarrow> u32 \<Rightarrow> nat option \<times> astate" where
  "calloc getm s nmemb n =
     (if n \<noteq> 0 \<and> nmemb > 0xFFFFFFF8 div n then (None, s\<lparr>errno := ENOMEM\<rparr>)
      else malloc getm s (calloc_total nmemb n))"

text \<open>The items a cleared block of \<open>bytes\<close> bytes has room for, after its header.\<close>

definition cleared :: "u32 \<Rightarrow> u32 list" where
  "cleared bytes = replicate (unat (bytes div 4) - 3) 0"

definition arraynew :: "getm \<Rightarrow> astate \<Rightarrow> u32 \<Rightarrow> nat \<times> astate" where
  "arraynew getm s n =
     (let n = (if n = 0 then ARRAY_DEFAULT else n)
      in case calloc getm s (n + ARRAY_SIZE) 4 of
           (None, s) \<Rightarrow> (0, s)
         | (Some p, s) \<Rightarrow>
             (p + header,
              s\<lparr>blocks := (blocks s)(p := Some \<lparr>eye = ARRAY_EYE, asize = n, acount = 0, slots = cleared ((n + ARRAY_SIZE) * 4)\<rparr>)\<rparr>))"

text \<open>The block of \<^verbatim>\<open>*carray\<close>, when its eye catcher says that it is an array.\<close>

definition array_at :: "astate \<Rightarrow> nat \<Rightarrow> array option" where
  "array_at s varray =
     (if varray = 0 \<or> vars s varray = 0 then None
      else case blocks s (vars s varray - header) of
             None \<Rightarrow> None
           | Some b \<Rightarrow> if eye b = ARRAY_EYE then Some b else None)"

text \<open>The end of \<^verbatim>\<open>arrayadd()\<close>: the growth of a full block \<open>b\<close>, and the store.\<close>

definition arrayadd_block :: "getm \<Rightarrow> astate \<Rightarrow> nat \<Rightarrow> array \<Rightarrow> u32 \<Rightarrow> int \<times> astate" where
  "arrayadd_block getm s varray b vitem =
     (let a = vars s varray - header
      in if asize b \<le> acount b then
           let oldbytes = (ARRAY_SIZE + asize b) * 4;
               newbytes = (ARRAY_SIZE + ARRAY_DEFAULT + asize b) * 4
           in case calloc getm s 1 newbytes of
                (None, s) \<Rightarrow> (- 1, s\<lparr>errno := ENOMEM\<rparr>)
              | (Some p, s) \<Rightarrow>
                  let old = take (unat (oldbytes div 4) - 3) (slots b);
                      b' = b\<lparr>asize := asize b + ARRAY_DEFAULT, acount := acount b + 1,
                             slots := (old @ drop (length old) (cleared newbytes))[unat (acount b) := vitem]\<rparr>
                  in (0, s\<lparr>blocks := (blocks s)(a := None, p := Some b'), vars := (vars s)(varray := p + header)\<rparr>)
         else
           (0, s\<lparr>blocks := (blocks s)(a := Some (b\<lparr>acount := acount b + 1,
                                                  slots := (slots b)[unat (acount b) := vitem]\<rparr>))\<rparr>))"

definition arrayadd :: "getm \<Rightarrow> astate \<Rightarrow> nat \<Rightarrow> u32 \<Rightarrow> int \<times> astate" where
  "arrayadd getm s varray vitem =
     (if varray = 0 then (- 1, s\<lparr>errno := EINVAL\<rparr>)
      else
        let s = (if vars s varray = 0
                 then let (p, s) = arraynew getm s ARRAY_DEFAULT in s\<lparr>vars := (vars s)(varray := p)\<rparr>
                 else s)
        in if vars s varray = 0 then (- 1, s\<lparr>errno := ENOMEM\<rparr>)
           else
             case array_at s varray of
               None \<Rightarrow> (- 1, s\<lparr>errno := EINVAL\<rparr>)
             | Some b \<Rightarrow> arrayadd_block getm s varray b vitem)"

definition arraycount :: "astate \<Rightarrow> nat \<Rightarrow> u32" where
  "arraycount s varray = (case array_at s varray of None \<Rightarrow> 0 | Some b \<Rightarrow> acount b)"

definition arraysize :: "astate \<Rightarrow> nat \<Rightarrow> u32" where
  "arraysize s varray = (case array_at s varray of None \<Rightarrow> 0 | Some b \<Rightarrow> asize b)"

definition arrayget :: "astate \<Rightarrow> nat \<Rightarrow> u32 \<Rightarrow> u32" where
  "arrayget s varray index =
     (case array_at s varray of None \<Rightarrow> 0
      | Some b \<Rightarrow> if index > 0 \<and> index \<le> acount b then slots b ! unat (index - 1) else 0)"

fun shift_left :: "u32 list \<Rightarrow> nat \<Rightarrow> nat \<Rightarrow> u32 list" where
  "shift_left xs index 0 = xs"
| "shift_left xs index (Suc left) = shift_left (xs[index := xs ! (index + 1)]) (index + 1) left"

definition arraydel :: "astate \<Rightarrow> nat \<Rightarrow> u32 \<Rightarrow> u32 \<times> astate" where
  "arraydel s varray index =
     (case array_at s varray of None \<Rightarrow> (0, s)
      | Some b \<Rightarrow>
          if index > 0 \<and> index \<le> acount b then
            let i = unat (index - 1);
                vitem = slots b ! i;
                xs = shift_left (slots b) i (unat (acount b) - (i + 1));
                count = acount b - 1;
                b' = b\<lparr>acount := count, slots := xs[unat count := 0]\<rparr>
            in (vitem, s\<lparr>blocks := (blocks s)(vars s varray - header := Some b')\<rparr>)
          else (0, s))"

text \<open>\<^verbatim>\<open>arrayeach()\<close>: the function it calls is given the index, the item and the user's data, and returns
  the result and the data it leaves.\<close>

fun each_loop :: "(nat \<Rightarrow> u32 \<Rightarrow> 'u \<Rightarrow> int \<times> 'u) \<Rightarrow> u32 list \<Rightarrow> nat \<Rightarrow> nat \<Rightarrow> 'u \<Rightarrow> int \<times> 'u" where
  "each_loop fn xs n 0 udata = (0, udata)"
| "each_loop fn xs n (Suc left) udata =
     (let (rc, udata) = fn n (xs ! n) udata
      in if rc \<noteq> 0 then (rc, udata) else each_loop fn xs (n + 1) left udata)"

definition arrayeach :: "(nat \<Rightarrow> u32 \<Rightarrow> 'u \<Rightarrow> int \<times> 'u) \<Rightarrow> astate \<Rightarrow> nat \<Rightarrow> 'u \<Rightarrow> int \<times> 'u" where
  "arrayeach fn s varray udata =
     (case array_at s varray of None \<Rightarrow> (0, udata)
      | Some b \<Rightarrow> each_loop fn (slots b) 0 (unat (arraycount s varray)) udata)"

definition arrayfree :: "astate \<Rightarrow> nat \<Rightarrow> int \<times> astate" where
  "arrayfree s varray =
     (case array_at s varray of None \<Rightarrow> (- 1, s)
      | Some b \<Rightarrow> (0, s\<lparr>blocks := (blocks s)(vars s varray - header := None), vars := (vars s)(varray := 0)\<rparr>))"


section \<open>Storage requests\<close>

text \<open>What the arrays need of \<^verbatim>\<open>__getm()\<close>: the storage it returns is not in use.\<close>

definition fresh_storage :: "getm \<Rightarrow> bool" where
  "fresh_storage getm \<longleftrightarrow> (\<forall>h n p. getm h n = Some p \<longrightarrow> h p = None)"

lemma unat_and_8: "unat (w AND 0xFFFFFFF8 :: u32) = unat w div 8 * 8"
proof -
  have "(0xFFFFFFF8 :: u32) = NOT (mask 3)" by (simp add: mask_eq_exp_minus_1)
  moreover have "w AND NOT (mask 3) = push_bit 3 (drop_bit 3 w)" by (rule bit_word_eqI) (auto simp: bit_simps)
  moreover have "unat (drop_bit 3 w) = unat w div 8" by (simp add: drop_bit_eq_div unat_div)
  moreover have "unat w div 8 * 8 < 2 ^ 32"
    using le_less_trans [OF div_times_less_eq_dividend unat32_lt, of w 8] by simp
  ultimately show ?thesis by (simp add: push_bit_eq_mult unat32_mult)
qed

lemma malloc_cases:
  "(\<exists>e. malloc getm s n = (None, s\<lparr>errno := e\<rparr>)) \<or>
   (\<exists>p. malloc getm s n = (Some p, s) \<and> getm (blocks s) n = Some p \<and> n \<noteq> 0 \<and> n \<le> MAX_CHUNK)"
proof (cases "n = 0 \<or> n > MAX_CHUNK \<or> getm (blocks s) n = None")
  case True
  then have "malloc getm s n = (None, s) \<or> malloc getm s n = (None, s\<lparr>errno := ENOMEM\<rparr>)" by (auto simp: malloc_def)
  moreover have "s = s\<lparr>errno := errno s\<rparr>" by simp
  ultimately show ?thesis by metis
next
  case False
  then show ?thesis by (auto simp: malloc_def not_less)
qed

lemma calloc_cases:
  "(\<exists>e. calloc getm s k n = (None, s\<lparr>errno := e\<rparr>)) \<or>
   (\<exists>p. calloc getm s k n = (Some p, s) \<and> getm (blocks s) (calloc_total k n) = Some p \<and> calloc_total k n \<le> MAX_CHUNK)"
  using malloc_cases [of getm s "calloc_total k n"] by (auto simp: calloc_def)

section \<open>Well-formed arrays\<close>

text \<open>
  The block has as many slots as its header says, and no more than the largest request lets
  it have; the items are the first of them.
\<close>

definition block_ok :: "array \<Rightarrow> bool" where
  "block_ok b \<longleftrightarrow> eye b = ARRAY_EYE \<and> unat (asize b) = length (slots b) \<and> acount b \<le> asize b \<and> length (slots b) \<le> 1572861"

definition array_ok :: "nat \<Rightarrow> astate \<Rightarrow> bool" where
  "array_ok v s \<longleftrightarrow> v \<noteq> 0 \<and> (vars s v \<noteq> 0 \<longrightarrow> header \<le> vars s v \<and> (\<exists>b. blocks s (vars s v - header) = Some b \<and> block_ok b))"

definition items :: "nat \<Rightarrow> astate \<Rightarrow> u32 list" where
  "items v s = (case array_at s v of None \<Rightarrow> [] | Some b \<Rightarrow> take (unat (acount b)) (slots b))"

lemma array_ok_cases:
  assumes "array_ok v s"
  obtains "vars s v = 0" "array_at s v = None" "items v s = []"
  | b where "vars s v \<noteq> 0" "header \<le> vars s v" "blocks s (vars s v - header) = Some b" "block_ok b"
      "array_at s v = Some b" "items v s = take (unat (acount b)) (slots b)" "length (items v s) = unat (acount b)"
proof (cases "vars s v = 0")
  case True
  then show thesis using that(1) by (simp add: array_at_def items_def)
next
  case False
  then obtain b where b: "header \<le> vars s v" "blocks s (vars s v - header) = Some b" "block_ok b"
    using assms by (auto simp: array_ok_def)
  then have "array_at s v = Some b" using False assms by (simp add: array_at_def block_ok_def array_ok_def)
  moreover have "unat (acount b) \<le> length (slots b)" using b(3) by (simp add: block_ok_def word_le_nat_alt)
  ultimately show thesis using that(2) [of b] b False by (simp add: items_def)
qed

lemma items_upd:
  assumes "v \<noteq> 0" and "eye b = ARRAY_EYE"
  shows "array_at (s\<lparr>blocks := (blocks s)(p := Some b), vars := (vars s)(v := p + header)\<rparr>) v = Some b"
    and "items v (s\<lparr>blocks := (blocks s)(p := Some b), vars := (vars s)(v := p + header)\<rparr>) = take (unat (acount b)) (slots b)"
  using assms by (simp_all add: array_at_def items_def header_def)

lemma take_snoc_upd: "n < length xs \<Longrightarrow> take (Suc n) (xs[n := x]) = take n xs @ [x]"
  by (simp add: take_Suc_conv_app_nth)


section \<open>The operations on a well-formed array\<close>

text \<open>The other arrays: a block that another variable points at stays what it is.\<close>

definition others_same :: "nat \<Rightarrow> astate \<Rightarrow> astate \<Rightarrow> bool" where
  "others_same v s s' \<longleftrightarrow>
     (\<forall>w b. w \<noteq> v \<longrightarrow> vars s' w = vars s w \<and>
        (vars s w \<noteq> 0 \<longrightarrow> vars s w - header \<noteq> vars s v - header \<longrightarrow> array_at s w = Some b \<longrightarrow> array_at s' w = Some b))"

definition add_spec :: "nat \<Rightarrow> astate \<Rightarrow> u32 \<Rightarrow> int \<times> astate \<Rightarrow> bool" where
  "add_spec v s x r \<longleftrightarrow>
     (case r of (rc, s') \<Rightarrow> array_ok v s' \<and> others_same v s s' \<and>
        (rc = 0 \<and> items v s' = items v s @ [x] \<or> rc = - 1 \<and> items v s' = items v s))"

lemma add_spec_fail: "array_ok v s \<Longrightarrow> add_spec v s x (- 1, s\<lparr>errno := e\<rparr>)"
  by (auto simp: add_spec_def array_ok_def others_same_def items_def array_at_def)

lemma unat_grow:
  assumes "length (slots b) \<le> 1572861" and "unat (asize b) = length (slots b)"
  shows "unat ((ARRAY_SIZE + asize b) * 4) = 12 + 4 * length (slots b)"
    and "unat ((ARRAY_SIZE + ARRAY_DEFAULT + asize b) * 4) = 92 + 4 * length (slots b)"
  using assms by (simp_all add: ARRAY_SIZE_def ARRAY_DEFAULT_def unat32_add unat32_mult)

lemma arrayadd_block_spec:
  assumes fresh: "fresh_storage getm" and v: "v \<noteq> 0" "vars s v \<noteq> 0" "header \<le> vars s v"
    and b: "blocks s (vars s v - header) = Some b" "block_ok b"
  shows "add_spec v s x (arrayadd_block getm s v b x)"
proof -
  let ?a = "vars s v - header"
  have ok: "array_ok v s" using v b by (simp add: array_ok_def)
  have it: "items v s = take (unat (acount b)) (slots b)" using v b by (simp add: items_def array_at_def block_ok_def)
  have bk: "eye b = ARRAY_EYE" "unat (asize b) = length (slots b)" "unat (acount b) \<le> length (slots b)" "length (slots b) \<le> 1572861"
    using b(2) by (simp_all add: block_ok_def word_le_nat_alt)
  have inc: "unat (acount b + 1) = Suc (unat (acount b))" using bk by (subst unat32_add) simp_all
  show ?thesis
  proof (cases "asize b \<le> acount b")
    case False
    then have lt: "unat (acount b) < length (slots b)" using bk(2) by (simp add: word_le_nat_alt)
    let ?b = "b\<lparr>acount := acount b + 1, slots := (slots b)[unat (acount b) := x]\<rparr>"
    have "block_ok ?b" using bk inc lt by (simp add: block_ok_def word_le_nat_alt)
    moreover have "take (unat (acount ?b)) (slots ?b) = items v s @ [x]" using take_snoc_upd [OF lt] by (simp add: it inc)
    ultimately have "add_spec v s x (0, s\<lparr>blocks := (blocks s)(?a := Some ?b)\<rparr>)"
      using v bk(1) by (auto simp: add_spec_def array_ok_def others_same_def items_def array_at_def)
    then show ?thesis using False by (simp add: arrayadd_block_def Let_def)
  next
    case True
    let ?n = "(ARRAY_SIZE + ARRAY_DEFAULT + asize b) * 4"
    have full: "unat (acount b) = length (slots b)" using True bk by (simp add: word_le_nat_alt)
    note un = unat_grow [OF bk(4,2)]
    from calloc_cases [of getm s 1 ?n] show ?thesis
    proof (elim disjE exE conjE)
      fix e assume "calloc getm s 1 ?n = (None, s\<lparr>errno := e\<rparr>)"
      then show ?thesis using True add_spec_fail [OF ok] by (simp add: arrayadd_block_def Let_def)
    next
      fix p assume p: "calloc getm s 1 ?n = (Some p, s)" "getm (blocks s) (calloc_total 1 ?n) = Some p" "calloc_total 1 ?n \<le> MAX_CHUNK"
      have "unat (?n + 7) = 99 + 4 * length (slots b)" using un(2) bk(4) by (subst unat32_add) simp_all
      then have "(99 + 4 * length (slots b)) div 8 * 8 \<le> 6291456"
        using p(3) by (simp add: calloc_total_def word_le_nat_alt unat_and_8 MAX_CHUNK_def)
      then have room: "length (slots b) + 20 \<le> 1572861" by linarith
      define old where "old = take (unat ((ARRAY_SIZE + asize b) * 4 div 4) - 3) (slots b)"
      have old: "old = slots b" using un(1) by (simp add: old_def unat_div)
      have cl: "length (cleared ?n) = length (slots b) + 20" using un(2) by (simp add: cleared_def unat_div)
      define ys where "ys = old @ drop (length old) (cleared ?n)"
      have ys: "length ys = length (slots b) + 20" "take (length (slots b)) ys = slots b" using cl old by (simp_all add: ys_def)
      let ?b = "b\<lparr>asize := asize b + ARRAY_DEFAULT, acount := acount b + 1, slots := ys[unat (acount b) := x]\<rparr>"
      have sz: "unat (asize b + ARRAY_DEFAULT) = length (slots b) + 20"
        using bk by (subst unat32_add) (simp_all add: ARRAY_DEFAULT_def)
      have ok': "block_ok ?b" using bk(1) sz inc full room ys(1) by (simp add: block_ok_def word_le_nat_alt)
      have it': "take (unat (acount ?b)) (slots ?b) = items v s @ [x]"
        using take_snoc_upd [of "unat (acount b)" ys x] ys full by (simp add: it inc)
      have "blocks s p = None" using fresh p(2) by (auto simp: fresh_storage_def)
      then have "p \<noteq> ?a" using b(1) by auto
      have "add_spec v s x (0, s\<lparr>blocks := (blocks s)(?a := None, p := Some ?b), vars := (vars s)(v := p + header)\<rparr>)"
        using v bk(1) ok' it' \<open>blocks s p = None\<close> \<open>p \<noteq> ?a\<close>
        by (auto simp: add_spec_def array_ok_def others_same_def items_def array_at_def header_def)
      then show ?thesis using True p(1) by (simp add: arrayadd_block_def Let_def ys_def old_def)
    qed
  qed
qed

lemma arrayadd_spec:
  assumes fresh: "fresh_storage getm" and ok: "array_ok v s"
  shows "add_spec v s x (arrayadd getm s v x)"
proof -
  have v: "v \<noteq> 0" using ok by (simp add: array_ok_def)
  show ?thesis
  proof (cases rule: array_ok_cases [OF ok])
    case (2 b)
    then show ?thesis using arrayadd_block_spec [OF fresh v 2(1-4), of x] v by (simp add: arrayadd_def Let_def)
  next
    case 1
    from calloc_cases [of getm s "ARRAY_DEFAULT + ARRAY_SIZE" 4] show ?thesis
    proof (elim disjE exE conjE)
      fix e assume "calloc getm s (ARRAY_DEFAULT + ARRAY_SIZE) 4 = (None, s\<lparr>errno := e\<rparr>)"
      then have "arrayadd getm s v x = (- 1, s\<lparr>vars := (vars s)(v := 0), errno := ENOMEM\<rparr>)"
        using v 1 by (simp add: arrayadd_def arraynew_def ARRAY_DEFAULT_def Let_def)
      moreover have "(vars s)(v := 0) = vars s" using 1 by auto
      ultimately show ?thesis using add_spec_fail [OF ok, of x ENOMEM] by simp
    next
      fix p assume p: "calloc getm s (ARRAY_DEFAULT + ARRAY_SIZE) 4 = (Some p, s)"
        "getm (blocks s) (calloc_total (ARRAY_DEFAULT + ARRAY_SIZE) 4) = Some p"
      define b where "b = \<lparr>eye = ARRAY_EYE, asize = ARRAY_DEFAULT, acount = 0, slots = cleared ((ARRAY_DEFAULT + ARRAY_SIZE) * 4)\<rparr>"
      define s1 where "s1 = s\<lparr>blocks := (blocks s)(p := Some b), vars := (vars s)(v := p + header)\<rparr>"
      have new: "arraynew getm s ARRAY_DEFAULT = (p + header, s\<lparr>blocks := (blocks s)(p := Some b)\<rparr>)"
        using p(1) by (simp add: arraynew_def b_def ARRAY_DEFAULT_def)
      have "length (cleared ((ARRAY_DEFAULT + ARRAY_SIZE) * 4)) = 20"
        by (simp add: cleared_def ARRAY_DEFAULT_def ARRAY_SIZE_def)
      then have bk: "block_ok b" by (simp add: block_ok_def b_def ARRAY_DEFAULT_def)
      have at: "array_at s1 v = Some b" unfolding s1_def by (rule items_upd) (simp_all add: v b_def)
      have s1: "vars s1 v \<noteq> 0" "header \<le> vars s1 v" "blocks s1 (vars s1 v - header) = Some b"
        by (simp_all add: s1_def header_def)
      have "arrayadd getm s v x = arrayadd_block getm s1 v b x"
        using v 1 new at by (simp add: arrayadd_def Let_def s1_def header_def)
      moreover have "add_spec v s1 x (arrayadd_block getm s1 v b x)"
        by (rule arrayadd_block_spec [OF fresh v s1 bk])
      moreover have "items v s1 = []" unfolding s1_def by (subst items_upd) (simp_all add: v b_def)
      moreover have "others_same v s s'" if "others_same v s1 s'" for s'
      proof -
        have "blocks s p = None" using fresh p(2) by (auto simp: fresh_storage_def)
        then have "array_at s1 w = Some c \<and> vars s w - header \<noteq> p" if "w \<noteq> v" "array_at s w = Some c" for w c
          using that by (auto simp: s1_def array_at_def split: option.splits if_splits)
        moreover have "vars s1 v - header = p" "vars s1 w = vars s w" if "w \<noteq> v" for w
          using that by (simp_all add: s1_def)
        ultimately show ?thesis using that unfolding others_same_def by metis
      qed
      ultimately show ?thesis using 1(3) by (auto simp: add_spec_def)
    qed
  qed
qed

lemma shift_left_eq:
  "index + left < length xs \<Longrightarrow>
     shift_left xs index left = take index xs @ take left (drop (index + 1) xs) @ drop (index + left) xs"
proof (induction left arbitrary: xs index)
  case (Suc k)
  let ?ys = "xs[index := xs ! (index + 1)]"
  have "shift_left ?ys (index + 1) k = take (index + 1) ?ys @ take k (drop (index + 2) ?ys) @ drop (index + 1 + k) ?ys"
    using Suc.IH [of "index + 1" ?ys] Suc.prems by simp
  moreover have "take (index + 1) ?ys = take index xs @ [xs ! (index + 1)]"
    using take_snoc_upd [of index xs "xs ! (index + 1)"] Suc.prems by simp
  moreover have "xs ! (index + 1) # take k (drop (index + 2) xs) = take (Suc k) (drop (index + 1) xs)"
    using Suc.prems by (simp add: Cons_nth_drop_Suc [symmetric])
  ultimately show ?case using Suc.prems by simp
qed (simp add: append_take_drop_id)

text \<open>The list without its element at \<open>i\<close>, counted from 0.\<close>

definition without :: "nat \<Rightarrow> 'a list \<Rightarrow> 'a list" where
  "without i xs = take i xs @ drop (Suc i) xs"

definition del_spec :: "nat \<Rightarrow> astate \<Rightarrow> u32 \<Rightarrow> u32 \<times> astate \<Rightarrow> bool" where
  "del_spec v s i r \<longleftrightarrow>
     (case r of (x, s') \<Rightarrow> array_ok v s' \<and> others_same v s s' \<and>
        (if 1 \<le> unat i \<and> unat i \<le> length (items v s)
         then x = items v s ! (unat i - 1) \<and> items v s' = without (unat i - 1) (items v s)
         else x = 0 \<and> items v s' = items v s))"

lemma unat_dec: "0 < (i :: u32) \<Longrightarrow> unat (i - 1) = unat i - 1"
  by (subst unat32_sub) (simp_all add: word_gt_0 unat_gt_0 Suc_leI)

lemma index_in_range: "(0 < (i :: u32) \<and> i \<le> c) = (1 \<le> unat i \<and> unat i \<le> unat c)"
  by (auto simp: word_le_nat_alt unat_gt_0 Suc_le_eq word_gt_0)

lemma arraydel_spec:
  assumes ok: "array_ok v s"
  shows "del_spec v s i (arraydel s v i)"
proof (cases rule: array_ok_cases [OF ok])
  case 1
  then show ?thesis using ok by (auto simp: del_spec_def arraydel_def others_same_def)
next
  case (2 b)
  have v: "v \<noteq> 0" using ok by (simp add: array_ok_def)
  have bk: "eye b = ARRAY_EYE" "unat (asize b) = length (slots b)" "unat (acount b) \<le> length (slots b)" "length (slots b) \<le> 1572861"
    using 2(4) by (simp_all add: block_ok_def word_le_nat_alt)
  show ?thesis
  proof (cases "0 < i \<and> i \<le> acount b")
    case False
    then have "arraydel s v i = (0, s)" using 2(5) by (auto simp: arraydel_def)
    moreover have "\<not> (1 \<le> unat i \<and> unat i \<le> length (items v s))" using False 2(7) by (simp only: index_in_range simp_thms)
    ultimately show ?thesis using ok by (auto simp: del_spec_def others_same_def)
  next
    case True
    define k n where "k = unat (i - 1)" and "n = unat (acount b) - 1"
    have k: "k = unat i - 1" using True by (simp add: k_def unat_dec)
    have rng: "1 \<le> unat i" "unat i \<le> unat (acount b)" using True index_in_range [of i "acount b"] by simp_all
    have n: "unat (acount b - 1) = n" "unat (acount b) = Suc n" "k \<le> n" "n < length (slots b)"
      using rng bk(3) by (simp_all add: n_def k unat32_sub)
    define xs where "xs = (shift_left (slots b) k (unat (acount b) - (k + 1)))[n := 0]"
    let ?b = "b\<lparr>acount := acount b - 1, slots := xs\<rparr>"
    have sh: "shift_left (slots b) k (n - k) = take k (slots b) @ take (n - k) (drop (k + 1) (slots b)) @ drop n (slots b)"
      using shift_left_eq [of k "n - k" "slots b"] n by simp
    have len: "length xs = length (slots b)" using n by (simp add: xs_def sh)
    have "take n xs = take k (slots b) @ take (n - k) (drop (k + 1) (slots b))" using n by (simp add: xs_def sh)
    also have "\<dots> = without k (take (Suc n) (slots b))" using n by (simp add: without_def take_drop min_def)
    finally have it: "take n xs = without k (items v s)" using 2(6) n(2) by simp
    have okb: "block_ok ?b" using bk len n by (simp add: block_ok_def word_le_nat_alt)
    have "arraydel s v i = (slots b ! k, s\<lparr>blocks := (blocks s)(vars s v - header := Some ?b)\<rparr>)"
      using True 2(5) by (simp add: arraydel_def Let_def k_def xs_def n_def n(1))
    moreover have "slots b ! k = items v s ! k" using 2(6) n by simp
    ultimately show ?thesis
      using v 2(1,2,7) okb it n(1,2) bk(1) rng k
      by (auto simp: del_spec_def others_same_def array_ok_def array_at_def items_def)
  qed
qed

lemma arrayget_spec:
  assumes "array_ok v s"
  shows "arrayget s v i = (if 1 \<le> unat i \<and> unat i \<le> length (items v s) then items v s ! (unat i - 1) else 0)"
proof (cases rule: array_ok_cases [OF assms])
  case 1
  then show ?thesis by (auto simp: arrayget_def)
next
  case (2 b)
  have "slots b ! unat (i - 1) = items v s ! (unat i - 1)" if "1 \<le> unat i" "unat i \<le> unat (acount b)"
  proof -
    have "0 < i" "unat i - 1 < unat (acount b)" using that by (auto simp: word_gt_0)
    then show ?thesis by (simp add: unat_dec 2(6))
  qed
  then show ?thesis using 2(5,7) unfolding arrayget_def index_in_range by auto
qed

lemma arraycount_spec: "array_ok v s \<Longrightarrow> unat (arraycount s v) = length (items v s)"
  by (erule array_ok_cases) (simp_all add: arraycount_def)


section \<open>The contract of a sequence\<close>

text \<open>
  What a caller relies on: a failed addition leaves the items alone, a successful one appends, the
  items are read and deleted by their number from 1.
\<close>

locale sequence =
  fixes ok :: "'s \<Rightarrow> bool" and contents :: "'s \<Rightarrow> 'a list"
    and add :: "'s \<Rightarrow> 'a \<Rightarrow> int \<times> 's" and get :: "'s \<Rightarrow> u32 \<Rightarrow> 'a" and del :: "'s \<Rightarrow> u32 \<Rightarrow> 'a \<times> 's"
    and null :: 'a
  assumes add_law: "ok s \<Longrightarrow> add s x = (rc, s') \<Longrightarrow>
      ok s' \<and> (rc = 0 \<and> contents s' = contents s @ [x] \<or> rc \<noteq> 0 \<and> contents s' = contents s)"
    and get_law: "ok s \<Longrightarrow> get s i = (if 1 \<le> unat i \<and> unat i \<le> length (contents s) then contents s ! (unat i - 1) else null)"
    and del_law: "ok s \<Longrightarrow> del s i = (x, s') \<Longrightarrow>
      ok s' \<and> (if 1 \<le> unat i \<and> unat i \<le> length (contents s)
               then x = contents s ! (unat i - 1) \<and> contents s' = without (unat i - 1) (contents s)
               else x = null \<and> contents s' = contents s)"
begin

text \<open>Adding one item after the other, until one is refused.\<close>

fun add_all :: "'s \<Rightarrow> 'a list \<Rightarrow> int \<times> 's" where
  "add_all s [] = (0, s)"
| "add_all s (x # xs) = (case add s x of (rc, s') \<Rightarrow> if rc = 0 then add_all s' xs else (rc, s'))"

lemma add_all_contents:
  "ok s \<Longrightarrow> add_all s xs = (rc, s') \<Longrightarrow> ok s' \<and> (\<exists>k \<le> length xs. contents s' = contents s @ take k xs \<and> (rc = 0 \<longrightarrow> k = length xs))"
proof (induction xs arbitrary: s)
  case (Cons x xs)
  obtain r1 s1 where a: "add s x = (r1, s1)" by fastforce
  note law = add_law [OF Cons.prems(1) a]
  show ?case
  proof (cases "r1 = 0")
    case True
    then have "ok s1" "contents s1 = contents s @ [x]" "add_all s1 xs = (rc, s')" using law Cons.prems(2) a by auto
    then obtain k where "ok s'" "k \<le> length xs" "contents s' = (contents s @ [x]) @ take k xs" "rc = 0 \<longrightarrow> k = length xs"
      using Cons.IH [of s1] by auto
    then show ?thesis by (intro conjI exI [of _ "Suc k"]) auto
  next
    case False
    then show ?thesis using law Cons.prems(2) a by (intro conjI exI [of _ 0]) auto
  qed
qed simp

lemma get_added:
  assumes "ok s" "add s x = (0, s')" "length (contents s) < 2 ^ 32 - 1"
  shows "get s' (of_nat (length (contents s) + 1)) = x"
proof -
  have s': "ok s'" "contents s' = contents s @ [x]" using add_law [OF assms(1,2)] by auto
  have "unat (of_nat (length (contents s) + 1) :: u32) = length (contents s) + 1"
    using assms(3) by (subst unat_of_nat) simp
  then show ?thesis using get_law [OF s'(1)] s'(2) by simp
qed

lemma del_added:
  assumes "ok s" "add s x = (0, s')" "length (contents s) < 2 ^ 32 - 1"
    "del s' (of_nat (length (contents s) + 1)) = (y, s'')"
  shows "y = x \<and> contents s'' = contents s"
proof -
  have s': "ok s'" "contents s' = contents s @ [x]" using add_law [OF assms(1,2)] by auto
  have "unat (of_nat (length (contents s) + 1) :: u32) = length (contents s) + 1"
    using assms(3) by (subst unat_of_nat) simp
  then show ?thesis using del_law [OF s'(1) assms(4)] s'(2) by (simp add: without_def)
qed

end

text \<open>The array behind one variable provides it, with storage from any allocator that returns free storage.\<close>

lemma array_sequence:
  assumes "fresh_storage getm"
  shows "sequence (array_ok v) (items v) (\<lambda>s. arrayadd getm s v) (\<lambda>s. arrayget s v) (\<lambda>s. arraydel s v) 0"
proof
  fix s x rc s'
  assume "array_ok v s" "arrayadd getm s v x = (rc, s')"
  then show "array_ok v s' \<and> (rc = 0 \<and> items v s' = items v s @ [x] \<or> rc \<noteq> 0 \<and> items v s' = items v s)"
    using arrayadd_spec [OF assms, of v s x] by (auto simp: add_spec_def)
next
  fix s i
  assume "array_ok v s"
  then show "arrayget s v i = (if 1 \<le> unat i \<and> unat i \<le> length (items v s) then items v s ! (unat i - 1) else 0)"
    by (rule arrayget_spec)
next
  fix s i x s'
  assume "array_ok v s" "arraydel s v i = (x, s')"
  then show "array_ok v s' \<and> (if 1 \<le> unat i \<and> unat i \<le> length (items v s)
      then x = items v s ! (unat i - 1) \<and> items v s' = without (unat i - 1) (items v s) else x = 0 \<and> items v s' = items v s)"
    using arraydel_spec [of v s i] by (simp add: del_spec_def)
qed

text \<open>An allocator that hands out the addresses one after the other, with room for the largest block.\<close>

definition bump :: getm where
  "bump h n = (if h (unat n * 16) = None then Some (unat n * 16) else None)"

lemma bump_fresh: "fresh_storage bump"
  by (simp add: fresh_storage_def bump_def)

interpretation dyn: sequence "array_ok v" "items v" "\<lambda>s. arrayadd bump s v" "\<lambda>s. arrayget s v" "\<lambda>s. arraydel s v" 0
  for v
  by (rule array_sequence [OF bump_fresh])

lemma each_loop_eq:
  "n + k \<le> length xs \<Longrightarrow> each_loop fn xs n k u =
     (case take k (drop n xs) of [] \<Rightarrow> (0, u)
      | x # _ \<Rightarrow> (case fn n x u of (rc, u') \<Rightarrow> if rc \<noteq> 0 then (rc, u') else each_loop fn xs (n + 1) (k - 1) u'))"
  by (cases k) (auto simp: Cons_nth_drop_Suc [symmetric] split: prod.splits)

section \<open>Properties\<close>

text \<open>
  C18: \<^verbatim>\<open>arrayadd()\<close> keeps an array well-formed (the eye catcher, the size in the header equal to the slots
  allocated, the count within them) and either appends the item and returns 0, allocating the first
  block or a larger one as needed, or returns -1 with the items as they were; the other arrays
  stay untouched in both cases.
\<close>

theorem arrayadd_appends:
  assumes "fresh_storage getm" and "array_ok v s" and "arrayadd getm s v x = (rc, s')"
  shows "array_ok v s' \<and> others_same v s s' \<and>
    (rc = 0 \<and> items v s' = items v s @ [x] \<or> rc = - 1 \<and> items v s' = items v s)"
  using arrayadd_spec [OF assms(1,2), of x] assms(3) by (simp add: add_spec_def)

definition no_arrays :: astate where
  "no_arrays = \<lparr>blocks = (\<lambda>p. None), vars = (\<lambda>v. 0), errno = 0\<rparr>"

lemma no_arrays_ok: "v \<noteq> 0 \<Longrightarrow> array_ok v no_arrays"
  by (simp add: array_ok_def no_arrays_def)

theorem arrayadd_appends_witness: "items 4 (snd (arrayadd bump no_arrays 4 17)) = [17]"
proof -
  obtain rc s' where a: "arrayadd bump no_arrays 4 17 = (rc, s')" by fastforce
  moreover have "rc = 0"
    using a by (auto simp: arrayadd_def no_arrays_def arraynew_def calloc_def malloc_def bump_def Let_def ARRAY_DEFAULT_def
        ARRAY_SIZE_def calloc_total_def MAX_CHUNK_def array_at_def header_def ARRAY_EYE_def arrayadd_block_def)
  moreover have "items 4 no_arrays = []" by (simp add: items_def array_at_def no_arrays_def)
  ultimately show ?thesis using arrayadd_appends [OF bump_fresh no_arrays_ok a] by simp
qed

text \<open>
  The array refines the list of its items: \<^verbatim>\<open>arrayget()\<close> reads and \<^verbatim>\<open>arraydel()\<close> removes the item
  numbered from 1, moving the later ones up; a number outside 1 to the count gives a null pointer
  and changes nothing; \<^verbatim>\<open>arraycount()\<close> is the length of the list.
\<close>

theorem array_get_del:
  assumes "array_ok v s" and "arraydel s v i = (x, s')"
  shows "unat (arraycount s v) = length (items v s) \<and> array_ok v s' \<and> others_same v s s' \<and> arrayget s v i = x \<and>
    (if 1 \<le> unat i \<and> unat i \<le> length (items v s)
     then x = items v s ! (unat i - 1) \<and> items v s' = without (unat i - 1) (items v s)
     else x = 0 \<and> items v s' = items v s)"
  using arraydel_spec [OF assms(1), of i] assms(2) arraycount_spec [OF assms(1)] arrayget_spec [OF assms(1), of i]
  by (auto simp: del_spec_def)

theorem array_get_del_witness: "fst (arraydel no_arrays 4 1) = 0 \<and> items 4 (snd (arraydel no_arrays 4 1)) = []"
proof -
  obtain x s' where d: "arraydel no_arrays 4 1 = (x, s')" by fastforce
  moreover have "items 4 no_arrays = []" by (simp add: items_def array_at_def no_arrays_def)
  ultimately show ?thesis using array_get_del [OF no_arrays_ok d] by simp
qed

text \<open>
  C39: \<^verbatim>\<open>arraynew()\<close> adds the header to the number of items in 32 bits without a check: for the two largest
  numbers it asks for 8 bytes, stores a header of 12 bytes there, and leaves an array that
  says it has room for more than four thousand million items and has none.
\<close>

theorem arraynew_wraps:
  assumes "getm (blocks s) 8 = Some p"
  shows "\<exists>b. arraynew getm s 0xFFFFFFFE = (p + header, s\<lparr>blocks := (blocks s)(p := Some b)\<rparr>) \<and>
    asize b = 0xFFFFFFFE \<and> slots b = [] \<and> \<not> block_ok b"
  using assms
  by (intro exI [of _ "\<lparr>eye = ARRAY_EYE, asize = 0xFFFFFFFE, acount = 0, slots = []\<rparr>"])
    (simp add: arraynew_def calloc_def malloc_def calloc_total_def Let_def ARRAY_SIZE_def MAX_CHUNK_def cleared_def block_ok_def)

theorem arraynew_wraps_witness:
  "\<exists>b. arraynew bump no_arrays 0xFFFFFFFE = (128 + header, no_arrays\<lparr>blocks := (blocks no_arrays)(128 := Some b)\<rparr>) \<and>
    asize b = 0xFFFFFFFE \<and> slots b = [] \<and> \<not> block_ok b"
  by (rule arraynew_wraps) (simp add: bump_def no_arrays_def)

end
