(* ===== verification/Runs.thy ===== *)
theory Runs
  imports Main
begin

text \<open>
  Infinite runs of several tasks.  A run is a sequence of states with the task that moves
  at each of them.  The locale states the usual argument for progress once: a rank that every own step of
  a task lowers and no step of another raises, until the event one waits for has happened.
\<close>

definition run :: "('t \<Rightarrow> 's \<Rightarrow> 's \<Rightarrow> bool) \<Rightarrow> (nat \<Rightarrow> 't) \<Rightarrow> (nat \<Rightarrow> 's) \<Rightarrow> bool" where
  "run step sched r \<longleftrightarrow> (\<forall>i. step (sched i) (r i) (r (Suc i)))"

text \<open>A task that is given the processor again and again.\<close>

definition served :: "(nat \<Rightarrow> 't) \<Rightarrow> 't \<Rightarrow> bool" where
  "served sched t \<longleftrightarrow> (\<forall>i. \<exists>j \<ge> i. sched j = t)"

lemma run_inv:
  assumes "run step sched r" and "P (r 0)" and "\<And>t s s'. P s \<Longrightarrow> step t s s' \<Longrightarrow> P s'"
  shows "P (r i)"
  using assms by (induction i) (auto simp: run_def)

locale ranked =
  fixes step :: "'t \<Rightarrow> 's \<Rightarrow> 's \<Rightarrow> bool" and inv :: "'s \<Rightarrow> bool"
    and rank :: "'t \<Rightarrow> 's \<Rightarrow> nat" and event :: "'t \<Rightarrow> 's \<Rightarrow> 's \<Rightarrow> bool"
  assumes keeps: "inv s \<Longrightarrow> step u s s' \<Longrightarrow> inv s'"
    and own: "inv s \<Longrightarrow> step t s s' \<Longrightarrow> rank t s' < rank t s \<or> event t s s'"
    and other: "inv s \<Longrightarrow> step u s s' \<Longrightarrow> u \<noteq> t \<Longrightarrow> rank t s' \<le> rank t s \<or> event t s s'"
begin

lemma event_within:
  assumes "run step sched r" and "inv (r 0)" and "served sched t"
  shows "\<exists>j \<ge> i. event t (r j) (r (Suc j))"
proof (rule ccontr)
  assume "\<not> ?thesis"
  then have never: "\<not> event t (r j) (r (Suc j))" if "i \<le> j" for j using that by auto
  have inv: "inv (r j)" for j using run_inv [OF assms(1), of inv] assms(2) keeps by blast
  have step: "step (sched j) (r j) (r (Suc j))" for j using assms(1) by (simp add: run_def)
  have down: "rank t (r (Suc j)) \<le> rank t (r j)" if "i \<le> j" for j
    using never [OF that] own [OF inv] other [OF inv] step [of j] by (cases "sched j = t") (fastforce intro: less_imp_le)+
  have le: "rank t (r k) \<le> rank t (r j)" if "i \<le> j" "j \<le> k" for j k
    using that(2,1) by (induction k rule: dec_induct) (auto intro: order_trans [OF down])
  have "\<exists>k \<ge> j. rank t (r k) + n \<le> rank t (r i)" if "i \<le> j" for j n
    using that
  proof (induction n arbitrary: j)
    case 0
    then show ?case using le [of i j] by auto
  next
    case (Suc n)
    obtain k where k: "j \<le> k" "rank t (r k) + n \<le> rank t (r i)" using Suc by auto
    obtain m where m: "k \<le> m" "sched m = t" using assms(3) unfolding served_def by blast
    have "rank t (r (Suc m)) < rank t (r m)"
      using own [OF inv, of t m] step [of m] never [of m] m k(1) Suc.prems by auto
    then show ?case using le [of k m] m k Suc.prems by (intro exI [of _ "Suc m"]) auto
  qed
  from this [of i "Suc (rank t (r i))"] show False by auto
qed

end

end
