(* ===== verification/Atomic.thy ===== *)
theory Atomic
  imports Prelude Runs
begin

text \<open>
  The atomic updates of a word (\<^verbatim>\<open>src/s370\<close>, \<^verbatim>\<open>include/s370/atomic.h\<close>), built on the compare-and-swap
  instruction.  Each operation is given first as what one call does to the word when no
  other task interferes, and then as the instructions any number of tasks run on the same word, in
  any interleaving: the load, the comparison with the swap, and the branch back when it fails.
\<close>

section \<open>The instruction and the operations\<close>

text \<open>\<^verbatim>\<open>CS R0,R1,mem\<close>: the condition code, what is left in R0, and the word.\<close>

definition CS :: "u32 \<Rightarrow> u32 \<Rightarrow> u32 \<Rightarrow> int \<times> u32 \<times> u32" where
  "CS r0 r1 m = (if m = r0 then (0, r0, r1) else (1, m, m))"

text \<open>The value the loop of an operation computes in R1 from the one it has loaded.\<close>

definition inc_next :: "i32 \<Rightarrow> i32" where
  "inc_next r0 = (if r0 = 2147483647 then 0 else r0 + 1)"

definition dec_next :: "i32 \<Rightarrow> i32" where
  "dec_next r0 = (if r0 = - 2147483648 then 2147483647 else r0 - 1)"

definition uinc_next :: "u32 \<Rightarrow> u32" where
  "uinc_next r0 = (if r0 = - 1 then 0 else r0 + 1)"

definition udec_next :: "u32 \<Rightarrow> u32" where
  "udec_next r0 = (if r0 = 0 then - 1 else r0 - 1)"

definition swap_next :: "u32 \<Rightarrow> u32 \<Rightarrow> u32" where
  "swap_next new_value r0 = new_value"

text \<open>
  One call, alone: the word (\<open>None\<close> for a null pointer) before, the result and the word after.  The swap
  finds the word as it was loaded, so the loop is left at once.
\<close>

definition once :: "(u32 \<Rightarrow> u32) \<Rightarrow> u32 option \<Rightarrow> u32 \<times> u32 option" where
  "once next_value mem =
     (case mem of None \<Rightarrow> (0, None)
      | Some w \<Rightarrow> (case CS w (next_value w) w of (cc, r0, w') \<Rightarrow> (r0, Some w')))"

definition inc :: "u32 option \<Rightarrow> i32 \<times> u32 option" where "inc = once inc_next"
definition dec :: "u32 option \<Rightarrow> i32 \<times> u32 option" where "dec = once dec_next"
definition uinc :: "u32 option \<Rightarrow> u32 \<times> u32 option" where "uinc = once uinc_next"
definition udec :: "u32 option \<Rightarrow> u32 \<times> u32 option" where "udec = once udec_next"
definition swap :: "u32 option \<Rightarrow> u32 \<Rightarrow> u32 \<times> u32 option" where "swap mem new_value = once (swap_next new_value) mem"

definition cas :: "u32 option \<Rightarrow> u32 option \<Rightarrow> u32 \<Rightarrow> int \<times> u32 option \<times> u32 option" where
  "cas mem expect new_value =
     (case (mem, expect) of
        (Some w, Some e) \<Rightarrow>
          (case CS e new_value w of
             (cc, r0, w') \<Rightarrow> if cc = 0 then (0, Some e, Some w') else (1, Some r0, Some w'))
      | _ \<Rightarrow> (- 1, expect, mem))"

section \<open>Tasks that share a word\<close>

datatype op = Inc | Dec | Uinc | Udec | Swap u32 | Cas u32 u32

text \<open>
  Where a task stands: outside, before the load, or before the swap with the value it has loaded in R0.
  The number beside it counts the calls that had been answered at the load.  \<open>answers\<close> lists the
  calls in the order of their swaps, with the value each found.
\<close>

datatype pc = Idle | At_load op | At_swap op u32 nat

record tasks =
  shared :: u32
  pcs :: "nat \<Rightarrow> pc"
  answers :: "(nat \<times> op \<times> u32) list"

fun next_value :: "op \<Rightarrow> u32 \<Rightarrow> u32" where
  "next_value Inc w = inc_next w"
| "next_value Dec w = dec_next w"
| "next_value Uinc w = uinc_next w"
| "next_value Udec w = udec_next w"
| "next_value (Swap v) w = swap_next v w"
| "next_value (Cas e v) w = (if w = e then v else w)"

text \<open>What a call puts in R0 and R1 before its swap: \<^verbatim>\<open>__cas()\<close> expects the caller's value, the others the one just loaded.\<close>

fun reg0 :: "op \<Rightarrow> u32 \<Rightarrow> u32" where
  "reg0 (Cas e v) w = e"
| "reg0 _ w = w"

fun reg1 :: "op \<Rightarrow> u32 \<Rightarrow> u32" where
  "reg1 (Cas e v) w = v"
| "reg1 p w = next_value p w"

fun retries :: "op \<Rightarrow> bool" where
  "retries (Cas e v) = False"
| "retries _ = True"

inductive cs_step :: "nat \<Rightarrow> tasks \<Rightarrow> tasks \<Rightarrow> bool" where
  call: "pcs s t = Idle \<Longrightarrow> cs_step t s (s\<lparr>pcs := (pcs s)(t := At_load p)\<rparr>)"
| load: "pcs s t = At_load p \<Longrightarrow> cs_step t s (s\<lparr>pcs := (pcs s)(t := At_swap p (reg0 p (shared s)) (length (answers s)))\<rparr>)"
| answer: "pcs s t = At_swap p r0 k \<Longrightarrow> CS r0 (reg1 p r0) (shared s) = (cc, r, w) \<Longrightarrow> cc = 0 \<or> \<not> retries p \<Longrightarrow>
     cs_step t s (s\<lparr>shared := w, pcs := (pcs s)(t := Idle), answers := answers s @ [(t, p, r)]\<rparr>)"
| again: "pcs s t = At_swap p r0 k \<Longrightarrow> CS r0 (reg1 p r0) (shared s) = (cc, r, w) \<Longrightarrow> cc \<noteq> 0 \<Longrightarrow> retries p \<Longrightarrow>
     cs_step t s (s\<lparr>pcs := (pcs s)(t := At_load p)\<rparr>)"

inductive_cases cs_stepE: "cs_step t s s'"

definition no_task :: "u32 \<Rightarrow> tasks" where
  "no_task w = \<lparr>shared = w, pcs = (\<lambda>t. Idle), answers = []\<rparr>"

inductive cs_reach :: "u32 \<Rightarrow> tasks \<Rightarrow> bool" for w where
  start: "cs_reach w (no_task w)"
| step: "cs_reach w s \<Longrightarrow> cs_step t s s' \<Longrightarrow> cs_reach w s'"

text \<open>The calls one after the other, each found the value the ones before it left.\<close>

fun serial :: "u32 \<Rightarrow> (nat \<times> op \<times> u32) list \<Rightarrow> u32 option" where
  "serial w [] = Some w"
| "serial w ((t, p, r) # as) = (if r = w then serial (next_value p w) as else None)"

section \<open>Lemmas\<close>

lemma serial_append: "serial w (as @ bs) = (case serial w as of None \<Rightarrow> None | Some w' \<Rightarrow> serial w' bs)"
  by (induction as arbitrary: w) auto

text \<open>A swap that is answered leaves what one uninterrupted call would leave, and found what was there.\<close>

lemma CS_answer:
  assumes "CS r0 (reg1 p r0) m = (cc, r, w)" and "cc = 0 \<or> \<not> retries p" and "\<forall>e v. p = Cas e v \<longrightarrow> r0 = e"
  shows "r = m \<and> w = next_value p m"
  using assms by (cases p) (auto simp: CS_def split: if_splits)

text \<open>
  The invariant: the answers are serial, and a task that has loaded still has the current value
  unless a call has been answered since.
\<close>

definition cs_inv :: "u32 \<Rightarrow> tasks \<Rightarrow> bool" where
  "cs_inv w s \<longleftrightarrow> serial w (answers s) = Some (shared s) \<and>
     (\<forall>t p r0 k. pcs s t = At_swap p r0 k \<longrightarrow>
        k \<le> length (answers s) \<and> (if retries p then k = length (answers s) \<longrightarrow> r0 = shared s else \<forall>e v. p = Cas e v \<longrightarrow> r0 = e))"

lemma cs_inv_step: "cs_inv w s \<Longrightarrow> cs_step t s s' \<Longrightarrow> cs_inv w s'"
proof (erule cs_stepE)
  fix p assume "cs_inv w s" "s' = s\<lparr>pcs := (pcs s)(t := At_load p)\<rparr>"
  then show ?thesis by (auto simp: cs_inv_def split: if_splits)
next
  fix p assume "cs_inv w s" "s' = s\<lparr>pcs := (pcs s)(t := At_swap p (reg0 p (shared s)) (length (answers s)))\<rparr>"
  then show ?thesis by (cases p) (auto simp: cs_inv_def split: if_splits)
next
  fix p r0 k cc r w'
  assume inv: "cs_inv w s" and s': "s' = s\<lparr>shared := w', pcs := (pcs s)(t := Idle), answers := answers s @ [(t, p, r)]\<rparr>"
    and pc: "pcs s t = At_swap p r0 k" and cs: "CS r0 (reg1 p r0) (shared s) = (cc, r, w')" "cc = 0 \<or> \<not> retries p"
  have "\<forall>e v. p = Cas e v \<longrightarrow> r0 = e" using inv pc by (cases p) (auto simp: cs_inv_def)
  then have "r = shared s" "w' = next_value p (shared s)" using CS_answer [OF cs] by auto
  then show ?thesis using inv by (fastforce simp: cs_inv_def s' serial_append split: if_splits)
next
  fix p assume "cs_inv w s" "s' = s\<lparr>pcs := (pcs s)(t := At_load p)\<rparr>"
  then show ?thesis by (auto simp: cs_inv_def split: if_splits)
qed

lemma cs_inv_start: "cs_inv w (no_task w)"
  by (simp add: no_task_def cs_inv_def)

lemma cs_reach_inv: "cs_reach w s \<Longrightarrow> cs_inv w s"
  by (induction rule: cs_reach.induct) (blast intro: cs_inv_start cs_inv_step)+

text \<open>A task whose loaded value is out of date may have to try once more; a fresh one is answered.\<close>

definition cs_rank :: "nat \<Rightarrow> tasks \<Rightarrow> nat" where
  "cs_rank t s = (case pcs s t of Idle \<Rightarrow> 4 | At_load p \<Rightarrow> 2 | At_swap p r0 k \<Rightarrow> if k < length (answers s) then 3 else 1)"

definition answered :: "nat \<Rightarrow> tasks \<Rightarrow> tasks \<Rightarrow> bool" where
  "answered t s s' \<longleftrightarrow> length (answers s) < length (answers s')"

lemma cs_own:
  assumes "cs_inv w s" and "cs_step t s s'"
  shows "cs_rank t s' < cs_rank t s \<or> answered t s s'"
  using assms(2)
proof (cases rule: cs_step.cases)
  case (again p r0 k cc r w')
  then have "r0 \<noteq> shared s" by (auto simp: CS_def split: if_splits)
  then have "k < length (answers s)" using assms(1) again by (fastforce simp: cs_inv_def intro: le_neq_implies_less)
  then show ?thesis using again by (simp add: cs_rank_def)
qed (auto simp: cs_rank_def answered_def)

lemma cs_other: "cs_step u s s' \<Longrightarrow> u \<noteq> t \<Longrightarrow> cs_rank t s' \<le> cs_rank t s \<or> answered t s s'"
  by (erule cs_stepE) (auto simp: cs_rank_def answered_def split: pc.split)

interpretation cs: ranked cs_step "cs_inv w" cs_rank answered for w
  by unfold_locales (fact cs_inv_step, fact cs_own, rule cs_other)

lemma answers_grow:
  assumes "run cs_step sched r" and "r 0 = no_task w" and "served sched t"
  shows "\<exists>i. n \<le> length (answers (r i))"
proof (induction n)
  case (Suc n)
  then obtain i where i: "n \<le> length (answers (r i))" by blast
  obtain j where j: "i \<le> j" "answered t (r j) (r (Suc j))"
    using cs.event_within [OF assms(1) _ assms(3), of w i] assms(2) by (auto simp: cs_inv_start)
  have "length (answers (r k)) \<le> length (answers (r (Suc k)))" for k
    using assms(1) by (auto simp: run_def elim: cs_stepE dest!: spec [of _ k])
  then have "length (answers (r i)) \<le> length (answers (r j))" using j(1) by (rule lift_Suc_mono_le)
  then show ?case using i j(2) by (intro exI [of _ "Suc j"]) (simp add: answered_def)
qed simp

text \<open>Task 1 alone, calling \<^verbatim>\<open>__uinc()\<close> again and again.\<close>

definition solo :: "tasks \<Rightarrow> tasks" where
  "solo s = (case pcs s 1 of
      Idle \<Rightarrow> s\<lparr>pcs := (pcs s)(1 := At_load Uinc)\<rparr>
    | At_load p \<Rightarrow> s\<lparr>pcs := (pcs s)(1 := At_swap p (reg0 p (shared s)) (length (answers s)))\<rparr>
    | At_swap p r0 k \<Rightarrow> (case CS r0 (reg1 p r0) (shared s) of
        (cc, r, w) \<Rightarrow> if cc = 0 \<or> \<not> retries p then s\<lparr>shared := w, pcs := (pcs s)(1 := Idle), answers := answers s @ [(1, p, r)]\<rparr>
                      else s\<lparr>pcs := (pcs s)(1 := At_load p)\<rparr>))"

lemma solo_step: "cs_step 1 s (solo s)"
proof (cases "pcs s 1")
  case (At_swap p r0 k)
  obtain cc r w where "CS r0 (reg1 p r0) (shared s) = (cc, r, w)" by (rule prod_cases3)
  then show ?thesis using At_swap by (auto simp: solo_def intro: cs_step.answer cs_step.again)
qed (auto simp: solo_def intro: cs_step.call cs_step.load)

lemma solo_reach: "cs_reach w ((solo ^^ n) (no_task w))"
  by (induction n) (auto intro: cs_reach.intros solo_step)

section \<open>Counting\<close>

text \<open>When every call is an increment, the word is the number of the calls further on.\<close>

lemma uinc_next_eq: "uinc_next w = w + 1" by (simp add: uinc_next_def)

lemma udec_next_eq: "udec_next w = w - 1" by (simp add: udec_next_def)

lemma dec_next_eq: "dec_next w = w - 1" by (simp add: dec_next_def)

lemma serial_uinc:
  "serial w as = Some w' \<Longrightarrow> \<forall>(t, p, r) \<in> set as. p = Uinc \<Longrightarrow>
     w' = w + of_nat (length as) \<and> map (snd \<circ> snd) as = map (\<lambda>i. w + of_nat i) [0..<length as]"
proof (induction as arbitrary: w)
  case (Cons a as)
  obtain t where a: "a = (t, Uinc, w)" "serial (w + 1) as = Some w'"
    using Cons.prems by (cases a) (auto simp: uinc_next_eq split: if_splits)
  have "map (\<lambda>i. w + of_nat i) [0..<Suc (length as)] = w # map (\<lambda>i. w + 1 + of_nat i) [0..<length as]"
    by (subst upt_conv_Cons) (simp_all add: map_Suc_upt [symmetric] del: upt_Suc)
  then show ?case using Cons.IH [OF a(2)] Cons.prems(2) a(1) by (simp del: upt_Suc)
qed simp

section \<open>Properties\<close>

text \<open>
  C10: the atomic updates are linearizable: whatever the interleaving of the tasks' loads and swaps, the calls that have
  returned are those of a serial order, each returning the value the ones before it left in the word, and the word is
  what the last of them left.
\<close>

theorem atomic_serial:
  assumes "cs_reach w s"
  shows "serial w (answers s) = Some (shared s)"
  using cs_reach_inv [OF assms] by (simp add: cs_inv_def)

theorem atomic_serial_witness:
  "\<exists>s. cs_reach 5 s \<and> answers s = [(1, Swap 7, 5), (2, Uinc, 7)] \<and> shared s = 8 \<and> serial 5 (answers s) = Some (shared s)"
proof -
  define u where "u = (\<lambda>s t pc. s\<lparr>pcs := (pcs s)(t := pc)\<rparr> :: tasks)"
  define s1 where "s1 = u (no_task 5) 1 (At_load (Swap 7))"
  define s2 where "s2 = u s1 2 (At_load Uinc)"
  define s3 where "s3 = u s2 2 (At_swap Uinc 5 0)"
  define s4 where "s4 = u s3 1 (At_swap (Swap 7) 5 0)"
  define s5 where "s5 = s4\<lparr>shared := 7, pcs := (pcs s4)(1 := Idle), answers := answers s4 @ [(1, Swap 7, 5)]\<rparr>"
  define s6 where "s6 = u s5 2 (At_load Uinc)"
  define s7 where "s7 = u s6 2 (At_swap Uinc 7 1)"
  define s8 where "s8 = s7\<lparr>shared := 8, pcs := (pcs s7)(2 := Idle), answers := answers s7 @ [(2, Uinc, 7)]\<rparr>"
  note d = u_def s1_def s2_def s3_def s4_def s5_def s6_def s7_def s8_def no_task_def
  have "cs_step 1 (no_task 5) s1" unfolding s1_def u_def by (rule cs_step.call) (simp add: no_task_def)
  moreover have "cs_step 2 s1 s2" unfolding s2_def u_def by (rule cs_step.call) (simp add: d)
  moreover have "cs_step 2 s2 s3" using cs_step.load [of s2 2 Uinc] by (simp add: d)
  moreover have "cs_step 1 s3 s4" using cs_step.load [of s3 1 "Swap 7"] by (simp add: d)
  moreover have "cs_step 1 s4 s5" unfolding s5_def by (rule cs_step.answer [of _ _ _ 5 0 0]) (simp_all add: d CS_def swap_next_def)
  moreover have "cs_step 2 s5 s6" unfolding s6_def u_def by (rule cs_step.again [of _ _ _ 5 0 1]) (simp_all add: d CS_def)
  moreover have "cs_step 2 s6 s7" using cs_step.load [of s6 2 Uinc] by (simp add: d)
  moreover have "cs_step 2 s7 s8" unfolding s8_def by (rule cs_step.answer [of _ _ _ 7 1 0]) (simp_all add: d CS_def uinc_next_def)
  ultimately have "cs_reach 5 s8" by (meson cs_reach.intros)
  then show ?thesis using atomic_serial [of 5 s8] by (intro exI [of _ s8]) (simp add: d)
qed

text \<open>
  No increment is lost: when the tasks only call \<^verbatim>\<open>__uinc()\<close>, after \<open>n\<close> answers the word is \<open>n\<close> further on (modulo
  2 to the 32), and the answers are the values in between, each given once.
\<close>

theorem uinc_counts:
  assumes "cs_reach w s" and "\<forall>(t, p, r) \<in> set (answers s). p = Uinc"
  shows "shared s = w + of_nat (length (answers s)) \<and>
    map (snd \<circ> snd) (answers s) = map (\<lambda>i. w + of_nat i) [0..<length (answers s)]"
  using cs_reach_inv [OF assms(1)] serial_uinc [OF _ assms(2)] by (simp add: cs_inv_def)

theorem uinc_counts_witness:
  "answers ((solo ^^ 6) (no_task 3)) = [(1, Uinc, 3), (1, Uinc, 4)] \<and> shared ((solo ^^ 6) (no_task 3)) = 5"
proof -
  have a: "answers ((solo ^^ 6) (no_task 3)) = [(1, Uinc, 3), (1, Uinc, 4)]"
    by (simp add: numeral_eq_Suc solo_def no_task_def CS_def uinc_next_def)
  then show ?thesis using uinc_counts [OF solo_reach, of 6 3] by simp
qed

text \<open>
  C26: the compare-and-swap loops are lock-free: in every infinite run in which some task is given the processor
  again and again, calls keep being answered, whatever the other tasks do between its load and its swap.
\<close>

theorem atomic_lock_free:
  assumes "run cs_step sched r" and "r 0 = no_task w" and "served sched t"
  shows "\<exists>i. n \<le> length (answers (r i))"
  using assms by (rule answers_grow)

theorem atomic_lock_free_witness: "\<exists>i. 1000 \<le> length (answers ((solo ^^ i) (no_task 0)))"
  by (rule atomic_lock_free [of "\<lambda>i. 1" _ 0 1]) (auto simp: run_def served_def solo_step [simplified])

text \<open>
  One call alone: each update returns the old value and stores the next one, which wraps as documented;
  a null pointer returns 0 and stores nothing.  \<^verbatim>\<open>__cas()\<close> stores only over the expected value, and otherwise reports the
  value that is there.
\<close>

theorem atomic_values:
  "uinc (Some w) = (w, Some (w + 1)) \<and> udec (Some w) = (w, Some (w - 1)) \<and>
   inc (Some w) = (w, Some (if sint w = 2147483647 then 0 else w + 1)) \<and>
   dec (Some w) = (w, Some (if sint w = - 2147483648 then 2147483647 else w - 1)) \<and>
   swap (Some w) v = (w, Some v) \<and>
   cas (Some w) (Some e) v = (if w = e then (0, Some e, Some v) else (1, Some w, Some w)) \<and>
   uinc None = (0, None) \<and> inc None = (0, None) \<and> dec None = (0, None) \<and> udec None = (0, None) \<and> swap None v = (0, None) \<and>
   cas None ex v = (- 1, ex, None) \<and> cas m None v = (- 1, None, m)"
proof -
  have "sint w = sint (2147483647 :: i32) \<longleftrightarrow> w = 2147483647" "sint w = sint (- 2147483648 :: i32) \<longleftrightarrow> w = - 2147483648"
    by (metis signed_word_eqI)+
  then show ?thesis
    by (auto simp: uinc_def udec_def inc_def dec_def swap_def cas_def once_def CS_def uinc_next_eq udec_next_eq inc_next_def
        dec_next_def swap_next_def split: option.split)
qed

end
