(* ===== verification/Enq.thy ===== *)
theory Enq
  imports Prelude
begin

text \<open>
  Resource locks (\<^verbatim>\<open>src/mvs/enq\<close>, \<^verbatim>\<open>src/mvs/lock\<close>) and the text they are named by (\<^verbatim>\<open>src/mvs/wto/@@wtofmt.c\<close>,
  \<^verbatim>\<open>src/internal/mtxname.h\<close>, \<^verbatim>\<open>lkname.h\<close>).  The two supervisor calls are parameters: they are given the task, the
  parameter list and the state of the system's queues, and return the code with the new queues, or
  \<open>None\<close> while the task has to wait.  \<open>enq_ok\<close> states their documented behaviour.
\<close>

section \<open>Names\<close>

text \<open>The text before the terminating zero, and the index of that zero, is the list of characters written so far.\<close>

fun wfstr :: "int \<Rightarrow> string \<Rightarrow> string \<Rightarrow> string" where
  "wfstr lim [] buf = buf"
| "wfstr lim (c # s) buf = (if int (length buf) < lim - 1 then wfstr lim s (buf @ [c]) else buf)"

definition hx :: string where "hx = ''0123456789ABCDEF''"

fun wfhex :: "int \<Rightarrow> u32 \<Rightarrow> nat \<Rightarrow> string \<Rightarrow> string" where
  "wfhex lim v 0 buf = buf"
| "wfhex lim v (Suc digits) buf =
     (if int (length buf) < lim - 1 then wfhex lim v digits (buf @ [hx ! unat (drop_bit (digits * 4) v AND 15)]) else buf)"

text \<open>The digits of a number, the lowest first, as \<^verbatim>\<open>__wfdec()\<close> leaves them in its array.\<close>

function dec_digits :: "u32 \<Rightarrow> string" where
  "dec_digits v =
     (let d = (''0123456789'' ! unat (v mod 10))
      in if v div 10 = 0 then [d] else d # dec_digits (v div 10))"
  by pat_completeness auto

termination
  by (relation "measure unat") (auto simp: unat_div word_arith_nat_div [symmetric] unat_gt_0 intro!: div_less_dividend)

definition wfdec :: "int \<Rightarrow> u32 \<Rightarrow> string \<Rightarrow> string" where
  "wfdec lim v buf = wfstr lim (rev (dec_digits v)) buf"

definition mtxname :: "u32 \<Rightarrow> string" where
  "mtxname mutex = wfhex 16 mutex 8 (wfstr 16 ''MUTEX.'' [])"

fun lk_digits :: "nat \<Rightarrow> u32 \<Rightarrow> string \<Rightarrow> string" where
  "lk_digits 0 v rest = rest"
| "lk_digits (Suc n) v rest = lk_digits n (drop_bit 4 v) (hx ! unat (v AND 0xF) # rest)"

definition lkname :: "u32 \<Rightarrow> string" where
  "lkname thing = ''LOCK.'' @ lk_digits 8 thing []"

section \<open>Requests\<close>

record enqpl =
  pl_end :: byte
  pl_len :: byte
  pl_opt :: byte
  pl_qname :: string
  pl_rname :: string

type_synonym 'q svc = "u32 \<Rightarrow> enqpl \<Rightarrow> 'q \<Rightarrow> (byte \<times> 'q) option"

record 'q services =
  svc56 :: "'q svc"
  svc48 :: "'q svc"

definition ENQ_SCOPE :: u32 where "ENQ_SCOPE = 0x03"
definition ENQ_SYSTEMS :: u32 where "ENQ_SYSTEMS = 0x02"
definition ENQ_SYSTEM :: u32 where "ENQ_SYSTEM = 0x01"
definition ENQ_SHR :: u32 where "ENQ_SHR = 0x04"
definition ENQ_RET :: u32 where "ENQ_RET = 0xF0"
definition ENQ_TEST :: u32 where "ENQ_TEST = 0x80"
definition ENQ_USE :: u32 where "ENQ_USE = 0x40"
definition ENQ_CHNG :: u32 where "ENQ_CHNG = 0x20"
definition ENQ_HAVE :: u32 where "ENQ_HAVE = 0x00"

definition ENQ_END_LAST :: byte where "ENQ_END_LAST = 0x80"
definition ENQ_END_OLD :: byte where "ENQ_END_OLD = 0x40"
definition ENQ_OPT_SHARED :: byte where "ENQ_OPT_SHARED = 0x80"
definition ENQ_OPT_SYSTEM :: byte where "ENQ_OPT_SYSTEM = 0x40"
definition ENQ_OPT_SYSTEMS :: byte where "ENQ_OPT_SYSTEMS = 0x48"
definition ENQ_OPT_TEST :: byte where "ENQ_OPT_TEST = 0x07"
definition ENQ_OPT_USE :: byte where "ENQ_OPT_USE = 0x03"
definition ENQ_OPT_CHNG :: byte where "ENQ_OPT_CHNG = 0x02"
definition ENQ_OPT_HAVE :: byte where "ENQ_OPT_HAVE = 0x01"

definition scope_opt :: "u32 \<Rightarrow> byte" where
  "scope_opt options =
     (let k = options AND ENQ_SCOPE
      in if k = ENQ_SYSTEMS then ENQ_OPT_SYSTEMS else if k = ENQ_SYSTEM then ENQ_OPT_SYSTEM else 0)"

definition ret_opt :: "u32 \<Rightarrow> byte" where
  "ret_opt options =
     (let k = options AND ENQ_RET
      in if k = ENQ_TEST then ENQ_OPT_TEST else if k = ENQ_USE then ENQ_OPT_USE
         else if k = ENQ_CHNG then ENQ_OPT_CHNG else ENQ_OPT_HAVE)"

definition qname8 :: "string \<Rightarrow> string" where
  "qname8 qn = take 8 qn @ replicate (8 - length qn) CHR '' ''"

text \<open>\<open>None\<close> for a name is the null pointer; the code of the call is the unsigned byte in the parameter list.\<close>

definition enqdeq :: "'q services \<Rightarrow> u32 \<Rightarrow> string option \<Rightarrow> string option \<Rightarrow> u32 \<Rightarrow> bool \<Rightarrow> 'q \<Rightarrow> (int \<times> 'q) option" where
  "enqdeq svc tcb qn rn options deq q =
     (case (qn, rn) of
        (Some qn, Some rn) \<Rightarrow>
          if length rn = 0 then Some (1, q)
          else
            let pl = \<lparr>pl_end = ENQ_END_LAST OR ENQ_END_OLD, pl_len = of_nat (length rn), pl_opt = scope_opt options,
                      pl_qname = qname8 qn, pl_rname = rn\<rparr>;
                r = (if deq then svc48 svc tcb (pl\<lparr>pl_opt := pl_opt pl OR ENQ_OPT_HAVE\<rparr>) q
                     else
                       let shr = (if options AND ENQ_SHR \<noteq> 0 then ENQ_OPT_SHARED else 0)
                       in svc56 svc tcb (pl\<lparr>pl_opt := pl_opt pl OR shr OR ret_opt options\<rparr>) q)
            in (case r of None \<Rightarrow> None | Some (rc, q) \<Rightarrow> Some (uint rc, q))
      | _ \<Rightarrow> Some (1, q))"

definition LOCKQNAME :: string where "LOCKQNAME = ''CLIBLOCK''"

definition shr_if :: "bool \<Rightarrow> u32 \<Rightarrow> u32" where
  "shr_if rd opts = (if rd then opts OR ENQ_SHR else opts)"

definition lock_res :: "'q services \<Rightarrow> u32 \<Rightarrow> string \<Rightarrow> bool \<Rightarrow> 'q \<Rightarrow> (int \<times> 'q) option" where
  "lock_res svc tcb rname rd q = enqdeq svc tcb (Some LOCKQNAME) (Some rname) (shr_if rd ENQ_HAVE) False q"

definition trylock_res :: "'q services \<Rightarrow> u32 \<Rightarrow> string \<Rightarrow> bool \<Rightarrow> 'q \<Rightarrow> (int \<times> 'q) option" where
  "trylock_res svc tcb rname rd q = enqdeq svc tcb (Some LOCKQNAME) (Some rname) (shr_if rd ENQ_USE) False q"

definition testlock_res :: "'q services \<Rightarrow> u32 \<Rightarrow> string \<Rightarrow> bool \<Rightarrow> 'q \<Rightarrow> (int \<times> 'q) option" where
  "testlock_res svc tcb rname rd q = enqdeq svc tcb (Some LOCKQNAME) (Some rname) (shr_if rd ENQ_TEST) False q"

definition unlock_res :: "'q services \<Rightarrow> u32 \<Rightarrow> string \<Rightarrow> bool \<Rightarrow> 'q \<Rightarrow> (int \<times> 'q) option" where
  "unlock_res svc tcb rname rd q = enqdeq svc tcb (Some LOCKQNAME) (Some rname) ENQ_HAVE True q"

definition lock :: "'q services \<Rightarrow> u32 \<Rightarrow> u32 \<Rightarrow> bool \<Rightarrow> 'q \<Rightarrow> (int \<times> 'q) option" where
  "lock svc tcb thing rd q = enqdeq svc tcb (Some LOCKQNAME) (Some (lkname thing)) (shr_if rd ENQ_HAVE) False q"

definition trylock :: "'q services \<Rightarrow> u32 \<Rightarrow> u32 \<Rightarrow> bool \<Rightarrow> 'q \<Rightarrow> (int \<times> 'q) option" where
  "trylock svc tcb thing rd q = enqdeq svc tcb (Some LOCKQNAME) (Some (lkname thing)) (shr_if rd ENQ_USE) False q"

definition testlock :: "'q services \<Rightarrow> u32 \<Rightarrow> u32 \<Rightarrow> bool \<Rightarrow> 'q \<Rightarrow> (int \<times> 'q) option" where
  "testlock svc tcb thing rd q = enqdeq svc tcb (Some LOCKQNAME) (Some (lkname thing)) (shr_if rd ENQ_TEST) False q"

definition unlock :: "'q services \<Rightarrow> u32 \<Rightarrow> u32 \<Rightarrow> bool \<Rightarrow> 'q \<Rightarrow> (int \<times> 'q) option" where
  "unlock svc tcb thing rd q = enqdeq svc tcb (Some LOCKQNAME) (Some (lkname thing)) ENQ_HAVE True q"

section \<open>The documented behaviour of the two calls\<close>

datatype mode = Shared | Exclusive

type_synonym resource = "string \<times> string \<times> byte"

text \<open>A resource is known by its two names and its scope.\<close>

definition resource_of :: "enqpl \<Rightarrow> resource" where
  "resource_of pl = (pl_qname pl, take (unat (pl_len pl)) (pl_rname pl), pl_opt pl AND ENQ_OPT_SYSTEMS)"

definition mode_of :: "enqpl \<Rightarrow> mode" where
  "mode_of pl = (if pl_opt pl AND ENQ_OPT_SHARED \<noteq> 0 then Shared else Exclusive)"

text \<open>\<open>users q r\<close>: who has control of \<open>r\<close>.  A request can be granted beside them.\<close>

type_synonym 'q users = "'q \<Rightarrow> resource \<Rightarrow> u32 \<Rightarrow> mode option"

definition grantable :: "(u32 \<Rightarrow> mode option) \<Rightarrow> u32 \<Rightarrow> mode \<Rightarrow> bool" where
  "grantable us tcb m \<longleftrightarrow> (\<forall>u m'. u \<noteq> tcb \<longrightarrow> us u = Some m' \<longrightarrow> m = Shared \<and> m' = Shared)"

definition granted :: "(resource \<Rightarrow> u32 \<Rightarrow> mode option) \<Rightarrow> resource \<Rightarrow> u32 \<Rightarrow> mode option \<Rightarrow> resource \<Rightarrow> u32 \<Rightarrow> mode option" where
  "granted us r tcb m = us(r := (us r)(tcb := m))"

text \<open>
  ENQ answers 8 when the task has control already, 0 when it is given control (or, for RET=TEST,
  could be); otherwise RET=USE and RET=TEST answer 4 and RET=HAVE waits.  DEQ answers 0, or 8 when
  the task does not have control.
\<close>

definition enq_answer :: "'q users \<Rightarrow> enqpl \<Rightarrow> u32 \<Rightarrow> 'q \<Rightarrow> (byte \<times> 'q) option \<Rightarrow> bool" where
  "enq_answer users pl tcb q ans \<longleftrightarrow>
     (let r = resource_of pl; ret = pl_opt pl AND ENQ_OPT_TEST
      in if users q r tcb \<noteq> None then \<exists>q'. ans = Some (8, q') \<and> users q' = users q
         else if grantable (users q r) tcb (mode_of pl)
         then \<exists>q'. ans = Some (0, q') \<and>
                users q' = (if ret = ENQ_OPT_TEST then users q else granted (users q) r tcb (Some (mode_of pl)))
         else if ret = ENQ_OPT_HAVE then ans = None
         else \<exists>q'. ans = Some (4, q') \<and> users q' = users q)"

definition deq_answer :: "'q users \<Rightarrow> enqpl \<Rightarrow> u32 \<Rightarrow> 'q \<Rightarrow> (byte \<times> 'q) option \<Rightarrow> bool" where
  "deq_answer users pl tcb q ans \<longleftrightarrow>
     (let r = resource_of pl
      in if users q r tcb \<noteq> None then \<exists>q'. ans = Some (0, q') \<and> users q' = granted (users q) r tcb None
         else \<exists>q'. ans = Some (8, q') \<and> users q' = users q)"

definition enq_ok :: "'q services \<Rightarrow> 'q users \<Rightarrow> bool" where
  "enq_ok svc users \<longleftrightarrow>
     (\<forall>pl tcb q. pl_opt pl AND ENQ_OPT_TEST \<in> {ENQ_OPT_TEST, ENQ_OPT_USE, ENQ_OPT_HAVE} \<longrightarrow> enq_answer users pl tcb q (svc56 svc tcb pl q)) \<and>
     (\<forall>pl tcb q. deq_answer users pl tcb q (svc48 svc tcb pl q))"

lemma granted_undo: "us r t = None \<Longrightarrow> granted (granted us r t m) r t None = us"
  by (simp add: granted_def fun_upd_idem)

section \<open>What the lock functions ask for\<close>

definition lock_of :: "string \<Rightarrow> resource" where
  "lock_of rname = (LOCKQNAME, rname, 0)"

lemmas enq_defs = ENQ_SCOPE_def ENQ_SYSTEMS_def ENQ_SYSTEM_def ENQ_SHR_def ENQ_RET_def ENQ_TEST_def ENQ_USE_def ENQ_CHNG_def
  ENQ_HAVE_def ENQ_END_LAST_def ENQ_END_OLD_def ENQ_OPT_SHARED_def ENQ_OPT_SYSTEM_def ENQ_OPT_SYSTEMS_def ENQ_OPT_TEST_def
  ENQ_OPT_USE_def ENQ_OPT_CHNG_def ENQ_OPT_HAVE_def shr_if_def scope_opt_def ret_opt_def

definition answers_as :: "bool \<Rightarrow> 'q users \<Rightarrow> string \<Rightarrow> mode \<Rightarrow> u32 \<Rightarrow> 'q \<Rightarrow> (int \<times> 'q) option \<Rightarrow> bool" where
  "answers_as waits users rname m tcb q ans \<longleftrightarrow>
     (let r = lock_of rname
      in if users q r tcb \<noteq> None then \<exists>q'. ans = Some (8, q') \<and> users q' = users q
         else if grantable (users q r) tcb m then \<exists>q'. ans = Some (0, q') \<and> users q' = granted (users q) r tcb (Some m)
         else if waits then ans = None else \<exists>q'. ans = Some (4, q') \<and> users q' = users q)"

lemma qname8_LOCKQNAME: "qname8 LOCKQNAME = LOCKQNAME"
  by (simp add: qname8_def LOCKQNAME_def)

text \<open>The contract the callers of the resource locks use.\<close>

locale resource_locks =
  fixes users :: "'q users"
    and take_lock :: "u32 \<Rightarrow> string \<Rightarrow> bool \<Rightarrow> 'q \<Rightarrow> (int \<times> 'q) option"
    and try_lock :: "u32 \<Rightarrow> string \<Rightarrow> bool \<Rightarrow> 'q \<Rightarrow> (int \<times> 'q) option"
    and give_lock :: "u32 \<Rightarrow> string \<Rightarrow> bool \<Rightarrow> 'q \<Rightarrow> (int \<times> 'q) option"
  assumes take_law: "0 < length n \<Longrightarrow> length n < 256 \<Longrightarrow>
      answers_as True users n (if rd then Shared else Exclusive) t q (take_lock t n rd q)"
    and try_law: "0 < length n \<Longrightarrow> length n < 256 \<Longrightarrow>
      answers_as False users n (if rd then Shared else Exclusive) t q (try_lock t n rd q)"
    and give_law: "0 < length n \<Longrightarrow> length n < 256 \<Longrightarrow>
      (if users q (lock_of n) t \<noteq> None then \<exists>q'. give_lock t n rd q = Some (0, q') \<and> users q' = granted (users q) (lock_of n) t None
       else \<exists>q'. give_lock t n rd q = Some (8, q') \<and> users q' = users q)"
begin

text \<open>An exclusive request that is answered with 0 or 8 leaves the task in control, and everybody else's hold as it was.\<close>

lemma take_cases:
  assumes "0 < length n" "length n < 256" and "take_lock t n False q = Some (rc, q')"
  shows "rc = 0 \<and> users q (lock_of n) t = None \<and> grantable (users q (lock_of n)) t Exclusive \<and>
      users q' = granted (users q) (lock_of n) t (Some Exclusive) \<or>
    rc = 8 \<and> users q (lock_of n) t \<noteq> None \<and> users q' = users q"
  using take_law [OF assms(1,2), of False t q] assms(3) by (auto simp: answers_as_def Let_def split: if_splits)

lemma try_cases:
  assumes "0 < length n" "length n < 256" and "try_lock t n False q = Some (rc, q')"
  shows "rc = 0 \<and> users q (lock_of n) t = None \<and> grantable (users q (lock_of n)) t Exclusive \<and>
      users q' = granted (users q) (lock_of n) t (Some Exclusive) \<or>
    rc = 8 \<and> users q (lock_of n) t \<noteq> None \<and> users q' = users q \<or>
    rc = 4 \<and> users q (lock_of n) t = None \<and> \<not> grantable (users q (lock_of n)) t Exclusive \<and> users q' = users q"
  using try_law [OF assms(1,2), of False t q] assms(3) by (auto simp: answers_as_def Let_def split: if_splits)

text \<open>While another task has control, an exclusive request waits, or is answered with 4.\<close>

lemma refused:
  assumes "0 < length n" "length n < 256" and "users q (lock_of n) u \<noteq> None" "users q (lock_of n) t = None"
  shows "take_lock t n False q = None \<and> (\<exists>q'. try_lock t n False q = Some (4, q') \<and> users q' = users q)"
proof -
  obtain m where "users q (lock_of n) u = Some m" "u \<noteq> t" using assms(3,4) by (cases "u = t") auto
  then have "\<not> grantable (users q (lock_of n)) t Exclusive" unfolding grantable_def by blast
  then show ?thesis
    using take_law [OF assms(1,2), of False t q] try_law [OF assms(1,2), of False t q] assms(4) by (auto simp: answers_as_def Let_def)
qed

end

text \<open>The options each function passes, and the resource and the mode they stand for.\<close>

lemma code_of: "(case r of None \<Rightarrow> None | Some (rc, q) \<Rightarrow> Some (uint rc, q)) = map_option (\<lambda>(rc, q). (uint rc, q)) r"
  by (auto split: option.split)

lemma enqdeq_eq:
  assumes "0 < length n" and "length n < 256"
  shows "enqdeq svc t (Some LOCKQNAME) (Some n) opts deq q =
    map_option (\<lambda>(rc, q). (uint rc, q))
      (let pl = \<lparr>pl_end = 0xC0, pl_len = of_nat (length n),
                 pl_opt = (if deq then scope_opt opts OR 1 else scope_opt opts OR (if opts AND 4 \<noteq> 0 then 0x80 else 0) OR ret_opt opts),
                 pl_qname = LOCKQNAME, pl_rname = n\<rparr>
       in if deq then svc48 svc t pl q else svc56 svc t pl q)"
proof -
  have "ENQ_END_LAST OR ENQ_END_OLD = 0xC0" by (simp add: enq_defs)
  then show ?thesis
    using assms unfolding enqdeq_def Let_def ENQ_SHR_def ENQ_OPT_SHARED_def ENQ_OPT_HAVE_def
    by (cases deq) (simp_all add: qname8_LOCKQNAME code_of)
qed

lemma resource_of_lock:
  "length n < 256 \<Longrightarrow> opt AND 0x48 = 0 \<Longrightarrow>
     resource_of \<lparr>pl_end = e, pl_len = of_nat (length n), pl_opt = opt, pl_qname = LOCKQNAME, pl_rname = n\<rparr> = lock_of n"
  by (simp add: resource_of_def lock_of_def ENQ_OPT_SYSTEMS_def unat_of_nat)

lemma enq_request:
  assumes ok: "enq_ok svc users" and n: "0 < length n" "length n < 256"
    and opts: "opts = shr_if rd k" "k \<in> {ENQ_HAVE, ENQ_USE, ENQ_TEST}"
  shows "\<exists>pl. resource_of pl = lock_of n \<and> mode_of pl = (if rd then Shared else Exclusive) \<and>
      pl_opt pl AND ENQ_OPT_TEST = (if k = ENQ_HAVE then ENQ_OPT_HAVE else if k = ENQ_USE then ENQ_OPT_USE else ENQ_OPT_TEST) \<and>
      enq_answer users pl t q (svc56 svc t pl q) \<and>
      enqdeq svc t (Some LOCKQNAME) (Some n) opts False q = map_option (\<lambda>(rc, q). (uint rc, q)) (svc56 svc t pl q)"
proof -
  define pl where "pl = \<lparr>pl_end = 0xC0, pl_len = of_nat (length n),
      pl_opt = scope_opt opts OR (if opts AND 4 \<noteq> 0 then 0x80 else 0) OR ret_opt opts, pl_qname = LOCKQNAME, pl_rname = n\<rparr>"
  have opt: "pl_opt pl AND 0x48 = 0" "mode_of pl = (if rd then Shared else Exclusive)"
    "pl_opt pl AND ENQ_OPT_TEST = (if k = ENQ_HAVE then ENQ_OPT_HAVE else if k = ENQ_USE then ENQ_OPT_USE else ENQ_OPT_TEST)"
    using opts by (auto simp: pl_def enq_defs mode_of_def)
  have res: "resource_of pl = lock_of n" using opt(1) resource_of_lock [OF n(2)] by (simp add: pl_def)
  have "enq_answer users pl t q (svc56 svc t pl q)" using ok opt(3) by (auto simp: enq_ok_def split: if_splits)
  moreover have "enqdeq svc t (Some LOCKQNAME) (Some n) opts False q = map_option (\<lambda>(rc, q). (uint rc, q)) (svc56 svc t pl q)"
    using enqdeq_eq [OF n, of svc t opts False q] by (simp add: pl_def Let_def)
  ultimately show ?thesis using opt(2,3) res by blast
qed

lemma lock_res_answer:
  assumes "enq_ok svc users" "0 < length n" "length n < 256"
  shows "answers_as True users n (if rd then Shared else Exclusive) t q (lock_res svc t n rd q)"
proof -
  obtain pl where pl: "resource_of pl = lock_of n" "mode_of pl = (if rd then Shared else Exclusive)"
      "pl_opt pl AND ENQ_OPT_TEST = ENQ_OPT_HAVE" "enq_answer users pl t q (svc56 svc t pl q)"
      "lock_res svc t n rd q = map_option (\<lambda>(rc, q). (uint rc, q)) (svc56 svc t pl q)"
    using enq_request [OF assms, of _ rd ENQ_HAVE t q] unfolding lock_res_def by fastforce
  have ne: "(ENQ_OPT_HAVE = ENQ_OPT_TEST) = False" by (simp add: enq_defs)
  show ?thesis using pl(4) unfolding enq_answer_def answers_as_def Let_def pl(1-3,5) ne if_False
    by (auto split: if_splits)
qed

lemma trylock_res_answer:
  assumes "enq_ok svc users" "0 < length n" "length n < 256"
  shows "answers_as False users n (if rd then Shared else Exclusive) t q (trylock_res svc t n rd q)"
proof -
  obtain pl where pl: "resource_of pl = lock_of n" "mode_of pl = (if rd then Shared else Exclusive)"
      "pl_opt pl AND ENQ_OPT_TEST = ENQ_OPT_USE" "enq_answer users pl t q (svc56 svc t pl q)"
      "trylock_res svc t n rd q = map_option (\<lambda>(rc, q). (uint rc, q)) (svc56 svc t pl q)"
    using enq_request [OF assms, of _ rd ENQ_USE t q] unfolding trylock_res_def by (fastforce simp: ENQ_USE_def ENQ_HAVE_def)
  have ne: "(ENQ_OPT_USE = ENQ_OPT_TEST) = False" "(ENQ_OPT_USE = ENQ_OPT_HAVE) = False" by (simp_all add: enq_defs)
  show ?thesis using pl(4) unfolding enq_answer_def answers_as_def Let_def pl(1-3,5) ne if_False
    by (auto split: if_splits)
qed

lemma unlock_res_answer:
  assumes "enq_ok svc users" "0 < length n" "length n < 256"
  shows "if users q (lock_of n) t \<noteq> None
     then \<exists>q'. unlock_res svc t n rd q = Some (0, q') \<and> users q' = granted (users q) (lock_of n) t None
     else \<exists>q'. unlock_res svc t n rd q = Some (8, q') \<and> users q' = users q"
proof -
  define pl where "pl = \<lparr>pl_end = 0xC0, pl_len = of_nat (length n), pl_opt = scope_opt ENQ_HAVE OR 1, pl_qname = LOCKQNAME, pl_rname = n\<rparr>"
  have res: "resource_of pl = lock_of n" unfolding pl_def by (rule resource_of_lock [OF assms(3)]) (simp add: enq_defs)
  have "unlock_res svc t n rd q = map_option (\<lambda>(rc, q). (uint rc, q)) (svc48 svc t pl q)"
    using enqdeq_eq [OF assms(2,3), of svc t ENQ_HAVE True q] by (simp add: unlock_res_def pl_def Let_def)
  moreover have "deq_answer users pl t q (svc48 svc t pl q)" using assms(1) by (simp add: enq_ok_def)
  ultimately show ?thesis by (auto simp: deq_answer_def Let_def res split: if_splits)
qed

lemma enq_resource_locks:
  assumes "enq_ok svc users"
  shows "resource_locks users (lock_res svc) (trylock_res svc) (unlock_res svc)"
  by unfold_locales (fact lock_res_answer [OF assms] trylock_res_answer [OF assms] unlock_res_answer [OF assms])+

section \<open>The names are different\<close>

text \<open>The eight hexadecimal digits of an address.\<close>

definition hex8 :: "u32 \<Rightarrow> string" where
  "hex8 v = map (\<lambda>k. hx ! unat (drop_bit (k * 4) v AND 15)) [7, 6, 5, 4, 3, 2, 1, 0]"

lemma mtxname_eq: "mtxname v = ''MUTEX.'' @ hex8 v"
  by (simp add: mtxname_def hex8_def eval_nat_numeral)

lemma lkname_eq: "lkname v = ''LOCK.'' @ hex8 v"
  by (simp add: lkname_def hex8_def eval_nat_numeral)

lemma length_hex8 [simp]: "length (hex8 v) = 8"
  by (simp add: hex8_def)

lemma nibble_lt: "unat (x AND 15 :: u32) < 16"
  using unat_and_mask_eq [of x 4] by (simp add: mask_eq_exp_minus_1)

lemma hx_inj: "i < 16 \<Longrightarrow> j < 16 \<Longrightarrow> hx ! i = hx ! j \<Longrightarrow> i = j"
  using nth_eq_iff_index_eq [of hx i j] by (simp add: hx_def)

lemma nibbles_eq:
  assumes "\<And>k. k < 8 \<Longrightarrow> drop_bit (k * 4) v AND 15 = (drop_bit (k * 4) w AND 15 :: u32)"
  shows "v = w"
proof (rule bit_word_eqI)
  fix i assume "i < LENGTH(32)"
  then have "drop_bit (i div 4 * 4) v AND mask 4 = drop_bit (i div 4 * 4) w AND mask 4"
    using assms [of "i div 4"] by (simp add: mask_eq_exp_minus_1)
  then have "bit (drop_bit (i div 4 * 4) v AND mask 4) (i mod 4) = bit (drop_bit (i div 4 * 4) w AND mask 4) (i mod 4)" by simp
  moreover have "i mod 4 < 32" by (rule less_trans [of _ 4]) simp_all
  ultimately show "bit v i = bit w i" by (simp add: bit_simps)
qed

lemma hex8_inj: "hex8 v = hex8 w \<longleftrightarrow> v = w"
proof
  assume eq: "hex8 v = hex8 w"
  show "v = w"
  proof (rule nibbles_eq)
    fix k :: nat assume "k < 8"
    then have "k \<in> set [7, 6, 5, 4, 3, 2, 1, 0]" by (simp, linarith)
    then have "hx ! unat (drop_bit (k * 4) v AND 15) = hx ! unat (drop_bit (k * 4) w AND 15)"
      using eq unfolding hex8_def map_eq_conv by (rule bspec [rotated])
    then have "unat (drop_bit (k * 4) v AND 15) = unat (drop_bit (k * 4) w AND 15)" by (rule hx_inj [OF nibble_lt nibble_lt])
    then show "drop_bit (k * 4) v AND 15 = drop_bit (k * 4) w AND 15" by (rule unsigned_word_eqI)
  qed
qed simp

lemma mtxname_inj [simp]: "mtxname v = mtxname w \<longleftrightarrow> v = w"
  by (simp add: mtxname_eq hex8_inj)

lemma lkname_inj [simp]: "lkname v = lkname w \<longleftrightarrow> v = w"
  by (simp add: lkname_eq hex8_inj)

lemma mtxname_lkname [simp]: "mtxname v \<noteq> lkname w"
  by (simp add: mtxname_eq lkname_eq)

lemma length_names [simp]: "length (mtxname v) = 14" "length (lkname v) = 13"
  by (simp_all add: mtxname_eq lkname_eq)

lemma lock_of_inj [simp]: "lock_of n = lock_of n' \<longleftrightarrow> n = n'"
  by (simp add: lock_of_def)

section \<open>Queues held in a table\<close>

text \<open>A system that keeps who has control of what, and nothing else.\<close>

type_synonym table = "resource \<Rightarrow> u32 \<Rightarrow> mode option"

definition table_enq :: "table svc" where
  "table_enq tcb pl q =
     (let r = resource_of pl; ret = pl_opt pl AND ENQ_OPT_TEST
      in if q r tcb \<noteq> None then Some (8, q)
         else if grantable (q r) tcb (mode_of pl)
         then Some (0, if ret = ENQ_OPT_TEST then q else granted q r tcb (Some (mode_of pl)))
         else if ret = ENQ_OPT_HAVE then None else Some (4, q))"

definition table_deq :: "table svc" where
  "table_deq tcb pl q =
     (let r = resource_of pl in if q r tcb \<noteq> None then Some (0, granted q r tcb None) else Some (8, q))"

definition table_svc :: "table services" where
  "table_svc = \<lparr>svc56 = table_enq, svc48 = table_deq\<rparr>"

lemma table_ok: "enq_ok table_svc (\<lambda>q. q)"
  by (auto simp: enq_ok_def table_svc_def enq_answer_def deq_answer_def table_enq_def table_deq_def Let_def)

interpretation tab: resource_locks "\<lambda>q. q" "lock_res table_svc" "trylock_res table_svc" "unlock_res table_svc"
  by (rule enq_resource_locks [OF table_ok])

end
