(* ===== verification/Mutex.thy ===== *)
theory Mutex
  imports Enq Runs Array
begin

text \<open>
  The recursive mutex (\<^verbatim>\<open>src/mvs/mutex\<close>, \<^verbatim>\<open>include/mvs/mutex.h\<close>): a structure with the owner's TCB address and the number of
  its locks, guarded by an exclusive ENQ on a name made from the structure's address, and listed in the dynamic
  array \<^verbatim>\<open>crtmutx\<close> of the task that has it.  The operations are given as the code has them, for one task that runs
  undisturbed, and once more as the accesses to shared storage that the tasks of a program interleave.
\<close>

section \<open>Definitions\<close>

record clibmutx =
  owner :: u32
  count :: u32

text \<open>
  The storage: the system's queues, the mutexes by their address, the dynamic arrays.  \<open>crt\<close> gives, for a task, the address of
  the variable \<^verbatim>\<open>crt->crtmutx\<close>, 0 when \<^verbatim>\<open>__crtget()\<close> finds no C runtime for it.
\<close>

record 'q storage =
  queues :: 'q
  mutexes :: "u32 \<Rightarrow> clibmutx"
  arrays :: astate

abbreviation put_mutex :: "u32 \<Rightarrow> clibmutx \<Rightarrow> 'q storage \<Rightarrow> 'q storage" where
  "put_mutex a m s \<equiv> s\<lparr>mutexes := (mutexes s)(a := m)\<rparr>"

definition mtxheld :: "u32 \<Rightarrow> clibmutx \<Rightarrow> bool" where
  "mtxheld tcb m \<longleftrightarrow> count m \<noteq> 0 \<and> owner m = tcb"

definition mtxnheld :: "u32 \<Rightarrow> clibmutx \<Rightarrow> bool" where
  "mtxnheld tcb m \<longleftrightarrow> count m = 0 \<or> owner m \<noteq> tcb"

definition mtxavail :: "clibmutx \<Rightarrow> bool" where
  "mtxavail m \<longleftrightarrow> count m = 0 \<and> owner m = 0"

definition mtxinit :: "u32 \<Rightarrow> 'q storage \<Rightarrow> 'q storage" where
  "mtxinit mutex s = put_mutex mutex \<lparr>owner = 0, count = 0\<rparr> s"

definition mtxnew :: "getm \<Rightarrow> 'q storage \<Rightarrow> u32 \<times> 'q storage" where
  "mtxnew getm s =
     (case calloc getm (arrays s) 1 8 of
        (None, a) \<Rightarrow> (0, s\<lparr>arrays := a\<rparr>)
      | (Some p, a) \<Rightarrow> (of_nat p, mtxinit (of_nat p) (s\<lparr>arrays := a\<rparr>)))"

definition remember :: "getm \<Rightarrow> nat \<Rightarrow> u32 \<Rightarrow> astate \<Rightarrow> astate" where
  "remember getm crtmutx mutex a = (if crtmutx \<noteq> 0 then snd (arrayadd getm a crtmutx mutex) else a)"

fun forget_from :: "nat \<Rightarrow> u32 \<Rightarrow> nat \<Rightarrow> astate \<Rightarrow> astate" where
  "forget_from crtmutx mutex 0 a = a"
| "forget_from crtmutx mutex (Suc n) a =
     (if arrayget a crtmutx (of_nat (Suc n)) = mutex then snd (arraydel a crtmutx (of_nat (Suc n)))
      else forget_from crtmutx mutex n a)"

definition forget :: "nat \<Rightarrow> u32 \<Rightarrow> astate \<Rightarrow> astate" where
  "forget crtmutx mutex a =
     (if crtmutx \<noteq> 0 then forget_from crtmutx mutex (unat (arraycount a crtmutx)) a else a)"

text \<open>The end of \<^verbatim>\<open>mtxlock()\<close> and of \<^verbatim>\<open>mtxtry()\<close>, when the task has the resource.\<close>

definition locked :: "getm \<Rightarrow> (u32 \<Rightarrow> nat) \<Rightarrow> u32 \<Rightarrow> u32 \<Rightarrow> int \<Rightarrow> 'q storage \<Rightarrow> 'q storage" where
  "locked getm crt tcb mutex rc s =
     (let s = put_mutex mutex (mutexes s mutex\<lparr>owner := tcb\<rparr>) s;
          s = put_mutex mutex (mutexes s mutex\<lparr>count := count (mutexes s mutex) + 1\<rparr>) s
      in if rc = 0 then s\<lparr>arrays := remember getm (crt tcb) mutex (arrays s)\<rparr> else s)"

definition mtxlock :: "'q services \<Rightarrow> getm \<Rightarrow> (u32 \<Rightarrow> nat) \<Rightarrow> u32 \<Rightarrow> u32 \<Rightarrow> 'q storage \<Rightarrow> 'q storage option" where
  "mtxlock svc getm crt tcb mutex s =
     (case lock_res svc tcb (mtxname mutex) False (queues s) of
        None \<Rightarrow> None
      | Some (rc, q) \<Rightarrow> Some (locked getm crt tcb mutex rc (s\<lparr>queues := q\<rparr>)))"

definition mtxtry :: "'q services \<Rightarrow> getm \<Rightarrow> (u32 \<Rightarrow> nat) \<Rightarrow> u32 \<Rightarrow> u32 \<Rightarrow> 'q storage \<Rightarrow> (int \<times> 'q storage) option" where
  "mtxtry svc getm crt tcb mutex s =
     (case trylock_res svc tcb (mtxname mutex) False (queues s) of
        None \<Rightarrow> None
      | Some (rc, q) \<Rightarrow>
          if rc = 0 \<or> rc = 8 then Some (0, locked getm crt tcb mutex rc (s\<lparr>queues := q\<rparr>))
          else Some (rc, s\<lparr>queues := q\<rparr>))"

definition mtxunlk :: "'q services \<Rightarrow> (u32 \<Rightarrow> nat) \<Rightarrow> u32 \<Rightarrow> u32 \<Rightarrow> 'q storage \<Rightarrow> 'q storage option" where
  "mtxunlk svc crt tcb mutex s =
     (if mtxheld tcb (mutexes s mutex) then
        let s = put_mutex mutex (mutexes s mutex\<lparr>count := count (mutexes s mutex) - 1\<rparr>) s
        in if count (mutexes s mutex) = 0 then
             let s = s\<lparr>arrays := forget (crt tcb) mutex (arrays s)\<rparr>;
                 s = put_mutex mutex (mutexes s mutex\<lparr>owner := 0\<rparr>) s
             in (case unlock_res svc tcb (mtxname mutex) False (queues s) of
                   None \<Rightarrow> None
                 | Some (rc, q) \<Rightarrow> Some (s\<lparr>queues := q\<rparr>))
           else Some s
      else Some s)"

definition cleanup_mutex :: "'q services \<Rightarrow> u32 \<Rightarrow> u32 \<Rightarrow> 'q storage \<Rightarrow> 'q storage option" where
  "cleanup_mutex svc tcb mutex s =
     (if mtxheld tcb (mutexes s mutex) then
        let s = put_mutex mutex (mutexes s mutex\<lparr>owner := 0\<rparr>) s;
            s = put_mutex mutex (mutexes s mutex\<lparr>count := 0\<rparr>) s
        in (case unlock_res svc tcb (mtxname mutex) False (queues s) of
              None \<Rightarrow> None
            | Some (rc, q) \<Rightarrow> Some (s\<lparr>queues := q\<rparr>))
      else Some s)"

text \<open>\<^verbatim>\<open>try()\<close> calls the function under an ESTAE; it ends normally here.\<close>

definition mtxclup :: "'q services \<Rightarrow> u32 \<Rightarrow> u32 \<Rightarrow> 'q storage \<Rightarrow> 'q storage option" where
  "mtxclup svc tcb mutex s = (if mutex \<noteq> 0 then cleanup_mutex svc tcb mutex s else Some s)"

text \<open>\<^verbatim>\<open>mtxfree()\<close>, up to the return of the storage.\<close>

definition mtxfree :: "'q services \<Rightarrow> (u32 \<Rightarrow> nat) \<Rightarrow> u32 \<Rightarrow> u32 \<Rightarrow> 'q storage \<Rightarrow> 'q storage option" where
  "mtxfree svc crt tcb mutex s =
     (if mutex = 0 then Some s
      else
        case (if mtxheld tcb (mutexes s mutex)
              then mtxunlk svc crt tcb mutex (put_mutex mutex (mutexes s mutex\<lparr>count := 1\<rparr>) s) else Some s) of
          None \<Rightarrow> None
        | Some s \<Rightarrow> Some (put_mutex mutex \<lparr>owner = 0, count = 0\<rparr> s))"

section \<open>The list of a task's mutexes\<close>

lemma index_word:
  assumes "array_ok v s" and "n \<le> length (items v s)"
  shows "unat (of_nat n :: u32) = n"
  using assms(2) arraycount_spec [OF assms(1)] unat32_lt [of "arraycount s v"] by (subst unat_of_nat) simp

lemma forget_absent:
  "array_ok v s \<Longrightarrow> a \<notin> set (items v s) \<Longrightarrow> n \<le> length (items v s) \<Longrightarrow> forget_from v a n s = s"
proof (induction n)
  case (Suc n)
  have "arrayget s v (of_nat (Suc n)) = items v s ! n"
    using arrayget_spec [OF Suc.prems(1), of "of_nat (Suc n)"] index_word [OF Suc.prems(1,3)] Suc.prems(3) by simp
  then have "arrayget s v (of_nat (Suc n)) \<noteq> a" using Suc.prems(2,3) by (metis Suc_le_eq nth_mem)
  then show ?case using Suc by simp
qed simp

lemma forget_last:
  assumes "array_ok v s" and "items v s = xs @ [a]"
  shows "array_ok v (forget v a s) \<and> items v (forget v a s) = xs"
proof -
  let ?n = "length xs"
  have v: "v \<noteq> 0" using assms(1) by (simp add: array_ok_def)
  have n: "unat (arraycount s v) = Suc ?n" using arraycount_spec [OF assms(1)] assms(2) by simp
  have w: "unat (of_nat (Suc ?n) :: u32) = Suc ?n" using index_word [OF assms(1), of "Suc ?n"] assms(2) by simp
  have "arrayget s v (of_nat (Suc ?n)) = a" using arrayget_spec [OF assms(1), of "of_nat (Suc ?n)"] w assms(2) by simp
  then have "forget v a s = snd (arraydel s v (of_nat (Suc ?n)))" using v n by (simp add: forget_def)
  then show ?thesis
    using arraydel_spec [OF assms(1), of "of_nat (Suc ?n)"] w assms(2)
    by (cases "arraydel s v (of_nat (Suc ?n))") (simp add: del_spec_def without_def)
qed

text \<open>An entry made and taken out again leaves the list as it was, whether there was storage for it or not.\<close>

lemma forget_remember:
  assumes "fresh_storage getm" and "array_ok v s" and "a \<notin> set (items v s)"
  shows "items v (forget v a (remember getm v a s)) = items v s"
proof -
  have v: "v \<noteq> 0" using assms(2) by (simp add: array_ok_def)
  let ?s = "remember getm v a s"
  have s: "array_ok v ?s" "items v ?s = items v s @ [a] \<or> items v ?s = items v s"
    using arrayadd_spec [OF assms(1,2), of a] v by (auto simp: add_spec_def remember_def split: prod.splits)
  from s(2) show ?thesis
  proof
    assume "items v ?s = items v s @ [a]"
    then show ?thesis using forget_last [OF s(1)] by blast
  next
    assume eq: "items v ?s = items v s"
    then have "forget v a ?s = ?s"
      using forget_absent [OF s(1)] assms(3) arraycount_spec [OF s(1)] by (simp add: forget_def)
    then show ?thesis using eq by simp
  qed
qed

section \<open>Locking and unlocking, undisturbed\<close>

text \<open>\<open>holds users s t a\<close>: task \<open>t\<close> has control of the resource of the mutex at \<open>a\<close>.\<close>

definition holds :: "'q users \<Rightarrow> 'q storage \<Rightarrow> u32 \<Rightarrow> u32 \<Rightarrow> bool" where
  "holds users s t a \<longleftrightarrow> users (queues s) (lock_of (mtxname a)) t \<noteq> None"

lemma locked_eq:
  "locked getm crt t a rc s =
     (put_mutex a \<lparr>owner = t, count = count (mutexes s a) + 1\<rparr> s)
       \<lparr>arrays := if rc = 0 then remember getm (crt t) a (arrays s) else arrays s\<rparr>"
  by (cases "mutexes s a") (auto simp: locked_def Let_def)

lemma lock_free:
  assumes "enq_ok svc users" and "\<forall>u. \<not> holds users s u a"
  shows "\<exists>q. users q = granted (users (queues s)) (lock_of (mtxname a)) t (Some Exclusive) \<and>
    mtxlock svc getm crt t a s = Some (locked getm crt t a 0 (s\<lparr>queues := q\<rparr>))"
proof -
  have u: "users (queues s) (lock_of (mtxname a)) u = None" for u using assms(2) by (simp add: holds_def)
  then have "grantable (users (queues s) (lock_of (mtxname a))) t Exclusive" by (simp add: grantable_def)
  then obtain q where "users q = granted (users (queues s)) (lock_of (mtxname a)) t (Some Exclusive)"
      "lock_res svc t (mtxname a) False (queues s) = Some (0, q)"
    using lock_res_answer [OF assms(1), of "mtxname a" False t "queues s"] u [of t] by (auto simp: answers_as_def Let_def)
  then show ?thesis by (auto simp: mtxlock_def)
qed

lemma lock_again:
  assumes "enq_ok svc users" and "holds users s t a"
  shows "\<exists>q. users q = users (queues s) \<and> mtxlock svc getm crt t a s = Some (locked getm crt t a 8 (s\<lparr>queues := q\<rparr>))"
  using lock_res_answer [OF assms(1), of "mtxname a" False t "queues s"] assms(2)
  by (auto simp: answers_as_def Let_def mtxlock_def holds_def)

lemma lock_refused:
  assumes "enq_ok svc users" and "holds users s u a" and "\<not> holds users s t a"
  shows "mtxlock svc getm crt t a s = None \<and> (\<exists>q. users q = users (queues s) \<and> mtxtry svc getm crt t a s = Some (4, s\<lparr>queues := q\<rparr>))"
  using resource_locks.refused [OF enq_resource_locks [OF assms(1)], of "mtxname a" "queues s" u t] assms(2,3)
  by (auto simp: holds_def mtxlock_def mtxtry_def)

text \<open>After \<open>k\<close> locks of a mutex that was free in \<open>s0\<close>.\<close>

definition locked_times :: "'q users \<Rightarrow> getm \<Rightarrow> (u32 \<Rightarrow> nat) \<Rightarrow> u32 \<Rightarrow> u32 \<Rightarrow> nat \<Rightarrow> 'q storage \<Rightarrow> 'q storage \<Rightarrow> bool" where
  "locked_times users getm crt t a k s0 s \<longleftrightarrow>
     mutexes s = (mutexes s0)(a := \<lparr>owner = t, count = of_nat k\<rparr>) \<and>
     users (queues s) = granted (users (queues s0)) (lock_of (mtxname a)) t (Some Exclusive) \<and>
     arrays s = remember getm (crt t) a (arrays s0)"

lemma locked_times_holds: "locked_times users getm crt t a k s0 s \<Longrightarrow> holds users s t a"
  by (simp add: locked_times_def holds_def granted_def)

lemma lock_first:
  assumes "enq_ok svc users" and "\<forall>u. \<not> holds users s0 u a" and "count (mutexes s0 a) = 0"
  shows "\<exists>s. mtxlock svc getm crt t a s0 = Some s \<and> locked_times users getm crt t a 1 s0 s"
  using lock_free [OF assms(1,2), of t getm crt] assms(3) by (auto simp: locked_eq locked_times_def)

lemma lock_next:
  assumes "enq_ok svc users" and "locked_times users getm crt t a k s0 s"
  shows "\<exists>s'. mtxlock svc getm crt t a s = Some s' \<and> locked_times users getm crt t a (Suc k) s0 s'"
  using lock_again [OF assms(1) locked_times_holds [OF assms(2)], of getm crt] assms(2)
  by (auto simp: locked_eq locked_times_def add.commute)

lemma of_nat_word_0: "k < 2 ^ 32 \<Longrightarrow> (of_nat k :: u32) = 0 \<longleftrightarrow> k = 0"
  by (simp add: word_unat_eq_iff unat_of_nat)

lemma unlock_next:
  assumes "locked_times users getm crt t a (Suc (Suc k)) s0 s" and "Suc (Suc k) < 2 ^ 32"
  shows "\<exists>s'. mtxunlk svc crt t a s = Some s' \<and> locked_times users getm crt t a (Suc k) s0 s'"
proof -
  have m: "mutexes s a = \<lparr>owner = t, count = of_nat (Suc (Suc k))\<rparr>" using assms(1) by (simp add: locked_times_def)
  have nz: "(of_nat (Suc (Suc k)) :: u32) \<noteq> 0" "(of_nat (Suc k) :: u32) \<noteq> 0"
    using of_nat_word_0 [of "Suc (Suc k)"] of_nat_word_0 [of "Suc k"] assms(2) by auto
  have dec: "(of_nat (Suc (Suc k)) - 1 :: u32) = of_nat (Suc k)" by simp
  have "mtxunlk svc crt t a s = Some (put_mutex a \<lparr>owner = t, count = of_nat (Suc k)\<rparr> s)"
    unfolding mtxunlk_def Let_def mtxheld_def using nz by (simp add: m dec del: of_nat_Suc)
  then show ?thesis using assms(1) by (simp add: locked_times_def)
qed

lemma unlock_last:
  assumes "enq_ok svc users" and "locked_times users getm crt t a 1 s0 s" and "\<forall>u. \<not> holds users s0 u a"
  shows "\<exists>s'. mtxunlk svc crt t a s = Some s' \<and> mutexes s' = (mutexes s0)(a := \<lparr>owner = 0, count = 0\<rparr>) \<and>
    users (queues s') = users (queues s0) \<and> arrays s' = forget (crt t) a (remember getm (crt t) a (arrays s0))"
proof -
  have m: "mutexes s a = \<lparr>owner = t, count = 1\<rparr>" using assms(2) by (simp add: locked_times_def)
  let ?r = "lock_of (mtxname a)"
  obtain q where q: "unlock_res svc t (mtxname a) False (queues s) = Some (0, q)" "users q = granted (users (queues s)) ?r t None"
    using unlock_res_answer [OF assms(1), of "mtxname a" "queues s" t False] locked_times_holds [OF assms(2)] by (auto simp: holds_def)
  have "users (queues s0) ?r t = None" using assms(3) by (simp add: holds_def)
  then have "users q = users (queues s0)" using q(2) assms(2) by (simp add: locked_times_def granted_undo)
  then show ?thesis using q(1) assms(2) by (simp add: mtxunlk_def mtxheld_def m Let_def locked_times_def)
qed

text \<open>Several calls one after the other.\<close>

fun repeat :: "nat \<Rightarrow> ('s \<Rightarrow> 's option) \<Rightarrow> 's \<Rightarrow> 's option" where
  "repeat 0 f s = Some s"
| "repeat (Suc n) f s = (case f s of None \<Rightarrow> None | Some s' \<Rightarrow> repeat n f s')"

lemma lock_more:
  assumes "enq_ok svc users"
  shows "locked_times users getm crt t a k s0 s \<Longrightarrow>
    \<exists>s'. repeat n (mtxlock svc getm crt t a) s = Some s' \<and> locked_times users getm crt t a (k + n) s0 s'"
proof (induction n arbitrary: s k)
  case (Suc n)
  obtain s1 where "mtxlock svc getm crt t a s = Some s1" "locked_times users getm crt t a (Suc k) s0 s1"
    using lock_next [OF assms Suc.prems] by blast
  then show ?case using Suc.IH [of "Suc k" s1] by simp
qed simp

lemma unlock_more:
  "locked_times users getm crt t a (Suc n) s0 s \<Longrightarrow> Suc n < 2 ^ 32 \<Longrightarrow>
    \<exists>s'. repeat n (mtxunlk svc crt t a) s = Some s' \<and> locked_times users getm crt t a 1 s0 s'"
proof (induction n arbitrary: s)
  case (Suc n)
  obtain s1 where "mtxunlk svc crt t a s = Some s1" "locked_times users getm crt t a (Suc n) s0 s1"
    using unlock_next [OF Suc.prems] by blast
  then show ?case using Suc.IH [of s1] Suc.prems(2) by simp
qed simp

lemma repeat_add: "repeat (m + n) f s = (case repeat m f s of None \<Rightarrow> None | Some s' \<Rightarrow> repeat n f s')"
  by (induction m arbitrary: s) (auto split: option.split)

section \<open>Properties\<close>

text \<open>
  The mutex is recursive: a task that locks a free mutex \<open>n\<close> times (up to 2 to the 32 less one) has it with the
  count \<open>n\<close>, while \<^verbatim>\<open>mtxlock()\<close> of any other task waits and its \<^verbatim>\<open>mtxtry()\<close> answers 4; the same number of unlocks releases
  the resource, leaves the mutex available and the list of the task's mutexes as it was before.
\<close>

theorem mutex_recursive:
  assumes "enq_ok svc users" and "fresh_storage getm"
    and "\<forall>u. \<not> holds users s u a" and "mtxavail (mutexes s a)"
    and "array_ok (crt t) (arrays s)" and "a \<notin> set (items (crt t) (arrays s))"
    and "0 < n" and "n < 2 ^ 32"
  shows "\<exists>s1 s2. repeat n (mtxlock svc getm crt t a) s = Some s1 \<and>
    mutexes s1 a = \<lparr>owner = t, count = of_nat n\<rparr> \<and> mtxheld t (mutexes s1 a) \<and>
    (\<forall>u. u \<noteq> t \<longrightarrow> mtxlock svc getm crt u a s1 = None \<and> map_option fst (mtxtry svc getm crt u a s1) = Some 4) \<and>
    repeat n (mtxunlk svc crt t a) s1 = Some s2 \<and>
    mutexes s2 = mutexes s \<and> users (queues s2) = users (queues s) \<and> items (crt t) (arrays s2) = items (crt t) (arrays s)"
proof -
  obtain k where n: "n = Suc k" using assms(7) by (cases n) auto
  have m: "mutexes s a = \<lparr>owner = 0, count = 0\<rparr>" using assms(4) by (cases "mutexes s a") (simp add: mtxavail_def)
  obtain s0 where s0: "mtxlock svc getm crt t a s = Some s0" "locked_times users getm crt t a 1 s s0"
    using lock_first [OF assms(1,3), of getm crt t] m by auto
  then obtain s1 where s1: "repeat n (mtxlock svc getm crt t a) s = Some s1" "locked_times users getm crt t a n s s1"
    using lock_more [OF assms(1) s0(2), of k] by (auto simp: n)
  have a1: "mutexes s1 a = \<lparr>owner = t, count = of_nat n\<rparr>" using s1(2) by (simp add: locked_times_def)
  have others: "mtxlock svc getm crt u a s1 = None \<and> map_option fst (mtxtry svc getm crt u a s1) = Some 4" if "u \<noteq> t" for u
  proof -
    have "\<not> holds users s1 u a" using s1(2) assms(3) that by (simp add: locked_times_def holds_def granted_def)
    then show ?thesis using lock_refused [OF assms(1) locked_times_holds [OF s1(2)], of u getm crt] by auto
  qed
  obtain s' where s': "repeat k (mtxunlk svc crt t a) s1 = Some s'" "locked_times users getm crt t a 1 s s'"
    using unlock_more [of users getm crt t a k s s1 svc] s1(2) assms(8) by (auto simp: n)
  obtain s2 where s2: "mtxunlk svc crt t a s' = Some s2" "mutexes s2 = (mutexes s)(a := \<lparr>owner = 0, count = 0\<rparr>)"
    "users (queues s2) = users (queues s)" "arrays s2 = forget (crt t) a (remember getm (crt t) a (arrays s))"
    using unlock_last [OF assms(1) s'(2) assms(3)] by blast
  have "repeat n (mtxunlk svc crt t a) s1 = Some s2"
    using repeat_add [of k 1 "mtxunlk svc crt t a" s1] s'(1) s2(1) by (simp add: n)
  moreover have "mutexes s2 = mutexes s" using s2(2) m by auto
  moreover have "mtxheld t (mutexes s1 a)" using of_nat_word_0 [OF assms(8)] assms(7) a1 by (simp add: mtxheld_def)
  moreover have "items (crt t) (arrays s2) = items (crt t) (arrays s)"
    using forget_remember [OF assms(2,5,6)] s2(4) by simp
  ultimately show ?thesis using s1(1) a1 others s2(3) by blast
qed

definition no_mutexes :: "table storage" where
  "no_mutexes = \<lparr>queues = (\<lambda>r t. None), mutexes = (\<lambda>a. \<lparr>owner = 0, count = 0\<rparr>), arrays = no_arrays\<rparr>"

theorem mutex_recursive_witness:
  "\<exists>s1. repeat 3 (mtxlock table_svc bump (\<lambda>t. 4) 77 0x1000) no_mutexes = Some s1 \<and>
    mutexes s1 0x1000 = \<lparr>owner = 77, count = 3\<rparr> \<and> mtxlock table_svc bump (\<lambda>t. 4) 78 0x1000 s1 = None"
proof -
  have "items 4 no_arrays = []" by (simp add: items_def array_at_def no_arrays_def)
  then show ?thesis
    using mutex_recursive [OF table_ok bump_fresh, of no_mutexes "0x1000" "\<lambda>t. 4" 77 3] no_arrays_ok [of 4]
    by (auto simp: no_mutexes_def holds_def mtxavail_def)
qed

end
