(* ===== verification/Mutex_Tasks.thy ===== *)
theory Mutex_Tasks
  imports Mutex
begin

text \<open>
  The mutex functions under interleaving.  A task stands at one of the accesses its call makes to storage that other tasks
  see: the supervisor calls, every load and every store of the two words of a mutex.  The list of a task's mutexes is
  its own; it is updated in one step.  The invariant of the reachable states gives mutual exclusion, the refinement of
  the abstract recursive lock, and, with a rank, that no call stops between the ENQ and its return.
\<close>

section \<open>The steps of a call\<close>

datatype pc =
    Idle
  | Wait u32
  | Set_owner u32 int
  | Load_count u32 int
  | Store_count u32 int u32
  | Remember u32
  | Check_owner u32
  | Load_drop u32
  | Store_drop u32 u32
  | Test_drop u32
  | Forget u32
  | Clear_owner u32
  | Clup_check u32
  | Clup_owner u32
  | Clup_count u32
  | Release u32

record 'q world =
  store :: "'q storage"
  at :: "u32 \<Rightarrow> pc"

abbreviation goto :: "u32 \<Rightarrow> pc \<Rightarrow> 'q world \<Rightarrow> 'q world" where
  "goto t p w \<equiv> w\<lparr>at := (at w)(t := p)\<rparr>"

abbreviation mutex :: "'q world \<Rightarrow> u32 \<Rightarrow> clibmutx" where
  "mutex w a \<equiv> mutexes (store w) a"

abbreviation put_word :: "u32 \<Rightarrow> clibmutx \<Rightarrow> 'q world \<Rightarrow> 'q world" where
  "put_word a m w \<equiv> w\<lparr>store := put_mutex a m (store w)\<rparr>"

abbreviation enqueue :: "'q \<Rightarrow> 'q world \<Rightarrow> 'q world" where
  "enqueue q w \<equiv> w\<lparr>store := store w\<lparr>queues := q\<rparr>\<rparr>"

text \<open>
  \<^verbatim>\<open>mtxlock()\<close> (\<open>lock_\<close>), \<^verbatim>\<open>mtxtry()\<close> (\<open>try_\<close>; from \<open>set_owner\<close> on both run the same statements), \<^verbatim>\<open>mtxunlk()\<close> (\<open>unlk_\<close>) and
  \<^verbatim>\<open>mtxclup()\<close> (\<open>clup_\<close>).  The address of a TCB is not 0.
\<close>

inductive mtx_step :: "'q services \<Rightarrow> getm \<Rightarrow> (u32 \<Rightarrow> nat) \<Rightarrow> u32 \<Rightarrow> 'q world \<Rightarrow> 'q world \<Rightarrow> bool"
  for svc getm crt where
  lock_call: "t \<noteq> 0 \<Longrightarrow> at w t = Idle \<Longrightarrow> mtx_step svc getm crt t w (goto t (Wait a) w)"
| lock_enq: "at w t = Wait a \<Longrightarrow> lock_res svc t (mtxname a) False (queues (store w)) = Some (rc, q) \<Longrightarrow>
    mtx_step svc getm crt t w (goto t (Set_owner a rc) (enqueue q w))"
| try_got: "t \<noteq> 0 \<Longrightarrow> at w t = Idle \<Longrightarrow> trylock_res svc t (mtxname a) False (queues (store w)) = Some (rc, q) \<Longrightarrow> rc = 0 \<or> rc = 8 \<Longrightarrow>
    mtx_step svc getm crt t w (goto t (Set_owner a rc) (enqueue q w))"
| try_busy: "t \<noteq> 0 \<Longrightarrow> at w t = Idle \<Longrightarrow> trylock_res svc t (mtxname a) False (queues (store w)) = Some (rc, q) \<Longrightarrow> rc \<noteq> 0 \<and> rc \<noteq> 8 \<Longrightarrow>
    mtx_step svc getm crt t w (enqueue q w)"
| set_owner: "at w t = Set_owner a rc \<Longrightarrow>
    mtx_step svc getm crt t w (goto t (Load_count a rc) (put_word a (mutex w a\<lparr>owner := t\<rparr>) w))"
| load_count: "at w t = Load_count a rc \<Longrightarrow>
    mtx_step svc getm crt t w (goto t (Store_count a rc (count (mutex w a))) w)"
| store_count: "at w t = Store_count a rc c \<Longrightarrow>
    mtx_step svc getm crt t w (goto t (if rc = 0 then Remember a else Idle) (put_word a (mutex w a\<lparr>count := c + 1\<rparr>) w))"
| list_add: "at w t = Remember a \<Longrightarrow>
    mtx_step svc getm crt t w
      (goto t Idle (w\<lparr>store := store w\<lparr>arrays := remember getm (crt t) a (arrays (store w))\<rparr>\<rparr>))"
| unlk_call: "t \<noteq> 0 \<Longrightarrow> at w t = Idle \<Longrightarrow>
    mtx_step svc getm crt t w (goto t (if count (mutex w a) \<noteq> 0 then Check_owner a else Idle) w)"
| unlk_owner: "at w t = Check_owner a \<Longrightarrow>
    mtx_step svc getm crt t w (goto t (if owner (mutex w a) = t then Load_drop a else Idle) w)"
| unlk_load: "at w t = Load_drop a \<Longrightarrow>
    mtx_step svc getm crt t w (goto t (Store_drop a (count (mutex w a))) w)"
| unlk_store: "at w t = Store_drop a c \<Longrightarrow>
    mtx_step svc getm crt t w (goto t (Test_drop a) (put_word a (mutex w a\<lparr>count := c - 1\<rparr>) w))"
| unlk_test: "at w t = Test_drop a \<Longrightarrow>
    mtx_step svc getm crt t w (goto t (if count (mutex w a) = 0 then Forget a else Idle) w)"
| list_del: "at w t = Forget a \<Longrightarrow>
    mtx_step svc getm crt t w
      (goto t (Clear_owner a) (w\<lparr>store := store w\<lparr>arrays := forget (crt t) a (arrays (store w))\<rparr>\<rparr>))"
| clear_owner: "at w t = Clear_owner a \<Longrightarrow>
    mtx_step svc getm crt t w (goto t (Release a) (put_word a (mutex w a\<lparr>owner := 0\<rparr>) w))"
| release: "at w t = Release a \<Longrightarrow> unlock_res svc t (mtxname a) False (queues (store w)) = Some (rc, q) \<Longrightarrow>
    mtx_step svc getm crt t w (goto t Idle (enqueue q w))"
| clup_call: "t \<noteq> 0 \<Longrightarrow> at w t = Idle \<Longrightarrow> a \<noteq> 0 \<Longrightarrow>
    mtx_step svc getm crt t w (goto t (if count (mutex w a) \<noteq> 0 then Clup_check a else Idle) w)"
| clup_check: "at w t = Clup_check a \<Longrightarrow>
    mtx_step svc getm crt t w (goto t (if owner (mutex w a) = t then Clup_owner a else Idle) w)"
| clup_owner: "at w t = Clup_owner a \<Longrightarrow>
    mtx_step svc getm crt t w (goto t (Clup_count a) (put_word a (mutex w a\<lparr>owner := 0\<rparr>) w))"
| clup_count: "at w t = Clup_count a \<Longrightarrow>
    mtx_step svc getm crt t w (goto t (Release a) (put_word a (mutex w a\<lparr>count := 0\<rparr>) w))"

text \<open>Every mutex is initialised and free at the start, and no task is in a call.\<close>

definition start :: "'q users \<Rightarrow> 'q world \<Rightarrow> bool" where
  "start users w \<longleftrightarrow> (\<forall>t a. \<not> holds users (store w) t a) \<and> (\<forall>a. mutex w a = \<lparr>owner = 0, count = 0\<rparr>) \<and> (\<forall>t. at w t = Idle)"

inductive mtx_reach :: "'q services \<Rightarrow> 'q users \<Rightarrow> getm \<Rightarrow> (u32 \<Rightarrow> nat) \<Rightarrow> 'q world \<Rightarrow> bool"
  for svc users getm crt where
  init: "start users w \<Longrightarrow> mtx_reach svc users getm crt w"
| step: "mtx_reach svc users getm crt w \<Longrightarrow> mtx_step svc getm crt t w w' \<Longrightarrow> mtx_reach svc users getm crt w'"

section \<open>The invariant\<close>

text \<open>The mutex a task is at work on, and what then holds of it; \<open>h\<close> says whether the task has its resource.\<close>

fun target :: "pc \<Rightarrow> u32 option" where
  "target Idle = None"
| "target (Wait a) = None"
| "target (Set_owner a rc) = Some a"
| "target (Load_count a rc) = Some a"
| "target (Store_count a rc c) = Some a"
| "target (Remember a) = Some a"
| "target (Check_owner a) = Some a"
| "target (Load_drop a) = Some a"
| "target (Store_drop a c) = Some a"
| "target (Test_drop a) = Some a"
| "target (Forget a) = Some a"
| "target (Clear_owner a) = Some a"
| "target (Clup_check a) = Some a"
| "target (Clup_owner a) = Some a"
| "target (Clup_count a) = Some a"
| "target (Release a) = Some a"

fun at_ok :: "pc \<Rightarrow> u32 \<Rightarrow> bool \<Rightarrow> clibmutx \<Rightarrow> bool" where
  "at_ok (Set_owner a rc) t h m \<longleftrightarrow> h \<and> (rc = 0 \<and> count m = 0 \<and> owner m = 0 \<or> rc = 8 \<and> owner m = t)"
| "at_ok (Load_count a rc) t h m \<longleftrightarrow> h \<and> owner m = t \<and> (rc = 0 \<longrightarrow> count m = 0)"
| "at_ok (Store_count a rc c) t h m \<longleftrightarrow> h \<and> owner m = t \<and> c = count m \<and> (rc = 0 \<longrightarrow> count m = 0)"
| "at_ok (Remember a) t h m \<longleftrightarrow> h \<and> owner m = t"
| "at_ok (Check_owner a) t h m \<longleftrightarrow> (h \<longleftrightarrow> owner m = t) \<and> (h \<longrightarrow> count m \<noteq> 0)"
| "at_ok (Load_drop a) t h m \<longleftrightarrow> h \<and> owner m = t \<and> count m \<noteq> 0"
| "at_ok (Store_drop a c) t h m \<longleftrightarrow> h \<and> owner m = t \<and> count m \<noteq> 0 \<and> c = count m"
| "at_ok (Test_drop a) t h m \<longleftrightarrow> h \<and> owner m = t"
| "at_ok (Forget a) t h m \<longleftrightarrow> h \<and> owner m = t \<and> count m = 0"
| "at_ok (Clear_owner a) t h m \<longleftrightarrow> h \<and> owner m = t \<and> count m = 0"
| "at_ok (Clup_check a) t h m \<longleftrightarrow> (h \<longleftrightarrow> owner m = t) \<and> (h \<longrightarrow> count m \<noteq> 0)"
| "at_ok (Clup_owner a) t h m \<longleftrightarrow> h \<and> owner m = t \<and> count m \<noteq> 0"
| "at_ok (Clup_count a) t h m \<longleftrightarrow> h \<and> owner m = 0"
| "at_ok (Release a) t h m \<longleftrightarrow> h \<and> owner m = 0 \<and> count m = 0"
| "at_ok _ t h m \<longleftrightarrow> (h \<longleftrightarrow> owner m = t)"

definition task_ok :: "pc \<Rightarrow> u32 \<Rightarrow> u32 \<Rightarrow> bool \<Rightarrow> clibmutx \<Rightarrow> bool" where
  "task_ok p t a h m \<longleftrightarrow> (if target p = Some a then at_ok p t h m else h \<longleftrightarrow> owner m = t)"

definition mutex_inv :: "'q users \<Rightarrow> 'q world \<Rightarrow> u32 \<Rightarrow> bool" where
  "mutex_inv users w a \<longleftrightarrow>
     (\<forall>t u. holds users (store w) t a \<longrightarrow> holds users (store w) u a \<longrightarrow> t = u) \<and>
     ((\<forall>t. \<not> holds users (store w) t a) \<longrightarrow> mutex w a = \<lparr>owner = 0, count = 0\<rparr>) \<and>
     (\<forall>t. t \<noteq> 0 \<longrightarrow> task_ok (at w t) t a (holds users (store w) t a) (mutex w a))"

definition mtx_inv :: "'q users \<Rightarrow> 'q world \<Rightarrow> bool" where
  "mtx_inv users w \<longleftrightarrow> at w 0 = Idle \<and> (\<forall>a. mutex_inv users w a)"

lemma mtx_inv_task:
  "mtx_inv users w \<Longrightarrow> t \<noteq> 0 \<Longrightarrow> task_ok (at w t) t a (holds users (store w) t a) (mutex w a)"
  by (simp add: mtx_inv_def mutex_inv_def)

lemma mtx_invD:
  assumes "mtx_inv users w" and "at w t \<noteq> Idle"
  shows "t \<noteq> 0" and "task_ok (at w t) t a (holds users (store w) t a) (mutex w a)"
proof -
  show "t \<noteq> 0" using assms by (cases "t = 0") (auto simp: mtx_inv_def)
  then show "task_ok (at w t) t a (holds users (store w) t a) (mutex w a)" by (rule mtx_inv_task [OF assms(1)])
qed

text \<open>A task that does not have the resource is not disturbed by what its holder writes.\<close>

lemma task_ok_other: "task_ok p u a False m \<Longrightarrow> owner m' \<noteq> u \<Longrightarrow> task_ok p u a False m'"
  by (cases p) (auto simp: task_ok_def)

lemma holds_write [simp]:
  "holds users (put_mutex a m s) t b = holds users s t b"
  "holds users (s\<lparr>arrays := x\<rparr>) t b = holds users s t b"
  by (simp_all add: holds_def)

text \<open>The three kinds of step: one that moves the task only, one that writes to a mutex, one that changes the queues.\<close>

lemma inv_move:
  assumes "mtx_inv users w" and "t \<noteq> 0" and "\<And>b. target (at w t) = Some b \<Longrightarrow> target p \<noteq> Some b \<Longrightarrow>
      holds users (store w) t b \<longleftrightarrow> owner (mutex w b) = t"
    and "\<And>b. target p = Some b \<Longrightarrow> at_ok p t (holds users (store w) t b) (mutex w b)"
  shows "mtx_inv users (goto t p w)"
proof -
  have "task_ok p t b (holds users (store w) t b) (mutex w b)" for b
  proof -
    have "task_ok (at w t) t b (holds users (store w) t b) (mutex w b)" using assms(1,2) by (simp add: mtx_inv_def mutex_inv_def)
    then show ?thesis using assms(3,4) [of b] by (auto simp: task_ok_def split: if_splits)
  qed
  then show ?thesis using assms(1,2) by (auto simp: mtx_inv_def mutex_inv_def)
qed

lemma inv_write:
  assumes "mtx_inv users w" and "t \<noteq> 0" and "holds users (store w) t a" and "owner m \<in> {0, t}"
    and "target (at w t) = Some a" and "target p = Some a \<or> target p = None"
    and "task_ok p t a True m"
  shows "mtx_inv users (goto t p (put_word a m w))"
proof -
  have u: "\<not> holds users (store w) u a" if "u \<noteq> t" for u
    using assms(1,3) that by (auto simp: mtx_inv_def mutex_inv_def)
  have ok: "task_ok (at w v) v b (holds users (store w) v b) (mutex w b)" if "v \<noteq> 0" for v b
    using assms(1) that by (simp add: mtx_inv_def mutex_inv_def)
  have "task_ok (((at w)(t := p)) v) v b (holds users (store w) v b) (((mutexes (store w))(a := m)) b)" if v: "v \<noteq> 0" for v b
  proof (cases "b = a")
    case True
    then show ?thesis
      using assms(3,4,7) task_ok_other [of "at w v" v a "mutex w a" m] ok [OF v, of a] u [of v] v by auto
  next
    case False
    then show ?thesis using ok [OF v, of b] assms(5,6) by (auto simp: task_ok_def split: if_splits)
  qed
  then show ?thesis using assms(1,2,3) by (auto simp: mtx_inv_def mutex_inv_def)
qed

lemma holds_granted:
  "users q = granted (users (queues s)) (lock_of (mtxname a)) t m \<Longrightarrow>
     holds users (s\<lparr>queues := q\<rparr>) u b \<longleftrightarrow> (if u = t \<and> b = a then m \<noteq> None else holds users s u b)"
  by (auto simp: holds_def granted_def)

lemma holds_same: "users q = users (queues s) \<Longrightarrow> holds users (s\<lparr>queues := q\<rparr>) u b = holds users s u b"
  by (simp add: holds_def)

lemma inv_same:
  assumes "mtx_inv users w" and "users q = users (queues (store w))"
  shows "mtx_inv users (enqueue q w)"
  using assms by (simp add: mtx_inv_def mutex_inv_def holds_same)

lemma grantable_free: "grantable us t Exclusive \<Longrightarrow> us t = None \<Longrightarrow> us u = None"
  by (cases "u = t"; cases "us u") (auto simp: grantable_def)

text \<open>The resource is given to a task that is in no call.\<close>

lemma inv_grant:
  assumes inv: "mtx_inv users w" and t: "t \<noteq> 0" "target (at w t) = None"
    and ans: "rc = 0 \<and> users (queues (store w)) (lock_of (mtxname a)) t = None \<and>
        grantable (users (queues (store w)) (lock_of (mtxname a))) t Exclusive \<and>
        users q = granted (users (queues (store w))) (lock_of (mtxname a)) t (Some Exclusive) \<or>
      rc = 8 \<and> users (queues (store w)) (lock_of (mtxname a)) t \<noteq> None \<and> users q = users (queues (store w))"
  shows "mtx_inv users (goto t (Set_owner a rc) (enqueue q w))"
  using ans
proof (elim disjE conjE)
  assume 8: "rc = 8" "users (queues (store w)) (lock_of (mtxname a)) t \<noteq> None" "users q = users (queues (store w))"
  let ?w = "enqueue q w"
  have h: "holds users (store ?w) t a" using 8 by (simp add: holds_def)
  have "mtx_inv users ?w" by (rule inv_same [OF inv 8(3)])
  moreover have "owner (mutex ?w a) = t"
    using calculation h t by (auto simp: mtx_inv_def mutex_inv_def task_ok_def)
  ultimately have "mtx_inv users (goto t (Set_owner a rc) ?w)" using h 8(1) t by (intro inv_move) auto
  then show ?thesis by simp
next
  assume 0: "rc = 0" "users (queues (store w)) (lock_of (mtxname a)) t = None"
    "grantable (users (queues (store w)) (lock_of (mtxname a))) t Exclusive"
    "users q = granted (users (queues (store w))) (lock_of (mtxname a)) t (Some Exclusive)"
  have none: "\<not> holds users (store w) u a" for u using grantable_free [OF 0(3,2)] by (simp add: holds_def)
  have m: "mutex w a = \<lparr>owner = 0, count = 0\<rparr>" using inv none by (auto simp: mtx_inv_def mutex_inv_def)
  note hg = holds_granted [OF 0(4)]
  have "mutex_inv users (goto t (Set_owner a rc) (enqueue q w)) b" for b
  proof (cases "b = a")
    case True
    have "task_ok (at w u) u a False \<lparr>owner = 0, count = 0\<rparr>" if "u \<noteq> 0" for u
      using mtx_inv_task [OF inv that, of a] none m by simp
    then show ?thesis using True none m 0(1) t by (auto simp: mutex_inv_def hg task_ok_def [of "Set_owner a 0"])
  next
    case False
    have "mutex_inv users w b" using inv by (simp add: mtx_inv_def)
    moreover have "task_ok (Set_owner a rc) t b h m" if "task_ok (at w t) t b h m" for h m using that False t(2) by (simp add: task_ok_def)
    ultimately show ?thesis using False by (simp add: mutex_inv_def hg)
  qed
  then show ?thesis using inv t by (simp add: mtx_inv_def)
qed

lemma inv_release:
  assumes inv: "mtx_inv users w" and pc: "at w t = Release a"
    and q: "users q = granted (users (queues (store w))) (lock_of (mtxname a)) t None"
  shows "mtx_inv users (goto t Idle (enqueue q w))"
proof -
  note ok = mtx_invD [OF inv, of t, unfolded pc, simplified]
  have t: "t \<noteq> 0" and h: "holds users (store w) t a" and m: "owner (mutex w a) = 0" "count (mutex w a) = 0"
    using ok(1) ok(2) [of a] by (auto simp: task_ok_def)
  have m': "mutex w a = \<lparr>owner = 0, count = 0\<rparr>" using m by (cases "mutex w a") simp
  note hg = holds_granted [OF q]
  have others: "\<not> holds users (store w) u a" if "u \<noteq> t" for u using inv h that by (auto simp: mtx_inv_def mutex_inv_def)
  have "mutex_inv users (goto t Idle (enqueue q w)) b" for b
  proof (cases "b = a")
    case True
    have "task_ok (at w u) u a False \<lparr>owner = 0, count = 0\<rparr>" if "u \<noteq> 0" "u \<noteq> t" for u
      using mtx_inv_task [OF inv that(1), of a] others [OF that(2)] m' by simp
    then show ?thesis using True m' t others by (auto simp: mutex_inv_def hg task_ok_def [of Idle])
  next
    case False
    have "mutex_inv users w b" using inv by (simp add: mtx_inv_def)
    moreover have "task_ok Idle t b h m" if "task_ok (at w t) t b h m" for h m using that False pc by (simp add: task_ok_def)
    ultimately show ?thesis using False by (simp add: mutex_inv_def hg)
  qed
  then show ?thesis using inv t by (simp add: mtx_inv_def)
qed

lemma inv_arrays: "mtx_inv users (w\<lparr>store := store w\<lparr>arrays := x\<rparr>\<rparr>) = mtx_inv users w"
  by (simp add: mtx_inv_def mutex_inv_def)

lemma mtx_inv_step:
  assumes ok: "enq_ok svc users" and inv: "mtx_inv users w" and st: "mtx_step svc getm crt t w w'"
  shows "mtx_inv users w'"
proof -
  note locks = enq_resource_locks [OF ok]
  note at = mtx_invD [OF inv, of t]
  show ?thesis
    using st
  proof cases
    case (lock_call a)
    then show ?thesis by (auto intro!: inv_move [OF inv])
  next
    case (lock_enq a rc q)
    then have "t \<noteq> 0" using at(1) by auto
    then show ?thesis
      unfolding lock_enq(1) using resource_locks.take_cases [OF locks _ _ lock_enq(3)] lock_enq(2)
      by (intro inv_grant [OF inv]) auto
  next
    case (try_got a rc q)
    then show ?thesis
      unfolding try_got(1) using resource_locks.try_cases [OF locks _ _ try_got(4)] try_got(2,3,5)
      by (intro inv_grant [OF inv]) auto
  next
    case (try_busy a rc q)
    then have "users q = users (queues (store w))" using resource_locks.try_cases [OF locks _ _ try_busy(4)] by auto
    then show ?thesis unfolding try_busy(1) by (rule inv_same [OF inv])
  next
    case (set_owner a rc)
    then show ?thesis unfolding set_owner(1) using at(1) at(2) [of a] by (intro inv_write [OF inv]) (auto simp: task_ok_def)
  next
    case (load_count a rc)
    then show ?thesis using at(1) at(2) [of a] by (auto simp: task_ok_def intro!: inv_move [OF inv])
  next
    case (store_count a rc c)
    then show ?thesis unfolding store_count(1) using at(1) at(2) [of a] by (intro inv_write [OF inv]) (auto simp: task_ok_def)
  next
    case (list_add a)
    then show ?thesis unfolding list_add(1) using inv at(1) at(2) [of a] by (intro inv_move) (auto simp: task_ok_def inv_arrays)
  next
    case (unlk_call a)
    then have "task_ok Idle t a (holds users (store w) t a) (mutex w a)" using mtx_inv_task [OF inv, of t a] by simp
    then show ?thesis using unlk_call by (auto simp: task_ok_def intro!: inv_move [OF inv])
  next
    case (unlk_owner a)
    then show ?thesis using at(1) at(2) [of a] by (auto simp: task_ok_def intro!: inv_move [OF inv])
  next
    case (unlk_load a)
    then show ?thesis using at(1) at(2) [of a] by (auto simp: task_ok_def intro!: inv_move [OF inv])
  next
    case (unlk_store a c)
    then show ?thesis unfolding unlk_store(1) using at(1) at(2) [of a] by (intro inv_write [OF inv]) (auto simp: task_ok_def)
  next
    case (unlk_test a)
    then show ?thesis using at(1) at(2) [of a] by (auto simp: task_ok_def intro!: inv_move [OF inv])
  next
    case (list_del a)
    then show ?thesis unfolding list_del(1) using inv at(1) at(2) [of a] by (intro inv_move) (auto simp: task_ok_def inv_arrays)
  next
    case (clear_owner a)
    then show ?thesis unfolding clear_owner(1) using at(1) at(2) [of a] by (intro inv_write [OF inv]) (auto simp: task_ok_def)
  next
    case (release a rc q)
    then have "users (queues (store w)) (lock_of (mtxname a)) t \<noteq> None" using at(2) [of a] by (simp add: task_ok_def holds_def)
    then have "users q = granted (users (queues (store w))) (lock_of (mtxname a)) t None"
      using unlock_res_answer [OF ok, of "mtxname a" "queues (store w)" t False] release(3) by auto
    then show ?thesis unfolding release(1) by (rule inv_release [OF inv release(2)])
  next
    case (clup_call a)
    then have "task_ok Idle t a (holds users (store w) t a) (mutex w a)" using mtx_inv_task [OF inv, of t a] by simp
    then show ?thesis using clup_call by (auto simp: task_ok_def intro!: inv_move [OF inv])
  next
    case (clup_check a)
    then show ?thesis using at(1) at(2) [of a] by (auto simp: task_ok_def intro!: inv_move [OF inv])
  next
    case (clup_owner a)
    then show ?thesis unfolding clup_owner(1) using at(1) at(2) [of a] by (intro inv_write [OF inv]) (auto simp: task_ok_def)
  next
    case (clup_count a)
    then show ?thesis unfolding clup_count(1) using at(1) at(2) [of a] by (intro inv_write [OF inv]) (auto simp: task_ok_def)
  qed
qed

lemma mtx_reach_inv:
  assumes "enq_ok svc users" and "mtx_reach svc users getm crt w"
  shows "mtx_inv users w"
  using assms(2)
proof (induction rule: mtx_reach.induct)
  case (init w)
  then show ?case by (auto simp: start_def mtx_inv_def mutex_inv_def task_ok_def)
next
  case (step w t w')
  then show ?case using mtx_inv_step [OF assms(1)] by blast
qed

text \<open>What the two words of a mutex say is what the queues say.\<close>

lemma held_holds: "mtx_inv users w \<Longrightarrow> t \<noteq> 0 \<Longrightarrow> owner (mutex w a) = t \<Longrightarrow> holds users (store w) t a"
  using mtx_inv_task [of users w t a] by (cases "at w t") (auto simp: task_ok_def split: if_splits)

lemma holds_unique: "mtx_inv users w \<Longrightarrow> holds users (store w) t a \<Longrightarrow> holds users (store w) u a \<Longrightarrow> t = u"
  by (auto simp: mtx_inv_def mutex_inv_def)

section \<open>The abstract lock\<close>

text \<open>A recursive lock: free, or owned by a task so many times.  The count is a word, so the last of 2 to the 32 locks in a row wraps it.\<close>

inductive lock_spec :: "u32 \<Rightarrow> (u32 \<times> nat) option \<Rightarrow> (u32 \<times> nat) option \<Rightarrow> bool" for t where
  acquire: "lock_spec t None (Some (t, 1))"
| relock: "n + 1 < 2 ^ 32 \<Longrightarrow> lock_spec t (Some (t, n)) (Some (t, n + 1))"
| wrapped: "n + 1 = 2 ^ 32 \<Longrightarrow> lock_spec t (Some (t, n)) None"
| unlock: "1 < n \<Longrightarrow> lock_spec t (Some (t, n)) (Some (t, n - 1))"
| unlock_last: "lock_spec t (Some (t, 1)) None"
| cleanup: "lock_spec t (Some (t, n)) None"

definition abs_mutex :: "clibmutx \<Rightarrow> (u32 \<times> nat) option" where
  "abs_mutex m = (if count m = 0 \<or> owner m = 0 then None else Some (owner m, unat (count m)))"

lemma abs_count_up:
  assumes "owner m = t" and "t \<noteq> 0"
  shows "lock_spec t (abs_mutex m) (abs_mutex (m\<lparr>count := count m + 1\<rparr>))"
proof (cases "count m = 0")
  case True
  then show ?thesis using assms by (simp add: abs_mutex_def lock_spec.acquire [simplified])
next
  case nz: False
  show ?thesis
  proof (cases "unat (count m) + 1 < 2 ^ 32")
    case True
    then have "unat (count m + 1) = unat (count m) + 1" by (subst unat32_add) simp_all
    moreover have "count m + 1 \<noteq> 0" using calculation by (metis Suc_eq_plus1 nat.distinct(1) unat_0)
    ultimately show ?thesis using lock_spec.relock [OF True, of t] assms nz by (simp add: abs_mutex_def)
  next
    case False
    then have e: "unat (count m) + 1 = 2 ^ 32" using unat32_lt [of "count m"] by (simp del: unat32_lt)
    then have "unat (count m + 1) = 0" by (simp add: unat_word_ariths)
    then have "count m + 1 = 0" by (simp only: unat_eq_zero)
    then show ?thesis using lock_spec.wrapped [OF e, of t] assms nz by (simp add: abs_mutex_def)
  qed
qed

lemma abs_count_down:
  assumes "owner m = t" and "t \<noteq> 0" and "count m \<noteq> 0"
  shows "lock_spec t (abs_mutex m) (abs_mutex (m\<lparr>count := count m - 1\<rparr>))"
proof (cases "count m = 1")
  case True
  then show ?thesis using assms lock_spec.unlock_last [of t] by (simp add: abs_mutex_def)
next
  case False
  have pos: "0 < unat (count m)" using assms(3) by (simp add: unat_gt_0)
  have "unat (count m) \<noteq> 1" using False by (metis unat_1 word_unat_eq_iff)
  then have "1 < unat (count m)" "unat (count m - 1) = unat (count m) - 1" using pos by (simp_all add: unat32_sub)
  moreover have "count m - 1 \<noteq> 0" using False by simp
  ultimately show ?thesis using lock_spec.unlock [of "unat (count m)" t] assms by (simp add: abs_mutex_def)
qed

text \<open>What a step writes, seen as the abstract lock.\<close>

definition spec_step :: "u32 \<Rightarrow> 'q world \<Rightarrow> 'q world \<Rightarrow> bool" where
  "spec_step t w w' \<longleftrightarrow>
     (\<forall>a. abs_mutex (mutex w' a) = abs_mutex (mutex w a)) \<or>
     (\<exists>a. lock_spec t (abs_mutex (mutex w a)) (abs_mutex (mutex w' a)) \<and> (\<forall>b. b \<noteq> a \<longrightarrow> mutex w' b = mutex w b))"

lemma spec_stepI:
  "mutexes (store w') = (mutexes (store w))(a := m) \<Longrightarrow>
     abs_mutex m = abs_mutex (mutex w a) \<or> lock_spec t (abs_mutex (mutex w a)) (abs_mutex m) \<Longrightarrow> spec_step t w w'"
  by (auto simp: spec_step_def)

lemma spec_step_same: "mutexes (store w') = mutexes (store w) \<Longrightarrow> spec_step t w w'"
  by (simp add: spec_step_def)

lemma mtx_step_spec:
  assumes inv: "mtx_inv users w" and st: "mtx_step svc getm crt t w w'"
  shows "spec_step t w w'"
proof -
  note at = mtx_invD [OF inv, of t]
  show ?thesis
    using st
  proof cases
    case (set_owner a rc)
    then show ?thesis using at(2) [of a] by (intro spec_stepI [of _ _ a]) (auto simp: task_ok_def abs_mutex_def)
  next
    case (store_count a rc c)
    then show ?thesis using at(1) at(2) [of a] abs_count_up [of "mutex w a" t]
      by (intro spec_stepI [of _ _ a]) (auto simp: task_ok_def)
  next
    case (unlk_store a c)
    then show ?thesis using at(1) at(2) [of a] abs_count_down [of "mutex w a" t]
      by (intro spec_stepI [of _ _ a]) (auto simp: task_ok_def)
  next
    case (clear_owner a)
    then show ?thesis using at(2) [of a] by (intro spec_stepI [of _ _ a]) (auto simp: task_ok_def abs_mutex_def)
  next
    case (clup_owner a)
    then show ?thesis using at(1) at(2) [of a] lock_spec.cleanup [of t "unat (count (mutex w a))"]
      by (intro spec_stepI [of _ _ a]) (auto simp: task_ok_def abs_mutex_def)
  next
    case (clup_count a)
    then show ?thesis using at(2) [of a] by (intro spec_stepI [of _ _ a]) (auto simp: task_ok_def abs_mutex_def)
  qed (simp_all add: spec_step_same)
qed

section \<open>Progress\<close>

fun remaining :: "pc \<Rightarrow> nat" where
  "remaining Idle = 8"
| "remaining (Wait a) = 8"
| "remaining (Set_owner a rc) = 4"
| "remaining (Load_count a rc) = 3"
| "remaining (Store_count a rc c) = 2"
| "remaining (Remember a) = 1"
| "remaining (Check_owner a) = 7"
| "remaining (Load_drop a) = 6"
| "remaining (Store_drop a c) = 5"
| "remaining (Test_drop a) = 4"
| "remaining (Forget a) = 3"
| "remaining (Clear_owner a) = 2"
| "remaining (Clup_check a) = 4"
| "remaining (Clup_owner a) = 3"
| "remaining (Clup_count a) = 2"
| "remaining (Release a) = 1"

fun outside :: "pc \<Rightarrow> bool" where
  "outside Idle = True"
| "outside (Wait a) = True"
| "outside _ = False"

lemma own_step: "mtx_step svc getm crt t w w' \<Longrightarrow> remaining (at w' t) < remaining (at w t) \<or> outside (at w' t)"
  by (erule mtx_step.cases) auto

lemma other_step: "mtx_step svc getm crt u w w' \<Longrightarrow> u \<noteq> t \<Longrightarrow> at w' t = at w t"
  by (erule mtx_step.cases) auto

lemma other_rank: "mtx_step svc getm crt u w w' \<Longrightarrow> u \<noteq> t \<Longrightarrow> remaining (at w' t) \<le> remaining (at w t) \<or> outside (at w' t)"
  using other_step by (metis order_refl)

interpretation calls: ranked "mtx_step svc getm crt" "\<lambda>w. True" "\<lambda>t w. remaining (at w t)" "\<lambda>t w w'. outside (at w' t)"
  for svc getm crt
  by unfold_locales (rule TrueI, erule own_step, erule (1) other_rank)

lemmas local_steps = mtx_step.set_owner mtx_step.load_count mtx_step.store_count mtx_step.list_add mtx_step.unlk_owner
  mtx_step.unlk_load mtx_step.unlk_store mtx_step.unlk_test mtx_step.list_del mtx_step.clear_owner mtx_step.clup_check
  mtx_step.clup_owner mtx_step.clup_count

lemma call_enabled:
  assumes ok: "enq_ok svc users" and inv: "mtx_inv users w" and out: "\<not> outside (at w t)"
  shows "\<exists>w'. mtx_step svc getm crt t w w'"
proof (cases "\<exists>a. at w t = Release a")
  case True
  then obtain a where a: "at w t = Release a" by blast
  have "\<exists>rc q. unlock_res svc t (mtxname a) False (queues (store w)) = Some (rc, q)"
    using unlock_res_answer [OF ok, of "mtxname a" "queues (store w)" t False] by (auto split: if_splits)
  then show ?thesis using mtx_step.release [OF a] by blast
next
  case False
  then show ?thesis using out
    by (cases "at w t") (simp_all, (drule local_steps, erule exI)+)
qed

lemma wait_enabled:
  assumes ok: "enq_ok svc users" and w: "at w t = Wait a" and free: "\<And>u. u \<noteq> t \<Longrightarrow> \<not> holds users (store w) u a"
  shows "\<exists>w'. mtx_step svc getm crt t w w'"
proof -
  have "grantable (users (queues (store w)) (lock_of (mtxname a))) t Exclusive"
    using free by (auto simp: grantable_def holds_def)
  then have "\<exists>rc q. lock_res svc t (mtxname a) False (queues (store w)) = Some (rc, q)"
    using lock_res_answer [OF ok, of "mtxname a" False t "queues (store w)"] by (auto simp: answers_as_def Let_def split: if_splits)
  then show ?thesis using mtx_step.lock_enq [OF w] by blast
qed

section \<open>A call that runs alone\<close>

text \<open>The steps of one task, with no other in between, are the functions as the code has them.\<close>

abbreviation alone :: "'q services \<Rightarrow> getm \<Rightarrow> (u32 \<Rightarrow> nat) \<Rightarrow> u32 \<Rightarrow> 'q world \<Rightarrow> 'q world \<Rightarrow> bool" where
  "alone svc getm crt t \<equiv> (mtx_step svc getm crt t)\<^sup>*\<^sup>*"

lemma steps2: "r x y \<Longrightarrow> r y z \<Longrightarrow> r\<^sup>*\<^sup>* x z"
  by (meson converse_rtranclp_into_rtranclp r_into_rtranclp)

lemma steps3: "r x y \<Longrightarrow> r y z \<Longrightarrow> r z v \<Longrightarrow> r\<^sup>*\<^sup>* x v"
  by (meson converse_rtranclp_into_rtranclp r_into_rtranclp)

text \<open>One step of each kind, on states written out.\<close>

lemma set_owner_at:
  "mtx_step svc getm crt t \<lparr>store = s, at = p(t := Set_owner a rc)\<rparr>
     \<lparr>store = put_mutex a (mutexes s a\<lparr>owner := t\<rparr>) s, at = p(t := Load_count a rc)\<rparr>"
  using mtx_step.set_owner [of "\<lparr>store = s, at = p(t := Set_owner a rc)\<rparr>" t a rc svc getm crt] by simp

lemma load_count_at:
  "mtx_step svc getm crt t \<lparr>store = s, at = p(t := Load_count a rc)\<rparr>
     \<lparr>store = s, at = p(t := Store_count a rc (count (mutexes s a)))\<rparr>"
  using mtx_step.load_count [of "\<lparr>store = s, at = p(t := Load_count a rc)\<rparr>" t a rc svc getm crt] by simp

lemma store_count_at:
  "mtx_step svc getm crt t \<lparr>store = s, at = p(t := Store_count a rc c)\<rparr>
     \<lparr>store = put_mutex a (mutexes s a\<lparr>count := c + 1\<rparr>) s, at = p(t := if rc = 0 then Remember a else Idle)\<rparr>"
  using mtx_step.store_count [of "\<lparr>store = s, at = p(t := Store_count a rc c)\<rparr>" t a rc c svc getm crt] by (simp split del: if_split)

lemma list_add_at:
  "mtx_step svc getm crt t \<lparr>store = s, at = p(t := Remember a)\<rparr>
     \<lparr>store = s\<lparr>arrays := remember getm (crt t) a (arrays s)\<rparr>, at = p(t := Idle)\<rparr>"
  using mtx_step.list_add [of "\<lparr>store = s, at = p(t := Remember a)\<rparr>" t a svc getm crt] by simp

lemma unlk_owner_at:
  "owner (mutexes s a) = t \<Longrightarrow> mtx_step svc getm crt t \<lparr>store = s, at = p(t := Check_owner a)\<rparr> \<lparr>store = s, at = p(t := Load_drop a)\<rparr>"
  using mtx_step.unlk_owner [of "\<lparr>store = s, at = p(t := Check_owner a)\<rparr>" t a svc getm crt] by simp

lemma unlk_load_at:
  "mtx_step svc getm crt t \<lparr>store = s, at = p(t := Load_drop a)\<rparr> \<lparr>store = s, at = p(t := Store_drop a (count (mutexes s a)))\<rparr>"
  using mtx_step.unlk_load [of "\<lparr>store = s, at = p(t := Load_drop a)\<rparr>" t a svc getm crt] by simp

lemma unlk_store_at:
  "mtx_step svc getm crt t \<lparr>store = s, at = p(t := Store_drop a c)\<rparr>
     \<lparr>store = put_mutex a (mutexes s a\<lparr>count := c - 1\<rparr>) s, at = p(t := Test_drop a)\<rparr>"
  using mtx_step.unlk_store [of "\<lparr>store = s, at = p(t := Store_drop a c)\<rparr>" t a c svc getm crt] by simp

lemma unlk_test_at:
  "mtx_step svc getm crt t \<lparr>store = s, at = p(t := Test_drop a)\<rparr>
     \<lparr>store = s, at = p(t := if count (mutexes s a) = 0 then Forget a else Idle)\<rparr>"
  using mtx_step.unlk_test [of "\<lparr>store = s, at = p(t := Test_drop a)\<rparr>" t a svc getm crt] by (simp split del: if_split)

lemma list_del_at:
  "mtx_step svc getm crt t \<lparr>store = s, at = p(t := Forget a)\<rparr>
     \<lparr>store = s\<lparr>arrays := forget (crt t) a (arrays s)\<rparr>, at = p(t := Clear_owner a)\<rparr>"
  using mtx_step.list_del [of "\<lparr>store = s, at = p(t := Forget a)\<rparr>" t a svc getm crt] by simp

lemma clear_owner_at:
  "mtx_step svc getm crt t \<lparr>store = s, at = p(t := Clear_owner a)\<rparr>
     \<lparr>store = put_mutex a (mutexes s a\<lparr>owner := 0\<rparr>) s, at = p(t := Release a)\<rparr>"
  using mtx_step.clear_owner [of "\<lparr>store = s, at = p(t := Clear_owner a)\<rparr>" t a svc getm crt] by simp

lemma release_at:
  "unlock_res svc t (mtxname a) False (queues s) = Some (rc, q) \<Longrightarrow>
     mtx_step svc getm crt t \<lparr>store = s, at = p(t := Release a)\<rparr> \<lparr>store = s\<lparr>queues := q\<rparr>, at = p(t := Idle)\<rparr>"
  using mtx_step.release [of "\<lparr>store = s, at = p(t := Release a)\<rparr>" t a svc rc q getm crt] by simp

lemma alone_locked:
  "alone svc getm crt t \<lparr>store = s, at = p(t := Set_owner a rc)\<rparr> \<lparr>store = locked getm crt t a rc s, at = p(t := Idle)\<rparr>"
proof -
  let ?s1 = "put_mutex a (mutexes s a\<lparr>owner := t\<rparr>) s"
  let ?s2 = "put_mutex a (mutexes ?s1 a\<lparr>count := count (mutexes ?s1 a) + 1\<rparr>) ?s1"
  have *: "alone svc getm crt t \<lparr>store = s, at = p(t := Set_owner a rc)\<rparr> \<lparr>store = ?s2, at = p(t := if rc = 0 then Remember a else Idle)\<rparr>"
    by (rule steps3 [of "mtx_step svc getm crt t", OF set_owner_at [where p = p] load_count_at [where p = p] store_count_at [where p = p]])
  show ?thesis
  proof (cases "rc = 0")
    case True
    then have "locked getm crt t a rc s = ?s2\<lparr>arrays := remember getm (crt t) a (arrays ?s2)\<rparr>" by (simp only: locked_def Let_def if_True simp_thms)
    then show ?thesis using rtranclp.rtrancl_into_rtrancl [OF * [unfolded if_P [OF True]] list_add_at [where p = p]] by (simp only:)
  next
    case False
    then have "locked getm crt t a rc s = ?s2" by (simp only: locked_def Let_def if_False simp_thms)
    then show ?thesis using * [unfolded if_not_P [OF False]] by (simp only:)
  qed
qed

lemma alone_lock:
  assumes "t \<noteq> 0" and "p t = Idle" and "mtxlock svc getm crt t a s = Some s'"
  shows "alone svc getm crt t \<lparr>store = s, at = p\<rparr> \<lparr>store = s', at = p(t := Idle)\<rparr>"
proof -
  obtain rc q where r: "lock_res svc t (mtxname a) False (queues s) = Some (rc, q)" "s' = locked getm crt t a rc (s\<lparr>queues := q\<rparr>)"
    using assms(3) by (auto simp: mtxlock_def split: option.splits)
  have 1: "mtx_step svc getm crt t \<lparr>store = s, at = p\<rparr> \<lparr>store = s, at = p(t := Wait a)\<rparr>"
    using mtx_step.lock_call [of t "\<lparr>store = s, at = p\<rparr>" svc getm crt a] assms(1,2) by simp
  have 2: "mtx_step svc getm crt t \<lparr>store = s, at = p(t := Wait a)\<rparr> \<lparr>store = s\<lparr>queues := q\<rparr>, at = p(t := Set_owner a rc)\<rparr>"
    using mtx_step.lock_enq [of "\<lparr>store = s, at = p(t := Wait a)\<rparr>" t a svc rc q getm crt] r(1) by simp
  show ?thesis unfolding r(2)
    by (rule rtranclp_trans [OF steps2 [of "mtx_step svc getm crt t", OF 1 2] alone_locked])
qed

lemma alone_try:
  assumes "t \<noteq> 0" and "p t = Idle" and "mtxtry svc getm crt t a s = Some (rc', s')"
  shows "alone svc getm crt t \<lparr>store = s, at = p\<rparr> \<lparr>store = s', at = p(t := Idle)\<rparr>"
proof -
  obtain rc q where r: "trylock_res svc t (mtxname a) False (queues s) = Some (rc, q)"
      "s' = (if rc = 0 \<or> rc = 8 then locked getm crt t a rc (s\<lparr>queues := q\<rparr>) else s\<lparr>queues := q\<rparr>)"
    using assms(3) by (auto simp: mtxtry_def split: option.splits if_splits)
  show ?thesis
  proof (cases "rc = 0 \<or> rc = 8")
    case True
    have 1: "mtx_step svc getm crt t \<lparr>store = s, at = p\<rparr> \<lparr>store = s\<lparr>queues := q\<rparr>, at = p(t := Set_owner a rc)\<rparr>"
      using mtx_step.try_got [of t "\<lparr>store = s, at = p\<rparr>" svc a rc q getm crt] r(1) assms(1,2) True by simp
    show ?thesis unfolding r(2) if_P [OF True]
      by (rule converse_rtranclp_into_rtranclp [of "mtx_step svc getm crt t", OF 1 alone_locked])
  next
    case False
    then show ?thesis using mtx_step.try_busy [of t "\<lparr>store = s, at = p\<rparr>" svc a rc q getm crt] r assms(1,2) by (auto simp: fun_upd_idem)
  qed
qed

lemma alone_unlk:
  assumes "t \<noteq> 0" and "p t = Idle" and "mtxunlk svc crt t a s = Some s'"
  shows "alone svc getm crt t \<lparr>store = s, at = p\<rparr> \<lparr>store = s', at = p(t := Idle)\<rparr>"
proof -
  have call: "mtx_step svc getm crt t \<lparr>store = s, at = p\<rparr> \<lparr>store = s, at = p(t := if count (mutexes s a) \<noteq> 0 then Check_owner a else Idle)\<rparr>"
    using mtx_step.unlk_call [of t "\<lparr>store = s, at = p\<rparr>" svc getm crt a] assms(1,2) by (simp split del: if_split)
  show ?thesis
  proof (cases "mtxheld t (mutexes s a)")
    case False
    then have s': "s' = s" using assms(3) by (simp add: mtxunlk_def)
    show ?thesis
    proof (cases "count (mutexes s a) = 0")
      case True
      then show ?thesis using call s' by auto
    next
      case nz: False
      then have "owner (mutexes s a) \<noteq> t" using False by (simp add: mtxheld_def)
      then have "mtx_step svc getm crt t \<lparr>store = s, at = p(t := Check_owner a)\<rparr> \<lparr>store = s, at = p(t := Idle)\<rparr>"
        using mtx_step.unlk_owner [of "\<lparr>store = s, at = p(t := Check_owner a)\<rparr>" t a svc getm crt] by simp
      then show ?thesis using steps2 [of "mtx_step svc getm crt t", OF call [unfolded if_P [OF nz]]] s' by blast
    qed
  next
    case True
    then have h: "count (mutexes s a) \<noteq> 0" "owner (mutexes s a) = t" by (simp_all add: mtxheld_def)
    let ?s1 = "put_mutex a (mutexes s a\<lparr>count := count (mutexes s a) - 1\<rparr>) s"
    have c2: "alone svc getm crt t \<lparr>store = s, at = p\<rparr> \<lparr>store = s, at = p(t := Load_drop a)\<rparr>"
      by (rule steps2 [of "mtx_step svc getm crt t", OF call [unfolded if_P [OF h(1)]] unlk_owner_at [where p = p, OF h(2)]])
    have "alone svc getm crt t \<lparr>store = s, at = p(t := Load_drop a)\<rparr>
        \<lparr>store = ?s1, at = p(t := if count (mutexes ?s1 a) = 0 then Forget a else Idle)\<rparr>"
      by (rule steps3 [of "mtx_step svc getm crt t", OF unlk_load_at [where p = p] unlk_store_at [where p = p] unlk_test_at [where p = p]])
    note c3 = rtranclp_trans [OF c2 this]
    show ?thesis
    proof (cases "count (mutexes ?s1 a) = 0")
      case False
      then have "s' = ?s1" using assms(3) True by (simp add: mtxunlk_def)
      then show ?thesis using c3 [unfolded if_not_P [OF False]] by (simp only:)
    next
      case zero: True
      let ?s2 = "?s1\<lparr>arrays := forget (crt t) a (arrays ?s1)\<rparr>"
      let ?s3 = "put_mutex a (mutexes ?s2 a\<lparr>owner := 0\<rparr>) ?s2"
      obtain rc q where q: "unlock_res svc t (mtxname a) False (queues ?s3) = Some (rc, q)" "s' = ?s3\<lparr>queues := q\<rparr>"
        using assms(3) True zero by (auto simp: mtxunlk_def Let_def split: option.splits)
      show ?thesis unfolding q(2)
        by (rule rtranclp_trans [OF c3 [unfolded if_P [OF zero]] steps3 [of "mtx_step svc getm crt t", OF list_del_at [where p = p] clear_owner_at [where p = p] release_at [where p = p, OF q(1)]]])
    qed
  qed
qed

section \<open>A program with one task\<close>

lemma alone_reach: "alone svc getm crt t w w' \<Longrightarrow> mtx_reach svc users getm crt w \<Longrightarrow> mtx_reach svc users getm crt w'"
  by (induction rule: rtranclp_induct) (auto intro: mtx_reach.step)

lemma others_hold:
  assumes ok: "enq_ok svc users" and st: "mtx_step svc getm crt t w w'" and u: "u \<noteq> t"
  shows "holds users (store w') u a = holds users (store w) u a"
proof -
  note locks = enq_resource_locks [OF ok]
  have same: "holds users (store w\<lparr>queues := q\<rparr>) u a = holds users (store w) u a"
    if "users q = users (queues (store w)) \<or> (\<exists>b m. users q = granted (users (queues (store w))) (lock_of (mtxname b)) t m)" for q
    using that u by (auto simp: holds_same holds_granted)
  show ?thesis
    using st
  proof cases
    case (lock_enq b rc q)
    then show ?thesis using same [of q] resource_locks.take_cases [OF locks _ _ lock_enq(3)] by auto
  next
    case (try_got b rc q)
    then show ?thesis using same [of q] resource_locks.try_cases [OF locks _ _ try_got(4)] by auto
  next
    case (try_busy b rc q)
    then show ?thesis using same [of q] resource_locks.try_cases [OF locks _ _ try_busy(4)] by auto
  next
    case (release b rc q)
    then show ?thesis using same [of q] unlock_res_answer [OF ok, of "mtxname b" "queues (store w)" t False] by (auto split: if_splits)
  qed simp_all
qed

definition no_world :: "table world" where
  "no_world = \<lparr>store = no_mutexes, at = (\<lambda>t. Idle)\<rparr>"

abbreviation table_reach :: "table world \<Rightarrow> bool" where
  "table_reach \<equiv> mtx_reach table_svc (\<lambda>q. q) bump (\<lambda>t. 4)"

lemma no_world_reach: "table_reach no_world"
  by (rule mtx_reach.init) (simp add: start_def no_world_def no_mutexes_def holds_def)

lemma held_world:
  obtains s where "mtxlock table_svc bump (\<lambda>t. 4) 77 0x1000 no_mutexes = Some s"
    and "mutexes s 0x1000 = \<lparr>owner = 77, count = 1\<rparr>" and "table_reach \<lparr>store = s, at = (\<lambda>t. Idle)\<rparr>"
proof -
  obtain s where s: "mtxlock table_svc bump (\<lambda>t. 4) 77 0x1000 no_mutexes = Some s"
      "locked_times (\<lambda>q. q) bump (\<lambda>t. 4) 77 0x1000 1 no_mutexes s"
    using lock_first [OF table_ok, of no_mutexes "0x1000" bump "\<lambda>t. 4" 77] by (auto simp: no_mutexes_def holds_def)
  have "alone table_svc bump (\<lambda>t. 4) 77 no_world \<lparr>store = s, at = (\<lambda>t. Idle)\<rparr>"
    using alone_lock [of 77 "\<lambda>t. Idle", OF _ _ s(1)] by (simp add: no_world_def fun_upd_idem)
  from alone_reach [OF this no_world_reach] s show thesis by (intro that) (simp_all add: locked_times_def)
qed

text \<open>Task 77 alone never stops.\<close>

lemma solo_run: "\<exists>r. r 0 = no_world \<and> run (mtx_step table_svc bump (\<lambda>t. 4)) (\<lambda>i. 77) r"
proof -
  let ?P = "\<lambda>w. table_reach w \<and> (\<forall>u a. u \<noteq> 77 \<longrightarrow> \<not> holds (\<lambda>q. q) (store w) u a)"
  have start: "?P no_world" using no_world_reach by (simp add: no_world_def no_mutexes_def holds_def)
  have "\<exists>w'. ?P w' \<and> mtx_step table_svc bump (\<lambda>t. 4) 77 w w'" if w: "?P w" for w
  proof -
    have "\<exists>w'. mtx_step table_svc bump (\<lambda>t. 4) 77 w w'"
    proof (cases "outside (at w 77)")
      case True
      then consider "at w 77 = Idle" | a where "at w 77 = Wait a" by (cases "at w 77") auto
      then show ?thesis
      proof cases
        case 1
        then show ?thesis using mtx_step.lock_call [of 77 w table_svc bump "\<lambda>t. 4" 0] by auto
      next
        case (2 a)
        show ?thesis by (rule wait_enabled [OF table_ok 2]) (use w in blast)
      qed
    qed (use call_enabled [OF table_ok mtx_reach_inv [OF table_ok]] w in blast)
    then show ?thesis using w others_hold [OF table_ok] by (meson mtx_reach.step)
  qed
  then have "\<exists>r. r 0 = no_world \<and> (\<forall>n. ?P (r n) \<and> mtx_step table_svc bump (\<lambda>t. 4) 77 (r n) (r (Suc n)))"
    using start dependent_nat_choice [of "\<lambda>n w. ?P w \<and> (n = 0 \<longrightarrow> w = no_world)" "\<lambda>n w w'. mtx_step table_svc bump (\<lambda>t. 4) 77 w w'"] by auto
  then show ?thesis by (auto simp: run_def)
qed

section \<open>Properties\<close>










text \<open>
  C32: only a holder makes a task wait.  In every reachable state a task inside a call can take its next step, and so can one that
  waits for a mutex, unless another task has control of it; that task then is its owner in the mutex itself, or is
  in the middle of a call that takes it or gives it up.
\<close>

theorem mutex_waits_for_holder:
  assumes "enq_ok svc users" and "mtx_reach svc users getm crt w" and "at w t \<noteq> Idle"
  shows "(\<exists>w'. mtx_step svc getm crt t w w') \<or>
    (\<exists>a u. at w t = Wait a \<and> u \<noteq> t \<and> holds users (store w) u a \<and>
      (u \<noteq> 0 \<longrightarrow> owner (mutex w a) = u \<or> target (at w u) = Some a))"
proof (cases "outside (at w t)")
  case False
  then show ?thesis using call_enabled [OF assms(1) mtx_reach_inv [OF assms(1,2)]] by blast
next
  case True
  then obtain a where a: "at w t = Wait a" using assms(3) by (cases "at w t") auto
  show ?thesis
  proof (cases "\<exists>u. u \<noteq> t \<and> holds users (store w) u a")
    case False
    then show ?thesis using wait_enabled [OF assms(1) a] by blast
  next
    case True
    then obtain u where u: "u \<noteq> t" "holds users (store w) u a" by blast
    have "owner (mutex w a) = u \<or> target (at w u) = Some a" if "u \<noteq> 0"
      using mtx_inv_task [OF mtx_reach_inv [OF assms(1,2)] that, of a] u(2) by (auto simp: task_ok_def split: if_splits)
    then show ?thesis using a u by blast
  qed
qed

theorem mutex_waits_for_holder_witness:
  "\<exists>w'. mtx_step table_svc bump (\<lambda>t. 4) 77 (goto 77 (Wait 0x1000) no_world) w'"
proof -
  have "table_reach (goto 77 (Wait 0x1000) no_world)"
    by (rule mtx_reach.step [OF no_world_reach]) (rule mtx_step.lock_call, simp_all add: no_world_def)
  from mutex_waits_for_holder [OF table_ok this, of 77] show ?thesis by (auto simp: no_world_def no_mutexes_def holds_def)
qed


text \<open>
  The steps are the functions.  What \<^verbatim>\<open>mtxlock()\<close>, \<^verbatim>\<open>mtxtry()\<close> and \<^verbatim>\<open>mtxunlk()\<close> do to the storage when they return is what their
  steps do when the task runs through them with no other in between.
\<close>

theorem mutex_calls_as_steps:
  assumes "t \<noteq> 0" and "p t = Idle"
    and "mtxlock svc getm crt t a s = Some s' \<or> mtxtry svc getm crt t a s = Some (rc, s') \<or> mtxunlk svc crt t a s = Some s'"
  shows "(mtx_step svc getm crt t)\<^sup>*\<^sup>* \<lparr>store = s, at = p\<rparr> \<lparr>store = s', at = p(t := Idle)\<rparr>"
  using assms(3) alone_lock [of t p, OF assms(1,2)] alone_try [of t p, OF assms(1,2)] alone_unlk [of t p, OF assms(1,2)] by blast

theorem mutex_calls_as_steps_witness:
  "\<exists>s. mtxlock table_svc bump (\<lambda>t. 4) 77 0x1000 no_mutexes = Some s \<and>
    (mtx_step table_svc bump (\<lambda>t. 4) 77)\<^sup>*\<^sup>* no_world \<lparr>store = s, at = (\<lambda>t. Idle)(77 := Idle)\<rparr>"
proof -
  obtain s where s: "mtxlock table_svc bump (\<lambda>t. 4) 77 0x1000 no_mutexes = Some s" by (rule held_world)
  then show ?thesis
    using mutex_calls_as_steps [of 77 "\<lambda>t. Idle" table_svc bump "\<lambda>t. 4" "0x1000" no_mutexes s 0] by (simp add: no_world_def)
qed


end
