(* ===== verification/Env.thy ===== *)
theory Env
  imports Enq Cstring
begin

text \<open>
  The environment variables (\<^verbatim>\<open>src/mvs/env\<close>, \<^verbatim>\<open>src/stdlib/setenv.c\<close>, \<^verbatim>\<open>putenv.c\<close>, \<^verbatim>\<open>unsetenv.c\<close>): the array \<^verbatim>\<open>grtenv\<close> of the process with its
  empty slots, guarded by the lock on its address, and loaded from a data set at its first use.  Strings are the
  lists of their bytes, \<open>None\<close> the null pointer.  The dynamic array is the list of its items, what the array operations are
  shown to keep; whether there is storage for a new variable and for a longer array is a parameter, and so are the
  records of the data sets.
\<close>

section \<open>Definitions\<close>

record envvar =
  ename :: "byte list option"
  evalue :: "byte list"

record 'q grt =
  equeues :: 'q
  grtenv :: "envvar option list"
  envlazy :: bool
  envtry :: bool
  envdone :: bool

record 'q system =
  services_of :: "'q services"
  tcb_of :: u32
  env_at :: u32
  flag_at :: u32
  storage_for :: "nat \<Rightarrow> bool"
  can_grow :: "envvar option list \<Rightarrow> bool"
  dd_lines :: "string \<Rightarrow> byte list list option"

definition SPACE :: byte where "SPACE = 0x40"
definition EQUALS :: byte where "EQUALS = 0x7E"
definition STAR :: byte where "STAR = 0x5C"
definition HASH :: byte where "HASH = 0x7B"

subsection \<open>Looking up\<close>

definition same_name :: "bool \<Rightarrow> byte list \<Rightarrow> byte list \<Rightarrow> bool" where
  "same_name nocase a b = (if nocase then cmp3 (map tolow_byte a) (map tolow_byte b) = 0 else cmp3 a b = 0)"

fun find_from :: "envvar option list \<Rightarrow> byte list \<Rightarrow> bool \<Rightarrow> int \<Rightarrow> int \<Rightarrow> byte list option \<times> int" where
  "find_from [] name nocase i hole = (None, hole)"
| "find_from (e # es) name nocase i hole =
     (case e of
        None \<Rightarrow> find_from es name nocase (i + 1) (if hole < 0 then i else hole)
      | Some v \<Rightarrow>
          (case ename v of
             None \<Rightarrow> find_from es name nocase (i + 1) hole
           | Some n \<Rightarrow> if same_name nocase n name then (Some (evalue v), i) else find_from es name nocase (i + 1) hole))"

definition findenv :: "envvar option list \<Rightarrow> byte list option \<Rightarrow> bool \<Rightarrow> byte list option \<times> int" where
  "findenv slots name nocase = (case name of None \<Rightarrow> (None, - 1) | Some n \<Rightarrow> find_from slots n nocase 0 (- 1))"

subsection \<open>Locks around an access\<close>

definition lock_env :: "'q system \<Rightarrow> 'q grt \<Rightarrow> 'q grt option" where
  "lock_env sys g =
     (case lock (services_of sys) (tcb_of sys) (env_at sys) False (equeues g) of None \<Rightarrow> None | Some (rc, q) \<Rightarrow> Some (g\<lparr>equeues := q\<rparr>))"

definition unlock_env :: "'q system \<Rightarrow> 'q grt \<Rightarrow> 'q grt option" where
  "unlock_env sys g =
     (case unlock (services_of sys) (tcb_of sys) (env_at sys) False (equeues g) of None \<Rightarrow> None | Some (rc, q) \<Rightarrow> Some (g\<lparr>equeues := q\<rparr>))"

definition trim_name :: "byte list \<Rightarrow> byte list" where
  "trim_name name = (let name = dropWhile (\<lambda>b. b = SPACE) name in rev (dropWhile (\<lambda>b. b = SPACE) (rev name)))"

text \<open>The size of a variable: the structure has two pointers and two bytes, 12 with padding.\<close>

definition envvar_size :: "byte list \<Rightarrow> byte list \<Rightarrow> nat" where
  "envvar_size name value = length name + length value + 12"

text \<open>\<^verbatim>\<open>setenv()\<close> between its \<^verbatim>\<open>lock()\<close> and its \<^verbatim>\<open>unlock()\<close>.\<close>

definition set_slots ::
  "'q system \<Rightarrow> byte list option \<Rightarrow> byte list option \<Rightarrow> bool \<Rightarrow> envvar option list \<Rightarrow> int \<times> envvar option list" where
  "set_slots sys name value rewrite slots =
     (let n = (case name of None \<Rightarrow> [] | Some n \<Rightarrow> trim_name n)
      in case value of
           None \<Rightarrow> (1, slots)
         | Some v \<Rightarrow>
             if length n = 0 then (1, slots)
             else
               let v = dropWhile (\<lambda>b. b = SPACE) v
               in if \<not> storage_for sys (envvar_size n v) then (1, slots)
                  else
                    let var = \<lparr>ename = Some n, evalue = v\<rparr>;
                        (found, index) = findenv slots (Some n) False
                    in if found \<noteq> None \<and> \<not> rewrite then (0, slots)
                       else if index \<ge> 0 then (0, slots[nat index := Some var])
                       else if can_grow sys slots then (0, slots @ [Some var])
                       else (- 1, slots))"

text \<open>\<^verbatim>\<open>setenv()\<close> after its call of \<^verbatim>\<open>__envlz()\<close>.\<close>

definition set_var :: "'q system \<Rightarrow> byte list option \<Rightarrow> byte list option \<Rightarrow> bool \<Rightarrow> 'q grt \<Rightarrow> (int \<times> 'q grt) option" where
  "set_var sys name value rewrite g =
     Option.bind (lock_env sys g) (\<lambda>g.
       let (err, slots) = set_slots sys name value rewrite (grtenv g)
       in map_option (Pair err) (unlock_env sys (g\<lparr>grtenv := slots\<rparr>)))"

text \<open>
  \<^verbatim>\<open>__envlz()\<close> as a \<^verbatim>\<open>setenv()\<close> inside the loading calls it: \<^verbatim>\<open>GRTFLAG2_ENVTRY\<close> is on, so that it takes the lock of the flags and gives it
  back if it did not have it before.
\<close>

definition lock_flags :: "'q system \<Rightarrow> 'q grt \<Rightarrow> (bool \<times> 'q grt) option" where
  "lock_flags sys g =
     (case lock (services_of sys) (tcb_of sys) (flag_at sys) False (equeues g) of
        None \<Rightarrow> None | Some (rc, q) \<Rightarrow> Some (rc = 0, g\<lparr>equeues := q\<rparr>))"

definition unlock_flags :: "'q system \<Rightarrow> bool \<Rightarrow> 'q grt \<Rightarrow> 'q grt option" where
  "unlock_flags sys owned g =
     (if owned then
        case unlock (services_of sys) (tcb_of sys) (flag_at sys) False (equeues g) of None \<Rightarrow> None | Some (rc, q) \<Rightarrow> Some (g\<lparr>equeues := q\<rparr>)
      else Some g)"

definition envlz_again :: "'q system \<Rightarrow> 'q grt \<Rightarrow> 'q grt option" where
  "envlz_again sys g =
     (if \<not> envlazy g \<or> envdone g then Some g
      else Option.bind (lock_flags sys g) (\<lambda>(owned, g). unlock_flags sys owned g))"

subsection \<open>The data set\<close>

definition is_digit :: "byte \<Rightarrow> bool" where
  "is_digit b \<longleftrightarrow> 0xF0 \<le> b \<and> b \<le> 0xF9"

definition numbered :: "byte list \<Rightarrow> bool" where
  "numbered buf \<longleftrightarrow> 8 < length buf \<and> list_all is_digit (drop (length buf - 8) buf)"

text \<open>\<^verbatim>\<open>for(len--; len > 0 && buf[len]==' '; len--) buf[len] = 0\<close>: the first byte stays.\<close>

fun trim_line :: "byte list \<Rightarrow> byte list" where
  "trim_line [] = []"
| "trim_line (b # bs) = b # rev (dropWhile (\<lambda>c. c = SPACE) (rev bs))"

text \<open>What \<^verbatim>\<open>__envln()\<close> hands to \<^verbatim>\<open>putenv()\<close>, if anything.\<close>

definition env_line :: "byte list \<Rightarrow> byte list option" where
  "env_line buf =
     (if buf \<noteq> [] \<and> hd buf = STAR then None
      else if buf \<noteq> [] \<and> hd buf = HASH then None
      else
        let buf = trim_line (if numbered buf then take (length buf - 8) buf else buf)
        in if EQUALS \<in> set buf then Some buf else None)"

text \<open>The name and the value \<^verbatim>\<open>putenv()\<close> passes on: the parts around the first \<^verbatim>\<open>=\<close>.\<close>

definition split_env :: "byte list \<Rightarrow> byte list \<times> byte list" where
  "split_env str =
     (takeWhile (\<lambda>b. b \<noteq> EQUALS) str, if EQUALS \<in> set str then tl (dropWhile (\<lambda>b. b \<noteq> EQUALS) str) else [])"

definition envln :: "'q system \<Rightarrow> byte list \<Rightarrow> 'q grt \<Rightarrow> 'q grt option" where
  "envln sys buf g =
     (case env_line buf of
        None \<Rightarrow> Some g
      | Some str \<Rightarrow>
          Option.bind (envlz_again sys g) (\<lambda>g.
            let (name, value) = split_env str in map_option snd (set_var sys (Some name) (Some value) True g)))"

fun env_lines :: "'q system \<Rightarrow> byte list list \<Rightarrow> 'q grt \<Rightarrow> 'q grt option" where
  "env_lines sys [] g = Some g"
| "env_lines sys (l # ls) g = Option.bind (envln sys l g) (env_lines sys ls)"

text \<open>\<^verbatim>\<open>__envdd()\<close>: \<open>True\<close> when the data set cannot be read.\<close>

definition envdd :: "'q system \<Rightarrow> string \<Rightarrow> 'q grt \<Rightarrow> (bool \<times> 'q grt) option" where
  "envdd sys ddname g =
     (case dd_lines sys ddname of
        None \<Rightarrow> Some (True, g)
      | Some ls \<Rightarrow> map_option (Pair False) (env_lines sys (map (take 1023) ls) g))"

definition envlz :: "'q system \<Rightarrow> 'q grt \<Rightarrow> 'q grt option" where
  "envlz sys g =
     (if \<not> envlazy g \<or> envdone g then Some g
      else
        Option.bind (lock_flags sys g) (\<lambda>(owned, g).
        Option.bind
          (if envtry g then Some g
           else
             Option.bind (envdd sys ''SYSENV  '' (g\<lparr>envtry := True\<rparr>)) (\<lambda>(failed, g).
             map_option (\<lambda>g. g\<lparr>envdone := True\<rparr>) (if failed then map_option snd (envdd sys ''ENVIRON '' g) else Some g)))
          (unlock_flags sys owned)))"

subsection \<open>The functions\<close>

text \<open>\<open>None\<close> in place of the process's data: \<^verbatim>\<open>__grtget()\<close> found none.\<close>

definition get_with :: "bool \<Rightarrow> 'q system \<Rightarrow> byte list option \<Rightarrow> 'q grt option \<Rightarrow> (byte list option \<times> 'q grt option) option" where
  "get_with nocase sys name grt =
     (case grt of
        None \<Rightarrow> Some (None, None)
      | Some g \<Rightarrow>
          Option.bind (envlz sys g) (\<lambda>g.
          Option.bind (lock_env sys g) (\<lambda>g.
            let result = fst (findenv (grtenv g) name nocase)
            in map_option (\<lambda>g. (result, Some g)) (unlock_env sys g))))"

definition getenv :: "'q system \<Rightarrow> byte list option \<Rightarrow> 'q grt option \<Rightarrow> (byte list option \<times> 'q grt option) option" where
  "getenv = get_with False"

definition getenvi :: "'q system \<Rightarrow> byte list option \<Rightarrow> 'q grt option \<Rightarrow> (byte list option \<times> 'q grt option) option" where
  "getenvi = get_with True"

definition setenv ::
  "'q system \<Rightarrow> byte list option \<Rightarrow> byte list option \<Rightarrow> bool \<Rightarrow> 'q grt option \<Rightarrow> (int \<times> 'q grt option) option" where
  "setenv sys name value rewrite grt =
     (case grt of
        None \<Rightarrow> Some (- 1, None)
      | Some g \<Rightarrow>
          Option.bind (envlz sys g) (\<lambda>g. map_option (\<lambda>(err, g). (err, Some g)) (set_var sys name value rewrite g)))"

definition putenv :: "'q system \<Rightarrow> byte list \<Rightarrow> 'q grt option \<Rightarrow> (int \<times> 'q grt option) option" where
  "putenv sys str grt = (let (name, value) = split_env str in setenv sys (Some name) (Some value) True grt)"

fun unset_slots :: "byte list \<Rightarrow> envvar option list \<Rightarrow> envvar option list" where
  "unset_slots name [] = []"
| "unset_slots name (e # es) =
     (case e of
        None \<Rightarrow> None
      | Some v \<Rightarrow> (case ename v of None \<Rightarrow> None | Some n \<Rightarrow> if cmp3 n name = 0 then None else Some v)) # unset_slots name es"

definition unsetenv :: "'q system \<Rightarrow> byte list option \<Rightarrow> 'q grt option \<Rightarrow> (int \<times> 'q grt option) option" where
  "unsetenv sys name grt =
     (case grt of
        None \<Rightarrow> Some (0, None)
      | Some g \<Rightarrow>
          Option.bind (envlz sys g) (\<lambda>g.
          Option.bind (lock_env sys g) (\<lambda>g.
            let g = (case name of None \<Rightarrow> g | Some n \<Rightarrow> g\<lparr>grtenv := unset_slots n (grtenv g)\<rparr>)
            in map_option (\<lambda>g. (0, Some g)) (unlock_env sys g))))"

section \<open>The variables as a map\<close>

fun entry :: "envvar option \<Rightarrow> (byte list \<times> byte list) list" where
  "entry None = []"
| "entry (Some v) = (case ename v of None \<Rightarrow> [] | Some n \<Rightarrow> [(n, evalue v)])"

definition bindings :: "envvar option list \<Rightarrow> (byte list \<times> byte list) list" where
  "bindings slots = concat (map entry slots)"

definition vars_of :: "envvar option list \<Rightarrow> byte list \<rightharpoonup> byte list" where
  "vars_of slots = map_of (bindings slots)"

text \<open>Every variable has a name, and no two the same.\<close>

definition env_ok :: "envvar option list \<Rightarrow> bool" where
  "env_ok slots \<longleftrightarrow> (\<forall>v. Some v \<in> set slots \<longrightarrow> ename v \<noteq> None) \<and> distinct (map fst (bindings slots))"

lemma bindings_simps [simp]:
  "bindings [] = []" "bindings (e # es) = entry e @ bindings es" "bindings (es @ fs) = bindings es @ bindings fs"
  by (simp_all add: bindings_def)

lemma find_from_value: "fst (find_from es name False i hole) = map_of (bindings es) name"
  by (induction es arbitrary: i hole) (auto simp: same_name_def cmp3_eq_0 split: option.split)

lemma findenv_value: "fst (findenv slots (Some n) False) = vars_of slots n"
  by (simp add: findenv_def find_from_value vars_of_def)

text \<open>The index: the variable itself, or else the first empty slot.\<close>

lemma find_from_found:
  "find_from es name False i hole = (Some v, k) \<Longrightarrow>
     \<exists>j < length es. k = i + int j \<and> es ! j = Some \<lparr>ename = Some name, evalue = v\<rparr>"
proof (induction es arbitrary: i hole)
  case (Cons e es)
  show ?case
  proof (cases "\<exists>u. e = Some u \<and> ename u = Some name")
    case True
    then obtain u where "e = Some u" "ename u = Some name" by blast
    then show ?thesis using Cons.prems by (cases u) (auto simp: same_name_def cmp3_eq_0 Ex_less_Suc2)
  next
    case False
    then have "\<exists>h. find_from es name False (i + 1) h = (Some v, k)"
      using Cons.prems by (auto simp: same_name_def cmp3_eq_0 split: option.splits)
    then show ?thesis using Cons.IH [of "i + 1"] by (auto simp: Ex_less_Suc2 add.assoc)
  qed
qed simp

lemma find_from_hole:
  "find_from es name False i hole = (None, k) \<Longrightarrow> k = hole \<or> (\<exists>j < length es. k = i + int j \<and> es ! j = None)"
proof (induction es arbitrary: i hole)
  case (Cons e es)
  then have "find_from es name False (i + 1) (if e = None \<and> hole < 0 then i else hole) = (None, k)"
    by (auto simp: same_name_def split: option.splits if_splits)
  from Cons.IH [OF this] show ?case by (auto simp: Ex_less_Suc2 add.assoc split: if_splits)
qed simp

section \<open>Setting and unsetting\<close>

lemma map_of_insert: "n \<notin> fst ` set A \<Longrightarrow> map_of (A @ (n, v) # B) = (map_of (A @ B))(n \<mapsto> v)"
  by (induction A) (auto simp: fun_upd_twist simp del: map_of_append)

lemma bindings_at:
  "j < length es \<Longrightarrow> bindings es = bindings (take j es) @ entry (es ! j) @ bindings (drop (Suc j) es)"
  "j < length es \<Longrightarrow> bindings (es[j := e]) = bindings (take j es) @ entry e @ bindings (drop (Suc j) es)"
  using id_take_nth_drop [of j es] upd_conv_take_nth_drop [of j es e] by (metis bindings_simps(2,3))+

lemma vars_of_upd:
  assumes "env_ok es" and "j < length es" and "es ! j = Some \<lparr>ename = Some n, evalue = w\<rparr> \<or> es ! j = None \<and> vars_of es n = None"
  shows "env_ok (es[j := Some \<lparr>ename = Some n, evalue = v\<rparr>]) \<and>
    vars_of (es[j := Some \<lparr>ename = Some n, evalue = v\<rparr>]) = (vars_of es)(n \<mapsto> v)"
proof -
  let ?A = "bindings (take j es)" and ?B = "bindings (drop (Suc j) es)" and ?e = "Some \<lparr>ename = Some n, evalue = v\<rparr>"
  have b: "bindings es = ?A @ entry (es ! j) @ ?B" "bindings (es[j := ?e]) = ?A @ (n, v) # ?B"
    using bindings_at [OF assms(2)] by simp_all
  have d: "distinct (map fst (bindings es))" and named: "\<forall>u. Some u \<in> set es \<longrightarrow> ename u \<noteq> None"
    using assms(1) by (simp_all add: env_ok_def)
  have n: "n \<notin> fst ` set ?A \<and> n \<notin> fst ` set ?B \<and> (vars_of es)(n \<mapsto> v) = (map_of (?A @ ?B))(n \<mapsto> v)"
    using assms(3)
  proof
    assume "es ! j = Some \<lparr>ename = Some n, evalue = w\<rparr>"
    then have e: "bindings es = ?A @ (n, w) # ?B" using b(1) by simp
    then have "n \<notin> fst ` set ?A \<and> n \<notin> fst ` set ?B" using d by force
    then show ?thesis using map_of_insert [of n ?A w ?B] e by (simp add: vars_of_def del: map_of_append)
  next
    assume "es ! j = None \<and> vars_of es n = None"
    then have "bindings es = ?A @ ?B" "n \<notin> fst ` set (bindings es)" using b(1) by (auto simp: vars_of_def map_of_eq_None_iff)
    then show ?thesis by (auto simp: vars_of_def simp del: map_of_append)
  qed
  then have n: "n \<notin> fst ` set ?A" "n \<notin> fst ` set ?B" and same: "(vars_of es)(n \<mapsto> v) = (map_of (?A @ ?B))(n \<mapsto> v)" by blast+
  have "vars_of (es[j := ?e]) = (vars_of es)(n \<mapsto> v)"
    unfolding same using map_of_insert [OF n(1)] by (simp add: vars_of_def b(2))
  moreover have "distinct (map fst (bindings (es[j := ?e])))"
    using d n assms(3) unfolding b by auto
  moreover have "\<forall>u. Some u \<in> set (es[j := ?e]) \<longrightarrow> ename u \<noteq> None"
    using named by (auto dest!: set_update_subset_insert [THEN subsetD])
  ultimately show ?thesis by (simp add: env_ok_def)
qed

lemma set_slots_spec:
  assumes "env_ok es" and "set_slots sys (Some name) (Some value) rewrite es = (err, es')"
  shows "env_ok es' \<and>
    (err \<noteq> 0 \<and> es' = es \<or>
     err = 0 \<and> trim_name name \<noteq> [] \<and>
       vars_of es' = (if vars_of es (trim_name name) \<noteq> None \<and> \<not> rewrite then vars_of es
                      else (vars_of es)(trim_name name \<mapsto> dropWhile (\<lambda>b. b = SPACE) value)))"
proof -
  let ?n = "trim_name name" and ?v = "dropWhile (\<lambda>b. b = SPACE) value"
  let ?e = "Some \<lparr>ename = Some ?n, evalue = ?v\<rparr>"
  obtain r k where f: "findenv es (Some ?n) False = (r, k)" by fastforce
  have r: "r = vars_of es ?n" using findenv_value [of es ?n] f by simp
  show ?thesis
  proof (cases "?n = [] \<or> \<not> storage_for sys (envvar_size ?n ?v) \<or> r \<noteq> None \<and> \<not> rewrite")
    case True
    then show ?thesis using assms f r by (auto simp: set_slots_def Let_def split: if_splits)
  next
    case False
    then have es': "(err, es') = (if k \<ge> 0 then (0, es[nat k := ?e]) else if can_grow sys es then (0, es @ [?e]) else (- 1, es))"
      using assms(2) f by (auto simp: set_slots_def Let_def)
    show ?thesis
    proof (cases "k \<ge> 0")
      case True
      have "\<exists>j < length es. k = int j \<and> (es ! j = Some \<lparr>ename = Some ?n, evalue = the r\<rparr> \<or> es ! j = None \<and> vars_of es ?n = None)"
        using f True r find_from_found [of es ?n 0 "- 1"] find_from_hole [of es ?n 0 "- 1"]
        by (cases r) (fastforce simp: findenv_def)+
      then obtain j where j: "j < length es" "k = int j"
          "es ! j = Some \<lparr>ename = Some ?n, evalue = the r\<rparr> \<or> es ! j = None \<and> vars_of es ?n = None" by blast
      then show ?thesis using vars_of_upd [OF assms(1) j(1,3), of ?v] es' False r by auto
    next
      case neg: False
      have "vars_of es ?n = None"
        using f neg r find_from_found [of es ?n 0 "- 1"] by (cases r) (fastforce simp: findenv_def)+
      then have "env_ok (es @ [?e])" "vars_of (es @ [?e]) = (vars_of es)(?n \<mapsto> ?v)"
        using assms(1) map_of_insert [of ?n "bindings es" ?v "[]"]
        by (auto simp: env_ok_def vars_of_def map_of_eq_None_iff image_iff)
      then show ?thesis using es' neg assms(1) False r by (auto split: if_splits)
    qed
  qed
qed

lemma bindings_unset: "\<forall>v. Some v \<in> set es \<longrightarrow> ename v \<noteq> None \<Longrightarrow> bindings (unset_slots n es) = filter (\<lambda>b. fst b \<noteq> n) (bindings es)"
  by (induction es) (auto simp: cmp3_eq_0 split: option.split)

lemma unset_spec:
  assumes "env_ok es"
  shows "env_ok (unset_slots n es) \<and> vars_of (unset_slots n es) = (vars_of es)(n := None)"
proof -
  have named: "\<forall>v. Some v \<in> set es \<longrightarrow> ename v \<noteq> None" using assms by (simp add: env_ok_def)
  then have "\<forall>v. Some v \<in> set (unset_slots n es) \<longrightarrow> ename v \<noteq> None"
    by (induction es) (auto split: option.splits if_splits)
  moreover have "map_of (filter (\<lambda>b. fst b \<noteq> n) bs) = (map_of bs)(n := None)" for bs :: "(byte list \<times> byte list) list"
    by (induction bs) auto
  ultimately show ?thesis using assms by (auto simp: env_ok_def vars_of_def bindings_unset [OF named] distinct_map_filter)
qed

section \<open>Under the locks\<close>

text \<open>The system keeps its promise on the queues, and nobody has the two locks of the environment.\<close>

definition unlocked :: "'q users \<Rightarrow> 'q system \<Rightarrow> u32 \<Rightarrow> 'q \<Rightarrow> bool" where
  "unlocked users sys a q \<longleftrightarrow> (\<forall>u. users q (lock_of (lkname a)) u = None)"

lemma lock_eqs: "lock svc t a = lock_res svc t (lkname a)" "unlock svc t a = unlock_res svc t (lkname a)"
  by (auto simp: lock_def lock_res_def unlock_def unlock_res_def fun_eq_iff)

lemma lock_gets:
  assumes "enq_ok svc users" and "\<forall>u. users q (lock_of (lkname a)) u = None"
  shows "\<exists>q'. lock svc t a False q = Some (0, q') \<and> users q' = granted (users q) (lock_of (lkname a)) t (Some Exclusive)"
  using lock_res_answer [OF assms(1), of "lkname a" False t q] assms(2)
  by (auto simp: lock_eqs answers_as_def Let_def grantable_def)

lemma lock_has:
  assumes "enq_ok svc users" and "users q (lock_of (lkname a)) t \<noteq> None"
  shows "\<exists>q'. lock svc t a False q = Some (8, q') \<and> users q' = users q"
  using lock_res_answer [OF assms(1), of "lkname a" False t q] assms(2)
  by (auto simp: lock_eqs answers_as_def Let_def)

lemma unlock_gives:
  assumes "enq_ok svc users" and "users q = granted us (lock_of (lkname a)) t (Some Exclusive)" and "us (lock_of (lkname a)) t = None"
  shows "\<exists>q'. unlock svc t a False q = Some (0, q') \<and> users q' = us"
proof -
  have "users q (lock_of (lkname a)) t \<noteq> None" by (simp add: assms(2) granted_def)
  then obtain q' where "unlock svc t a False q = Some (0, q')" "users q' = granted (users q) (lock_of (lkname a)) t None"
    using unlock_res_answer [OF assms(1), of "lkname a" q t False] by (auto simp: lock_eqs)
  then show ?thesis using granted_undo [of us "lock_of (lkname a)" t] assms(2,3) by auto
qed

text \<open>An access: the lock is taken, the array is changed, the lock is given back.\<close>

lemma locked_access:
  assumes "enq_ok (services_of sys) users" and "unlocked users sys (env_at sys) (equeues g)"
  shows "\<exists>q1. lock_env sys g = Some (g\<lparr>equeues := q1\<rparr>) \<and>
    (\<forall>es. \<exists>q2. unlock_env sys (g\<lparr>equeues := q1, grtenv := es\<rparr>) = Some (g\<lparr>equeues := q2, grtenv := es\<rparr>) \<and> users q2 = users (equeues g))"
proof -
  obtain q1 where q1: "lock (services_of sys) (tcb_of sys) (env_at sys) False (equeues g) = Some (0, q1)"
      "users q1 = granted (users (equeues g)) (lock_of (lkname (env_at sys))) (tcb_of sys) (Some Exclusive)"
    using lock_gets [OF assms(1)] assms(2) unfolding unlocked_def by blast
  have "users (equeues g) (lock_of (lkname (env_at sys))) (tcb_of sys) = None" using assms(2) by (simp add: unlocked_def)
  then obtain q2 where "unlock (services_of sys) (tcb_of sys) (env_at sys) False q1 = Some (0, q2)" "users q2 = users (equeues g)"
    using unlock_gives [OF assms(1) q1(2)] by blast
  then show ?thesis using q1(1)
    by (intro exI [of _ q1] conjI allI exI [of _ q2]) (simp_all add: lock_env_def unlock_env_def)
qed

lemma set_var_eq:
  assumes "enq_ok (services_of sys) users" and "unlocked users sys (env_at sys) (equeues g)"
  shows "\<exists>q. users q = users (equeues g) \<and>
    set_var sys name value rewrite g =
      (case set_slots sys name value rewrite (grtenv g) of (err, es) \<Rightarrow> Some (err, g\<lparr>equeues := q, grtenv := es\<rparr>))"
proof -
  obtain err es where r: "set_slots sys name value rewrite (grtenv g) = (err, es)" by fastforce
  obtain q1 q2 where "lock_env sys g = Some (g\<lparr>equeues := q1\<rparr>)" "users q2 = users (equeues g)"
      "unlock_env sys (g\<lparr>equeues := q1, grtenv := es\<rparr>) = Some (g\<lparr>equeues := q2, grtenv := es\<rparr>)"
    using locked_access [OF assms] by metis
  then show ?thesis using r by (auto simp: set_var_def)
qed

text \<open>No more loading: it was not asked for, or it is done.\<close>

definition loaded :: "'q grt \<Rightarrow> bool" where
  "loaded g \<longleftrightarrow> \<not> envlazy g \<or> envdone g"

lemma envlz_loaded: "loaded g \<Longrightarrow> envlz sys g = Some g"
  by (simp add: envlz_def loaded_def)

text \<open>What the calls do to a loaded environment, as a map of names to values.\<close>

definition ready :: "'q system \<Rightarrow> 'q users \<Rightarrow> 'q grt \<Rightarrow> bool" where
  "ready sys users g \<longleftrightarrow> loaded g \<and> env_ok (grtenv g) \<and> unlocked users sys (env_at sys) (equeues g)"

lemma getenv_eq:
  assumes "enq_ok (services_of sys) users" and "ready sys users g"
  shows "\<exists>q. users q = users (equeues g) \<and> getenv sys (Some n) (Some g) = Some (vars_of (grtenv g) n, Some (g\<lparr>equeues := q\<rparr>))"
proof -
  obtain q1 where q1: "lock_env sys g = Some (g\<lparr>equeues := q1\<rparr>)"
      "\<exists>q2. unlock_env sys (g\<lparr>equeues := q1, grtenv := grtenv g\<rparr>) = Some (g\<lparr>equeues := q2, grtenv := grtenv g\<rparr>) \<and> users q2 = users (equeues g)"
    using locked_access [OF assms(1)] assms(2) unfolding ready_def by metis
  then obtain q2 where "unlock_env sys (g\<lparr>equeues := q1\<rparr>) = Some (g\<lparr>equeues := q2\<rparr>)" "users q2 = users (equeues g)" by auto
  then show ?thesis using q1(1) assms(2)
    by (auto simp: getenv_def get_with_def ready_def envlz_loaded findenv_value)
qed

lemma unsetenv_eq:
  assumes "enq_ok (services_of sys) users" and "ready sys users g"
  shows "\<exists>q. users q = users (equeues g) \<and>
    unsetenv sys (Some n) (Some g) = Some (0, Some (g\<lparr>equeues := q, grtenv := unset_slots n (grtenv g)\<rparr>))"
proof -
  obtain q1 q2 where "lock_env sys g = Some (g\<lparr>equeues := q1\<rparr>)" "users q2 = users (equeues g)"
      "unlock_env sys (g\<lparr>equeues := q1, grtenv := unset_slots n (grtenv g)\<rparr>) = Some (g\<lparr>equeues := q2, grtenv := unset_slots n (grtenv g)\<rparr>)"
    using locked_access [OF assms(1)] assms(2) unfolding ready_def by metis
  then show ?thesis using assms(2) by (auto simp: unsetenv_def ready_def envlz_loaded)
qed

lemma setenv_eq:
  assumes "enq_ok (services_of sys) users" and "ready sys users g"
  shows "\<exists>q. users q = users (equeues g) \<and>
    setenv sys name value rewrite (Some g) =
      (case set_slots sys name value rewrite (grtenv g) of (err, es) \<Rightarrow> Some (err, Some (g\<lparr>equeues := q, grtenv := es\<rparr>)))"
  using set_var_eq [OF assms(1), of g name "value" rewrite] assms(2)
  by (auto simp: setenv_def ready_def envlz_loaded split: prod.splits)

lemma ready_upd: "ready sys users g \<Longrightarrow> users q = users (equeues g) \<Longrightarrow> env_ok es \<Longrightarrow> ready sys users (g\<lparr>equeues := q, grtenv := es\<rparr>)"
  by (simp add: ready_def loaded_def unlocked_def)

section \<open>The contract of a table of variables\<close>

locale variables =
  fixes ok :: "'s \<Rightarrow> bool" and look :: "'s \<Rightarrow> 'k \<Rightarrow> 'v option"
    and assign :: "'s \<Rightarrow> 'k \<Rightarrow> 'v \<Rightarrow> int \<times> 's" and unset :: "'s \<Rightarrow> 'k \<Rightarrow> 's"
    and key :: "'k \<Rightarrow> 'k" and norm :: "'v \<Rightarrow> 'v"
  assumes assign_law: "ok s \<Longrightarrow> assign s k v = (err, s') \<Longrightarrow>
      ok s' \<and> (err = 0 \<longrightarrow> look s' = (look s)(key k \<mapsto> norm v)) \<and> (err \<noteq> 0 \<longrightarrow> look s' = look s)"
    and unset_law: "ok s \<Longrightarrow> ok (unset s k) \<and> look (unset s k) = (look s)(k := None)"
begin

text \<open>Assignments one after the other; a refused one leaves the table as it is.\<close>

lemma assign_all_ok: "ok s \<Longrightarrow> ok (foldl (\<lambda>s (k, v). snd (assign s k v)) s kvs)"
proof (induction kvs arbitrary: s)
  case (Cons kv kvs)
  obtain k v err s' where "kv = (k, v)" "assign s k v = (err, s')" by fastforce
  then show ?case using Cons.IH [of s'] assign_law [OF Cons.prems] by auto
qed simp

text \<open>Every value found was there before or is one of those assigned.\<close>

lemma assign_all_look:
  "ok s \<Longrightarrow> look (foldl (\<lambda>s (k, v). snd (assign s k v)) s kvs) x = Some y \<Longrightarrow> look s x = Some y \<or> (\<exists>(k, v) \<in> set kvs. x = key k \<and> y = norm v)"
proof (induction kvs arbitrary: s)
  case (Cons kv kvs)
  obtain k v err s' where a: "kv = (k, v)" "assign s k v = (err, s')" by fastforce
  have law: "ok s'" "err = 0 \<longrightarrow> look s' = (look s)(key k \<mapsto> norm v)" "err \<noteq> 0 \<longrightarrow> look s' = look s"
    using assign_law [OF Cons.prems(1) a(2)] by auto
  have "look s' x = Some y \<or> (\<exists>(k, v) \<in> set kvs. x = key k \<and> y = norm v)" using Cons.IH [OF law(1)] Cons.prems(2) a by simp
  then show ?case using law a(1) by (cases "err = 0") (auto split: if_splits)
qed simp

lemma unset_assign:
  assumes "ok s" and "assign s k v = (0, s')" and "look s (key k) = None"
  shows "look (unset s' (key k)) = look s"
  using assign_law [OF assms(1,2)] unset_law [of s' "key k"] assms(3) by (auto simp: fun_upd_idem)

end

interpretation slots: variables env_ok vars_of "\<lambda>es n v. set_slots sys (Some n) (Some v) True es" "\<lambda>es n. unset_slots n es"
  trim_name "dropWhile (\<lambda>b. b = SPACE)" for sys
proof
  fix s k v err s'
  assume "env_ok s" "set_slots sys (Some k) (Some v) True s = (err, s')"
  then show "env_ok s' \<and> (err = 0 \<longrightarrow> vars_of s' = (vars_of s)(trim_name k \<mapsto> dropWhile (\<lambda>b. b = SPACE) v)) \<and>
      (err \<noteq> 0 \<longrightarrow> vars_of s' = vars_of s)"
    using set_slots_spec [of s sys k v True err s'] by auto
qed (rule unset_spec)

section \<open>Loading\<close>

definition assign_all :: "'q system \<Rightarrow> envvar option list \<Rightarrow> (byte list \<times> byte list) list \<Rightarrow> envvar option list" where
  "assign_all sys es kvs = foldl (\<lambda>es (n, v). snd (set_slots sys (Some n) (Some v) True es)) es kvs"

lemma assign_all_simps [simp]:
  "assign_all sys es [] = es" "assign_all sys es ((n, v) # kvs) = assign_all sys (snd (set_slots sys (Some n) (Some v) True es)) kvs"
  by (simp_all add: assign_all_def)

text \<open>The lines that assign, as \<^verbatim>\<open>putenv()\<close> splits them.\<close>

definition assignments :: "byte list list \<Rightarrow> (byte list \<times> byte list) list" where
  "assignments ls = map split_env (List.map_filter env_line (map (take 1023) ls))"

definition loading :: "'q system \<Rightarrow> 'q users \<Rightarrow> 'q grt \<Rightarrow> bool" where
  "loading sys users g \<longleftrightarrow> envlazy g \<and> envtry g \<and> \<not> envdone g \<and> unlocked users sys (env_at sys) (equeues g) \<and>
     users (equeues g) (lock_of (lkname (flag_at sys))) (tcb_of sys) \<noteq> None"

lemma envln_eq:
  assumes "enq_ok (services_of sys) users" and "loading sys users g"
  shows "\<exists>q. users q = users (equeues g) \<and>
    envln sys buf g = Some (g\<lparr>equeues := q, grtenv := assign_all sys (grtenv g) (case env_line buf of None \<Rightarrow> [] | Some str \<Rightarrow> [split_env str])\<rparr>)"
proof (cases "env_line buf")
  case None
  then show ?thesis by (intro exI [of _ "equeues g"]) (simp add: envln_def)
next
  case (Some str)
  obtain name v where nv: "split_env str = (name, v)" by fastforce
  obtain q1 where q1: "lock (services_of sys) (tcb_of sys) (flag_at sys) False (equeues g) = Some (8, q1)" "users q1 = users (equeues g)"
    using lock_has [OF assms(1)] assms(2) unfolding loading_def by blast
  have again: "envlz_again sys g = Some (g\<lparr>equeues := q1\<rparr>)"
    using assms(2) q1(1) by (simp add: envlz_again_def lock_flags_def unlock_flags_def loading_def)
  have "unlocked users sys (env_at sys) (equeues (g\<lparr>equeues := q1\<rparr>))" using assms(2) q1(2) by (simp add: loading_def unlocked_def)
  moreover obtain err es where r: "set_slots sys (Some name) (Some v) True (grtenv g) = (err, es)" by fastforce
  ultimately obtain q where "users q = users (equeues g)"
      "set_var sys (Some name) (Some v) True (g\<lparr>equeues := q1\<rparr>) = Some (err, g\<lparr>equeues := q, grtenv := es\<rparr>)"
    using set_var_eq [OF assms(1), of "g\<lparr>equeues := q1\<rparr>" "Some name" "Some v" True] q1(2) by auto
  then show ?thesis using Some nv again r by (auto simp: envln_def)
qed

lemma assign_all_append: "assign_all sys es (xs @ ys) = assign_all sys (assign_all sys es xs) ys"
  by (simp add: assign_all_def)

lemma env_lines_eq:
  assumes "enq_ok (services_of sys) users"
  shows "loading sys users g \<Longrightarrow> \<exists>q. users q = users (equeues g) \<and>
    env_lines sys ls g = Some (g\<lparr>equeues := q, grtenv := assign_all sys (grtenv g) (map split_env (List.map_filter env_line ls))\<rparr>)"
proof (induction ls arbitrary: g)
  case Nil
  then show ?case by (intro exI [of _ "equeues g"]) (simp add: map_filter_simps)
next
  case (Cons l ls)
  let ?kv = "case env_line l of None \<Rightarrow> [] | Some str \<Rightarrow> [split_env str]"
  obtain q1 where q1: "users q1 = users (equeues g)" "envln sys l g = Some (g\<lparr>equeues := q1, grtenv := assign_all sys (grtenv g) ?kv\<rparr>)"
    using envln_eq [OF assms Cons.prems] by blast
  let ?g = "g\<lparr>equeues := q1, grtenv := assign_all sys (grtenv g) ?kv\<rparr>"
  have ld: "loading sys users ?g" using Cons.prems q1(1) by (simp add: loading_def unlocked_def)
  obtain q where "users q = users (equeues g)"
      "env_lines sys ls ?g = Some (?g\<lparr>equeues := q, grtenv := assign_all sys (grtenv ?g) (map split_env (List.map_filter env_line ls))\<rparr>)"
    using Cons.IH [OF ld] q1(1) by auto
  moreover have "map split_env (List.map_filter env_line (l # ls)) = ?kv @ map split_env (List.map_filter env_line ls)"
    by (simp add: map_filter_simps split: option.split)
  ultimately show ?case using q1(2) by (auto simp: assign_all_append)
qed

definition dd_assignments :: "'q system \<Rightarrow> (byte list \<times> byte list) list" where
  "dd_assignments sys =
     (case dd_lines sys ''SYSENV  '' of
        Some ls \<Rightarrow> assignments ls
      | None \<Rightarrow> (case dd_lines sys ''ENVIRON '' of Some ls \<Rightarrow> assignments ls | None \<Rightarrow> []))"

definition unloaded :: "'q system \<Rightarrow> 'q users \<Rightarrow> 'q grt \<Rightarrow> bool" where
  "unloaded sys users g \<longleftrightarrow> envlazy g \<and> \<not> envtry g \<and> \<not> envdone g \<and> env_ok (grtenv g) \<and> env_at sys \<noteq> flag_at sys \<and>
     unlocked users sys (env_at sys) (equeues g) \<and> unlocked users sys (flag_at sys) (equeues g)"

lemma envdd_eq:
  assumes "enq_ok (services_of sys) users" and "loading sys users g"
  shows "\<exists>q. users q = users (equeues g) \<and>
    envdd sys dd g = Some (case dd_lines sys dd of None \<Rightarrow> (True, g)
      | Some ls \<Rightarrow> (False, g\<lparr>equeues := q, grtenv := assign_all sys (grtenv g) (assignments ls)\<rparr>))"
  using env_lines_eq [OF assms] by (fastforce simp: envdd_def assignments_def split: option.split)

lemma envlz_loads:
  assumes ok: "enq_ok (services_of sys) users" and un: "unloaded sys users g"
  shows "\<exists>q. users q = users (equeues g) \<and>
    envlz sys g = Some (g\<lparr>equeues := q, grtenv := assign_all sys (grtenv g) (dd_assignments sys), envtry := True, envdone := True\<rparr>)"
proof -
  let ?fl = "lock_of (lkname (flag_at sys))"
  obtain q1 where q1: "lock (services_of sys) (tcb_of sys) (flag_at sys) False (equeues g) = Some (0, q1)"
      "users q1 = granted (users (equeues g)) ?fl (tcb_of sys) (Some Exclusive)"
    using lock_gets [OF ok] un unfolding unloaded_def unlocked_def by blast
  let ?g = "g\<lparr>equeues := q1, envtry := True\<rparr>"
  have ld: "loading sys users ?g"
    using un q1(2) by (auto simp: loading_def unloaded_def unlocked_def granted_def)
  have "\<exists>q. users q = users q1 \<and>
      Option.bind (envdd sys ''SYSENV  '' ?g) (\<lambda>(failed, g).
        map_option (\<lambda>g. g\<lparr>envdone := True\<rparr>) (if failed then map_option snd (envdd sys ''ENVIRON '' g) else Some g)) =
      Some (?g\<lparr>equeues := q, grtenv := assign_all sys (grtenv g) (dd_assignments sys), envdone := True\<rparr>)"
  proof (cases "dd_lines sys ''SYSENV  ''")
    case (Some ls)
    then show ?thesis using envdd_eq [OF ok ld, of "''SYSENV  ''"] by (auto simp: dd_assignments_def)
  next
    case None
    then have "envdd sys ''SYSENV  '' ?g = Some (True, ?g)" by (simp add: envdd_def)
    then show ?thesis
      using envdd_eq [OF ok ld, of "''ENVIRON ''"] None by (cases "dd_lines sys ''ENVIRON ''") (auto simp: dd_assignments_def)
  qed
  then obtain q2 where q2: "users q2 = users q1"
      "Option.bind (envdd sys ''SYSENV  '' ?g) (\<lambda>(failed, g).
        map_option (\<lambda>g. g\<lparr>envdone := True\<rparr>) (if failed then map_option snd (envdd sys ''ENVIRON '' g) else Some g)) =
      Some (?g\<lparr>equeues := q2, grtenv := assign_all sys (grtenv g) (dd_assignments sys), envdone := True\<rparr>)" by blast
  have "users (equeues g) ?fl (tcb_of sys) = None" using un by (simp add: unloaded_def unlocked_def)
  then obtain q3 where q3: "unlock (services_of sys) (tcb_of sys) (flag_at sys) False q2 = Some (0, q3)" "users q3 = users (equeues g)"
    using unlock_gives [OF ok, of q2 "users (equeues g)"] q1(2) q2(1) by auto
  have "lock_flags sys g = Some (True, g\<lparr>equeues := q1\<rparr>)" using q1(1) by (simp add: lock_flags_def)
  then have "envlz sys g = unlock_flags sys True (?g\<lparr>equeues := q2, grtenv := assign_all sys (grtenv g) (dd_assignments sys), envdone := True\<rparr>)"
    using un q2(2) by (simp add: envlz_def unloaded_def)
  then show ?thesis using q3 by (intro exI [of _ q3]) (simp add: unlock_flags_def)
qed

section \<open>A small system\<close>

text \<open>Its DD SYSENV has a comment and the line \<^verbatim>\<open>A=B\<close> with a sequence number.\<close>

definition demo :: "table system" where
  "demo = \<lparr>services_of = table_svc, tcb_of = 77, env_at = 0x100, flag_at = 0x200, storage_for = (\<lambda>n. True), can_grow = (\<lambda>es. True),
     dd_lines = (\<lambda>dd. if dd = ''SYSENV  ''
       then Some [[0x5C, 0xC1, 0x7E, 0xC1], [0xC1, 0x7E, 0xC2, 0x40] @ replicate 8 0xF1] else None)\<rparr>"

definition demo_env :: "bool \<Rightarrow> table grt" where
  "demo_env lazy = \<lparr>equeues = (\<lambda>r t. None), grtenv = [], envlazy = lazy, envtry = False, envdone = False\<rparr>"

lemma demo_ok: "enq_ok (services_of demo) (\<lambda>q. q)"
  using table_ok by (simp add: demo_def)

lemma demo_ready: "ready demo (\<lambda>q. q) (demo_env False)"
  by (simp add: ready_def demo_env_def loaded_def unlocked_def env_ok_def)

lemma demo_unloaded: "unloaded demo (\<lambda>q. q) (demo_env True)"
  by (simp add: unloaded_def demo_env_def demo_def unlocked_def env_ok_def)

section \<open>Properties\<close>

text \<open>
  C13: \<^verbatim>\<open>setenv()\<close> and \<^verbatim>\<open>getenv()\<close> are an update and a lookup.  On an environment whose lock is free, a successful \<^verbatim>\<open>setenv()\<close> binds the name
  without its blanks at both ends to the value without its leading blanks, unless the variable exists and may not be
  replaced; every other variable keeps its value; a refused one (no name, no value, no storage) changes nothing; the array keeps
  one slot per name, and the lock is free again.
\<close>

theorem setenv_getenv:
  assumes "enq_ok (services_of sys) users" and "ready sys users g"
    and "setenv sys (Some name) (Some val) rewrite (Some g) = Some (err, Some g')"
  shows "ready sys users g' \<and> users (equeues g') = users (equeues g) \<and>
    map_option fst (getenv sys (Some x) (Some g')) =
      Some (if err = 0 \<and> x = trim_name name \<and> (rewrite \<or> vars_of (grtenv g) x = None) then Some (dropWhile (\<lambda>b. b = SPACE) val)
            else vars_of (grtenv g) x)"
proof -
  obtain e es where r: "set_slots sys (Some name) (Some val) rewrite (grtenv g) = (e, es)" by fastforce
  then obtain q where q: "users q = users (equeues g)" "err = e" "g' = g\<lparr>equeues := q, grtenv := es\<rparr>"
    using setenv_eq [OF assms(1,2), of "Some name" "Some val" rewrite] assms(3) by auto
  have spec: "env_ok es" "err \<noteq> 0 \<and> vars_of es = vars_of (grtenv g) \<or>
      err = 0 \<and> vars_of es = (if vars_of (grtenv g) (trim_name name) \<noteq> None \<and> \<not> rewrite then vars_of (grtenv g)
        else (vars_of (grtenv g))(trim_name name \<mapsto> dropWhile (\<lambda>b. b = SPACE) val))"
    using set_slots_spec [OF _ r] assms(2) q(2) by (auto simp: ready_def)
  have rd: "ready sys users g'" unfolding q(3) by (rule ready_upd [OF assms(2) q(1) spec(1)])
  have "vars_of (grtenv g') = vars_of es" using q(3) by simp
  then show ?thesis using getenv_eq [OF assms(1) rd, of x] rd q(1,3) spec(2) by auto
qed

theorem setenv_getenv_witness:
  "\<exists>g. setenv demo (Some [0x40, 0xC1, 0x40]) (Some [0x40, 0xC2]) True (Some (demo_env False)) = Some (0, Some g) \<and>
     map_option fst (getenv demo (Some [0xC1]) (Some g)) = Some (Some [0xC2])"
proof -
  have "set_slots demo (Some [0x40, 0xC1, 0x40]) (Some [0x40, 0xC2]) True [] = (0, [Some \<lparr>ename = Some [0xC1], evalue = [0xC2]\<rparr>])"
    by (simp add: set_slots_def trim_name_def SPACE_def demo_def findenv_def Let_def)
  then obtain g where g: "setenv demo (Some [0x40, 0xC1, 0x40]) (Some [0x40, 0xC2]) True (Some (demo_env False)) = Some (0, Some g)"
    using setenv_eq [OF demo_ok demo_ready, of "Some [0x40, 0xC1, 0x40]" "Some [0x40, 0xC2]" True] by (auto simp: demo_env_def)
  from setenv_getenv [OF demo_ok demo_ready g, of "[0xC1]"] g show ?thesis by (simp add: trim_name_def SPACE_def)
qed


text \<open>
  \<^verbatim>\<open>unsetenv()\<close> removes the variable of exactly that name and no other, keeps the array in order and leaves the lock free.
\<close>

theorem unsetenv_removes:
  assumes "enq_ok (services_of sys) users" and "ready sys users g"
  shows "\<exists>g'. unsetenv sys (Some name) (Some g) = Some (0, Some g') \<and> ready sys users g' \<and>
    map_option fst (getenv sys (Some x) (Some g')) = Some (if x = name then None else vars_of (grtenv g) x)"
proof -
  obtain q where q: "users q = users (equeues g)"
      "unsetenv sys (Some name) (Some g) = Some (0, Some (g\<lparr>equeues := q, grtenv := unset_slots name (grtenv g)\<rparr>))"
    using unsetenv_eq [OF assms] by blast
  let ?g = "g\<lparr>equeues := q, grtenv := unset_slots name (grtenv g)\<rparr>"
  have spec: "env_ok (unset_slots name (grtenv g))" "vars_of (unset_slots name (grtenv g)) = (vars_of (grtenv g))(name := None)"
    using unset_spec [of "grtenv g" name] assms(2) by (simp_all add: ready_def)
  have rd: "ready sys users ?g" by (rule ready_upd [OF assms(2) q(1) spec(1)])
  then show ?thesis using getenv_eq [OF assms(1) rd, of x] q(2) spec(2) by auto
qed

theorem unsetenv_removes_witness:
  "\<exists>g. unsetenv demo (Some [0xC1]) (Some (demo_env False)) = Some (0, Some g) \<and> map_option fst (getenv demo (Some [0xC1]) (Some g)) = Some None"
  using unsetenv_removes [OF demo_ok demo_ready, of "[0xC1]" "[0xC1]"] by auto





end
