(* ===== verification/Inet.thy ===== *)
theory Inet
  imports Cstring Errno
begin

text \<open>
  Internet addresses as text (\<^verbatim>\<open>src/net/@@inaton.c\<close>, \<^verbatim>\<open>@@inaddr.c\<close>, \<^verbatim>\<open>@@inpton.c\<close>, \<^verbatim>\<open>@@inntop.c\<close>, \<^verbatim>\<open>@@inntoa.c\<close>).  An address is a
  32-bit word in network order, which is the machine's; text is EBCDIC.  \<^verbatim>\<open>inet_pton()\<close> takes exactly what \<^verbatim>\<open>inet_ntop()\<close> writes;
  \<^verbatim>\<open>inet_aton()\<close> takes one to four parts in decimal, octal or hexadecimal.
\<close>

section \<open>Definitions\<close>

definition DOT :: byte where "DOT = 0x4B"
definition AF_INET :: int where "AF_INET = 2"
definition INADDR_NONE :: u32 where "INADDR_NONE = 0xFFFFFFFF"
definition INET_ADDRSTRLEN :: nat where "INET_ADDRSTRLEN = 16"
definition EAFNOSUPPORT :: int where "EAFNOSUPPORT = 47"

definition digit :: "byte \<Rightarrow> int \<Rightarrow> int" where
  "digit c base =
     (let d = (if 0xF0 \<le> c \<and> c \<le> 0xF9 then uint c - 0xF0
               else if base = 16 \<and> 0x81 \<le> c \<and> c \<le> 0x86 then uint c - 0x81 + 10
               else if base = 16 \<and> 0xC1 \<le> c \<and> c \<le> 0xC6 then uint c - 0xC1 + 10
               else - 1)
      in if d < 0 then - 1 else if d < base then d else - 1)"

text \<open>\<^verbatim>\<open>number()\<close>: \<open>Some None\<close> is its null pointer; \<open>None\<close> a loop that does not end.\<close>

partial_function (option) num_loop :: "mem \<Rightarrow> int \<Rightarrow> nat \<Rightarrow> u32 \<Rightarrow> bool \<Rightarrow> (nat \<times> u32) option option" where
  "num_loop m base cp v any =
     (let d = digit (m cp) base
      in if d \<ge> 0 then
           if v > (0xFFFFFFFF - word_of_int d) div word_of_int base then Some None
           else num_loop m base (cp + 1) (v * word_of_int base + word_of_int d) True
         else if \<not> any then Some None
         else Some (Some (cp, v)))"

definition number :: "mem \<Rightarrow> nat \<Rightarrow> (nat \<times> u32) option option" where
  "number m cp =
     (if m cp < 0xF0 \<or> m cp > 0xF9 then Some None
      else if m cp = 0xF0 then
        if m (cp + 1) = 0xA7 \<or> m (cp + 1) = 0xE7 then num_loop m 16 (cp + 2) 0 False
        else num_loop m 8 (cp + 1) 0 True
      else num_loop m 10 cp 0 False)"

text \<open>The parts: \<open>left\<close> is how many more there may be.\<close>

fun aton_parts :: "nat \<Rightarrow> mem \<Rightarrow> nat \<Rightarrow> u32 list \<Rightarrow> (nat \<times> u32 list) option option" where
  "aton_parts left m cp part =
     (case number m cp of
        None \<Rightarrow> None
      | Some None \<Rightarrow> Some None
      | Some (Some (cp, v)) \<Rightarrow>
          if m cp \<noteq> DOT then Some (Some (cp, part @ [v]))
          else (case left of 0 \<Rightarrow> Some None | Suc left \<Rightarrow> aton_parts left m (cp + 1) (part @ [v])))"

declare aton_parts.simps [simp del]

definition last_part :: "u32 list" where
  "last_part = [0xFFFFFFFF, 0x00FFFFFF, 0x0000FFFF, 0x000000FF]"

definition ends_address :: "byte \<Rightarrow> bool" where
  "ends_address c \<longleftrightarrow> c = 0 \<or> c = 0x40 \<or> c = 0x05 \<or> c = 0x15"

fun or_parts :: "nat \<Rightarrow> u32 list \<Rightarrow> u32 \<Rightarrow> u32" where
  "or_parts i [] addr = addr"
| "or_parts i (p # ps) addr = or_parts (i + 1) ps (addr OR push_bit (24 - 8 * i) p)"

text \<open>The result and what is stored through \<^verbatim>\<open>inp\<close>.\<close>

definition inet_aton :: "mem \<Rightarrow> nat option \<Rightarrow> (int \<times> u32 option) option" where
  "inet_aton m cp =
     (case cp of
        None \<Rightarrow> Some (0, None)
      | Some cp \<Rightarrow>
          (case aton_parts 3 m cp [] of
             None \<Rightarrow> None
           | Some None \<Rightarrow> Some (0, None)
           | Some (Some (cp, part)) \<Rightarrow>
               let n = length part - 1
               in if \<not> ends_address (m cp) then Some (0, None)
                  else if \<not> list_all (\<lambda>p. p \<le> 0xFF) (take n part) then Some (0, None)
                  else if part ! n > last_part ! n then Some (0, None)
                  else Some (1, Some (or_parts 0 (take n part) (part ! n)))))"

definition inet_addr :: "mem \<Rightarrow> nat option \<Rightarrow> u32 option" where
  "inet_addr m cp = map_option (\<lambda>(rc, a). if rc \<noteq> 0 then the a else INADDR_NONE) (inet_aton m cp)"

text \<open>One part of \<^verbatim>\<open>inet_pton()\<close>; \<^verbatim>\<open>v\<close> does not pass 2559.\<close>

definition is_dig :: "byte \<Rightarrow> bool" where
  "is_dig c \<longleftrightarrow> 0xF0 \<le> c \<and> c \<le> 0xF9"

partial_function (option) octet_loop :: "mem \<Rightarrow> nat \<Rightarrow> nat \<Rightarrow> nat \<Rightarrow> (nat \<times> nat \<times> nat) option option" where
  "octet_loop m src v len =
     (if is_dig (m src) then
        if len \<noteq> 0 \<and> v = 0 then Some None
        else
          let v = v * 10 + (unat (m src) - 0xF0)
          in if v > 255 then Some None else octet_loop m (src + 1) v (len + 1)
      else Some (Some (src, v, len)))"

fun pton_loop :: "nat \<Rightarrow> mem \<Rightarrow> nat \<Rightarrow> nat \<Rightarrow> u32 \<Rightarrow> (nat \<times> u32) option option" where
  "pton_loop 0 m n src addr = Some (Some (src, addr))"
| "pton_loop (Suc left) m n src addr =
     (if n \<noteq> 0 \<and> m src \<noteq> DOT then Some None
      else
        case octet_loop m (if n \<noteq> 0 then src + 1 else src) 0 0 of
          None \<Rightarrow> None
        | Some None \<Rightarrow> Some None
        | Some (Some (src, v, len)) \<Rightarrow>
            if len = 0 then Some None else pton_loop left m (n + 1) src (push_bit 8 addr OR of_nat v))"

text \<open>The result, what is stored at \<^verbatim>\<open>dst\<close>, and \<^verbatim>\<open>errno\<close> if it is set.\<close>

definition inet_pton :: "mem \<Rightarrow> int \<Rightarrow> nat \<Rightarrow> (int \<times> u32 option \<times> int option) option" where
  "inet_pton m af src =
     (if af \<noteq> AF_INET then Some (- 1, None, Some EAFNOSUPPORT)
      else
        case pton_loop 4 m 0 src 0 of
          None \<Rightarrow> None
        | Some None \<Rightarrow> Some (0, None, None)
        | Some (Some (src, addr)) \<Rightarrow> if m src \<noteq> 0 then Some (0, None, None) else Some (1, Some addr, None))"

definition octet :: "nat \<Rightarrow> byte list" where
  "octet b =
     (if b \<ge> 100 then [0xF0 + of_nat (b div 100)] else []) @
     (if b \<ge> 10 then [0xF0 + of_nat (b div 10 mod 10)] else []) @ [0xF0 + of_nat (b mod 10)]"

text \<open>\<^verbatim>\<open>tmp\<close>, with its terminating zero.\<close>

fun ntop_loop :: "u32 \<Rightarrow> nat list \<Rightarrow> byte list" where
  "ntop_loop a [] = []"
| "ntop_loop a (shift # shifts) =
     octet (unat (drop_bit shift a AND 0xFF)) @ (if shift \<noteq> 0 then DOT else 0) # ntop_loop a shifts"

definition inet_ntop :: "mem \<Rightarrow> int \<Rightarrow> u32 \<Rightarrow> nat \<Rightarrow> u32 \<Rightarrow> nat option \<times> mem \<times> int option" where
  "inet_ntop m af a dst n =
     (if af \<noteq> AF_INET then (None, m, Some EAFNOSUPPORT)
      else
        let tmp = ntop_loop a [24, 16, 8, 0]
        in if length tmp > unat n then (None, m, Some ENOSPC) else (Some dst, store m dst tmp, None))"

text \<open>\<^verbatim>\<open>inet_ntoa()\<close>: \<open>buf\<close> is what \<^verbatim>\<open>__wsaget()\<close> returns for the buffer of the process.\<close>

definition inet_ntoa :: "mem \<Rightarrow> nat option \<Rightarrow> u32 \<Rightarrow> nat option \<times> mem \<times> int option" where
  "inet_ntoa m buf a =
     (case buf of None \<Rightarrow> (None, m, None) | Some b \<Rightarrow> inet_ntop m AF_INET a b (of_nat INET_ADDRSTRLEN))"

section \<open>The digits of an octet\<close>

lemma dig_byte:
  assumes "is_dig c"
  shows "unat c - 0xF0 < 10" and "c = 0xF0 + of_nat (unat c - 0xF0)"
proof -
  have c: "0xF0 \<le> unat c" "unat c \<le> 0xF9" using assms by (simp_all add: is_dig_def word_le_nat_alt)
  then show "unat c - 0xF0 < 10" by linarith
  have "unat (0xF0 + of_nat (unat c - 0xF0) :: byte) = unat c"
    using c by (simp add: unat_word_ariths unat_of_nat)
  then show "c = 0xF0 + of_nat (unat c - 0xF0)" by (simp add: word_unat_eq_iff)
qed

lemma byte_dig: "d < 10 \<Longrightarrow> is_dig (0xF0 + of_nat d) \<and> unat (0xF0 + of_nat d :: byte) = 0xF0 + d"
  by (simp add: is_dig_def word_le_nat_alt unat_word_ariths unat_of_nat)

definition reads :: "mem \<Rightarrow> nat \<Rightarrow> byte list \<Rightarrow> bool" where
  "reads m s bs \<longleftrightarrow> block m s (length bs) = bs"

lemma reads_simps [simp]:
  "reads m s []" "reads m s (b # bs) \<longleftrightarrow> m s = b \<and> reads m (Suc s) bs"
  by (auto simp: reads_def block_Suc)

lemma reads_append: "reads m s (xs @ ys) \<longleftrightarrow> reads m s xs \<and> reads m (s + length xs) ys"
  by (induction xs arbitrary: s) auto

lemma octet_cases:
  assumes "v < 256"
  obtains d0 where "d0 < 10" "v = d0" "octet v = [0xF0 + of_nat d0]"
  | d0 d1 where "d0 < 10" "d1 < 10" "d0 \<noteq> 0" "v = d0 * 10 + d1" "octet v = [0xF0 + of_nat d0, 0xF0 + of_nat d1]"
  | d0 d1 d2 where "d0 < 10" "d1 < 10" "d2 < 10" "d0 \<noteq> 0" "v = (d0 * 10 + d1) * 10 + d2"
      "octet v = [0xF0 + of_nat d0, 0xF0 + of_nat d1, 0xF0 + of_nat d2]"
proof -
  consider "v < 10" | "10 \<le> v" "v < 100" | "100 \<le> v" by linarith
  then show thesis
  proof cases
    case 1
    then show ?thesis using that(1) [of v] by (simp add: octet_def)
  next
    case 2
    then show ?thesis using that(2) [of "v div 10" "v mod 10"] by (simp add: octet_def)
  next
    case 3
    have "v div 10 div 10 * 10 + v div 10 mod 10 = v div 10" by simp
    then show ?thesis using 3 assms that(3) [of "v div 100" "v div 10 mod 10" "v mod 10"]
      by (simp add: octet_def div_mult2_eq [of v 10 10, simplified])
  qed
qed

lemma octet_digits:
  "d0 < 10 \<Longrightarrow> octet d0 = [0xF0 + of_nat d0]"
  "d0 < 10 \<Longrightarrow> d1 < 10 \<Longrightarrow> d0 \<noteq> 0 \<Longrightarrow> octet (d0 * 10 + d1) = [0xF0 + of_nat d0, 0xF0 + of_nat d1]"
  "d0 < 10 \<Longrightarrow> d1 < 10 \<Longrightarrow> d2 < 10 \<Longrightarrow> d0 \<noteq> 0 \<Longrightarrow>
     octet ((d0 * 10 + d1) * 10 + d2) = [0xF0 + of_nat d0, 0xF0 + of_nat d1, 0xF0 + of_nat d2]"
proof -
  show "d0 < 10 \<Longrightarrow> octet d0 = [0xF0 + of_nat d0]" by (simp add: octet_def)
  show "d0 < 10 \<Longrightarrow> d1 < 10 \<Longrightarrow> d0 \<noteq> 0 \<Longrightarrow> octet (d0 * 10 + d1) = [0xF0 + of_nat d0, 0xF0 + of_nat d1]"
    by (simp add: octet_def)
  assume d: "d0 < 10" "d1 < 10" "d2 < 10" "d0 \<noteq> 0"
  define y where "y = d0 * 10 + d1"
  have "(y * 10 + d2) div 100 = y div 10" using d(3) div_mult2_eq [of "y * 10 + d2" 10 10] by simp
  moreover have "y div 10 = d0" "y mod 10 = d1" "10 \<le> y" using d by (simp_all add: y_def)
  ultimately have "octet (y * 10 + d2) = [0xF0 + of_nat d0, 0xF0 + of_nat d1, 0xF0 + of_nat d2]"
    using d(3) by (simp add: octet_def)
  then show "octet ((d0 * 10 + d1) * 10 + d2) = [0xF0 + of_nat d0, 0xF0 + of_nat d1, 0xF0 + of_nat d2]" by (simp only: y_def)
qed

lemma octet_loop_reads:
  assumes "v < 256" and "reads m s (octet v)" and "\<not> is_dig (m (s + length (octet v)))"
  shows "octet_loop m s 0 0 = Some (Some (s + length (octet v), v, length (octet v)))"
  using assms(1)
proof (cases rule: octet_cases)
  case (1 d0)
  then show ?thesis using assms(2,3) byte_dig [of d0]
    by (subst octet_loop.simps, simp) (subst octet_loop.simps, simp)
next
  case (2 d0 d1)
  then show ?thesis using assms byte_dig [of d0] byte_dig [of d1]
    by (subst octet_loop.simps, simp) (subst octet_loop.simps, simp, subst octet_loop.simps, simp)
next
  case (3 d0 d1 d2)
  then show ?thesis using assms byte_dig [of d0] byte_dig [of d1] byte_dig [of d2]
    by (subst octet_loop.simps, simp) (subst octet_loop.simps, simp, subst octet_loop.simps, simp, subst octet_loop.simps, simp)
qed

lemma octet_loop_result:
  "\<exists>r. octet_loop m s 0 0 = Some r \<and>
     (case r of None \<Rightarrow> True
      | Some (s', v, len) \<Rightarrow> len \<noteq> 0 \<longrightarrow> v < 256 \<and> reads m s (octet v) \<and> s' = s + length (octet v) \<and> \<not> is_dig (m s'))"
proof (cases "is_dig (m s)")
  case d0: True
  let ?d0 = "unat (m s) - 0xF0" and ?d1 = "unat (m (s + 1)) - 0xF0" and ?d2 = "unat (m (s + 2)) - 0xF0"
  note e0 = dig_byte [OF d0]
  show ?thesis
  proof (cases "is_dig (m (s + 1)) \<and> ?d0 \<noteq> 0")
    case False
    then show ?thesis using d0 e0 octet_digits(1) [OF e0(1)]
      by (subst octet_loop.simps, simp) (subst octet_loop.simps, auto)
  next
    case d1: True
    then have e1: "?d1 < 10" "m (s + 1) = 0xF0 + of_nat ?d1" by (blast intro: dig_byte)+
    have s1: "octet_loop m s 0 0 = octet_loop m (s + 2) (?d0 * 10 + ?d1) 2"
      using d0 d1 e0(1) e1(1) by (subst octet_loop.simps, simp) (subst octet_loop.simps, simp add: numeral_2_eq_2)
    show ?thesis
    proof (cases "is_dig (m (s + 2))")
      case False
      then show ?thesis unfolding s1 using octet_digits(2) [OF e0(1) e1(1)] e0 e1 d1
        by (subst octet_loop.simps) auto
    next
      case d2: True
      note e2 = dig_byte [OF d2]
      show ?thesis
      proof (cases "(?d0 * 10 + ?d1) * 10 + ?d2 > 255")
        case True
        then show ?thesis unfolding s1 using d2 by (subst octet_loop.simps) simp
      next
        case False
        have s2: "octet_loop m s 0 0 = octet_loop m (s + 3) ((?d0 * 10 + ?d1) * 10 + ?d2) 3"
          unfolding s1 using d1 d2 False by (subst octet_loop.simps) (simp add: numeral_3_eq_3)
        have "(x * 10 + y) * 10 + z \<ge> 100" if "x \<noteq> 0" for x y z :: nat using that by simp
        then have big: "(?d0 * 10 + ?d1) * 10 + ?d2 \<ge> 100" using d1 by blast
        show ?thesis
        proof (cases "is_dig (m (s + 3))")
          case True
          then show ?thesis unfolding s2 using big by (subst octet_loop.simps) simp
        next
          case d3: False
          have "reads m s (octet ((?d0 * 10 + ?d1) * 10 + ?d2))" "length (octet ((?d0 * 10 + ?d1) * 10 + ?d2)) = 3"
            using octet_digits(3) [OF e0(1) e1(1) e2(1)] e0 e1 e2 d1 by (auto simp: numeral_2_eq_2)
          then show ?thesis unfolding s2 using d3 False by (subst octet_loop.simps) simp
        qed
      qed
    qed
  qed
qed (subst octet_loop.simps, simp)

section \<open>The four octets of an address\<close>

definition octets :: "u32 \<Rightarrow> nat list" where
  "octets a = map (\<lambda>k. unat (drop_bit k a AND 0xFF)) [24, 16, 8, 0]"

definition pack :: "u32 \<Rightarrow> nat \<Rightarrow> u32" where
  "pack addr v = push_bit 8 addr OR of_nat v"

lemma unat_pack: "unat a < 2 ^ 24 \<Longrightarrow> v < 256 \<Longrightarrow> unat (pack a v) = unat a * 256 + v"
proof -
  assume a: "unat a < 2 ^ 24" and v: "v < 256"
  have "unat (push_bit 8 a) = unat a * 256" using a by (simp add: unat_push_bit_mod)
  then show ?thesis using unat_or_disjoint [of "of_nat v :: u32" 8 "push_bit 8 a"] v by (simp add: pack_def unat_of_nat)
qed

lemma octets_eq: "octets a = [unat a div 2 ^ 24, unat a div 2 ^ 16 mod 256, unat a div 2 ^ 8 mod 256, unat a mod 256]"
proof -
  have "unat (drop_bit k a AND 0xFF) = unat a div 2 ^ k mod 256" for k
    using unat_and_mask_eq [of "drop_bit k a" 8] by (simp add: mask_eq_exp_minus_1 unat_drop_bit_div)
  moreover have "unat a div 2 ^ 24 < 256" using unat32_lt [of a] by (simp add: div_less_iff_less_mult)
  ultimately show ?thesis by (simp add: octets_def)
qed

lemma octets_lt: "v \<in> set (octets a) \<Longrightarrow> v < 256"
proof -
  have "unat a div 2 ^ 24 < 256" using unat32_lt [of a] by (simp add: div_less_iff_less_mult)
  then show "v \<in> set (octets a) \<Longrightarrow> v < 256" by (auto simp: octets_eq)
qed

lemma base_256: "(v :: nat) < 256 \<Longrightarrow> (z * 256 + v) div 256 = z" "(v :: nat) < 256 \<Longrightarrow> (z * 256 + v) mod 256 = v"
  by simp_all

text \<open>Packing the octets one after the other gives the address, and only they do.\<close>

lemma pack_octets:
  assumes "v3 < 256" "v2 < 256" "v1 < 256" "v0 < 256"
  shows "octets (pack (pack (pack (pack 0 v3) v2) v1) v0) = [v3, v2, v1, v0]"
proof -
  have 1: "unat (pack 0 v3) = v3" using unat_pack [of 0 v3] assms by simp
  have 2: "unat (pack (pack 0 v3) v2) = v3 * 256 + v2" using unat_pack [of "pack 0 v3" v2] 1 assms by simp
  have "v3 * 256 + v2 < 2 ^ 16" using assms by simp
  then have 3: "unat (pack (pack (pack 0 v3) v2) v1) = (v3 * 256 + v2) * 256 + v1"
    using unat_pack [of "pack (pack 0 v3) v2" v1] 2 assms by simp
  have "(v3 * 256 + v2) * 256 + v1 < 2 ^ 24" using assms by simp
  then have 4: "unat (pack (pack (pack (pack 0 v3) v2) v1) v0) = ((v3 * 256 + v2) * 256 + v1) * 256 + v0"
    using unat_pack [of "pack (pack (pack 0 v3) v2) v1" v0] 3 assms by simp
  define x y where "x = v3 * 256 + v2" and "y = x * 256 + v1"
  have d: "(y * 256 + v0) div 256 = y" "(y * 256 + v0) mod 256 = v0" "y div 256 = x" "y mod 256 = v1" "x div 256 = v3" "x mod 256 = v2"
    using base_256 assms unfolding y_def x_def by metis+
  have "(y * 256 + v0) div 2 ^ 16 = x" "(y * 256 + v0) div 2 ^ 24 = v3"
    using d div_mult2_eq [of "y * 256 + v0" 256 256] div_mult2_eq [of "y * 256 + v0" 256 "256 * 256"] div_mult2_eq [of y 256 256] by simp_all
  then show ?thesis using d unfolding octets_eq 4 x_def [symmetric] y_def [symmetric] by simp
qed

lemma octets_value: "unat c = ((octets c ! 0 * 256 + octets c ! 1) * 256 + octets c ! 2) * 256 + octets c ! 3"
proof -
  have 1: "unat c div 2 ^ 24 * 256 + unat c div 2 ^ 16 mod 256 = unat c div 2 ^ 16"
    using div_mult2_eq [of "unat c" "2 ^ 16" 256] by simp
  have 2: "unat c div 2 ^ 16 * 256 + unat c div 2 ^ 8 mod 256 = unat c div 2 ^ 8"
    using div_mult2_eq [of "unat c" "2 ^ 8" 256] by simp
  have 3: "unat c div 2 ^ 8 * 256 + unat c mod 256 = unat c" by simp
  have o: "octets c ! 0 = unat c div 2 ^ 24" "octets c ! 1 = unat c div 2 ^ 16 mod 256" "octets c ! 2 = unat c div 2 ^ 8 mod 256"
    "octets c ! 3 = unat c mod 256" by (simp_all add: octets_eq)
  show ?thesis unfolding o 1 2 3 ..
qed

lemma octets_inj: "octets a = octets b \<Longrightarrow> a = b"
  using octets_value [of a] octets_value [of b] by (simp add: word_unat_eq_iff)

lemma octets_four:
  obtains a0 a1 a2 a3 where "octets a = [a0, a1, a2, a3]" "a0 < 256" "a1 < 256" "a2 < 256" "a3 < 256"
proof -
  have "octets a = [octets a ! 0, octets a ! 1, octets a ! 2, octets a ! 3]" by (simp add: octets_def)
  moreover have "octets a ! k < 256" if "k < 4" for k
  proof (rule octets_lt [of _ a])
    have "length (octets a) = 4" by (simp add: octets_def)
    then show "octets a ! k \<in> set (octets a)" using that by simp
  qed
  ultimately show thesis by (intro that [of "octets a ! 0" "octets a ! 1" "octets a ! 2" "octets a ! 3"]) (blast | simp only: zero_less_numeral one_less_numeral_iff semiring_norm numeral_less_iff)+
qed

definition dotted :: "u32 \<Rightarrow> byte list" where
  "dotted a = octet (octets a ! 0) @ [DOT] @ octet (octets a ! 1) @ [DOT] @ octet (octets a ! 2) @ [DOT] @ octet (octets a ! 3)"

lemma ntop_eq: "ntop_loop a [24, 16, 8, 0] = dotted a @ [0]"
  by (simp add: dotted_def octets_def)

section \<open>Strict addresses\<close>

lemma octet_nonempty: "length (octet v) \<noteq> 0"
  by (simp add: octet_def)

lemma pton_step:
  fixes src n defines "s \<equiv> (if n \<noteq> 0 then src + 1 else src)"
  shows "pton_loop (Suc l) m n src addr = Some (Some r) \<longleftrightarrow>
    (n \<noteq> 0 \<longrightarrow> m src = DOT) \<and>
    (\<exists>v < 256. reads m s (octet v) \<and> \<not> is_dig (m (s + length (octet v))) \<and>
       pton_loop l m (n + 1) (s + length (octet v)) (pack addr v) = Some (Some r))"
    (is "?L \<longleftrightarrow> ?D \<and> ?R")
proof
  assume L: ?L
  obtain o' where o': "octet_loop m s 0 0 = Some o'"
      "case o' of None \<Rightarrow> True | Some (s', v, len) \<Rightarrow> len \<noteq> 0 \<longrightarrow> v < 256 \<and> reads m s (octet v) \<and> s' = s + length (octet v) \<and> \<not> is_dig (m s')"
    using octet_loop_result [of m s] by blast
  have D: ?D using L by (auto split: if_splits)
  then obtain s' v len where "o' = Some (s', v, len)" "len \<noteq> 0" "pton_loop l m (n + 1) s' (pack addr v) = Some (Some r)"
    using L o'(1) by (auto simp: s_def pack_def split: option.splits if_splits)
  then show "?D \<and> ?R" using D o'(2) by auto
next
  assume R: "?D \<and> ?R"
  then obtain v where v: "v < 256" "reads m s (octet v)" "\<not> is_dig (m (s + length (octet v)))"
    "pton_loop l m (n + 1) (s + length (octet v)) (pack addr v) = Some (Some r)" by blast
  show ?L using octet_loop_reads [OF v(1-3)] v(4) R octet_nonempty [of v] unfolding s_def pack_def by (cases "n = 0") simp_all
qed

lemma pton_reads:
  assumes "if n = 0 then src = s else src + 1 = s \<and> m src = DOT" and "v < 256" and "reads m s (octet v)"
    and "\<not> is_dig (m (s + length (octet v)))"
  shows "pton_loop (Suc l) m n src addr = pton_loop l m (n + 1) (s + length (octet v)) (pack addr v)"
  using octet_loop_reads [OF assms(2-4)] assms(1) octet_nonempty [of v] by (cases "n = 0") (auto simp: pack_def)

lemma pton_loop_returns: "\<exists>r. pton_loop l m n src addr = Some r"
proof (induction l arbitrary: n src addr)
  case (Suc l)
  obtain o' where "octet_loop m (if n \<noteq> 0 then src + 1 else src) 0 0 = Some o'"
    using octet_loop_result by blast
  then show ?case using Suc by (auto split: option.split)
qed simp

lemma not_dig: "\<not> is_dig DOT" "\<not> is_dig 0"
  by (simp_all add: is_dig_def DOT_def)

lemma octet_range: "v < 256 \<Longrightarrow> c \<in> set (octet v) \<Longrightarrow> is_dig c"
  by (erule octet_cases) (auto simp: byte_dig)

lemma pton_ends:
  "(\<exists>s'. pton_loop 4 m 0 s 0 = Some (Some (s', a)) \<and> m s' = 0) \<longleftrightarrow> str_at m s (dotted a)"
proof
  assume "\<exists>s'. pton_loop 4 m 0 s 0 = Some (Some (s', a)) \<and> m s' = 0"
  then obtain s' where l: "pton_loop (Suc (Suc (Suc (Suc 0)))) m 0 s 0 = Some (Some (s', a))" "m s' = 0"
    by (auto simp: numeral_eq_Suc)
  from l(1) obtain v3 v2 v1 v0 where v: "v3 < 256" "v2 < 256" "v1 < 256" "v0 < 256"
    and a: "a = pack (pack (pack (pack 0 v3) v2) v1) v0"
    and r: "reads m s (octet v3 @ [DOT] @ octet v2 @ [DOT] @ octet v1 @ [DOT] @ octet v0)"
      "s' = s + length (octet v3 @ [DOT] @ octet v2 @ [DOT] @ octet v1 @ [DOT] @ octet v0)"
    unfolding pton_step by (auto simp: reads_append add.assoc)
  have "octets a = [v3, v2, v1, v0]" using pack_octets [OF v] a by simp
  then have d: "dotted a = octet v3 @ [DOT] @ octet v2 @ [DOT] @ octet v1 @ [DOT] @ octet v0" by (simp add: dotted_def)
  have "0 \<notin> set (dotted a)" using octet_range not_dig v unfolding d by (auto simp: DOT_def)
  then show "str_at m s (dotted a)" using r l(2) unfolding str_at_block d reads_def by simp
next
  assume at: "str_at m s (dotted a)"
  define vs where "vs = octets a"
  have v: "vs ! 0 < 256" "vs ! 1 < 256" "vs ! 2 < 256" "vs ! 3 < 256"
    using octets_lt [of _ a] by (simp_all add: vs_def octets_def)
  have four: "octets a = [vs ! 0, vs ! 1, vs ! 2, vs ! 3]" by (simp add: vs_def octets_def)
  have a: "pack (pack (pack (pack 0 (vs ! 0)) (vs ! 1)) (vs ! 2)) (vs ! 3) = a"
    using octets_inj pack_octets [OF v] four by metis
  have r: "reads m s (octet (vs ! 0) @ [DOT] @ octet (vs ! 1) @ [DOT] @ octet (vs ! 2) @ [DOT] @ octet (vs ! 3))"
      "m (s + length (dotted a)) = 0"
    using at by (simp_all add: str_at_block reads_def dotted_def vs_def)
  define s1 s2 s3 s4 where "s1 = s + length (octet (vs ! 0))" and "s2 = s1 + 1 + length (octet (vs ! 1))"
    and "s3 = s2 + 1 + length (octet (vs ! 2))" and "s4 = s3 + 1 + length (octet (vs ! 3))"
  have rs: "reads m s (octet (vs ! 0))" "m s1 = DOT" "reads m (s1 + 1) (octet (vs ! 1))" "m s2 = DOT"
      "reads m (s2 + 1) (octet (vs ! 2))" "m s3 = DOT" "reads m (s3 + 1) (octet (vs ! 3))" "m s4 = 0" "s4 = s + length (dotted a)"
    using r by (simp_all add: reads_append dotted_def vs_def [symmetric] s1_def s2_def s3_def s4_def add.assoc)
  note step = pton_reads [OF _ v(1) rs(1)] pton_reads [OF _ v(2) rs(3)] pton_reads [OF _ v(3) rs(5)] pton_reads [OF _ v(4) rs(7)]
  have "pton_loop (Suc (Suc (Suc (Suc 0)))) m 0 s 0 = Some (Some (s + length (dotted a), a))"
    using step(1) [of 0 s "Suc (Suc (Suc 0))" 0] step(2) [of 1 s1 "Suc (Suc 0)" "pack 0 (vs ! 0)"]
      step(3) [of 2 s2 "Suc 0" "pack (pack 0 (vs ! 0)) (vs ! 1)"] step(4) [of 3 s3 0 "pack (pack (pack 0 (vs ! 0)) (vs ! 1)) (vs ! 2)"]
      rs(2,4,6,8,9) not_dig a
    unfolding s1_def [symmetric] s2_def [symmetric] s3_def [symmetric] s4_def [symmetric]
    by (simp add: numeral_2_eq_2 numeral_3_eq_3 del: pton_loop.simps(2))
  then show "\<exists>s'. pton_loop 4 m 0 s 0 = Some (Some (s', a)) \<and> m s' = 0" using r(2) by (auto simp: numeral_eq_Suc)
qed

section \<open>Addresses in BSD's forms\<close>

text \<open>The number a text of digits of a base stands for.\<close>

definition value_of :: "int \<Rightarrow> byte list \<Rightarrow> nat" where
  "value_of base cs = foldl (\<lambda>a c. a * nat base + nat (digit c base)) 0 cs"

lemma inet_digit_lt: "0 < base \<Longrightarrow> digit c base < base"
  by (auto simp: digit_def Let_def)

lemma digit_ge: "- 1 \<le> digit c base"
  by (auto simp: digit_def Let_def)

lemma unat_wi: "0 \<le> x \<Longrightarrow> x < 2 ^ 32 \<Longrightarrow> unat (word_of_int x :: u32) = nat x"
  by (simp add: unat_eq_nat_uint uint_word_of_int_eq take_bit_int_eq_self)

text \<open>The test before a digit is taken in is exactly that the number stays below 2 to the 32.\<close>

lemma room_test:
  assumes "0 \<le> d" "d < base" "base \<le> 16" "2 \<le> base"
  shows "v > (0xFFFFFFFF - word_of_int d) div word_of_int base \<longleftrightarrow> 2 ^ 32 \<le> unat (v :: u32) * nat base + nat d"
proof -
  have d: "unat (word_of_int d :: u32) = nat d" "unat (word_of_int base :: u32) = nat base"
    using assms by (simp_all add: unat_wi)
  have "unat (0xFFFFFFFF - word_of_int d :: u32) = 4294967295 - nat d" using assms d by (subst unat32_sub) simp_all
  then have q: "unat ((0xFFFFFFFF - word_of_int d :: u32) div word_of_int base) = (4294967295 - nat d) div nat base" by (simp add: unat_div d)
  have "nat d < 4294967296" "0 < nat base" using assms by linarith+
  then have "(4294967295 - nat d) div nat base < unat v \<longleftrightarrow> 4294967295 - nat d < unat v * nat base" by (rule_tac div_less_iff_less_mult)
  also have "\<dots> \<longleftrightarrow> 4294967296 \<le> unat v * nat base + nat d" using \<open>nat d < 4294967296\<close> by linarith
  finally show ?thesis by (simp add: word_less_nat_alt q)
qed

lemma foldl_ge: "(a :: nat) \<le> b \<Longrightarrow> 1 \<le> k \<Longrightarrow> a \<le> foldl (\<lambda>a c. a * k + f c) b cs"
proof (induction cs arbitrary: b)
  case (Cons c cs)
  have "b \<le> b * k + f c" using Cons.prems(2) by (cases k) auto
  then show ?case using Cons.IH [of "b * k + f c"] Cons.prems by simp
qed simp

lemma num_loop_eq:
  assumes base: "2 \<le> base" "base \<le> 16"
  shows "reads m cp cs \<Longrightarrow> \<forall>c \<in> set cs. 0 \<le> digit c base \<Longrightarrow> digit (m (cp + length cs)) base < 0 \<Longrightarrow> any \<or> cs \<noteq> [] \<Longrightarrow>
    num_loop m base cp v any =
      (let x = foldl (\<lambda>a c. a * nat base + nat (digit c base)) (unat v) cs
       in Some (if x < 2 ^ 32 then Some (cp + length cs, of_nat x) else None))"
proof (induction cs arbitrary: cp v any)
  case Nil
  then show ?case by (subst num_loop.simps) simp
next
  case (Cons c cs)
  let ?d = "digit c base" and ?f = "\<lambda>a c. a * nat base + nat (digit c base)"
  have d: "0 \<le> ?d" "?d < base" "m cp = c" using Cons.prems inet_digit_lt [of base c] base by auto
  note test = room_test [OF d(1,2) base(2,1), of v]
  show ?case
  proof (cases "2 ^ 32 \<le> unat v * nat base + nat ?d")
    case True
    then have "\<not> foldl ?f (unat v) (c # cs) < 2 ^ 32" using foldl_ge [of "2 ^ 32" _ "nat base" "\<lambda>c. nat (digit c base)" cs] base
      by (simp add: not_less)
    then show ?thesis using True test d by (subst num_loop.simps) (simp add: Let_def)
  next
    case False
    let ?v = "v * word_of_int base + word_of_int ?d"
    have "unat ?v = unat v * nat base + nat ?d"
      using False d base by (simp add: unat_word_ariths unat_wi)
    moreover have "num_loop m base cp v any = num_loop m base (cp + 1) ?v True"
      using False test d by (subst num_loop.simps) (simp add: Let_def)
    ultimately show ?thesis using Cons.IH [of "cp + 1" True ?v] Cons.prems by (simp add: Let_def)
  qed
qed

text \<open>A part as it may be written: decimal without a leading zero, octal with one, hexadecimal after \<^verbatim>\<open>0x\<close> or \<^verbatim>\<open>0X\<close>.\<close>

definition part_text :: "byte list \<Rightarrow> nat \<Rightarrow> bool" where
  "part_text t v \<longleftrightarrow>
     (\<exists>base cs. (\<forall>c \<in> set cs. 0 \<le> digit c base) \<and> v = value_of base cs \<and>
        (base = 10 \<and> t = cs \<and> cs \<noteq> [] \<and> hd cs \<noteq> 0xF0 \<or> base = 8 \<and> t = 0xF0 # cs \<or>
         base = 16 \<and> cs \<noteq> [] \<and> (t = 0xF0 # 0xA7 # cs \<or> t = 0xF0 # 0xE7 # cs)))"

definition stops :: "byte \<Rightarrow> bool" where
  "stops c \<longleftrightarrow> c = DOT \<or> ends_address c"

lemma stops_digit: "stops c \<Longrightarrow> digit c base < 0" "stops c \<Longrightarrow> c \<noteq> 0xA7 \<and> c \<noteq> 0xE7"
  by (auto simp: stops_def ends_address_def DOT_def digit_def)

lemma digit_10: "0 \<le> digit c 10 \<Longrightarrow> 0xF0 \<le> c \<and> c \<le> 0xF9"
  by (auto simp: digit_def Let_def split: if_splits)

lemma digit_8: "0 \<le> digit c 8 \<Longrightarrow> c \<noteq> 0xA7 \<and> c \<noteq> 0xE7"
  by (auto simp: digit_def Let_def split: if_splits)

lemma number_eq:
  assumes "part_text t v" and "reads m cp t" and "stops (m (cp + length t))"
  shows "number m cp = Some (if v < 2 ^ 32 then Some (cp + length t, of_nat v) else None)"
proof -
  obtain base cs where b: "\<forall>c \<in> set cs. 0 \<le> digit c base" "v = value_of base cs"
    and "base = 10 \<and> t = cs \<and> cs \<noteq> [] \<and> hd cs \<noteq> 0xF0 \<or> base = 8 \<and> t = 0xF0 # cs \<or>
         base = 16 \<and> cs \<noteq> [] \<and> (t = 0xF0 # 0xA7 # cs \<or> t = 0xF0 # 0xE7 # cs)"
    using assms(1) by (auto simp: part_text_def)
  note stop = stops_digit [OF assms(3)]
  from this(2) b show ?thesis
    using \<open>base = 10 \<and> t = cs \<and> cs \<noteq> [] \<and> hd cs \<noteq> 0xF0 \<or> base = 8 \<and> t = 0xF0 # cs \<or> base = 16 \<and> cs \<noteq> [] \<and> (t = 0xF0 # 0xA7 # cs \<or> t = 0xF0 # 0xE7 # cs)\<close>
  proof (elim disjE conjE)
    assume t: "base = 10" "t = cs" "cs \<noteq> []" "hd cs \<noteq> 0xF0"
    then obtain c cs' where c: "cs = c # cs'" by (cases cs) auto
    then have "m cp = c" "0xF0 \<le> c" "c \<le> 0xF9" using assms(2) t b digit_10 [of c] by auto
    then show ?thesis using num_loop_eq [of 10 m cp cs False 0] t b c assms(2) stop
      by (simp add: number_def value_of_def Let_def not_less)
  next
    assume t: "base = 8" "t = 0xF0 # cs"
    have "m (cp + 1) \<noteq> 0xA7 \<and> m (cp + 1) \<noteq> 0xE7" using t assms(2) b(1) stop digit_8 by (cases cs) auto
    then show ?thesis using num_loop_eq [of 8 m "cp + 1" cs True 0] t b assms(2) stop
      by (simp add: number_def value_of_def Let_def)
  next
    assume t: "base = 16" "cs \<noteq> []" "t = 0xF0 # 0xA7 # cs"
    then show ?thesis using num_loop_eq [of 16 m "cp + 2" cs False 0] b assms(2) stop
      by (simp add: number_def value_of_def Let_def)
  next
    assume t: "base = 16" "cs \<noteq> []" "t = 0xF0 # 0xE7 # cs"
    then show ?thesis using num_loop_eq [of 16 m "cp + 2" cs False 0] b assms(2) stop
      by (simp add: number_def value_of_def Let_def)
  qed
qed

text \<open>The parts with dots between them.\<close>

fun join :: "byte list list \<Rightarrow> byte list" where
  "join [] = []"
| "join [t] = t"
| "join (t # ts) = t @ DOT # join ts"

lemma aton_parts_eq:
  "list_all2 part_text ts vs \<Longrightarrow> ts \<noteq> [] \<Longrightarrow> reads m cp (join ts) \<Longrightarrow> ends_address (m (cp + length (join ts))) \<Longrightarrow>
     aton_parts left m cp part =
       Some (if length ts \<le> Suc left \<and> (\<forall>v \<in> set vs. v < 2 ^ 32) then Some (cp + length (join ts), part @ map of_nat vs) else None)"
proof (induction ts arbitrary: vs left cp part rule: join.induct)
  case (2 t)
  obtain v where v: "vs = [v]" "part_text t v" using "2.prems"(1) by (auto simp: list_all2_Cons1)
  have "stops (m (cp + length t))" "m (cp + length t) \<noteq> DOT" using "2.prems"(4) by (auto simp: stops_def ends_address_def DOT_def)
  then show ?case using number_eq [OF v(2), of m cp] "2.prems"(3) v(1) by (subst aton_parts.simps) simp
next
  case (3 t t' ts)
  obtain v vs' where v: "vs = v # vs'" "part_text t v" "list_all2 part_text (t' # ts) vs'" using "3.prems"(1) by (auto simp: list_all2_Cons1)
  let ?cp = "cp + length t + 1"
  have r: "reads m cp t" "m (cp + length t) = DOT" "reads m ?cp (join (t' # ts))" using "3.prems"(3) by (auto simp: reads_append)
  have n: "number m cp = Some (if v < 2 ^ 32 then Some (cp + length t, of_nat v) else None)"
    using number_eq [OF v(2) r(1)] r(2) by (simp add: stops_def)
  have ih: "aton_parts l m ?cp (part @ [of_nat v]) =
      Some (if length (t' # ts) \<le> Suc l \<and> (\<forall>v \<in> set vs'. v < 2 ^ 32) then Some (?cp + length (join (t' # ts)), (part @ [of_nat v]) @ map of_nat vs') else None)" for l
    using "3.IH" [OF v(3) _ r(3)] "3.prems"(4) by (simp add: add.assoc)
  show ?case
  proof (cases left)
    case 0
    then show ?thesis using n r(2) v(1) by (subst aton_parts.simps) (auto split: if_splits)
  next
    case (Suc l)
    then show ?thesis using n r(2) v(1) ih [of l] by (subst aton_parts.simps) (auto split: if_splits simp: add.assoc)
  qed
qed simp

lemma or_shift:
  assumes "unat y < 2 ^ k" and "unat p < 256" and "k \<le> 24"
  shows "unat (push_bit k p OR y :: u32) = unat p * 2 ^ k + unat y" and "unat (push_bit k p OR y :: u32) < 2 ^ (k + 8)"
proof -
  have "unat p * 2 ^ k < 256 * 2 ^ k" using assms(2) by simp
  also have "256 * 2 ^ k = (2 :: nat) ^ (k + 8)" by (simp add: power_add)
  also have "\<dots> \<le> 2 ^ 32" using assms(3) by (intro power_increasing) auto
  finally have lt: "unat p * 2 ^ k < 2 ^ 32" .
  then have p: "unat (push_bit k p) = unat p * 2 ^ k" by (simp add: unat_push_bit_mod)
  then show eq: "unat (push_bit k p OR y) = unat p * 2 ^ k + unat y" using unat_or_disjoint [OF assms(1), of "push_bit k p"] by simp
  have "Suc (unat p) * 2 ^ k \<le> 256 * 2 ^ k" using assms(2) by (intro mult_right_mono) auto
  then have "unat p * 2 ^ k + unat y < 256 * 2 ^ k" using assms(1) by (simp only: mult_Suc)
  then show "unat (push_bit k p OR y) < 2 ^ (k + 8)" unfolding eq by (simp add: power_add)
qed

definition address :: "nat list \<Rightarrow> nat" where
  "address vs = (\<Sum>i < length vs - 1. vs ! i * 2 ^ (24 - 8 * i)) + last vs"

definition in_range :: "nat list \<Rightarrow> bool" where
  "in_range vs \<longleftrightarrow> 1 \<le> length vs \<and> length vs \<le> 4 \<and> (\<forall>v \<in> set (butlast vs). v < 256) \<and> last vs < 2 ^ (40 - 8 * length vs)"

lemma length_cases_4: "1 \<le> length vs \<Longrightarrow> length vs \<le> 4 \<Longrightarrow>
    (\<exists>a. vs = [a]) \<or> (\<exists>a b. vs = [a, b]) \<or> (\<exists>a b c. vs = [a, b, c]) \<or> (\<exists>a b c d. vs = [a, b, c, d])"
  by (auto simp: Suc_length_conv le_Suc_eq numeral_eq_Suc length_Suc_conv)

lemma or_parts_eq:
  assumes "in_range vs"
  shows "unat (or_parts 0 (map of_nat (butlast vs)) (of_nat (last vs))) = address vs \<and> address vs < 2 ^ 32"
proof -
  have small: "unat (of_nat v :: u32) = v" if "v < 2 ^ 32" for v using that by (simp add: unat_of_nat)
  consider a where "vs = [a]" | a b where "vs = [a, b]" | a b c where "vs = [a, b, c]" | a b c d where "vs = [a, b, c, d]"
    using length_cases_4 [of vs] assms by (auto simp: in_range_def)
  then show ?thesis
  proof cases
    case 1
    then show ?thesis using assms small [of a] by (simp add: in_range_def address_def)
  next
    case 2
    then show ?thesis using assms small [of a] small [of b] or_shift [of "of_nat b" 24 "of_nat a"]
      by (simp add: in_range_def address_def or.commute)
  next
    case 3
    then show ?thesis using assms small [of a] small [of b] small [of c] or_shift [of "of_nat c" 16 "of_nat b"]
        or_shift [of "push_bit 16 (of_nat b) OR of_nat c" 24 "of_nat a"]
      by (simp add: in_range_def address_def lessThan_nat_numeral or.commute or.left_commute or.assoc)
  next
    case 4
    then show ?thesis using assms small [of a] small [of b] small [of c] small [of d] or_shift [of "of_nat d" 8 "of_nat c"]
        or_shift [of "push_bit 8 (of_nat c) OR of_nat d" 16 "of_nat b"]
        or_shift [of "push_bit 16 (of_nat b) OR (push_bit 8 (of_nat c) OR of_nat d)" 24 "of_nat a"]
      by (simp add: in_range_def address_def lessThan_nat_numeral or.commute or.left_commute or.assoc)
  qed
qed

lemma last_part_eq: "n < 4 \<Longrightarrow> unat (last_part ! n) = 2 ^ (32 - 8 * n) - 1"
proof -
  assume "n < 4"
  then consider "n = 0" | "n = 1" | "n = 2" | "n = 3" by linarith
  then show ?thesis by cases (simp_all add: last_part_def)
qed

lemma digit_of_nat: "int d < base \<Longrightarrow> d < 10 \<Longrightarrow> digit (0xF0 + of_nat d) base = int d"
  using byte_dig [of d] by (auto simp: digit_def is_dig_def uint_nat)

lemma nonzero_digit: "d < 10 \<Longrightarrow> 0 < d \<Longrightarrow> (of_nat d :: byte) \<noteq> 0"
  by (simp add: word_unat_eq_iff unat_of_nat)

lemma octet_part:
  assumes "v < 256"
  shows "part_text (octet v) v"
proof (cases "v = 0")
  case True
  then show ?thesis unfolding part_text_def by (intro exI [of _ 8] exI [of _ "[]"]) (simp add: value_of_def octet_def)
next
  case False
  have "(\<forall>c \<in> set (octet v). 0 \<le> digit c 10) \<and> v = value_of 10 (octet v) \<and> octet v \<noteq> [] \<and> hd (octet v) \<noteq> 0xF0"
    using assms False by (cases rule: octet_cases) (auto simp: value_of_def digit_of_nat dest: nonzero_digit)
  then show ?thesis unfolding part_text_def by blast
qed

lemma unat_of_nat_self: "of_nat (unat (a :: u32)) = a"
  by (simp add: word_unat_eq_iff unat_of_nat)

lemma in_range_parts: "in_range vs \<Longrightarrow> length vs \<le> 4 \<and> (\<forall>v \<in> set vs. v < 2 ^ 32)"
proof -
  assume r: "in_range vs"
  then have "vs \<noteq> []" "1 \<le> length vs" by (auto simp: in_range_def)
  then have "(2 :: nat) ^ (40 - 8 * length vs) \<le> 2 ^ 32" by (intro power_increasing) linarith+
  then have "last vs < 2 ^ 32" using r unfolding in_range_def by linarith
  moreover have "\<forall>v \<in> set (butlast vs). v < 2 ^ 32" using r by (fastforce simp: in_range_def)
  moreover have "set vs = set (butlast vs) \<union> {last vs}" using \<open>vs \<noteq> []\<close> by (metis append_butlast_last_id set_append list.set(1,2))
  ultimately show ?thesis using r by (simp add: in_range_def)
qed

lemma front_parts:
  assumes "\<forall>v \<in> set vs. v < 2 ^ 32"
  shows "list_all (\<lambda>p. p \<le> 0xFF) (map of_nat (butlast vs) :: u32 list) \<longleftrightarrow> (\<forall>v \<in> set (butlast vs). v < 256)"
proof -
  have "(of_nat v :: u32) \<le> 0xFF \<longleftrightarrow> v < 256" if "v \<in> set (butlast vs)" for v
  proof -
    have "unat (of_nat v :: u32) = v" using assms in_set_butlastD [OF that] by (simp add: unat_of_nat)
    then show ?thesis by (auto simp: word_le_nat_alt)
  qed
  then show ?thesis by (simp add: list_all_iff)
qed

lemma tail_part:
  assumes "v < 2 ^ 32" and "n < 4"
  shows "last_part ! n < of_nat v \<longleftrightarrow> \<not> v < 2 ^ (32 - 8 * n)"
proof -
  have "unat (of_nat v :: u32) = v" using assms(1) by (simp add: unat_of_nat)
  moreover have "0 < (2 :: nat) ^ (32 - 8 * n)" by simp
  ultimately show ?thesis using last_part_eq [OF assms(2)] by (simp only: word_less_nat_alt) linarith
qed

lemma inet_aton_parts:
  assumes "aton_parts 3 m cp [] = Some (Some (cp', map of_nat vs))" and "vs \<noteq> []" and "length vs \<le> 4" and "\<forall>v \<in> set vs. v < 2 ^ 32"
    and "ends_address (m cp')"
  shows "inet_aton m (Some cp) = Some (if in_range vs then (1, Some (of_nat (address vs))) else (0, None))"
proof -
  let ?n = "length vs - 1"
  have n: "?n < 4" "32 - 8 * ?n = 40 - 8 * length vs" "1 \<le> length vs" using assms(2,3) by (cases vs; simp)+
  have t: "take ?n (map of_nat vs :: u32 list) = map of_nat (butlast vs)" by (simp add: butlast_conv_take take_map)
  have l: "(map of_nat vs :: u32 list) ! ?n = of_nat (last vs)" using assms(2) by (simp add: last_conv_nth)
  have lt: "last_part ! ?n < of_nat (last vs) \<longleftrightarrow> \<not> last vs < 2 ^ (40 - 8 * length vs)"
    using tail_part [OF _ n(1), of "last vs"] assms(2,4) n(2) by simp
  have v: "of_nat (address vs) = or_parts 0 (map of_nat (butlast vs)) (of_nat (last vs))" if "in_range vs"
    using or_parts_eq [OF that] by (metis unat_of_nat_self)
  show ?thesis unfolding inet_aton_def option.case assms(1) prod.case Let_def length_map t l front_parts [OF assms(4)] lt
    using assms(3,5) n(3) v by (simp add: in_range_def)
qed

lemma inet_aton_eq:
  assumes "list_all2 part_text ts vs" and "ts \<noteq> []" and "reads m cp (join ts)" and "ends_address (m (cp + length (join ts)))"
  shows "inet_aton m (Some cp) = Some (if in_range vs then (1, Some (of_nat (address vs))) else (0, None))"
proof -
  have len: "length ts = length vs" "vs \<noteq> []" using assms(1,2) by (auto dest: list_all2_lengthD)
  note parts = aton_parts_eq [OF assms, of 3 "[]"]
  show ?thesis
  proof (cases "length vs \<le> 4 \<and> (\<forall>v \<in> set vs. v < 2 ^ 32)")
    case False
    moreover have "aton_parts 3 m cp [] = Some None" using parts False len(1) by auto
    ultimately show ?thesis using in_range_parts [of vs] by (auto simp: inet_aton_def)
  next
    case True
    then have "aton_parts 3 m cp [] = Some (Some (cp + length (join ts), map of_nat vs))" using parts len(1) by simp
    then show ?thesis using inet_aton_parts [OF _ len(2)] True assms(4) by blast
  qed
qed

lemma inet_pton_eq: "str_at m s (dotted a) \<Longrightarrow> inet_pton m AF_INET s = Some (1, Some a, None)"
  using pton_ends [of m s a] by (auto simp: inet_pton_def)

lemma dotted_no_0: "0 \<notin> set (dotted a)"
proof -
  obtain a0 a1 a2 a3 where a: "octets a = [a0, a1, a2, a3]" "a0 < 256" "a1 < 256" "a2 < 256" "a3 < 256" by (rule octets_four)
  then have "0 \<notin> set (octet a0) \<union> set (octet a1) \<union> set (octet a2) \<union> set (octet a3)" using octet_range not_dig(2) by blast
  then show ?thesis by (simp add: dotted_def a(1) DOT_def)
qed

lemma inet_aton_dotted:
  assumes "str_at m s (dotted a)"
  shows "inet_aton m (Some s) = Some (1, Some a)"
proof -
  obtain a0 a1 a2 a3 where a: "octets a = [a0, a1, a2, a3]" "a0 < 256" "a1 < 256" "a2 < 256" "a3 < 256" by (rule octets_four)
  let ?vs = "[a0, a1, a2, a3]" and ?ts = "[octet a0, octet a1, octet a2, octet a3]"
  have "list_all2 part_text ?ts ?vs" using a octet_part by simp
  moreover have j: "join ?ts = dotted a" by (simp add: dotted_def a(1))
  ultimately have "inet_aton m (Some s) = Some (if in_range ?vs then (1, Some (of_nat (address ?vs))) else (0, None))"
    using assms by (intro inet_aton_eq [of ?ts]) (simp_all add: str_at_block reads_def ends_address_def)
  moreover have "in_range ?vs" using a by (simp add: in_range_def)
  moreover have "unat a = address ?vs" using octets_value [of a] by (simp add: a(1) address_def lessThan_nat_numeral)
  then have "of_nat (address ?vs) = a" by (metis unat_of_nat_self)
  ultimately show ?thesis by simp
qed

section \<open>Properties\<close>

text \<open>
  C20: \<^verbatim>\<open>inet_pton()\<close> accepts exactly the text \<^verbatim>\<open>inet_ntop()\<close> writes: for an Internet address it always returns, it returns 1 with the
  address whose four octets, in decimal without leading zeros and with dots between them, are the whole string, and 0 for every
  other string; another family is refused with \<^verbatim>\<open>EAFNOSUPPORT\<close>.
\<close>

theorem inet_pton_strict:
  "(inet_pton m AF_INET s = Some (1, Some a, None) \<longleftrightarrow> str_at m s (dotted a)) \<and>
   (inet_pton m AF_INET s = Some (0, None, None) \<longleftrightarrow> (\<forall>b. \<not> str_at m s (dotted b))) \<and>
   (af \<noteq> AF_INET \<longrightarrow> inet_pton m af s = Some (- 1, None, Some EAFNOSUPPORT))"
proof -
  obtain r where r: "pton_loop 4 m 0 s 0 = Some r" using pton_loop_returns by blast
  have e: "str_at m s (dotted b) \<longleftrightarrow> (\<exists>s'. r = Some (s', b) \<and> m s' = 0)" for b
    using pton_ends [of m s b] r by auto
  show ?thesis
  proof (cases r)
    case None
    then show ?thesis using r e by (simp add: inet_pton_def)
  next
    case (Some p)
    obtain s' b where p: "p = (s', b)" by fastforce
    show ?thesis using r e Some p by (auto simp: inet_pton_def)
  qed
qed

theorem inet_pton_strict_witness:
  "inet_pton (store (\<lambda>a. 0) 8 (dotted 0xC0A80001 @ [0])) AF_INET 8 = Some (1, Some 0xC0A80001, None) \<and> dotted 0xC0A80001 =
     [0xF1, 0xF9, 0xF2, 0x4B, 0xF1, 0xF6, 0xF8, 0x4B, 0xF0, 0x4B, 0xF1] \<and> inet_pton (\<lambda>a. 0) 9 8 = Some (- 1, None, Some EAFNOSUPPORT)"
proof -
  have d: "dotted 0xC0A80001 = [0xF1, 0xF9, 0xF2, 0x4B, 0xF1, 0xF6, 0xF8, 0x4B, 0xF0, 0x4B, 0xF1]"
    by (simp add: dotted_def octets_def octet_def DOT_def)
  then have "str_at (store (\<lambda>a. 0) 8 (dotted 0xC0A80001 @ [0])) 8 (dotted 0xC0A80001)"
    using str_at_store [of "dotted 0xC0A80001" "\<lambda>a. 0" 8] by simp
  then show ?thesis using inet_pton_strict [of _ 8 "0xC0A80001" 9] d by (simp add: AF_INET_def)
qed

text \<open>
  An address printed and read back is the same.  With room for the text and its zero \<^verbatim>\<open>inet_ntop()\<close> stores exactly that, 16 bytes are always
  enough, and both \<^verbatim>\<open>inet_pton()\<close> and \<^verbatim>\<open>inet_aton()\<close> read the address back; with less room it stores nothing and sets \<^verbatim>\<open>ENOSPC\<close>.
\<close>

theorem inet_ntop_roundtrip:
  "length (dotted a) < INET_ADDRSTRLEN \<and>
   (unat n \<le> length (dotted a) \<longrightarrow> inet_ntop m AF_INET a dst n = (None, m, Some ENOSPC)) \<and>
   (length (dotted a) < unat n \<longrightarrow>
      (let m' = store m dst (dotted a @ [0])
       in inet_ntop m AF_INET a dst n = (Some dst, m', None) \<and> inet_pton m' AF_INET dst = Some (1, Some a, None) \<and>
          inet_aton m' (Some dst) = Some (1, Some a)))"
proof -
  obtain a0 a1 a2 a3 where a: "octets a = [a0, a1, a2, a3]" by (rule octets_four)
  have short: "length (octet v) \<le> 3" for v by (simp add: octet_def)
  have len: "length (dotted a) < INET_ADDRSTRLEN"
    using short [of a0] short [of a1] short [of a2] short [of a3] by (simp add: dotted_def a INET_ADDRSTRLEN_def)
  have at: "str_at (store m dst (dotted a @ [0])) dst (dotted a)" by (rule str_at_store [OF dotted_no_0])
  show ?thesis using len inet_pton_eq [OF at] inet_aton_dotted [OF at] unfolding inet_ntop_def ntop_eq Let_def by simp
qed

theorem inet_ntop_roundtrip_witness:
  "inet_aton (store (\<lambda>a. 0) 64 (dotted 0x7F000001 @ [0])) (Some 64) = Some (1, Some 0x7F000001) \<and>
   inet_ntop (\<lambda>a. 0) AF_INET 0x7F000001 64 4 = (None, \<lambda>a. 0, Some ENOSPC)"
proof -
  have "length (dotted 0x7F000001) = 9" by (simp add: dotted_def octets_def octet_def)
  then show ?thesis
    using inet_ntop_roundtrip [of "0x7F000001" 16 "\<lambda>a. 0" 64] inet_ntop_roundtrip [of "0x7F000001" 4 "\<lambda>a. 0" 64] by (simp add: Let_def)
qed

text \<open>
  \<^verbatim>\<open>inet_aton()\<close> reads the forms of BSD: one to four parts, each in decimal, octal or hexadecimal, with dots between them, up to the
  end of the string or a blank, tab or new line; it accepts them exactly when every part but the last is an octet and
  the last fills no more than the octets that are left, and stores their sum at those places; it refuses a fifth part and a part beyond 32 bits.
\<close>

theorem inet_aton_forms:
  assumes "list_all2 part_text ts vs" and "ts \<noteq> []" and "reads m cp (join ts)" and "ends_address (m (cp + length (join ts)))"
  shows "inet_aton m (Some cp) = Some (if in_range vs then (1, Some (of_nat (address vs))) else (0, None))"
  using assms by (rule inet_aton_eq)

theorem inet_aton_forms_witness:
  "inet_aton (store (\<lambda>a. 0) 8 (join [[0xF1, 0xF0], [0xF0, 0xA7, 0xC1, 0x82, 0xF0]])) (Some 8) = Some (1, Some 0x0A000AB0)"
proof -
  let ?ts = "[[0xF1, 0xF0], [0xF0, 0xA7, 0xC1, 0x82, 0xF0]] :: byte list list" and ?vs = "[10, 0xAB0] :: nat list"
  have "part_text [0xF1, 0xF0] 10"
    unfolding part_text_def by (intro exI [of _ 10] exI [of _ "[0xF1, 0xF0]"]) (simp add: value_of_def digit_def)
  moreover have "part_text [0xF0, 0xA7, 0xC1, 0x82, 0xF0] 0xAB0"
    unfolding part_text_def by (intro exI [of _ 16] exI [of _ "[0xC1, 0x82, 0xF0]"]) (simp add: value_of_def digit_def)
  ultimately have "list_all2 part_text ?ts ?vs" by simp
  then have "inet_aton (store (\<lambda>a. 0) 8 (join ?ts)) (Some 8) = Some (if in_range ?vs then (1, Some (of_nat (address ?vs))) else (0, None))"
    by (rule inet_aton_forms) (simp, simp only: reads_def block_store, simp add: store_outside ends_address_def)
  then show ?thesis by (simp add: in_range_def address_def)
qed

end
