(* ===== verification/Printf.thy ===== *)
theory Printf
  imports Int64_Arith Cstring
begin

text \<open>
  Formatted output to a string: one conversion specification (\<^verbatim>\<open>src/stdio/@@examin.c\<close>), \<^verbatim>\<open>vsnprintf()\<close> (\<^verbatim>\<open>vsnprint.c\<close>) and
  \<^verbatim>\<open>vsprintf()\<close> (\<^verbatim>\<open>vvprintf.c\<close> with a string for a sink, \<^verbatim>\<open>vsprintf.c\<close>).

  The argument list is a sequence of words: an \<^verbatim>\<open>int\<close>, a \<^verbatim>\<open>long\<close> and a pointer take one, a \<^verbatim>\<open>long long\<close> and a \<^verbatim>\<open>double\<close> two.  The
  format and the strings are read from the memory before the call and the output goes to a copy of it: as C demands, they do
  not overlap.  \<open>None\<close> is a call that does not return, since no zero ends a string.  The result of the conversion
  of a floating-point number to decimal text, \<^verbatim>\<open>__dblcvx()\<close>, is a parameter, the two words of the number, the conversion character, the
  precision, the alternate form and the size of the result are its arguments; the hexadecimal conversion is here.  Counts of characters do not wrap: C leaves a
  result of more than \<^verbatim>\<open>INT_MAX\<close> characters undefined.
\<close>

section \<open>Definitions\<close>

type_synonym args = "nat \<Rightarrow> u32"
type_synonym dblcvx = "u32 \<Rightarrow> u32 \<Rightarrow> byte \<Rightarrow> int \<Rightarrow> bool \<Rightarrow> nat \<Rightarrow> byte list"

text \<open>The characters the sources name, in EBCDIC.\<close>

abbreviation c_blank :: byte where "c_blank \<equiv> 0x40"
abbreviation c_percent :: byte where "c_percent \<equiv> 0x6C"
abbreviation c_minus :: byte where "c_minus \<equiv> 0x60"
abbreviation c_plus :: byte where "c_plus \<equiv> 0x4E"
abbreviation c_hash :: byte where "c_hash \<equiv> 0x7B"
abbreviation c_star :: byte where "c_star \<equiv> 0x5C"
abbreviation c_dot :: byte where "c_dot \<equiv> 0x4B"
abbreviation c_zero :: byte where "c_zero \<equiv> 0xF0"
abbreviation c_a :: byte where "c_a \<equiv> 0x81"
abbreviation c_c :: byte where "c_c \<equiv> 0x83"
abbreviation c_d :: byte where "c_d \<equiv> 0x84"
abbreviation c_e :: byte where "c_e \<equiv> 0x85"
abbreviation c_f :: byte where "c_f \<equiv> 0x86"
abbreviation c_g :: byte where "c_g \<equiv> 0x87"
abbreviation c_h :: byte where "c_h \<equiv> 0x88"
abbreviation c_i :: byte where "c_i \<equiv> 0x89"
abbreviation c_j :: byte where "c_j \<equiv> 0x91"
abbreviation c_l :: byte where "c_l \<equiv> 0x93"
abbreviation c_n :: byte where "c_n \<equiv> 0x95"
abbreviation c_o :: byte where "c_o \<equiv> 0x96"
abbreviation c_p :: byte where "c_p \<equiv> 0x97"
abbreviation c_s :: byte where "c_s \<equiv> 0xA2"
abbreviation c_t :: byte where "c_t \<equiv> 0xA3"
abbreviation c_u :: byte where "c_u \<equiv> 0xA4"
abbreviation c_x :: byte where "c_x \<equiv> 0xA7"
abbreviation c_z :: byte where "c_z \<equiv> 0xA9"
abbreviation c_A :: byte where "c_A \<equiv> 0xC1"
abbreviation c_E :: byte where "c_E \<equiv> 0xC5"
abbreviation c_F :: byte where "c_F \<equiv> 0xC6"
abbreviation c_G :: byte where "c_G \<equiv> 0xC7"
abbreviation c_L :: byte where "c_L \<equiv> 0xD3"
abbreviation c_P :: byte where "c_P \<equiv> 0xD7"
abbreviation c_X :: byte where "c_X \<equiv> 0xE7"

definition digits_lower :: "byte list" where
  "digits_lower = [0xF0, 0xF1, 0xF2, 0xF3, 0xF4, 0xF5, 0xF6, 0xF7, 0xF8, 0xF9, 0x81, 0x82, 0x83, 0x84, 0x85, 0x86]"

definition digits_upper :: "byte list" where
  "digits_upper = [0xF0, 0xF1, 0xF2, 0xF3, 0xF4, 0xF5, 0xF6, 0xF7, 0xF8, 0xF9, 0xC1, 0xC2, 0xC3, 0xC4, 0xC5, 0xC6]"

subsection \<open>The specification between \<open>%\<close> and the conversion character\<close>

record spec =
  flagMinus :: bool
  flagPlus :: bool
  flagSpace :: bool
  flagHash :: bool
  flagZero :: bool
  width :: int
  precision :: int
  lng :: int
  hmod :: int

definition no_flags :: spec where
  "no_flags = \<lparr>flagMinus = False, flagPlus = False, flagSpace = False, flagHash = False, flagZero = False,
     width = 0, precision = - 1, lng = 0, hmod = 0\<rparr>"

definition end_flags :: "spec \<Rightarrow> spec" where
  "end_flags c =
     (let c = (if flagSpace c \<and> flagPlus c then c\<lparr>flagSpace := False\<rparr> else c)
      in if flagMinus c then c\<lparr>flagZero := False\<rparr> else c)"

definition star_width :: "i32 \<Rightarrow> spec \<Rightarrow> spec" where
  "star_width w c = (let c = c\<lparr>width := sint w\<rparr> in if width c < 0 then c\<lparr>flagMinus := True, width := int32 (- width c)\<rparr> else c)"

partial_function (option) flags_loop :: "mem \<Rightarrow> args \<Rightarrow> spec \<Rightarrow> nat \<Rightarrow> nat \<Rightarrow> (spec \<times> nat \<times> nat) option" where
  "flags_loop m args c format ap =
     (if m format = c_minus then flags_loop m args (c\<lparr>flagMinus := True\<rparr>) (format + 1) ap
      else if m format = c_plus then flags_loop m args (c\<lparr>flagPlus := True\<rparr>) (format + 1) ap
      else if m format = c_blank then flags_loop m args (c\<lparr>flagSpace := True\<rparr>) (format + 1) ap
      else if m format = c_hash then flags_loop m args (c\<lparr>flagHash := True\<rparr>) (format + 1) ap
      else if m format = c_zero then flags_loop m args (c\<lparr>flagZero := True\<rparr>) (format + 1) ap
      else if m format = c_star then flags_loop m args (star_width (args ap) c) (format + 1) (ap + 1)
      else Some (end_flags c, format, ap))"

partial_function (option) number_loop :: "mem \<Rightarrow> int \<Rightarrow> nat \<Rightarrow> (int \<times> nat) option" where
  "number_loop m w format =
     (if holds (isdigit (uint (m format))) then number_loop m (int32 (w * 10 + (uint (m format) - 0xF0))) (format + 1)
      else Some (w, format))"

definition precision_part :: "mem \<Rightarrow> args \<Rightarrow> spec \<Rightarrow> nat \<Rightarrow> nat \<Rightarrow> (spec \<times> nat \<times> nat) option" where
  "precision_part m args c format ap =
     (if m format = c_dot then
        let format = format + 1
        in if m format = c_star then Some (c\<lparr>precision := sint (args ap)\<rparr>, format + 1, ap + 1)
           else map_option (\<lambda>(n, format). (c\<lparr>precision := n\<rparr>, format, ap)) (number_loop m 0 format)
      else Some (c, format, ap))"

definition length_part :: "mem \<Rightarrow> spec \<Rightarrow> nat \<Rightarrow> spec \<times> nat" where
  "length_part m c format =
     (if m format = c_h then
        (if m (format + 1) = c_h then (c\<lparr>hmod := 2\<rparr>, format + 2) else (c\<lparr>hmod := 1\<rparr>, format + 1))
      else if m format = c_z \<or> m format = c_t then (c\<lparr>lng := 1\<rparr>, format + 1)
      else if m format = c_j then (c\<lparr>lng := 2\<rparr>, format + 1)
      else if m format = c_l then
        (if m (format + 1) = c_l then (c\<lparr>lng := 2\<rparr>, format + 2) else (c\<lparr>lng := 1\<rparr>, format + 1))
      else if m format = c_L then
        (if m (format + 1) = c_L then (c\<lparr>lng := 2\<rparr>, format + 2) else (c\<lparr>lng := 1\<rparr>, format + 1))
      else (c, format))"

definition read_spec :: "mem \<Rightarrow> args \<Rightarrow> nat \<Rightarrow> nat \<Rightarrow> (spec \<times> nat \<times> nat) option" where
  "read_spec m args format ap =
     Option.bind (flags_loop m args no_flags format ap) (\<lambda>(c, format, ap).
     Option.bind (number_loop m (width c) format) (\<lambda>(w, format).
     Option.bind (precision_part m args (c\<lparr>width := w\<rparr>) format ap) (\<lambda>(c, format, ap).
       let (c, format) = length_part m c format in Some (c, format, ap))))"

subsection \<open>Integers\<close>

definition is_signed :: "byte \<Rightarrow> bool" where
  "is_signed specifier \<longleftrightarrow> specifier = c_d \<or> specifier = c_i"

definition narrow :: "spec \<Rightarrow> byte \<Rightarrow> i32 \<Rightarrow> i32" where
  "narrow c specifier v =
     (if hmod c = 1 then (if is_signed specifier then scast (ucast v :: u16) else ucast (ucast v :: u16))
      else if hmod c = 2 then (if is_signed specifier then scast (ucast v :: byte) else ucast (ucast v :: byte))
      else v)"

definition base_of :: "byte \<Rightarrow> nat" where
  "base_of specifier =
     (if specifier = c_X \<or> specifier = c_x \<or> specifier = c_p then 16 else if specifier = c_o then 8 else 10)"

definition table_of :: "byte \<Rightarrow> byte list" where
  "table_of specifier = (if specifier = c_X \<or> specifier = c_p then digits_upper else digits_lower)"

text \<open>The digits in \<^verbatim>\<open>work\<close>, the lowest first.\<close>

partial_function (option) digits32 :: "byte list \<Rightarrow> u32 \<Rightarrow> u32 \<Rightarrow> byte list option" where
  "digits32 table base ulvalue =
     (if 0 < ulvalue then
        Option.bind (digits32 table base (ulvalue div base)) (\<lambda>ds. Some (table ! unat (ulvalue mod base) # ds))
      else Some [])"

partial_function (option) digits64 :: "byte list \<Rightarrow> int64 \<Rightarrow> int64 \<Rightarrow> byte list option" where
  "digits64 table base64 value64 =
     (if \<not> i64_is_zero value64 then
        (case i64_divmod value64 base64 of
           (div64, rem64) \<Rightarrow>
             Option.bind (digits64 table base64 (i64_copy div64)) (\<lambda>ds. Some (table ! unat (i64_to_i32 rem64) # ds)))
      else Some [])"

definition negated64 :: "u32 \<Rightarrow> u32 \<Rightarrow> u32 \<times> u32" where
  "negated64 hi lo = (let hi = NOT hi; lo = NOT lo + 1; hi = (if lo = 0 then hi + 1 else hi) in (hi, lo))"

text \<open>The sign and the digits of an integer argument, and the next argument.\<close>

definition int_digits :: "args \<Rightarrow> spec \<Rightarrow> byte \<Rightarrow> nat \<Rightarrow> (bool \<times> byte list) option \<times> nat" where
  "int_digits args c specifier ap =
     (if lng c = 2 then
        let hi = args ap; lo = args (ap + 1);
            neg = is_signed specifier \<and> hi AND 0x80000000 \<noteq> 0;
            (hi, lo) = (if neg then negated64 hi lo else (hi, lo))
        in (map_option (Pair neg) (digits64 (table_of specifier) (i64_from_i32 (of_nat (base_of specifier))) (of_u32s hi lo)), ap + 2)
      else
        let lvalue = (if lng c = 1 then args ap else narrow c specifier (args ap));
            neg = sint lvalue < 0 \<and> is_signed specifier;
            ulvalue = (if neg then - lvalue else lvalue)
        in (map_option (Pair neg) (digits32 (table_of specifier) (of_nat (base_of specifier)) ulvalue), ap + 1))"

text \<open>
  The layout of the digits: \<open>work\<close> holds them with the lowest first, \<open>c\<close> has the precision already set and the zero flag
  dropped.  The result is what \<^verbatim>\<open>outch\<close> gets, in order.
\<close>

definition int_layout :: "spec \<Rightarrow> byte \<Rightarrow> bool \<Rightarrow> byte list \<Rightarrow> byte list" where
  "int_layout c specifier neg work =
     (let x = int (length work);
          pfx = (if flagHash c \<and> the (toupper (uint specifier)) = 0xE7 \<and> x > 0 then 2 else 0);
          sgn = (if neg then [c_minus] else if flagPlus c then [c_plus] else if flagSpace c then [c_blank] else []);
          nz = (if precision c > x then precision c - x else 0);
          nz = (if flagHash c \<and> specifier = c_o \<and> nz = 0 \<and> (x = 0 \<or> work ! nat (x - 1) \<noteq> c_zero) then 1 else nz);
          nz = (if flagZero c \<and> x + nz + int (length sgn) + pfx < width c then width c - int (length sgn) - pfx - x else nz);
          y = x + nz + int (length sgn) + pfx;
          pad = replicate (nat (width c - y)) c_blank
      in (if \<not> flagMinus c then pad else []) @ sgn @
         (if pfx \<noteq> 0 then [c_zero, if specifier = c_X then c_X else c_x] else []) @
         replicate (nat nz) c_zero @ rev work @ (if flagMinus c then pad else []))"

definition int_precision :: "byte \<Rightarrow> spec \<Rightarrow> spec" where
  "int_precision specifier c =
     (let c = (if precision c \<ge> 0 then c\<lparr>flagZero := False\<rparr> else c);
          c = (if precision c < 0 then c\<lparr>precision := 1\<rparr> else c)
      in if specifier = c_p then c\<lparr>precision := 8\<rparr> else c)"

definition int_text :: "args \<Rightarrow> spec \<Rightarrow> byte \<Rightarrow> nat \<Rightarrow> (byte list \<times> nat) option" where
  "int_text args c specifier ap =
     (let (r, ap') = int_digits args c specifier ap
      in map_option (\<lambda>(neg, work). (int_layout (int_precision specifier c) specifier neg work, ap')) r)"

subsection \<open>Hexadecimal floating point\<close>

text \<open>The fourteen digits of the fraction.\<close>

definition fraction :: "u32 \<Rightarrow> u32 \<Rightarrow> nat list" where
  "fraction w0 w1 =
     map (\<lambda>i. unat (drop_bit (20 - 4 * i) w0 AND 0xF)) [0..<6] @ map (\<lambda>i. unat (drop_bit (28 - 4 * i) w1 AND 0xF)) [0..<8]"

text \<open>The carry of the rounding, from the last digit kept to the first; \<open>True\<close> when it leaves the first.\<close>

fun carry_in :: "nat list \<Rightarrow> nat list \<times> bool" where
  "carry_in [] = ([], True)"
| "carry_in (d # ds) = (case carry_in ds of (ds, True) \<Rightarrow> (if d + 1 = 16 then (0 # ds, True) else ((d + 1) # ds, False)) | (ds, False) \<Rightarrow> (d # ds, False))"

definition hexflt_round :: "int \<Rightarrow> nat list \<Rightarrow> int \<Rightarrow> nat list \<times> int" where
  "hexflt_round nd d e =
     (if nd < 13 \<and> (d @ [0]) ! nat (nd + 1) \<ge> 8 then
        (case carry_in (take (nat (nd + 1)) d) of
           (ds, out) \<Rightarrow> let d = ds @ drop (nat (nd + 1)) d in if out then (d[0 := 1], e + 1) else (d, e))
      else (d, e))"

definition exponent_text :: "int \<Rightarrow> byte list" where
  "exponent_text e =
     (let sgn = (if e < 0 then c_minus else c_plus); e = nat \<bar>e\<bar>;
          k = (if e \<ge> 100 then 3 else if e \<ge> 10 then 2 else 1)
      in sgn # rev (map (\<lambda>i. 0xF0 + of_nat (e div 10 ^ i mod 10)) [0..<k]))"

definition hexflt :: "u32 \<Rightarrow> u32 \<Rightarrow> bool \<Rightarrow> int \<Rightarrow> bool \<Rightarrow> nat \<Rightarrow> byte list" where
  "hexflt w0 w1 upper prec alt n =
     (let dg = (if upper then digits_upper else digits_lower);
          e = int (unat (drop_bit 24 w0 AND 0x7F)) - 65;
          d = fraction w0 w1;
          last = int (length (dropWhile (\<lambda>v. v = 0) (rev d))) - 1;
          (d, e, last) =
            (if last < 0 then (d, 0, last)
             else let k = length (takeWhile (\<lambda>v. v = 0) d) in (drop k d @ replicate k 0, e - int k, last - int k));
          nd = (if prec < 0 then last else prec);
          (d, e) = hexflt_round nd d e;
          front = (if w0 AND 0x80000000 \<noteq> 0 then [c_minus] else []) @ [c_zero, if upper then c_X else c_x, dg ! (d ! 0)] @
            (if nd > 0 \<or> alt then [c_dot] else []);
          after = map (\<lambda>i. if i < 14 then dg ! (d ! i) else c_zero) [1..<nat nd + 1]
      in front @ take (n - 8 - length front) after @ [if upper then c_P else c_p] @ exponent_text (e * 4))"

definition is_float :: "byte \<Rightarrow> bool" where
  "is_float specifier \<longleftrightarrow> specifier \<in> {c_e, c_E, c_g, c_G, c_f, c_F}"

definition float_text :: "dblcvx \<Rightarrow> args \<Rightarrow> spec \<Rightarrow> byte \<Rightarrow> nat \<Rightarrow> byte list" where
  "float_text dbl args c specifier ap =
     (let pfx = (if specifier = c_a \<or> specifier = c_A then 2 else 0);
          work = (if pfx \<noteq> 0 then hexflt (args ap) (args (ap + 1)) (specifier = c_A) (precision c) (flagHash c) 127
                  else dbl (args ap) (args (ap + 1)) specifier (if precision c < 0 then 6 else precision c) (flagHash c) 127);
          (sgn, body) =
            (if work \<noteq> [] \<and> hd work = c_minus then ([c_minus], tl work)
             else (if flagPlus c then [c_plus] else if flagSpace c then [c_blank] else [], work));
          pad = nat (width c - int (length body) - int (length sgn))
      in (if \<not> flagMinus c \<and> \<not> flagZero c then replicate pad c_blank else []) @ sgn @ take pfx body @
         (if \<not> flagMinus c \<and> flagZero c then replicate pad c_zero else []) @ drop pfx body @
         (if flagMinus c then replicate pad c_blank else []))"

subsection \<open>Strings, characters and counts\<close>

text \<open>\<^verbatim>\<open>"(null)"\<close> is printed for a null pointer.\<close>

definition null_text :: "byte list" where
  "null_text = [0x4D, 0x95, 0xA4, 0x93, 0x93, 0x5D]"

definition svalue :: "mem \<Rightarrow> u32 \<Rightarrow> mem \<times> nat" where
  "svalue m p = (if p = 0 then (store (\<lambda>a. 0) 0 null_text, 0) else (m, unat p))"

definition string_length :: "mem \<Rightarrow> nat \<Rightarrow> int \<Rightarrow> nat option" where
  "string_length m s prec =
     (if prec > 0 then
        (case memchr m s 0 (nat prec) of Some p \<Rightarrow> Some (p - s) | None \<Rightarrow> Some (nat prec))
      else if prec < 0 then strlen m s
      else Some 0)"

definition string_text :: "mem \<Rightarrow> args \<Rightarrow> spec \<Rightarrow> nat \<Rightarrow> byte list option" where
  "string_text m args c ap =
     (let (m, s) = svalue m (args ap)
      in map_option
           (\<lambda>len. let pad = replicate (nat (width c - int len)) c_blank
                  in (if \<not> flagMinus c then pad else []) @ block m s len @ (if flagMinus c then pad else []))
           (string_length m s (precision c)))"

definition char_text :: "args \<Rightarrow> spec \<Rightarrow> nat \<Rightarrow> byte list" where
  "char_text args c ap =
     (let pad = replicate (nat (width c - 1)) c_blank
      in (if \<not> flagMinus c then pad else []) @ [ucast (args ap)] @ (if flagMinus c then pad else []))"

text \<open>An integer as the machine stores it, the highest byte first.\<close>

definition stored_int :: "nat \<Rightarrow> int \<Rightarrow> byte list" where
  "stored_int n v = map (\<lambda>i. word_of_int (v div 2 ^ (8 * (n - 1 - i)))) [0..<n]"

definition count_size :: "spec \<Rightarrow> nat" where
  "count_size c = (if lng c = 2 then 8 else if lng c = 1 then 4 else if hmod c = 2 then 1 else if hmod c = 1 then 2 else 4)"

subsection \<open>One conversion\<close>

text \<open>
  What \<^verbatim>\<open>__examin()\<close> gives to \<^verbatim>\<open>outch\<close>, the object a \<open>%n\<close> sets, the address it leaves in \<^verbatim>\<open>*formt\<close> and the next argument.
\<close>

definition examin ::
  "dblcvx \<Rightarrow> mem \<Rightarrow> args \<Rightarrow> nat \<Rightarrow> nat \<Rightarrow> int \<Rightarrow> (byte list \<times> (nat \<times> byte list) option \<times> nat \<times> nat) option"
where
  "examin dbl m args start ap written =
     Option.bind (read_spec m args start ap) (\<lambda>(c, format, ap).
       let specifier = m format
       in if specifier \<in> {c_d, c_x, c_X, c_u, c_i, c_o, c_p} then
            map_option (\<lambda>(txt, ap). (txt, None, format, ap)) (int_text args c specifier ap)
          else if is_float specifier \<or> specifier = c_a \<or> specifier = c_A then
            Some (float_text dbl args c specifier ap, None, format, ap + 2)
          else if specifier = c_s then
            map_option (\<lambda>txt. (txt, None, format, ap + 1)) (string_text m args c ap)
          else if specifier = c_c then Some (char_text args c ap, None, format, ap + 1)
          else if specifier = c_n then
            Some ([], Some (unat (args ap), stored_int (count_size c) written), format, ap + 1)
          else if specifier = c_percent then Some ([c_percent], None, format, ap)
          else if specifier \<noteq> 0 then Some (c_percent # block m start (format - start) @ [specifier], None, format, ap)
          else Some (c_percent # block m start (format - start), None, format - 1, ap))"

text \<open>The macro \<^verbatim>\<open>outch\<close> of \<^verbatim>\<open>__examin()\<close> with a string for a sink, over the characters it gets.\<close>

fun put_upto :: "int \<Rightarrow> byte list \<Rightarrow> mem \<Rightarrow> nat \<Rightarrow> mem" where
  "put_upto smax [] out s = out"
| "put_upto smax (ch # txt) out s =
     (if 0 < smax then put_upto (smax - 1) txt (out(s := ch)) (s + 1) else put_upto smax txt out s)"

definition set_count :: "(nat \<times> byte list) option \<Rightarrow> mem \<Rightarrow> mem" where
  "set_count n out = (case n of None \<Rightarrow> out | Some (a, bs) \<Rightarrow> store out a bs)"

subsection \<open>\<^verbatim>\<open>vsnprintf()\<close>\<close>

text \<open>The output: the memory written to, where the next character goes, and the characters so far.\<close>

record sink =
  out :: mem
  at :: nat
  chcount :: int

definition content_limit :: "u32 \<Rightarrow> int" where
  "content_limit n = (if n = 0 then 0 else if n - 1 > 0x7FFFFFFF then 0x7FFFFFFF else uint (n - 1))"

definition outch :: "byte \<Rightarrow> sink \<Rightarrow> sink" where
  "outch ch k = k\<lparr>out := (out k)(at k := ch), at := at k + 1\<rparr>"

definition outn :: "int \<Rightarrow> byte \<Rightarrow> sink \<Rightarrow> sink" where
  "outn lim ch k = (let k = (if chcount k < lim then outch ch k else k) in k\<lparr>chcount := chcount k + 1\<rparr>)"

text \<open>The digits of \<open>%d\<close> in \<^verbatim>\<open>numbuf\<close>, the lowest first.\<close>

function dec_loop :: "u32 \<Rightarrow> byte list" where
  "dec_loop uvint = (let d = 0xF0 + ucast (uvint mod 10); uvint = uvint div 10 in if uvint > 0 then d # dec_loop uvint else [d])"
  by auto
termination
proof (relation "measure unat")
  fix uvint d :: "u32" and q assume "q = uvint div 10" "q > 0"
  then show "(q, uvint) \<in> measure unat" by (cases "unat uvint = 0") (auto simp: unat_div word_less_nat_alt)
qed simp

definition dec_text :: "i32 \<Rightarrow> byte list" where
  "dec_text vint = rev (dec_loop (if sint vint < 0 then - vint else vint) @ (if sint vint < 0 then [c_minus] else []))"

text \<open>The part of the loop for a conversion; \<^verbatim>\<open>format\<close> is after the \<open>%\<close> and is left at the last character of the specification.\<close>

definition vsnprintf_spec :: "dblcvx \<Rightarrow> mem \<Rightarrow> args \<Rightarrow> int \<Rightarrow> nat \<Rightarrow> nat \<Rightarrow> sink \<Rightarrow> (sink \<times> nat \<times> nat) option" where
  "vsnprintf_spec dbl m args lim format ap k =
     (if m format = c_d then Some (fold (outn lim) (dec_text (args ap)) k, format, ap + 1)
      else if is_float (m format) then
        Some (fold (outn lim) (dbl (args ap) (args (ap + 1)) (m format) 6 False 96) k, format, ap + 2)
      else if m format = c_s then
        let (sm, s) = svalue m (args ap)
        in map_option (\<lambda>len. (fold (outn lim) (block sm s len) k, format, ap + 1)) (strlen sm s)
      else if m format = c_c then Some (outn lim (ucast (args ap)) k, format, ap + 1)
      else if m format = c_n then
        Some (k\<lparr>out := store (out k) (unat (args ap)) (stored_int 4 (chcount k))\<rparr>, format, ap + 1)
      else if m format = c_percent then Some (outn lim c_percent k, format, ap)
      else
        map_option
          (\<lambda>(txt, n, format, ap).
             let room = (if lim - chcount k < 0 then 0 else lim - chcount k);
                 extraCh = int (length txt);
                 passed = (if at k = 0 then 0 else min extraCh (max 0 (lim - chcount k)))
             in (k\<lparr>out := set_count n (put_upto room txt (out k) (at k)), at := at k + nat passed, chcount := chcount k + extraCh\<rparr>,
                 format, ap))
          (examin dbl m args format ap (chcount k)))"

partial_function (option) vsnprintf_loop :: "dblcvx \<Rightarrow> mem \<Rightarrow> args \<Rightarrow> int \<Rightarrow> nat \<Rightarrow> nat \<Rightarrow> sink \<Rightarrow> sink option" where
  "vsnprintf_loop dbl m args lim format ap k =
     (if m format = 0 then Some k
      else if m format = c_percent then
        Option.bind (vsnprintf_spec dbl m args lim (format + 1) ap k)
          (\<lambda>(k, format, ap). vsnprintf_loop dbl m args lim (format + 1) ap k)
      else vsnprintf_loop dbl m args lim (format + 1) ap (outn lim (m format) k))"

definition vsnprintf :: "dblcvx \<Rightarrow> mem \<Rightarrow> nat \<Rightarrow> u32 \<Rightarrow> nat \<Rightarrow> args \<Rightarrow> (int \<times> mem) option" where
  "vsnprintf dbl m s n format args =
     map_option (\<lambda>k. (chcount k, if n > 0 then out (outch 0 k) else out k))
       (vsnprintf_loop dbl m args (content_limit n) format 0 \<lparr>out = m, at = s, chcount = 0\<rparr>)"

subsection \<open>\<^verbatim>\<open>vsprintf()\<close>\<close>

definition outs :: "byte list \<Rightarrow> sink \<Rightarrow> sink" where
  "outs txt k = k\<lparr>out := store (out k) (at k) txt, at := at k + length txt\<rparr>"

text \<open>One conversion; the sink has the characters before it in \<^verbatim>\<open>chcount\<close>, and the result the characters of the conversion added.\<close>

definition counted :: "nat \<Rightarrow> sink \<Rightarrow> sink" where
  "counted n k = k\<lparr>chcount := chcount k + int n\<rparr>"

definition onespec :: "dblcvx \<Rightarrow> mem \<Rightarrow> args \<Rightarrow> nat \<Rightarrow> nat \<Rightarrow> sink \<Rightarrow> (sink \<times> nat \<times> nat) option" where
  "onespec dbl m args format ap k =
     (if m format = c_d then
        let txt = dec_text (args ap) in Some (counted (length txt) (fold outch txt k), format, ap + 1)
      else if is_float (m format) then
        let txt = dbl (args ap) (args (ap + 1)) (m format) 6 False 96
        in Some (counted (length txt) (outs txt k), format, ap + 2)
      else if m format = c_s then
        let (sm, s) = svalue m (args ap)
        in map_option (\<lambda>len. (counted len (outs (block sm s len) k), format, ap + 1)) (strlen sm s)
      else if m format = c_c then Some (counted 1 (outch (ucast (args ap)) k), format, ap + 1)
      else if m format = c_n then Some (k\<lparr>out := store (out k) (unat (args ap)) (stored_int 4 (chcount k))\<rparr>, format, ap + 1)
      else if m format = c_percent then Some (counted 1 (outch c_percent k), format, ap)
      else
        Option.bind (examin dbl m args format ap (chcount k)) (\<lambda>(txt, n, format, ap).
          Some (counted (length txt)
                  (k\<lparr>out := set_count n (put_upto 0x7FFFFFFF txt (out k) (at k)), at := at k + length txt\<rparr>), format, ap)))"

partial_function (option) vvprintf_loop :: "dblcvx \<Rightarrow> mem \<Rightarrow> args \<Rightarrow> nat \<Rightarrow> nat \<Rightarrow> sink \<Rightarrow> sink option" where
  "vvprintf_loop dbl m args format ap k =
     (if m format = 0 then Some k
      else if m format = c_percent then
        Option.bind (onespec dbl m args (format + 1) ap k) (\<lambda>(k, format, ap). vvprintf_loop dbl m args (format + 1) ap k)
      else vvprintf_loop dbl m args (format + 1) ap (counted 1 (outch (m format) k)))"

definition vsprintf :: "dblcvx \<Rightarrow> mem \<Rightarrow> nat \<Rightarrow> nat \<Rightarrow> args \<Rightarrow> (int \<times> mem) option" where
  "vsprintf dbl m s format args =
     map_option (\<lambda>k. (chcount k, (out k)(s + nat (chcount k) := 0)))
       (vvprintf_loop dbl m args format 0 \<lparr>out = m, at = s, chcount = 0\<rparr>)"

declare flags_loop.simps [code] number_loop.simps [code] digits32.simps [code] digits64.simps [code]
  vsnprintf_loop.simps [code] vvprintf_loop.simps [code]

section \<open>Digits\<close>

text \<open>The digits of a number in a base, the lowest first; none for 0.\<close>

fun nat_digits :: "nat \<Rightarrow> nat \<Rightarrow> nat list" where
  "nat_digits b v = (if v = 0 \<or> b \<le> 1 then [] else v mod b # nat_digits b (v div b))"

declare nat_digits.simps [simp del]

definition value_le :: "nat \<Rightarrow> nat list \<Rightarrow> nat" where
  "value_le b ds = foldr (\<lambda>d a. d + b * a) ds 0"

lemma nat_digits_0 [simp]: "nat_digits b 0 = []"
  by (simp add: nat_digits.simps)

lemma nat_digits_step: "2 \<le> b \<Longrightarrow> v \<noteq> 0 \<Longrightarrow> nat_digits b v = v mod b # nat_digits b (v div b)"
  by (subst nat_digits.simps) simp

lemma nat_digits_empty [simp]: "2 \<le> b \<Longrightarrow> nat_digits b v = [] \<longleftrightarrow> v = 0"
  by (subst nat_digits.simps) simp

lemma nat_digits_lt: "2 \<le> b \<Longrightarrow> d \<in> set (nat_digits b v) \<Longrightarrow> d < b"
proof (induction v rule: less_induct)
  case (less v)
  then show ?case using less.IH [of "v div b"] by (cases "v = 0") (auto simp: nat_digits_step)
qed

lemma value_nat_digits: "2 \<le> b \<Longrightarrow> value_le b (nat_digits b v) = v"
proof (induction v rule: less_induct)
  case (less v)
  then show ?case by (cases "v = 0") (auto simp: nat_digits_step value_le_def)
qed

lemma length_nat_digits: "2 \<le> b \<Longrightarrow> v < b ^ k \<Longrightarrow> length (nat_digits b v) \<le> k"
proof (induction k arbitrary: v)
  case (Suc k)
  then show ?case by (cases "v = 0") (auto simp: nat_digits_step less_mult_imp_div_less mult.commute)
qed simp

lemma last_nat_digits: "2 \<le> b \<Longrightarrow> v \<noteq> 0 \<Longrightarrow> last (nat_digits b v) \<noteq> 0"
proof (induction v rule: less_induct)
  case (less v)
  show ?case
  proof (cases "v div b = 0")
    case True
    then show ?thesis using less.prems by (auto simp: nat_digits_step div_eq_0_iff)
  next
    case False
    then show ?thesis using less.prems less.IH [of "v div b"] by (simp add: nat_digits_step)
  qed
qed

lemma digits32_eq:
  "2 \<le> b \<Longrightarrow> b < 2 ^ 32 \<Longrightarrow> digits32 table (of_nat b) v = Some (map ((!) table) (nat_digits b (unat v)))"
proof (induction "unat v" arbitrary: v rule: less_induct)
  case less
  have b: "unat (of_nat b :: u32) = b" using less.prems by (simp add: unat_of_nat)
  show ?case
  proof (cases "v = 0")
    case True
    then show ?thesis by (subst digits32.simps) simp
  next
    case False
    then have "unat (v div of_nat b) < unat v" using less.prems b by (simp add: unat_div unat_gt_0)
    from less.hyps [OF this less.prems] show ?thesis using False less.prems b
      by (subst digits32.simps) (simp add: unat_div unat_mod nat_digits_step word_neq_0_conv [symmetric] unat_eq_zero)
  qed
qed

lemma digits64_eq:
  assumes "2 \<le> val b" and "val b \<le> 16"
  shows "digits64 table b v = Some (map ((!) table) (nat_digits (val b) (val v)))"
proof (induction "val v" arbitrary: v rule: less_induct)
  case less
  show ?case
  proof (cases "val v = 0")
    case True
    then show ?thesis by (subst digits64.simps) (simp add: is_zero_val)
  next
    case False
    obtain q r where qr: "i64_divmod v b = (q, r)" by fastforce
    have v: "val q = val v div val b" "val r = val v mod val b" using val_divmod [of v b] assms(1) qr by simp_all
    then have "val q < val v" using False assms(1) by simp
    moreover have "val r < 16" using v(2) assms by (simp add: less_le_trans [OF mod_less_divisor])
    then have "unat (i64_to_i32 r) = val r" using unat_and_mask_eq [of "u32_lo r" 31] by (simp add: i64_to_i32_def unat_u32_lo mask_eq_exp_minus_1)
    ultimately show ?thesis using less(1) [of q] False assms v qr
      by (subst digits64.simps) (simp add: is_zero_val nat_digits_step)
  qed
qed

section \<open>Integer arguments\<close>

definition word64 :: "u32 \<Rightarrow> u32 \<Rightarrow> u64" where
  "word64 hi lo = of_nat (unat hi * 2 ^ 32 + unat lo)"

text \<open>The number an integer conversion is given, with the type its length modifier names.\<close>

definition arg_value :: "args \<Rightarrow> spec \<Rightarrow> byte \<Rightarrow> nat \<Rightarrow> int" where
  "arg_value args c specifier ap =
     (if lng c = 2 then (if is_signed specifier then sint (word64 (args ap) (args (ap + 1))) else uint (word64 (args ap) (args (ap + 1))))
      else if lng c \<noteq> 1 \<and> hmod c = 1 then (if is_signed specifier then sint (ucast (args ap) :: u16) else uint (ucast (args ap) :: u16))
      else if lng c \<noteq> 1 \<and> hmod c = 2 then (if is_signed specifier then sint (ucast (args ap) :: byte) else uint (ucast (args ap) :: byte))
      else if is_signed specifier then sint (args ap) else uint (args ap))"

lemma base_of_bounds: "8 \<le> base_of specifier" "base_of specifier \<le> 16"
  by (simp_all add: base_of_def)

lemma sint_scast_up: "LENGTH('a) \<le> LENGTH('b) \<Longrightarrow> sint (scast (w :: 'a::len word) :: 'b::len word) = sint w"
  by (rule sint_up_scast) (simp add: is_up)

lemma uint_ucast_up': "LENGTH('a) \<le> LENGTH('b) \<Longrightarrow> uint (ucast (w :: 'a::len word) :: 'b::len word) = uint w"
  by (rule uint_up_ucast) (simp add: is_up)

lemma narrow_value:
  "lng c \<noteq> 2 \<Longrightarrow> (let v = (if lng c = 1 then args ap else narrow c sp (args ap)) in
     (if is_signed sp then sint v else uint v)) = arg_value args c sp ap"
  by (simp add: arg_value_def narrow_def sint_scast_up uint_ucast_up')

lemma magnitude32:
  "unat (if sint v < 0 \<and> sgnd then - v else v :: i32) = nat \<bar>if sgnd then sint v else uint v\<bar> \<and>
   (sint v < 0 \<and> sgnd \<longleftrightarrow> (if sgnd then sint v else uint v) < 0)"
proof (cases "sint v < 0 \<and> sgnd")
  case True
  then show ?thesis using uint_neg32 [of v] by (simp flip: nat_uint_eq)
next
  case False
  then show ?thesis using uint_nonneg32 [of v] by (auto simp flip: nat_uint_eq)
qed

lemma unat_word64: "unat (word64 hi lo) = unat hi * 2 ^ 32 + unat lo"
proof -
  have "unat hi * 2 ^ 32 + unat lo < 2 ^ 64" using unat32_lt [of hi] unat32_lt [of lo] by (simp del: unat32_lt)
  then show ?thesis unfolding word64_def unat_of_nat by simp
qed

lemma high_bit32: "(hi :: u32) AND 0x80000000 \<noteq> 0 \<longleftrightarrow> 2 ^ 31 \<le> unat hi"
proof -
  have "hi AND 0x80000000 = hi AND push_bit 31 1" by simp
  also have "\<dots> \<noteq> 0 \<longleftrightarrow> bit hi 31" by (simp only: and_exp_eq_0_iff_not_bit push_bit_of_1) simp
  also have "\<dots> \<longleftrightarrow> bit (unat hi) 31" by (simp add: bit_unsigned_iff)
  also have "\<dots> \<longleftrightarrow> odd (unat hi div 2 ^ 31)" by (rule bit_iff_odd)
  also have "\<dots> \<longleftrightarrow> 2 ^ 31 \<le> unat hi"
  proof -
    have "unat hi div 2 ^ 31 < 2" using unat32_lt [of hi] by (simp add: div_less_iff_less_mult del: unat32_lt)
    then show ?thesis by (cases "unat hi div 2 ^ 31") (auto simp: div_eq_0_iff div_greater_zero_iff)
  qed
  finally show ?thesis .
qed

lemma sint64_cases:
  fixes w :: u64
  obtains "sint w < 0" "int (unat w) = sint w + 2 ^ 64" "2 ^ 63 \<le> unat w" | "0 \<le> sint w" "int (unat w) = sint w" "unat w < 2 ^ 63"
proof -
  have b: "- (2 ^ 63) \<le> sint w" "sint w < 2 ^ 63" using sint_ge [of w] sint_lt [of w] by simp_all
  have u: "int (unat w) = sint w mod 2 ^ 64" by (simp add: uint_sint take_bit_eq_mod)
  show thesis
  proof (cases "sint w < 0")
    case True
    then have "int (unat w) = sint w + 2 ^ 64" using b u by (simp add: zmod_trivial_iff) (smt (verit, best) mod_add_self2 mod_pos_pos_trivial)
    moreover from this have "int (2 ^ 63) \<le> int (unat w)" using b by simp
    then have "2 ^ 63 \<le> unat w" unfolding of_nat_le_iff .
    ultimately show thesis using True that(1) by blast
  next
    case False
    then have "int (unat w) = sint w" using b u by simp
    moreover from this have "int (unat w) < int (2 ^ 63)" using b by simp
    then have "unat w < 2 ^ 63" unfolding of_nat_less_iff .
    ultimately show thesis using False that(2) by linarith
  qed
qed

lemma sign64: "hi AND 0x80000000 \<noteq> 0 \<longleftrightarrow> sint (word64 hi lo) < 0"
proof -
  have "2 ^ 63 \<le> unat (word64 hi lo) \<longleftrightarrow> 2 ^ 31 \<le> unat hi"
    unfolding unat_word64 using unat32_lt [of lo] by (simp del: unat32_lt) linarith
  then show ?thesis unfolding high_bit32 using sint64_cases [of "word64 hi lo"] by (metis not_less)
qed

lemma complement_sum:
  "(a :: nat) + b = 4294967295 \<Longrightarrow> c + d = 4294967296 \<Longrightarrow> a * 4294967296 + c + (b * 4294967296 + d) = 18446744073709551616"
  "(a :: nat) + b = 4294967296 \<Longrightarrow> a * 4294967296 + (b * 4294967296) = 18446744073709551616"
  by linarith+

lemma unat_not32: "unat (NOT x) + unat (x :: u32) = 4294967295"
proof -
  have "NOT x = - 1 - x" by (simp add: not_eq_complement)
  then show ?thesis using unat32_sub [of x "- 1"] unat32_lt [of x] by (simp del: unat32_lt)
qed

lemma unat_not32_plus1: "x \<noteq> 0 \<Longrightarrow> unat (NOT x + 1) + unat (x :: u32) = 4294967296"
proof -
  assume "x \<noteq> 0"
  then have "0 < unat x" by (simp add: unat_gt_0)
  then have "unat (NOT x) + unat (1 :: u32) < 4294967296" using unat_not32 [of x] unfolding unat_1 by linarith
  then have "unat (NOT x + 1) = unat (NOT x) + 1" using unat32_add [of "NOT x" 1] by simp
  then show ?thesis using unat_not32 [of x] by linarith
qed

lemma negated64_eq: "negated64 hi lo = (if lo = 0 then NOT hi + 1 else NOT hi, NOT lo + 1)"
proof -
  have "NOT lo + 1 = 0 \<longleftrightarrow> lo = 0" by (metis add.inverse_inverse add.inverse_neutral minus_eq_not_plus_1)
  then show ?thesis unfolding negated64_def Let_def by (simp only: prod.inject)
qed

lemma negated64_sum:
  assumes "negated64 hi lo = (hi', lo')" and "hi \<noteq> 0"
  shows "unat hi' * 4294967296 + unat lo' + (unat hi * 4294967296 + unat lo) = 18446744073709551616"
proof (cases "lo = 0")
  case True
  then have h: "hi' = NOT hi + 1" "lo' = 0" using assms(1) by (simp_all add: negated64_eq)
  show ?thesis unfolding h True using complement_sum(2) [OF unat_not32_plus1 [OF assms(2)]] by simp
next
  case False
  then have h: "hi' = NOT hi" "lo' = NOT lo + 1" using assms(1) unfolding negated64_eq by (simp_all only: if_False prod.inject)
  show ?thesis unfolding h by (rule complement_sum(1) [OF unat_not32 unat_not32_plus1 [OF False]])
qed

lemma negated64_value:
  assumes "negated64 hi lo = (hi', lo')" and "sint (word64 hi lo) < 0"
  shows "unat hi' * 2 ^ 32 + unat lo' = nat (- sint (word64 hi lo))"
proof -
  have "hi \<noteq> 0" using assms(2) sign64 [of hi lo] by (cases "hi = 0") (simp_all only: and.left_idem zero_and_eq simp_thms)
  note s = negated64_sum [OF assms(1) this]
  have e: "(2 :: nat) ^ 32 = 4294967296" "(2 :: int) ^ 64 = 18446744073709551616" by simp_all
  have "int (unat (word64 hi lo)) = sint (word64 hi lo) + 2 ^ 64"
    by (rule sint64_cases [of "word64 hi lo"]) (use assms(2) in \<open>simp_all only: not_le [symmetric] simp_thms\<close>)
  then have w: "int (unat hi * 4294967296 + unat lo) = sint (word64 hi lo) + 18446744073709551616" unfolding unat_word64 e .
  have arith: "A = nat (- v)" if "A + B = 18446744073709551616" "int B = v + 18446744073709551616" for A B v using that by linarith
  show ?thesis using arith [OF s w] unfolding e .
qed

lemma int_digits_64:
  "lng c = 2 \<Longrightarrow> int_digits args c sp ap =
     (let neg = is_signed sp \<and> sint (word64 (args ap) (args (ap + 1))) < 0;
          (hi, lo) = (if neg then negated64 (args ap) (args (ap + 1)) else (args ap, args (ap + 1)))
      in (map_option (Pair neg) (digits64 (table_of sp) (i64_from_i32 (of_nat (base_of sp))) (of_u32s hi lo)), ap + 2))"
  unfolding int_digits_def Let_def sign64 [of "args ap" "args (ap + 1)"] by (simp only: simp_thms if_True)

lemma digits64_base:
  "digits64 (table_of sp) (i64_from_i32 (of_nat (base_of sp))) v = Some (map ((!) (table_of sp)) (nat_digits (base_of sp) (val v)))"
proof -
  have "sint (of_nat (base_of sp) :: i32) = int (base_of sp)" by (simp add: base_of_def)
  then have "val (i64_from_i32 (of_nat (base_of sp))) = base_of sp" by (simp add: val_from_i32_nonneg)
  then show ?thesis using digits64_eq [of "i64_from_i32 (of_nat (base_of sp))"] base_of_bounds [of sp] by simp
qed

lemma arg_value_64: "lng c = 2 \<Longrightarrow> arg_value args c sp ap =
    (if is_signed sp then sint (word64 (args ap) (args (ap + 1))) else uint (word64 (args ap) (args (ap + 1))))"
  by (simp add: arg_value_def)

lemma int_digits_64_eq:
  assumes "lng c = 2"
  shows "int_digits args c sp ap =
     (Some (arg_value args c sp ap < 0, map ((!) (table_of sp)) (nat_digits (base_of sp) (nat \<bar>arg_value args c sp ap\<bar>))), ap + 2)"
proof -
  define hi lo where "hi = args ap" and "lo = args (ap + 1)"
  note r = int_digits_64 [OF assms, of args sp ap, folded hi_def lo_def] arg_value_64 [OF assms, of args sp ap, folded hi_def lo_def]
  show ?thesis
  proof (cases "is_signed sp \<and> sint (word64 hi lo) < 0")
    case True
    obtain hi' lo' where n: "negated64 hi lo = (hi', lo')" by fastforce
    then have "val (of_u32s hi' lo') = nat (- sint (word64 hi lo))" using negated64_value [of hi lo hi' lo'] True by (simp add: val_of_u32s)
    then show ?thesis using True by (simp add: r n digits64_base)
  next
    case False
    have "val (of_u32s hi lo) = unat (word64 hi lo)" by (simp add: val_of_u32s unat_word64)
    moreover have "int (unat (word64 hi lo)) = (if is_signed sp then sint (word64 hi lo) else uint (word64 hi lo))"
      using False sint64_cases [of "word64 hi lo"] by force
    ultimately have "\<not> (if is_signed sp then sint (word64 hi lo) else uint (word64 hi lo)) < 0"
      "val (of_u32s hi lo) = nat \<bar>if is_signed sp then sint (word64 hi lo) else uint (word64 hi lo)\<bar>" by linarith+
    then show ?thesis using False unfolding r Let_def digits64_base by (simp only: if_False prod.case digits64_base option.map)
  qed
qed

lemma int_digits_eq:
  "int_digits args c sp ap =
     (Some (arg_value args c sp ap < 0, map ((!) (table_of sp)) (nat_digits (base_of sp) (nat \<bar>arg_value args c sp ap\<bar>))),
      ap + (if lng c = 2 then 2 else 1))"
proof (cases "lng c = 2")
  case True
  then show ?thesis using int_digits_64_eq [of c args sp ap] by simp
next
  case False
  define v where "v = (if lng c = 1 then args ap else narrow c sp (args ap))"
  have "(if is_signed sp then sint v else uint v) = arg_value args c sp ap" using narrow_value [OF False, of args ap sp] unfolding Let_def v_def by simp
  note m = magnitude32 [of v "is_signed sp", unfolded this]
  have "2 \<le> base_of sp" "base_of sp < 2 ^ 32" using base_of_bounds [of sp] by simp_all
  then show ?thesis using m False by (cases "sint v < 0 \<and> is_signed sp") (auto simp: int_digits_def Let_def digits32_eq simp flip: v_def)
qed

lemma int_text_eq:
  "int_text args c sp ap =
     Some (int_layout (int_precision sp c) sp (arg_value args c sp ap < 0)
         (map ((!) (table_of sp)) (nat_digits (base_of sp) (nat \<bar>arg_value args c sp ap\<bar>))),
       ap + (if lng c = 2 then 2 else 1))"
  by (simp add: int_text_def int_digits_eq)

section \<open>The layout of an integer\<close>

text \<open>
  What C99 says of the integer conversions (7.19.6.1): at least as many digits as the precision says, 1 without one; the prefix of
  the alternate form; the sign; and the result filled to the width with blanks on the left, on the right with the
  \<open>-\<close> flag, or with zeros after sign and prefix with the \<open>0\<close> flag and no precision.  An address is printed with 8 digits.
\<close>

definition sign_text :: "spec \<Rightarrow> bool \<Rightarrow> byte list" where
  "sign_text c neg = (if neg then [c_minus] else if flagPlus c then [c_plus] else if flagSpace c then [c_blank] else [])"

definition number_text :: "spec \<Rightarrow> byte \<Rightarrow> nat \<Rightarrow> byte list" where
  "number_text c sp v =
     (let ds = rev (map ((!) (table_of sp)) (nat_digits (base_of sp) v));
          prec = (if sp = c_p then 8 else if precision c < 0 then 1 else nat (precision c));
          ds = replicate (prec - length ds) c_zero @ ds
      in if flagHash c \<and> sp = c_o \<and> (ds = [] \<or> hd ds \<noteq> c_zero) then c_zero # ds else ds)"

definition c99_int :: "spec \<Rightarrow> byte \<Rightarrow> int \<Rightarrow> byte list" where
  "c99_int c sp v =
     (let ds = number_text c sp (nat \<bar>v\<bar>);
          lead = sign_text c (v < 0) @ (if flagHash c \<and> (sp = c_x \<or> sp = c_X) \<and> v \<noteq> 0 then [c_zero, sp] else []);
          gap = nat (width c) - length lead - length ds
      in if flagMinus c then lead @ ds @ replicate gap c_blank
         else if flagZero c \<and> precision c < 0 then lead @ replicate gap c_zero @ ds
         else replicate gap c_blank @ lead @ ds)"

lemma table_distinct: "distinct (table_of sp)" "length (table_of sp) = 16" "table_of sp ! 0 = c_zero"
  by (simp_all add: table_of_def digits_upper_def digits_lower_def)

lemma top_digit:
  assumes "v \<noteq> 0"
  shows "map ((!) (table_of sp)) (nat_digits (base_of sp) v) ! (length (nat_digits (base_of sp) v) - 1) \<noteq> c_zero"
proof -
  let ?ds = "nat_digits (base_of sp) v"
  have b: "2 \<le> base_of sp" using base_of_bounds(1) [of sp] by simp
  have "last ?ds < 16" using nat_digits_lt [OF b, of "last ?ds" v] base_of_bounds(2) [of sp] assms b by (simp add: less_le_trans)
  moreover have "last ?ds \<noteq> 0" using last_nat_digits [OF b assms] .
  ultimately have "table_of sp ! last ?ds \<noteq> table_of sp ! 0"
    using nth_eq_iff_index_eq [OF table_distinct(1) [of sp], of "last ?ds" 0] by (simp add: table_distinct(2))
  then have "table_of sp ! last ?ds \<noteq> c_zero" by (simp add: table_distinct(3))
  then show ?thesis using assms b by (simp add: last_conv_nth)
qed

lemma hash_x: "the (toupper (uint sp)) = 0xE7 \<longleftrightarrow> sp = c_x \<or> sp = c_X"
proof -
  have "uint sp = int (unat sp)" by simp
  then have "uint sp < 256" "- 1 \<le> uint sp" using unat8_lt [of sp] by linarith+
  then have "the (toupper (uint sp)) = 0xE7 \<longleftrightarrow> uint sp = 0xA7 \<or> uint sp = 0xE7"
    by (auto simp: toupper_codes lower_code_def)
  also have "\<dots> \<longleftrightarrow> sp = c_x \<or> sp = c_X" by (simp add: word_uint_eq_iff)
  finally show ?thesis .
qed

definition zeros_before :: "spec \<Rightarrow> byte \<Rightarrow> byte list \<Rightarrow> int" where
  "zeros_before c sp work =
     (let x = int (length work); nz = (if precision c > x then precision c - x else 0)
      in if flagHash c \<and> sp = c_o \<and> nz = 0 \<and> (x = 0 \<or> work ! nat (x - 1) \<noteq> c_zero) then 1 else nz)"

lemma zeros_before_nonneg: "0 \<le> zeros_before c sp work"
  by (simp add: zeros_before_def Let_def)

lemma int_precision_simps [simp]:
  "flagMinus (int_precision sp c) = flagMinus c" "flagPlus (int_precision sp c) = flagPlus c"
  "flagSpace (int_precision sp c) = flagSpace c" "flagHash (int_precision sp c) = flagHash c"
  "width (int_precision sp c) = width c" "flagZero (int_precision sp c) = (flagZero c \<and> precision c < 0)"
  "precision (int_precision sp c) = (if sp = c_p then 8 else if precision c < 0 then 1 else precision c)"
  by (simp_all add: int_precision_def Let_def)

lemma number_text_eq:
  assumes "work = map ((!) (table_of sp)) (nat_digits (base_of sp) v)"
  shows "number_text c sp v = replicate (nat (zeros_before (int_precision sp c) sp work)) c_zero @ rev work"
proof -
  define P where "P = precision (int_precision sp c)"
  have P: "0 \<le> P" "nat P = (if sp = c_p then 8 else if precision c < 0 then 1 else nat (precision c))" by (simp_all add: P_def)
  have n: "number_text c sp v =
      (let ds = replicate (nat P - length work) c_zero @ rev work
       in if flagHash c \<and> sp = c_o \<and> (ds = [] \<or> hd ds \<noteq> c_zero) then c_zero # ds else ds)"
    by (simp only: number_text_def Let_def P(2) length_rev assms)
  have z: "zeros_before (int_precision sp c) sp work =
      (if flagHash c \<and> sp = c_o \<and> nat P \<le> length work \<and> (work = [] \<or> last work \<noteq> c_zero) then 1 else int (nat P - length work))"
  proof -
    have n: "(if P > int (length work) then P - int (length work) else 0) = int (nat P - length work)" using P(1) by auto
    have l: "int (length work) = 0 \<or> work ! nat (int (length work) - 1) \<noteq> c_zero \<longleftrightarrow> work = [] \<or> last work \<noteq> c_zero"
      by (cases "work = []") (auto simp: last_conv_nth nat_diff_distrib')
    show ?thesis unfolding zeros_before_def Let_def P_def [symmetric] n l int_precision_simps(4) by simp
  qed
  show ?thesis
  proof (cases "nat P \<le> length work")
    case True
    then show ?thesis unfolding n z by (cases "work = []") (simp_all add: Let_def hd_rev)
  next
    case False
    then obtain k where "nat P - length work = Suc k" by (cases "nat P - length work") auto
    then show ?thesis using False unfolding n z by (simp add: Let_def del: of_nat_Suc)
  qed
qed

lemma pads:
  fixes w :: int and l d n :: nat and z :: int
  assumes "0 \<le> z" and "n = nat z + d"
  shows "nat (w - (int d + z + int l)) = nat w - l - n"
    and "int d + z + int l < w \<Longrightarrow> nat (w - int l - int d) = (nat w - l - n) + nat z"
  using assms by auto

lemma int_layout_eq:
  "int_layout c sp neg work =
    (let x = int (length work); sgn = sign_text c neg;
         prefix = (if flagHash c \<and> (sp = c_x \<or> sp = c_X) \<and> work \<noteq> [] then [c_zero, sp] else []);
         z = zeros_before c sp work;
         nz = (if flagZero c \<and> x + z + int (length sgn) + int (length prefix) < width c then width c - int (length sgn) - int (length prefix) - x else z);
         pad = replicate (nat (width c - (x + nz + int (length sgn) + int (length prefix)))) c_blank
     in (if \<not> flagMinus c then pad else []) @ sgn @ prefix @ replicate (nat nz) c_zero @ rev work @ (if flagMinus c then pad else []))"
proof -
  have pfx: "flagHash c \<and> the (toupper (uint sp)) = 0xE7 \<and> int (length work) > 0 \<longleftrightarrow> flagHash c \<and> (sp = c_x \<or> sp = c_X) \<and> work \<noteq> []"
    using hash_x by auto
  have up: "(if sp = c_X then c_X else c_x) = sp" if "sp = c_x \<or> sp = c_X" using that by auto
  show ?thesis
    unfolding int_layout_def Let_def pfx
    unfolding sign_text_def [symmetric] zeros_before_def [unfolded Let_def, symmetric]
    by (cases "flagHash c \<and> (sp = c_x \<or> sp = c_X) \<and> work \<noteq> []") (simp_all only: if_True if_False list.size up append_Nil, simp_all)
qed

lemma int_layout_c99:
  assumes "flagMinus c \<longrightarrow> \<not> flagZero c" and "work = map ((!) (table_of sp)) (nat_digits (base_of sp) (nat \<bar>v\<bar>))"
  shows "int_layout (int_precision sp c) sp (v < 0) work = c99_int c sp v"
proof -
  define z where "z = zeros_before (int_precision sp c) sp work"
  define lead where "lead = sign_text c (v < 0) @ (if flagHash c \<and> (sp = c_x \<or> sp = c_X) \<and> v \<noteq> 0 then [c_zero, sp] else [])"
  define nt where "nt = number_text c sp (nat \<bar>v\<bar>)"
  have nt: "nt = replicate (nat z) c_zero @ rev work" unfolding z_def nt_def using assms(2) by (rule number_text_eq)
  have z: "0 \<le> z" unfolding z_def by (rule zeros_before_nonneg)
  have e: "work \<noteq> [] \<longleftrightarrow> v \<noteq> 0" using base_of_bounds(1) [of sp] by (simp add: assms(2))
  have s: "sign_text (int_precision sp c) b = sign_text c b" for b by (simp add: sign_text_def)
  define zp where "zp \<longleftrightarrow> flagZero c \<and> precision c < 0 \<and> int (length work) + z + int (length lead) < width c"
  define nz where "nz = (if zp then width c - int (length lead) - int (length work) else z)"
  define pad where "pad = replicate (nat (width c - (int (length work) + nz + int (length lead)))) c_blank"
  have lay: "int_layout (int_precision sp c) sp (v < 0) work =
      (if \<not> flagMinus c then pad else []) @ lead @ replicate (nat nz) c_zero @ rev work @ (if flagMinus c then pad else [])"
    unfolding int_layout_eq pad_def nz_def zp_def lead_def z_def [symmetric] e s int_precision_simps
    by (simp add: Let_def add.assoc diff_diff_eq)
  have len: "length nt = nat z + length work" by (simp add: nt)
  note p = pads [OF z len, where w = "width c" and l = "length lead"]
  have c99: "c99_int c sp v =
      (let gap = nat (width c) - length lead - length nt
       in if flagMinus c then lead @ nt @ replicate gap c_blank
          else if flagZero c \<and> precision c < 0 then lead @ replicate gap c_zero @ nt
          else replicate gap c_blank @ lead @ nt)" unfolding c99_int_def lead_def nt_def Let_def ..
  show ?thesis
  proof (cases zp)
    case True
    then have "\<not> flagMinus c" "flagZero c" "precision c < 0" using assms(1) by (auto simp: zp_def)
    moreover have "nat nz = (nat (width c) - length lead - length nt) + nat z" using p(2) True by (simp add: nz_def zp_def)
    moreover have "pad = []" using True by (simp add: pad_def nz_def)
    ultimately show ?thesis unfolding lay c99 by (simp add: nt replicate_add)
  next
    case False
    then have "nz = z" "pad = replicate (nat (width c) - length lead - length nt) c_blank" using p(1) by (simp_all add: nz_def pad_def)
    moreover have "nat (width c) - length lead - length nt = 0" if "flagZero c \<and> precision c < 0" using False that len z by (auto simp: zp_def)
    ultimately show ?thesis unfolding lay c99 by (simp add: nt Let_def)
  qed
qed

section \<open>Reading a specification\<close>

text \<open>What the end of the flags establishes: \<open>-\<close> overrides \<open>0\<close>, and \<open>+\<close> the blank.\<close>

definition spec_ok :: "spec \<Rightarrow> bool" where
  "spec_ok c \<longleftrightarrow> (flagMinus c \<longrightarrow> \<not> flagZero c) \<and> (flagPlus c \<longrightarrow> \<not> flagSpace c)"

lemma end_flags_ok: "spec_ok (end_flags c)"
  by (auto simp: spec_ok_def end_flags_def Let_def)

lemma flags_loop_ok: "flags_loop m args c format ap = Some r \<Longrightarrow> spec_ok (fst r)"
  by (rule flags_loop.raw_induct [where P = "\<lambda>m args c format ap r. spec_ok (fst r)"]) (auto simp: end_flags_ok split: if_splits)

lemma read_spec_ok:
  assumes "read_spec m args format ap = Some (c, format', ap')"
  shows "spec_ok c"
proof -
  obtain c1 f1 a1 w f2 where 1: "flags_loop m args no_flags format ap = Some (c1, f1, a1)" "number_loop m (width c1) f1 = Some (w, f2)"
    and 2: "Option.bind (precision_part m args (c1\<lparr>width := w\<rparr>) f2 a1) (\<lambda>(c, format, ap).
       let (c, format) = length_part m c format in Some (c, format, ap)) = Some (c, format', ap')"
    using assms by (auto simp: read_spec_def bind_eq_Some_conv)
  then obtain c2 f3 a2 where 3: "precision_part m args (c1\<lparr>width := w\<rparr>) f2 a1 = Some (c2, f3, a2)" "length_part m c2 f3 = (c, format')"
    by (cases "precision_part m args (c1\<lparr>width := w\<rparr>) f2 a1"; cases "length_part m (fst (the (precision_part m args (c1\<lparr>width := w\<rparr>) f2 a1))) (fst (snd (the (precision_part m args (c1\<lparr>width := w\<rparr>) f2 a1))))") auto
  have "flagMinus c2 = flagMinus c1 \<and> flagZero c2 = flagZero c1 \<and> flagPlus c2 = flagPlus c1 \<and> flagSpace c2 = flagSpace c1"
    using 3(1) by (auto simp: precision_part_def Let_def split: if_splits)
  moreover have "flagMinus c = flagMinus c2 \<and> flagZero c = flagZero c2 \<and> flagPlus c = flagPlus c2 \<and> flagSpace c = flagSpace c2"
    using 3(2) by (auto simp: length_part_def split: if_splits)
  ultimately show ?thesis using flags_loop_ok [OF 1(1)] by (simp add: spec_ok_def)
qed

lemma int_conversion:
  assumes "read_spec m args start ap = Some (c, format, ap')" and "m format \<in> {c_d, c_x, c_X, c_u, c_i, c_o, c_p}"
  shows "examin dbl m args start ap written =
    Some (c99_int c (m format) (arg_value args c (m format) ap'), None, format, ap' + (if lng c = 2 then 2 else 1))"
proof -
  have "flagMinus c \<longrightarrow> \<not> flagZero c" using read_spec_ok [OF assms(1)] by (simp add: spec_ok_def)
  then have t: "int_text args c (m format) ap' =
      Some (c99_int c (m format) (arg_value args c (m format) ap'), ap' + (if lng c = 2 then 2 else 1))"
    unfolding int_text_eq by (simp only: int_layout_c99)
  show ?thesis unfolding examin_def assms(1) Option.bind.bind_lunit prod.case Let_def if_P [OF assms(2)] t by simp
qed

section \<open>The text of a format\<close>

text \<open>One conversion as both functions have it: the plain ones at once, the rest by \<^verbatim>\<open>__examin()\<close>.\<close>

definition conversion ::
  "dblcvx \<Rightarrow> mem \<Rightarrow> args \<Rightarrow> nat \<Rightarrow> nat \<Rightarrow> int \<Rightarrow> (byte list \<times> (nat \<times> byte list) option \<times> nat \<times> nat) option"
where
  "conversion dbl m args format ap written =
     (if m format = c_d then Some (dec_text (args ap), None, format, ap + 1)
      else if is_float (m format) then Some (dbl (args ap) (args (ap + 1)) (m format) 6 False 96, None, format, ap + 2)
      else if m format = c_s then
        let (sm, s) = svalue m (args ap) in map_option (\<lambda>len. (block sm s len, None, format, ap + 1)) (strlen sm s)
      else if m format = c_c then Some ([ucast (args ap)], None, format, ap + 1)
      else if m format = c_n then Some ([], Some (unat (args ap), stored_int 4 written), format, ap + 1)
      else if m format = c_percent then Some ([c_percent], None, format, ap)
      else examin dbl m args format ap written)"

text \<open>The whole text of a format and what its \<open>%n\<close> conversions store.\<close>

inductive renders ::
  "dblcvx \<Rightarrow> mem \<Rightarrow> args \<Rightarrow> nat \<Rightarrow> nat \<Rightarrow> int \<Rightarrow> byte list \<Rightarrow> (nat \<times> byte list) list \<Rightarrow> bool" for dbl m args
where
  finish: "m format = 0 \<Longrightarrow> renders dbl m args format ap written [] []"
| plain: "m format \<noteq> 0 \<Longrightarrow> m format \<noteq> c_percent \<Longrightarrow> renders dbl m args (format + 1) ap (written + 1) rest ns \<Longrightarrow>
    renders dbl m args format ap written (m format # rest) ns"
| conv: "m format = c_percent \<Longrightarrow> conversion dbl m args (format + 1) ap written = Some (part, n, format', ap') \<Longrightarrow>
    renders dbl m args (format' + 1) ap' (written + int (length part)) rest ns \<Longrightarrow>
    renders dbl m args format ap written (part @ rest) (case n of None \<Rightarrow> ns | Some x \<Rightarrow> x # ns)"

subsection \<open>Writing\<close>

lemma fold_outch: "fold outch txt k = k\<lparr>out := store (out k) (at k) txt, at := at k + length txt\<rparr>"
  by (induction "txt" arbitrary: k) (simp_all add: outch_def store_Cons')

lemma put_upto_eq: "put_upto smax txt w s = store w s (take (nat smax) txt)"
proof (induction "txt" arbitrary: smax w s)
  case (Cons ch cs)
  then show ?case by (cases "nat smax") (auto simp: store_Cons' nat_diff_distrib fun_upd_def)
qed simp

lemma fold_outn:
  "fold (outn lim) txt k = k\<lparr>out := store (out k) (at k) (take (nat (lim - chcount k)) txt),
     at := at k + length (take (nat (lim - chcount k)) txt), chcount := chcount k + int (length txt)\<rparr>"
proof (induction "txt" arbitrary: k)
  case (Cons ch cs)
  have "nat (lim - chcount k) = (if chcount k < lim then Suc (nat (lim - (chcount k + 1))) else 0)" by (simp, linarith)
  moreover have "outn lim ch k = (if chcount k < lim then k\<lparr>out := (out k)(at k := ch), at := at k + 1, chcount := chcount k + 1\<rparr>
      else k\<lparr>chcount := chcount k + 1\<rparr>)" by (simp add: outn_def outch_def)
  ultimately show ?case by (simp add: Cons.IH store_Cons')
qed simp

text \<open>The sink after a conversion: \<open>part\<close> of its text is stored.\<close>

definition finished :: "byte list \<Rightarrow> byte list \<times> (nat \<times> byte list) option \<times> nat \<times> nat \<Rightarrow> sink \<Rightarrow> sink \<times> nat \<times> nat" where
  "finished part r k = (case r of (txt, n, format, ap) \<Rightarrow>
     (k\<lparr>out := set_count n (store (out k) (at k) part), at := at k + length part, chcount := chcount k + int (length txt)\<rparr>, format, ap))"

lemma finished_simps [simp]:
  "finished part (txt, n, format, ap) k =
     (k\<lparr>out := set_count n (store (out k) (at k) part), at := at k + length part, chcount := chcount k + int (length txt)\<rparr>, format, ap)"
  by (simp add: finished_def)

lemma plain_conversions [simp]: "set_count None w = w" "set_count (Some (a, bs)) w = store w a bs"
  by (simp_all add: set_count_def)

definition is_plain :: "byte \<Rightarrow> bool" where
  "is_plain ch \<longleftrightarrow> ch \<in> {c_d, c_s, c_c, c_n, c_percent} \<or> is_float ch"

lemma conversion_examin: "\<not> is_plain (m format) \<Longrightarrow> conversion dbl m args format ap written = examin dbl m args format ap written"
  by (simp add: conversion_def is_plain_def)

lemma onespec_plain:
  "is_plain (m format) \<Longrightarrow>
   onespec dbl m args format ap k = map_option (\<lambda>r. finished (fst r) r k) (conversion dbl m args format ap (chcount k))"
  unfolding is_plain_def onespec_def conversion_def
  by (elim disjE insertE emptyE)
    (simp_all add: is_float_def counted_def fold_outch outs_def outch_def store_Cons Let_def option.map_comp comp_def split: prod.split)

lemma onespec_examin:
  assumes "\<not> is_plain (m format)" and "examin dbl m args format ap (chcount k) = Some (ts, n, f, a)" and "length ts \<le> 0x7FFFFFFF"
  shows "onespec dbl m args format ap k = Some (finished ts (ts, n, f, a) k)"
  using assms by (simp add: is_plain_def onespec_def counted_def put_upto_eq)

lemma onespec_eq:
  assumes "conversion dbl m args format ap (chcount k) = Some (ts, n, f, a)" and "length ts \<le> 0x7FFFFFFF"
  shows "onespec dbl m args format ap k = Some (finished ts (ts, n, f, a) k)"
  using assms onespec_plain onespec_examin conversion_examin by (cases "is_plain (m format)") simp_all

lemma vsnprintf_plain:
  "is_plain (m format) \<Longrightarrow> vsnprintf_spec dbl m args lim format ap k =
    map_option (\<lambda>r. finished (take (nat (lim - chcount k)) (fst r)) r k) (conversion dbl m args format ap (chcount k))"
  unfolding is_plain_def vsnprintf_spec_def conversion_def
  by (elim disjE insertE emptyE)
    (simp_all add: is_float_def fold_outn outn_def outch_def store_Cons Let_def take_Cons' option.map_comp comp_def split: prod.split)

lemma vsnprintf_examin:
  assumes "\<not> is_plain (m format)" and "examin dbl m args format ap (chcount k) = Some (ts, n, f, a)" and "at k = 0 \<longrightarrow> lim \<le> chcount k"
  shows "vsnprintf_spec dbl m args lim format ap k = Some (finished (take (nat (lim - chcount k)) ts) (ts, n, f, a) k)"
proof -
  have "nat (if at k = 0 then 0 else min (int (length ts)) (max 0 (lim - chcount k))) = length (take (nat (lim - chcount k)) ts)"
    using assms(3) by auto
  moreover have "nat (if lim - chcount k < 0 then 0 else lim - chcount k) = nat (lim - chcount k)" by simp
  ultimately show ?thesis using assms(1,2) by (simp add: is_plain_def vsnprintf_spec_def put_upto_eq Let_def)
qed

lemma vsnprintf_spec_eq:
  assumes "conversion dbl m args format ap (chcount k) = Some (ts, n, f, a)" and "at k = 0 \<longrightarrow> lim \<le> chcount k"
  shows "vsnprintf_spec dbl m args lim format ap k = Some (finished (take (nat (lim - chcount k)) ts) (ts, n, f, a) k)"
  using assms vsnprintf_plain vsnprintf_examin conversion_examin by (cases "is_plain (m format)") simp_all

subsection \<open>The two functions\<close>

text \<open>Without a \<open>%n\<close> the memory written to is known; with one, still the number of characters.\<close>

lemma vvprintf_loop_eq:
  assumes "renders dbl m args format ap written T ns" and "length T \<le> 0x7FFFFFFF" and "chcount k = written"
  shows "\<exists>w. vvprintf_loop dbl m args format ap k = Some (k\<lparr>out := w, at := at k + length T, chcount := written + int (length T)\<rparr>) \<and>
    (ns = [] \<longrightarrow> w = store (out k) (at k) T)"
  using assms
proof (induction arbitrary: k rule: renders.induct)
  case (finish format ap written)
  then show ?case by (subst vvprintf_loop.simps) (auto intro: exI [of _ "out k"])
next
  case (plain format ap written rest ns)
  then show ?case using plain.IH [of "counted 1 (outch (m format) k)"]
    by (subst vvprintf_loop.simps) (simp add: counted_def outch_def store_Cons' fun_upd_def add.assoc)
next
  case (conv format ap written part n format' ap' rest ns)
  let ?k = "k\<lparr>out := set_count n (store (out k) (at k) part), at := at k + length part, chcount := chcount k + int (length part)\<rparr>"
  have "onespec dbl m args (format + 1) ap k = Some (?k, format', ap')"
    using onespec_eq [of dbl m args "format + 1" ap k part n format' ap'] conv.hyps(2) conv.prems by simp
  moreover obtain w where "vvprintf_loop dbl m args (format' + 1) ap' ?k =
      Some (?k\<lparr>out := w, at := at ?k + length rest, chcount := written + int (length part) + int (length rest)\<rparr>)"
    and w: "ns = [] \<longrightarrow> w = store (out ?k) (at ?k) rest"
    using conv.IH [of ?k] conv.prems by auto
  moreover have "n = None \<and> w = store (out k) (at k) (part @ rest)" if "(case n of None \<Rightarrow> ns | Some x \<Rightarrow> x # ns) = []"
    using w that by (auto simp: store_append split: option.splits)
  ultimately show ?case using conv.hyps(1)
    by (subst vvprintf_loop.simps) (auto simp: add.assoc)
qed

lemma vsnprintf_loop_eq:
  assumes "renders dbl m args format ap written T ns" and "chcount k = written" and "at k = 0 \<longrightarrow> lim \<le> written"
  shows "\<exists>w. vsnprintf_loop dbl m args lim format ap k =
      Some (k\<lparr>out := w, at := at k + length (take (nat (lim - written)) T), chcount := written + int (length T)\<rparr>) \<and>
    (ns = [] \<longrightarrow> w = store (out k) (at k) (take (nat (lim - written)) T))"
  using assms
proof (induction arbitrary: k rule: renders.induct)
  case (finish format ap written)
  then show ?case by (subst vsnprintf_loop.simps) (auto intro: exI [of _ "out k"])
next
  case (plain format ap written rest ns)
  have "nat (lim - written) = (if written < lim then Suc (nat (lim - (written + 1))) else 0)" by (simp, linarith)
  moreover have "outn lim (m format) k = (if written < lim then k\<lparr>out := (out k)(at k := m format), at := at k + 1, chcount := chcount k + 1\<rparr>
      else k\<lparr>chcount := chcount k + 1\<rparr>)" using plain.prems by (simp add: outn_def outch_def)
  ultimately show ?case using plain.IH [of "outn lim (m format) k"] plain.prems plain.hyps
    by (subst vsnprintf_loop.simps) (simp add: store_Cons' fun_upd_def add.assoc split: if_splits)
next
  case (conv format ap written part n format' ap' rest ns)
  let ?t = "take (nat (lim - written)) part" and ?r = "take (nat (lim - (written + int (length part)))) rest"
  let ?k = "k\<lparr>out := set_count n (store (out k) (at k) ?t), at := at k + length ?t, chcount := chcount k + int (length part)\<rparr>"
  have "vsnprintf_spec dbl m args lim (format + 1) ap k = Some (?k, format', ap')"
    using vsnprintf_spec_eq [of dbl m args "format + 1" ap k part n format' ap' lim] conv.hyps(2) conv.prems by simp
  moreover have t: "take (nat (lim - written)) (part @ rest) = ?t @ ?r"
  proof -
    have "nat (lim - (written + int (length part))) = nat (lim - written) - length part" by linarith
    then show ?thesis by simp
  qed
  have k1: "at ?k = 0 \<longrightarrow> lim \<le> written + int (length part)" and k2: "chcount ?k = written + int (length part)" using conv.prems by auto
  obtain w where l: "vsnprintf_loop dbl m args lim (format' + 1) ap' ?k =
      Some (?k\<lparr>out := w, at := at ?k + length ?r, chcount := written + int (length part) + int (length rest)\<rparr>)"
    and w: "ns = [] \<longrightarrow> w = store (out ?k) (at ?k) ?r"
    using conv.IH [OF k2 k1] by (elim exE conjE) (rule that)
  have "n = None \<and> w = store (out k) (at k) (?t @ ?r)" if "(case n of None \<Rightarrow> ns | Some x \<Rightarrow> x # ns) = []"
    using w that by (auto simp: store_append split: option.splits)
  moreover have "length (take (nat (lim - written)) (part @ rest)) = length ?t + length ?r" unfolding t by simp
  ultimately show ?case using conv.hyps(1) t l
    by (subst vsnprintf_loop.simps) (auto simp: add.assoc simp del: take_append length_take)
qed

lemma vsprintf_eq:
  assumes "renders dbl m args format 0 0 T ns" and "length T \<le> 0x7FFFFFFF"
  shows "\<exists>w. vsprintf dbl m s format args = Some (int (length T), w) \<and> (ns = [] \<longrightarrow> w = store m s (T @ [0]))"
  using vvprintf_loop_eq [OF assms, of "\<lparr>out = m, at = s, chcount = 0\<rparr>"]
  by (auto simp: vsprintf_def store_append store_Cons)

lemma content_limit_take: "length T \<le> 0x7FFFFFFF \<Longrightarrow> n \<noteq> 0 \<Longrightarrow> take (nat (content_limit n)) T = take (unat n - 1) T"
proof -
  assume T: "length T \<le> 0x7FFFFFFF" and n: "n \<noteq> 0"
  have u: "unat (n - 1) = unat n - 1" using n unat32_sub [of 1 n] unat_gt_0 [of n] by simp
  show ?thesis
  proof (cases "n - 1 > 0x7FFFFFFF")
    case True
    then have "0x7FFFFFFF < unat n - 1" using u by (simp add: word_less_nat_alt)
    then show ?thesis using T n True by (simp add: content_limit_def)
  next
    case False
    then have "nat (content_limit n) = unat n - 1" using n u by (simp add: content_limit_def)
    then show ?thesis by simp
  qed
qed

lemma vsnprintf_eq:
  assumes "renders dbl m args format 0 0 T ns" and "length T \<le> 0x7FFFFFFF" and "s = 0 \<longrightarrow> n = 0"
  shows "\<exists>w. vsnprintf dbl m s n format args = Some (int (length T), w) \<and>
    (ns = [] \<longrightarrow> w = (if n = 0 then m else store m s (take (unat n - 1) T @ [0])))"
proof -
  have "s = 0 \<longrightarrow> content_limit n \<le> 0" using assms(3) by (simp add: content_limit_def)
  then show ?thesis
    using vsnprintf_loop_eq [OF assms(1), of "\<lparr>out = m, at = s, chcount = 0\<rparr>" "content_limit n"] content_limit_take [OF assms(2), of n]
    by (cases "n = 0") (auto simp: vsnprintf_def content_limit_def [of 0] outch_def store_append store_Cons word_gt_0 simp del: length_take)
qed

section \<open>Every format ends\<close>

lemma isdigit_byte: "holds (isdigit (uint (b :: byte))) \<longleftrightarrow> 0xF0 \<le> uint b \<and> uint b \<le> 0xF9"
  by (auto simp: class_test_codes digit_code_def)

text \<open>A position in a string: \<open>p\<close> is at most at the zero that ends the string at \<open>f\<close>.\<close>

definition within :: "mem \<Rightarrow> nat \<Rightarrow> byte list \<Rightarrow> nat \<Rightarrow> bool" where
  "within m f bs p \<longleftrightarrow> str_at m f bs \<and> f \<le> p \<and> p \<le> f + length bs"

lemma within_start: "str_at m f bs \<Longrightarrow> within m f bs f"
  by (simp add: within_def)

lemma within_next: "within m f bs p \<Longrightarrow> m p \<noteq> 0 \<Longrightarrow> within m f bs (p + 1)"
  by (cases "p = f + length bs") (auto simp: within_def str_at_block)

lemma within_str: "within m f bs p \<Longrightarrow> str_at m p (drop (p - f) bs)"
  using str_at_drop [of m f bs "p - f"] by (auto simp: within_def)

lemma within_induct [consumes 1, case_names step]:
  assumes "within m f bs p" and step: "\<And>p. within m f bs p \<Longrightarrow> (m p \<noteq> 0 \<Longrightarrow> P (p + 1)) \<Longrightarrow> P p"
  shows "P p"
  using assms(1)
proof (induction "f + length bs - p" arbitrary: p rule: less_induct)
  case less
  show ?case
  proof (rule step [OF less.prems])
    assume nz: "m p \<noteq> 0"
    then have "within m f bs (p + 1)" using less.prems within_next by blast
    moreover from this have "f + length bs - (p + 1) < f + length bs - p" by (auto simp: within_def)
    ultimately show "P (p + 1)" using less.hyps by blast
  qed
qed

lemma flags_loop_returns: "within m f bs p \<Longrightarrow> \<exists>c' p' ap'. flags_loop m args c p ap = Some (c', p', ap') \<and> within m f bs p'"
proof (induction arbitrary: c ap rule: within_induct)
  case (step p)
  then show ?case by (subst flags_loop.simps) (simp only: split: if_split; fastforce)
qed

lemma number_loop_returns: "within m f bs p \<Longrightarrow> \<exists>w' p'. number_loop m w p = Some (w', p') \<and> within m f bs p'"
proof (induction arbitrary: w rule: within_induct)
  case (step p)
  then show ?case by (cases "m p = 0"; subst number_loop.simps) (auto simp: isdigit_byte class_test_codes digit_code_def)
qed

lemma precision_part_returns:
  assumes "within m f bs p"
  shows "\<exists>c' p' ap'. precision_part m args c p ap = Some (c', p', ap') \<and> within m f bs p'"
proof (cases "m p = c_dot")
  case True
  then have "within m f bs (p + 1)" using assms within_next by fastforce
  then show ?thesis using True number_loop_returns [of m f bs "p + 1" 0] within_next [of m f bs "p + 1"] by (auto simp: precision_part_def)
qed (use assms in \<open>simp add: precision_part_def\<close>)

lemma length_part_within: "within m f bs p \<Longrightarrow> within m f bs (snd (length_part m c p))"
  using within_next [of m f bs p] within_next [of m f bs "p + 1"] by (auto simp: length_part_def)

lemma read_spec_returns:
  assumes "within m f bs p"
  shows "\<exists>c p' ap'. read_spec m args p ap = Some (c, p', ap') \<and> within m f bs p'"
proof -
  obtain c1 p1 ap1 where 1: "flags_loop m args no_flags p ap = Some (c1, p1, ap1)" "within m f bs p1" using flags_loop_returns [OF assms] by blast
  obtain w p2 where 2: "number_loop m (width c1) p1 = Some (w, p2)" "within m f bs p2" using number_loop_returns [OF 1(2)] by blast
  obtain c3 p3 ap3 where 3: "precision_part m args (c1\<lparr>width := w\<rparr>) p2 ap1 = Some (c3, p3, ap3)" "within m f bs p3"
    using precision_part_returns [OF 2(2)] by blast
  obtain c4 p4 where 4: "length_part m c3 p3 = (c4, p4)" by fastforce
  show ?thesis using 1 2 3 4 length_part_within [OF 3(2), of c3] by (simp add: read_spec_def)
qed

text \<open>Storage ends: there is a zero byte after every address.\<close>

definition ends :: "mem \<Rightarrow> bool" where
  "ends m \<longleftrightarrow> (\<forall>a. \<exists>k. m (a + k) = 0)"

lemma ends_str: "ends m \<Longrightarrow> \<exists>bs. str_at m a bs"
proof -
  assume "ends m"
  then obtain k where k: "m (a + k) = 0" "\<And>j. j < k \<Longrightarrow> m (a + j) \<noteq> 0"
    using exists_least_iff [of "\<lambda>k. m (a + k) = 0"] by (auto simp: ends_def)
  have "0 \<notin> set (block m a k)"
  proof
    assume "0 \<in> set (block m a k)"
    then obtain b where "a \<le> b" "b < a + k" "m b = 0" by (auto simp: block_def)
    then show False using k(2) [of "b - a"] by (simp add: less_diff_conv2)
  qed
  then have "str_at m a (block m a k)" using k(1) by (simp add: str_at_block)
  then show ?thesis ..
qed

lemma svalue_strlen: "ends m \<Longrightarrow> svalue m p = (sm, s) \<Longrightarrow> \<exists>len. strlen sm s = Some len"
proof -
  assume m: "ends m" and v: "svalue m p = (sm, s)"
  have "ends sm"
  proof (cases "p = 0")
    case True
    then have "sm (a + 6) = 0" for a using v by (auto simp: svalue_def null_text_def store_def)
    then show ?thesis unfolding ends_def by blast
  qed (use m v in \<open>simp add: svalue_def\<close>)
  then show ?thesis using ends_str [of sm s] strlen_eq by blast
qed

lemma string_text_returns: "ends m \<Longrightarrow> \<exists>ts. string_text m args c ap = Some ts"
proof -
  assume m: "ends m"
  obtain sm s where v: "svalue m (args ap) = (sm, s)" by fastforce
  then obtain len where "strlen sm s = Some len" using svalue_strlen [OF m] by blast
  then have "\<exists>l. string_length sm s (precision c) = Some l" by (auto simp: string_length_def split: option.split)
  then show ?thesis using v by (auto simp: string_text_def)
qed

lemma examin_returns:
  assumes "ends m" and "str_at m p bs" and "0 < p"
  shows "\<exists>ts n p' ap'. examin dbl m args p ap written = Some (ts, n, p', ap') \<and> within m p bs (p' + 1)"
proof -
  obtain c q ap' where r: "read_spec m args p ap = Some (c, q, ap')" "within m p bs q"
    using read_spec_returns [OF within_start [OF assms(2)]] by blast
  have q: "within m p bs (q + 1)" if "m q \<noteq> 0" using within_next [OF r(2) that] .
  have q0: "within m p bs (q - 1 + 1)" using r(2) assms(3) by (simp add: within_def)
  obtain ts where "string_text m args c ap' = Some ts" using string_text_returns [OF assms(1)] by blast
  then show ?thesis using r(1) q q0 by (auto simp: examin_def Let_def int_text_eq is_float_def)
qed

lemma conversion_returns:
  assumes "ends m" and "str_at m p bs" and "0 < p"
  shows "\<exists>ts n p' ap'. conversion dbl m args p ap written = Some (ts, n, p', ap') \<and> within m p bs (p' + 1)"
proof (cases "is_plain (m p)")
  case True
  then have "m p \<noteq> 0" by (auto simp: is_plain_def is_float_def)
  then have w: "within m p bs (p + 1)" using within_next [OF within_start [OF assms(2)]] by blast
  obtain sm s where v: "svalue m (args ap) = (sm, s)" by fastforce
  then obtain len where "strlen sm s = Some len" using svalue_strlen [OF assms(1)] by blast
  then show ?thesis using True w v by (auto simp: conversion_def is_plain_def)
next
  case False
  then show ?thesis using examin_returns [OF assms] by (simp add: conversion_examin)
qed

lemma renders_exists: "ends m \<Longrightarrow> str_at m format bs \<Longrightarrow> \<exists>T ns. renders dbl m args format ap written T ns"
proof (induction "length bs" arbitrary: format bs ap written rule: less_induct)
  case less
  show ?case
  proof (cases bs)
    case Nil
    then have "m format = 0" using less.prems by simp
    then show ?thesis using renders.finish by blast
  next
    case (Cons b bs')
    then have b: "m format = b" "b \<noteq> 0" "str_at m (format + 1) bs'" using less.prems by simp_all
    show ?thesis
    proof (cases "b = c_percent")
      case True
      obtain ts n p' ap' where c: "conversion dbl m args (format + 1) ap written = Some (ts, n, p', ap')" "within m (format + 1) bs' (p' + 1)"
        using conversion_returns [OF less.prems(1) b(3)] by fastforce
      obtain T ns where "renders dbl m args (p' + 1) ap' (written + int (length ts)) T ns"
        using less.hyps [OF _ less.prems(1) within_str [OF c(2)]] Cons by fastforce
      then show ?thesis using renders.conv [OF _ c(1)] b(1) True by blast
    next
      case False
      obtain T ns where "renders dbl m args (format + 1) ap (written + 1) T ns"
        using less.hyps [OF _ less.prems(1) b(3)] Cons by fastforce
      then show ?thesis using renders.plain [of m format] b(1,2) False by blast
    qed
  qed
qed

section \<open>The plain \<open>%d\<close>\<close>

lemma digit_byte: "d < 10 \<Longrightarrow> digits_lower ! d = 0xF0 + of_nat d"
proof -
  assume "d < 10"
  then have "d \<in> {0, 1, 2, 3, 4, 5, 6, 7, 8, 9}" by auto
  then show ?thesis by (auto simp: digits_lower_def)
qed

lemma dec_loop_eq: "dec_loop u = (if u = 0 then [c_zero] else map ((!) digits_lower) (nat_digits 10 (unat u)))"
proof (induction "unat u" arbitrary: u rule: less_induct)
  case less
  show ?case
  proof (cases "u = 0")
    case True
    then show ?thesis by (subst dec_loop.simps) simp
  next
    case False
    have "(ucast (u mod 10) :: byte) = of_nat (unat u mod 10)"
      by (simp add: word_unat_eq_iff unat_ucast_mod unat_mod unat_of_nat)
    then have d: "0xF0 + ucast (u mod 10) = digits_lower ! (unat u mod 10)" by (simp add: digit_byte)
    have q: "unat (u div 10) = unat u div 10" "u div 10 = 0 \<longleftrightarrow> unat u div 10 = 0" by (simp_all add: unat_div word_unat_eq_iff)
    have "0 < unat u" using False by (simp add: unat_gt_0)
    then have "unat (u div 10) < unat u" by (simp add: q)
    from less.hyps [OF this] show ?thesis using False \<open>0 < unat u\<close>
      by (subst dec_loop.simps) (simp add: d q nat_digits_step word_gt_0 Let_def)
  qed
qed

lemma dec_text_eq: "dec_text v = c99_int no_flags c_d (sint v)"
proof -
  have u: "unat (if sint v < 0 then - v else v) = nat \<bar>sint v\<bar>" using magnitude32 [of v True] by simp
  have t: "dec_loop (if sint v < 0 then - v else v) = (if sint v = 0 then [c_zero] else map ((!) digits_lower) (nat_digits 10 (nat \<bar>sint v\<bar>)))"
    unfolding dec_loop_eq u by (simp add: u word_unat_eq_iff)
  have n: "number_text no_flags c_d (nat \<bar>sint v\<bar>) = (if sint v = 0 then [c_zero] else rev (map ((!) digits_lower) (nat_digits 10 (nat \<bar>sint v\<bar>))))"
  proof (cases "sint v = 0")
    case False
    then have "nat_digits 10 (nat \<bar>sint v\<bar>) \<noteq> []" by simp
    then have "1 - length (nat_digits 10 (nat \<bar>sint v\<bar>)) = 0" by (simp add: Suc_le_eq)
    then show ?thesis using False by (simp add: number_text_def no_flags_def base_of_def table_of_def Let_def)
  qed (simp add: number_text_def no_flags_def)
  show ?thesis unfolding dec_text_def t
    by (simp add: c99_int_def n Let_def) (simp add: no_flags_def sign_text_def)
qed

lemma word_bound66:
  assumes "LENGTH('a::len) \<le> 64"
  shows "uint (w :: 'a word) < 73786976294838206464" and "\<bar>sint w\<bar> < 73786976294838206464"
proof -
  have p: "(2 :: int) ^ LENGTH('a) \<le> 2 ^ 64" "(2 :: int) ^ (LENGTH('a) - 1) \<le> 2 ^ 64" using assms by (intro power_increasing; simp)+
  then show "uint w < 73786976294838206464" "\<bar>sint w\<bar> < 73786976294838206464"
    using less_le_trans [OF unsigned_less [where ?'a = int, of w] p(1)] sint_ge [of w] sint_lt [of w] by auto
qed

lemma arg_value_bound: "nat \<bar>arg_value args c sp ap\<bar> < 2 ^ 66"
proof -
  have "\<bar>arg_value args c sp ap\<bar> < 73786976294838206464" by (simp add: arg_value_def word_bound66)
  then show ?thesis by simp
qed

lemma digit_count: "length (nat_digits (base_of sp) (nat \<bar>arg_value args c sp' ap\<bar>)) \<le> 22"
proof -
  have b: "2 \<le> base_of sp" "8 \<le> base_of sp" using base_of_bounds(1) [of sp] by simp_all
  have "nat \<bar>arg_value args c sp' ap\<bar> < 2 ^ 66" by (rule arg_value_bound)
  also have "(2 :: nat) ^ 66 = 8 ^ 22" by simp
  also have "\<dots> \<le> base_of sp ^ 22" using b(2) by (rule power_mono) simp
  finally show ?thesis by (rule length_nat_digits [OF b(1)])
qed

section \<open>Properties\<close>


text \<open>\<^verbatim>\<open>"%06ld"\<close> at 8, and the argument -42.\<close>

definition sample_format :: mem where
  "sample_format = store (\<lambda>a. 0) 8 [c_percent, c_zero, 0xF6, c_l, c_d]"


text \<open>
  C8: \<^verbatim>\<open>vsnprintf()\<close> is \<^verbatim>\<open>vsprintf()\<close> cut to the size of the buffer.  Both end for every format; there is one text whose length
  both return, at any size; without a \<open>%n\<close> \<^verbatim>\<open>vsprintf()\<close> stores this text and a zero, and \<^verbatim>\<open>vsnprintf()\<close> its first \<open>n - 1\<close> characters and a
  zero - nothing for a size of 0 - and neither changes another byte.
\<close>

theorem snprintf_is_prefix:
  assumes "ends m"
  shows "\<exists>T ns. renders dbl m args format 0 0 T ns \<and>
    (length T \<le> 0x7FFFFFFF \<longrightarrow>
      (\<exists>w. vsprintf dbl m s format args = Some (int (length T), w) \<and> (ns = [] \<longrightarrow> w = store m s (T @ [0]))) \<and>
      (\<forall>n. s \<noteq> 0 \<or> n = 0 \<longrightarrow>
        (\<exists>w. vsnprintf dbl m s n format args = Some (int (length T), w) \<and>
             (ns = [] \<longrightarrow> w = (if n = 0 then m else store m s (take (unat n - 1) T @ [0]))))))"
proof -
  obtain bs where "str_at m format bs" using ends_str [OF assms] by blast
  then obtain T ns where r: "renders dbl m args format 0 0 T ns" using renders_exists [OF assms] by blast
  show ?thesis by (intro exI [of _ T] exI [of _ ns] conjI impI allI r vsprintf_eq [OF r] vsnprintf_eq [OF r]) auto
qed

theorem snprintf_is_prefix_witness:
  "ends sample_format \<and> (\<exists>T ns. renders (\<lambda>_ _ _ _ _ _. []) sample_format (\<lambda>i. 0) 8 0 0 T ns)"
proof -
  have "sample_format (a + 13) = 0" for a by (simp add: sample_format_def store_def)
  then have e: "ends sample_format" unfolding ends_def by blast
  show ?thesis using snprintf_is_prefix [OF e, of "\<lambda>_ _ _ _ _ _. []" "\<lambda>i. 0" 8 100] e by blast
qed

end
