(* ===== verification/Strto.thy ===== *)
theory Strto
  imports Cstring Errno
begin

text \<open>
  The conversions of text to integers: \<^verbatim>\<open>strtol()\<close>, \<^verbatim>\<open>strtoul()\<close>, \<^verbatim>\<open>strtoll()\<close>, \<^verbatim>\<open>strtoull()\<close> and their callers
  (\<^verbatim>\<open>src/stdlib/strto*.c\<close>, \<^verbatim>\<open>ato*.c\<close>, \<^verbatim>\<open>src/inttypes\<close>, \<^verbatim>\<open>src/internal/digval.h\<close>), with the integer functions of
  \<^verbatim>\<open><stdlib.h>\<close>.  The four sources differ in the width of \<^verbatim>\<open>x\<close> and in the limits; the loop is one
  definition for every width.  A result is the value, the address stored through
  \<^verbatim>\<open>endptr\<close> when that is not null, and the value \<^verbatim>\<open>errno\<close> is set to, if it is.
\<close>

section \<open>Definitions\<close>

text \<open>\<^verbatim>\<open>"0123456789abcdefghijklmnopqrstuvwxyz"\<close> in EBCDIC.\<close>

definition digits :: "int list" where
  "digits =
     [0xF0, 0xF1, 0xF2, 0xF3, 0xF4, 0xF5, 0xF6, 0xF7, 0xF8, 0xF9,
      0x81, 0x82, 0x83, 0x84, 0x85, 0x86, 0x87, 0x88, 0x89,
      0x91, 0x92, 0x93, 0x94, 0x95, 0x96, 0x97, 0x98, 0x99,
      0xA2, 0xA3, 0xA4, 0xA5, 0xA6, 0xA7, 0xA8, 0xA9]"

fun digval_loop :: "int \<Rightarrow> int list \<Rightarrow> int \<Rightarrow> int" where
  "digval_loop c [] i = 36"
| "digval_loop c (d # ds) i = (if d = c then i else digval_loop c ds (i + 1))"

definition digval :: "byte \<Rightarrow> int" where
  "digval b = digval_loop (the (tolower (uint b))) digits 0"

partial_function (option) skip_space :: "mem \<Rightarrow> nat \<Rightarrow> nat option" where
  "skip_space m s = (if holds (isspace (uint (m s))) then skip_space m (s + 1) else Some s)"

text \<open>The characters the sources name, in EBCDIC.\<close>

definition chr_minus :: byte where "chr_minus = 0x60"
definition chr_plus :: byte where "chr_plus = 0x4E"
definition chr_0 :: byte where "chr_0 = 0xF0"
definition chr_x :: byte where "chr_x = 0xA7"
definition chr_X :: byte where "chr_X = 0xE7"

definition strto_sign :: "mem \<Rightarrow> nat \<Rightarrow> bool \<times> nat" where
  "strto_sign m s = (if m s = chr_minus then (True, s + 1) else if m s = chr_plus then (False, s + 1) else (False, s))"

definition strto_base :: "mem \<Rightarrow> nat \<Rightarrow> int \<Rightarrow> int \<times> nat" where
  "strto_base m s base =
     (if (base = 0 \<or> base = 16) \<and> m s = chr_0 \<and> (m (s + 1) = chr_x \<or> m (s + 1) = chr_X) \<and> digval (m (s + 2)) < 16
      then (16, s + 2)
      else if base = 0 then (if m s = chr_0 then 8 else 10, s)
      else (base, s))"

partial_function (option) strto_loop ::
  "mem \<Rightarrow> int \<Rightarrow> 'w::len word \<Rightarrow> int \<Rightarrow> nat \<Rightarrow> 'w word \<Rightarrow> bool \<Rightarrow> bool \<Rightarrow> (nat \<times> 'w word \<times> bool \<times> bool) option"
where
  "strto_loop m base cutoff cutlim s x any overflow =
     (let d = digval (m s)
      in if d \<ge> base then Some (s, x, any, overflow)
         else if overflow then strto_loop m base cutoff cutlim (s + 1) x True overflow
         else if x > cutoff \<or> x = cutoff \<and> d > cutlim then strto_loop m base cutoff cutlim (s + 1) x True True
         else strto_loop m base cutoff cutlim (s + 1) (x * word_of_int base + word_of_int d) True overflow)"

text \<open>
  The part before the limits, and the loop for a given limit: the results are the sign, and what
  the loop leaves.
\<close>

definition strto_scan ::
  "(bool \<Rightarrow> 'w::len word) \<Rightarrow> mem \<Rightarrow> nat \<Rightarrow> int \<Rightarrow> (bool \<times> nat \<times> 'w word \<times> bool \<times> bool) option"
where
  "strto_scan lim m nptr base =
     Option.bind (skip_space m nptr) (\<lambda>s.
       let (neg, s) = strto_sign m s;
           (base, s) = strto_base m s base;
           limit = lim neg;
           cutoff = limit div word_of_int base;
           cutlim = uint (limit mod word_of_int base)
       in map_option (Pair neg) (strto_loop m base cutoff cutlim s 0 False False))"

definition bad_base :: "int \<Rightarrow> bool" where
  "bad_base base \<longleftrightarrow> base < 0 \<or> base = 1 \<or> base > 36"

definition LONG_MAX :: i32 where "LONG_MAX = 0x7FFFFFFF"
definition LONG_MIN :: i32 where "LONG_MIN = 0x80000000"
definition ULONG_MAX :: u32 where "ULONG_MAX = 0xFFFFFFFF"
definition LLONG_MAX :: u64 where "LLONG_MAX = 0x7FFFFFFFFFFFFFFF"
definition LLONG_MIN :: u64 where "LLONG_MIN = 0x8000000000000000"
definition ULLONG_MAX :: u64 where "ULLONG_MAX = 0xFFFFFFFFFFFFFFFF"

text \<open>The end of the signed and of the unsigned conversions, for a type with the given limits.\<close>

definition signed_limit :: "'w::len word \<Rightarrow> bool \<Rightarrow> 'w word" where
  "signed_limit tmax neg = (if neg then tmax + 1 else tmax)"

fun signed_finish ::
  "'w::len word \<Rightarrow> 'w word \<Rightarrow> nat \<Rightarrow> bool \<times> nat \<times> 'w word \<times> bool \<times> bool \<Rightarrow> 'w word \<times> nat \<times> int option"
where
  "signed_finish tmax tmin nptr (neg, s, x, any, overflow) =
     (let endp = (if any then s else nptr)
      in if overflow then (if neg then tmin else tmax, endp, Some ERANGE)
         else if neg then (if x = signed_limit tmax neg then tmin else - x, endp, None)
         else (x, endp, None))"

fun unsigned_finish ::
  "'w::len word \<Rightarrow> nat \<Rightarrow> bool \<times> nat \<times> 'w word \<times> bool \<times> bool \<Rightarrow> 'w word \<times> nat \<times> int option"
where
  "unsigned_finish tmax nptr (neg, s, x, any, overflow) =
     (let endp = (if any then s else nptr)
      in if overflow then (tmax, endp, Some ERANGE) else (if neg then - x else x, endp, None))"

definition strtol :: "mem \<Rightarrow> nat \<Rightarrow> int \<Rightarrow> (i32 \<times> nat \<times> int option) option" where
  "strtol m nptr base =
     (if bad_base base then Some (0, nptr, Some EINVAL)
      else map_option (signed_finish LONG_MAX LONG_MIN nptr) (strto_scan (signed_limit LONG_MAX) m nptr base))"

definition strtoul :: "mem \<Rightarrow> nat \<Rightarrow> int \<Rightarrow> (u32 \<times> nat \<times> int option) option" where
  "strtoul m nptr base =
     (if bad_base base then Some (0, nptr, Some EINVAL)
      else map_option (unsigned_finish ULONG_MAX nptr) (strto_scan (\<lambda>neg. ULONG_MAX) m nptr base))"

definition strtoll :: "mem \<Rightarrow> nat \<Rightarrow> int \<Rightarrow> (u64 \<times> nat \<times> int option) option" where
  "strtoll m nptr base =
     (if bad_base base then Some (0, nptr, Some EINVAL)
      else map_option (signed_finish LLONG_MAX LLONG_MIN nptr) (strto_scan (signed_limit LLONG_MAX) m nptr base))"

definition strtoull :: "mem \<Rightarrow> nat \<Rightarrow> int \<Rightarrow> (u64 \<times> nat \<times> int option) option" where
  "strtoull m nptr base =
     (if bad_base base then Some (0, nptr, Some EINVAL)
      else map_option (unsigned_finish ULLONG_MAX nptr) (strto_scan (\<lambda>neg. ULLONG_MAX) m nptr base))"

definition atoi :: "mem \<Rightarrow> nat \<Rightarrow> i32 option" where
  "atoi m nptr = map_option fst (strtol m nptr 10)"

definition atol :: "mem \<Rightarrow> nat \<Rightarrow> i32 option" where
  "atol m nptr = map_option fst (strtol m nptr 10)"

definition atoll :: "mem \<Rightarrow> nat \<Rightarrow> u64 option" where
  "atoll m nptr = map_option fst (strtoll m nptr 10)"

definition strtoimax :: "mem \<Rightarrow> nat \<Rightarrow> int \<Rightarrow> (u64 \<times> nat \<times> int option) option" where
  "strtoimax m nptr base = strtoll m nptr base"

definition strtoumax :: "mem \<Rightarrow> nat \<Rightarrow> int \<Rightarrow> (u64 \<times> nat \<times> int option) option" where
  "strtoumax m nptr base = strtoull m nptr base"

section \<open>Digits\<close>

text \<open>The digit of a character, by the runs of the EBCDIC alphabet.\<close>

definition digit_of :: "int \<Rightarrow> int" where
  "digit_of c =
     (if 0xF0 \<le> c \<and> c \<le> 0xF9 then c - 0xF0
      else if 0x81 \<le> c \<and> c \<le> 0x89 then c - 0x81 + 10
      else if 0x91 \<le> c \<and> c \<le> 0x99 then c - 0x91 + 19
      else if 0xA2 \<le> c \<and> c \<le> 0xA9 then c - 0xA2 + 28
      else if 0xC1 \<le> c \<and> c \<le> 0xC9 then c - 0xC1 + 10
      else if 0xD1 \<le> c \<and> c \<le> 0xD9 then c - 0xD1 + 19
      else if 0xE2 \<le> c \<and> c \<le> 0xE9 then c - 0xE2 + 28
      else 36)"

lemma digit_of_table:
  "map (\<lambda>c. digval_loop (if upper_code c then c - 0x40 else c) digits 0) [0..255] = map digit_of [0..255]"
  by code_simp

lemma uint_byte_range: "- 1 \<le> uint (b :: byte)" "0 \<le> uint b" "uint b \<le> 255"
  using unat8_lt [of b] uint_nat [of b] by linarith+

lemma map_upto_eqD: "map f [a..b] = map g [a..b] \<Longrightarrow> a \<le> c \<Longrightarrow> c \<le> b \<Longrightarrow> f c = g c"
  by (simp add: map_eq_conv)

lemma digval_code: "digval b = digit_of (uint b)"
proof -
  have "tolower (uint b) = Some (if upper_code (uint b) then uint b - 0x40 else uint b)"
    using uint_byte_range [of b] by (simp only: tolower_codes simp_thms if_True)
  then show ?thesis
    using map_upto_eqD [OF digit_of_table, of "uint b"] uint_byte_range [of b] by (simp only: digval_def option.sel)
qed

lemma digval_range: "0 \<le> digval b" "digval b \<le> 36"
  by (simp_all add: digval_code digit_of_def)

lemma digval_0 [simp]: "digval 0 = 36"
  by (simp add: digval_code digit_of_def)

text \<open>The number a row of digits stands for, after a number read so far.\<close>

definition value_from :: "nat \<Rightarrow> nat \<Rightarrow> byte list \<Rightarrow> nat" where
  "value_from base v ds = foldl (\<lambda>v b. v * base + nat (digval b)) v ds"

lemma value_from_simps [simp]:
  "value_from base v [] = v" "value_from base v (d # ds) = value_from base (v * base + nat (digval d)) ds"
  by (simp_all add: value_from_def)

lemma value_from_ge: "1 \<le> base \<Longrightarrow> v \<le> value_from base v ds"
proof (induction ds arbitrary: v)
  case (Cons d ds)
  have "v \<le> v * base + nat (digval d)" using Cons.prems by (simp add: trans_le_add1)
  then show ?case using Cons.IH [of "v * base + nat (digval d)"] Cons.prems by simp
qed simp

section \<open>The loop\<close>

text \<open>The digits at \<open>s\<close> are \<open>ds\<close> and the character after them is none.\<close>

fun digits_at :: "mem \<Rightarrow> nat \<Rightarrow> nat \<Rightarrow> byte list \<Rightarrow> bool" where
  "digits_at m base s [] \<longleftrightarrow> int base \<le> digval (m s)"
| "digits_at m base s (d # ds) \<longleftrightarrow> m s = d \<and> digval d < int base \<and> digits_at m base (s + 1) ds"

lemma strto_loop_overflow:
  "digits_at m base s ds \<Longrightarrow>
     strto_loop m (int base) cutoff cutlim s x any True = Some (s + length ds, x, any \<or> ds \<noteq> [], True)"
proof (induction ds arbitrary: s any)
  case Nil
  then show ?case by (subst strto_loop.simps) simp
next
  case (Cons d ds)
  then show ?case by (subst strto_loop.simps) simp
qed

lemma two_digits_less:
  assumes "d < b" and "r < b"
  shows "q * b + r < v * b + d \<longleftrightarrow> q < v \<or> v = q \<and> r < (d :: nat)"
proof -
  consider "v < q" | "v = q" | "q < v" by linarith
  then show ?thesis
  proof cases
    case 1
    then have "Suc v * b \<le> q * b" by (intro mult_le_mono1) simp
    then show ?thesis using 1 assms by simp
  next
    case 3
    then have "Suc q * b \<le> v * b" by (intro mult_le_mono1) simp
    then show ?thesis using 3 assms by simp
  qed simp
qed

lemma cutoff_test:
  assumes "d < b" shows "v * b + d > L \<longleftrightarrow> v > L div b \<or> v = L div b \<and> d > L mod (b :: nat)"
  using two_digits_less [OF assms, of "L mod b" "L div b" v] assms by simp

lemma strto_loop_value:
  fixes x limit :: "'w::len word"
  assumes b: "2 \<le> base" "base \<le> 36" and w: "(36 :: nat) < 2 ^ LENGTH('w)"
  shows "digits_at m base s ds \<Longrightarrow> unat x \<le> unat limit \<Longrightarrow>
    \<exists>x'. strto_loop m (int base) (limit div word_of_int (int base)) (uint (limit mod word_of_int (int base))) s x any False =
       Some (s + length ds, x', any \<or> ds \<noteq> [], value_from base (unat x) ds > unat limit) \<and>
       (value_from base (unat x) ds \<le> unat limit \<longrightarrow> unat x' = value_from base (unat x) ds)"
proof (induction ds arbitrary: s x any)
  case Nil
  then show ?case by (subst strto_loop.simps) simp
next
  case (Cons d ds)
  let ?L = "unat limit"
  define wb where "wb = (word_of_int (int base) :: 'w word)"
  define v where "v = unat x * base + nat (digval d)"
  have d: "m s = d" "digval d < int base" "nat (digval d) < base" "digits_at m base (s + 1) ds"
    using Cons.prems(1) digval_range(1) [of d] by auto
  have wb: "unat wb = base" using b w by (simp add: wb_def unat_of_nat)
  have cmp: "x > limit div wb \<or> x = limit div wb \<and> digval d > uint (limit mod wb) \<longleftrightarrow> v > ?L"
  proof -
    have "uint (limit mod wb) < digval d \<longleftrightarrow> ?L mod base < nat (digval d)"
      using wb by (simp add: uint_nat unat_mod zless_nat_eq_int_zless)
    then show ?thesis
      unfolding v_def cutoff_test [OF d(3)] by (simp add: word_less_nat_alt word_unat_eq_iff unat_div wb)
  qed
  show ?case
  proof (cases "v > ?L")
    case True
    then have "value_from base (unat x) (d # ds) > ?L" using value_from_ge [of base v ds] b by (simp add: v_def)
    moreover have "strto_loop m (int base) (limit div wb) (uint (limit mod wb)) s x any False =
        Some (s + length (d # ds), x, True, True)"
      using cmp True d by (subst strto_loop.simps) (simp add: Let_def strto_loop_overflow [OF d(4), simplified])
    ultimately show ?thesis by (simp add: wb_def)
  next
    case False
    define y where "y = x * wb + word_of_int (digval d)"
    have "y = of_nat v"
      using digval_range(1) [of d] by (simp add: y_def v_def wb_def)
    moreover have "v < 2 ^ LENGTH('w)" using False unat_lt_2p [of limit] by linarith
    ultimately have y: "unat y = v" by (simp add: unat_of_nat)
    obtain x' where "strto_loop m (int base) (limit div wb) (uint (limit mod wb)) (s + 1) y True False =
        Some (s + 1 + length ds, x', True, value_from base v ds > ?L)"
        "value_from base v ds \<le> ?L \<longrightarrow> unat x' = value_from base v ds"
      using Cons.IH [OF d(4), of y True] False y by (auto simp: wb_def)
    moreover have "strto_loop m (int base) (limit div wb) (uint (limit mod wb)) s x any False =
        strto_loop m (int base) (limit div wb) (uint (limit mod wb)) (s + 1) y True False"
      using cmp False d by (subst strto_loop.simps) (auto simp: Let_def y_def wb_def)
    ultimately show ?thesis unfolding wb_def [symmetric] by (auto simp: v_def)
  qed
qed

section \<open>Numbers in a string\<close>

text \<open>The text at \<open>nptr\<close>: white space, a sign or none, and a row of digits that ends there.\<close>

definition hex_prefix :: "mem \<Rightarrow> nat \<Rightarrow> bool" where
  "hex_prefix m s \<longleftrightarrow> m s = chr_0 \<and> (m (s + 1) = chr_x \<or> m (s + 1) = chr_X) \<and> digval (m (s + 2)) < 16"

definition number_at :: "mem \<Rightarrow> nat \<Rightarrow> nat \<Rightarrow> byte list \<Rightarrow> byte list \<Rightarrow> byte list \<Rightarrow> bool" where
  "number_at m nptr base ws sg ds \<longleftrightarrow>
     block m nptr (length ws + length sg) = ws @ sg \<and> (\<forall>b \<in> set ws. space_code (uint b)) \<and>
     sg \<in> {[], [chr_minus], [chr_plus]} \<and> ds \<noteq> [] \<and> digits_at m base (nptr + length ws + length sg) ds \<and>
     (base = 16 \<longrightarrow> \<not> hex_prefix m (nptr + length ws + length sg))"

lemmas chr_codes = chr_minus_def chr_plus_def chr_0_def chr_x_def chr_X_def

lemma isspace_byte: "holds (isspace (uint (b :: byte))) \<longleftrightarrow> space_code (uint b)"
  using uint_byte_range [of b] by (simp only: class_test_codes simp_thms)

lemma digval_no_space: "digval b < 36 \<Longrightarrow> \<not> space_code (uint b) \<and> b \<noteq> chr_minus \<and> b \<noteq> chr_plus"
  by (auto simp: digval_code digit_of_def space_code_def blank_code_def chr_codes split: if_splits)

lemma skip_space_eq:
  "block m s (length ws) = ws \<Longrightarrow> \<forall>b \<in> set ws. space_code (uint b) \<Longrightarrow> \<not> space_code (uint (m (s + length ws))) \<Longrightarrow>
     skip_space m s = Some (s + length ws)"
proof (induction ws arbitrary: s)
  case Nil
  then show ?case by (subst skip_space.simps) (simp add: isspace_byte)
next
  case (Cons w ws)
  then show ?case using Cons.IH [of "s + 1"] by (subst skip_space.simps) (auto simp: isspace_byte block_Suc)
qed

lemma block_append: "block m s (a + b) = block m s a @ block m (s + a) b"
  by (induction a arbitrary: s) (simp_all add: block_Suc)

lemma number_at_start:
  assumes n: "number_at m nptr base ws sg ds" and b: "2 \<le> base" "base \<le> 36"
  shows "skip_space m nptr = Some (nptr + length ws)"
    and "strto_sign m (nptr + length ws) = (sg = [chr_minus], nptr + length ws + length sg)"
    and "strto_base m (nptr + length ws + length sg) (int base) = (int base, nptr + length ws + length sg)"
proof -
  have bl: "block m nptr (length ws) = ws" "block m (nptr + length ws) (length sg) = sg"
    using n unfolding number_at_def block_append by auto
  obtain d ds' where ds: "ds = d # ds'" using n by (cases ds) (auto simp: number_at_def)
  then have d: "m (nptr + length ws + length sg) = d" "digval d < 36" using n b by (auto simp: number_at_def)
  have sg: "sg = [] \<or> sg = [chr_minus] \<or> sg = [chr_plus]" using n by (auto simp: number_at_def)
  have "\<not> space_code (uint (m (nptr + length ws)))"
    using sg bl(2) d digval_no_space [OF d(2)] by (auto simp: block_Suc chr_codes space_code_def blank_code_def)
  then show "skip_space m nptr = Some (nptr + length ws)"
    using n bl(1) by (intro skip_space_eq) (auto simp: number_at_def)
  show "strto_sign m (nptr + length ws) = (sg = [chr_minus], nptr + length ws + length sg)"
    using sg bl(2) d digval_no_space [OF d(2)] by (auto simp: strto_sign_def block_Suc chr_codes)
  show "strto_base m (nptr + length ws + length sg) (int base) = (int base, nptr + length ws + length sg)"
    using n b by (auto simp: strto_base_def number_at_def hex_prefix_def)
qed

lemma strto_scan_value:
  fixes lim :: "bool \<Rightarrow> 'w::len word"
  assumes n: "number_at m nptr base ws sg ds" and b: "2 \<le> base" "base \<le> 36" and w: "(36 :: nat) < 2 ^ LENGTH('w)"
  obtains x where "strto_scan lim m nptr (int base) =
      Some (sg = [chr_minus], nptr + length ws + length sg + length ds, x, True,
            value_from base 0 ds > unat (lim (sg = [chr_minus])))"
    "value_from base 0 ds \<le> unat (lim (sg = [chr_minus])) \<longrightarrow> unat x = value_from base 0 ds"
proof -
  have "digits_at m base (nptr + length ws + length sg) ds" "ds \<noteq> []" using n by (simp_all add: number_at_def)
  then show thesis
    using strto_loop_value [OF b w, of m "nptr + length ws + length sg" ds 0 "lim (sg = [chr_minus])" False]
      number_at_start [OF n b] that by (auto simp: strto_scan_def)
qed

text \<open>The value with its sign, and the nearest value a signed type of \<open>w\<close> bits can hold.\<close>

definition signed_value :: "nat \<Rightarrow> byte list \<Rightarrow> byte list \<Rightarrow> int" where
  "signed_value base sg ds = (if sg = [chr_minus] then - int (value_from base 0 ds) else int (value_from base 0 ds))"

definition clamp :: "nat \<Rightarrow> int \<Rightarrow> int" where
  "clamp w v = max (- (2 ^ (w - 1))) (min (2 ^ (w - 1) - 1) v)"

definition range_errno :: "bool \<Rightarrow> int option" where
  "range_errno out = (if out then Some ERANGE else None)"

lemma bad_base_int: "2 \<le> base \<Longrightarrow> base \<le> 36 \<Longrightarrow> \<not> bad_base (int base)"
  by (simp add: bad_base_def)

lemma signed_conversion:
  fixes tmax tmin :: "'w::len word"
  assumes n: "number_at m nptr base ws sg ds" and b: "2 \<le> base" "base \<le> 36" and w: "(36 :: nat) < 2 ^ LENGTH('w)"
    and tmax: "unat tmax + 1 = 2 ^ (LENGTH('w) - 1)" and tmin: "tmin = tmax + 1"
  shows "map_option (signed_finish tmax tmin nptr) (strto_scan (signed_limit tmax) m nptr (int base)) =
    (let v = signed_value base sg ds
     in Some (word_of_int (clamp LENGTH('w) v), nptr + length ws + length sg + length ds,
              range_errno (clamp LENGTH('w) v \<noteq> v)))"
proof -
  define v where "v = value_from base 0 ds"
  define H :: nat where "H = 2 ^ (LENGTH('w) - 1)"
  have H: "H < 2 ^ LENGTH('w)" "unat tmax + 1 = H" "0 < H" using tmax by (simp_all add: H_def)
  have max_of: "tmax = of_nat (H - 1)" using H(2) by (metis add_diff_cancel_right' word_of_unat)
  then have min_of: "tmin = of_nat H" using tmin H(2,3) by (metis Suc_eq_plus1 add.commute add_diff_cancel_right' of_nat_Suc)
  then have u: "unat (signed_limit tmax True) = H" using H(1) by (simp add: signed_limit_def tmin [symmetric] unat_of_nat)
  have clamp: "clamp LENGTH('w) i = max (- int H) (min (int H - 1) i)" for i by (simp add: clamp_def H_def)
  have neg_min: "- tmin = tmin"
  proof -
    have "tmin + tmin = of_nat (2 * H)" by (simp add: min_of)
    also have "2 * H = 2 ^ LENGTH('w)" unfolding H_def by (simp flip: power_Suc)
    finally have "tmin + tmin = 0" by simp
    then show ?thesis by (simp add: eq_neg_iff_add_eq_0)
  qed
  obtain x where x: "strto_scan (signed_limit tmax) m nptr (int base) =
      Some (sg = [chr_minus], nptr + length ws + length sg + length ds, x, True, v > unat (signed_limit tmax (sg = [chr_minus])))"
      "v \<le> unat (signed_limit tmax (sg = [chr_minus])) \<longrightarrow> unat x = v"
    using strto_scan_value [OF n b w, of "signed_limit tmax"] by (auto simp: v_def)
  then have xv: "v \<le> unat (signed_limit tmax (sg = [chr_minus])) \<Longrightarrow> x = of_nat v" using word_of_unat by blast
  show ?thesis
  proof (cases "sg = [chr_minus]")
    case True
    then have "signed_value base sg ds = - int v" by (simp add: signed_value_def v_def)
    then show ?thesis
      using x xv True u min_of neg_min by (auto simp: Let_def range_errno_def clamp max_def min_def)
  next
    case False
    then have "signed_value base sg ds = int v" by (simp add: signed_value_def v_def)
    moreover have "unat (signed_limit tmax False) = H - 1" using H(2) by (simp add: signed_limit_def)
    ultimately show ?thesis
      using x xv False max_of H(3) by (auto simp: Let_def range_errno_def clamp max_def min_def of_nat_diff)
  qed
qed

lemma unsigned_conversion:
  fixes tmax :: "'w::len word"
  assumes n: "number_at m nptr base ws sg ds" and b: "2 \<le> base" "base \<le> 36" and w: "(36 :: nat) < 2 ^ LENGTH('w)"
    and tmax: "unat tmax + 1 = 2 ^ LENGTH('w)"
  shows "map_option (unsigned_finish tmax nptr) (strto_scan (\<lambda>neg. tmax) m nptr (int base)) =
    Some (if value_from base 0 ds < 2 ^ LENGTH('w) then word_of_int (signed_value base sg ds) else tmax,
          nptr + length ws + length sg + length ds, range_errno (2 ^ LENGTH('w) \<le> value_from base 0 ds))"
proof -
  define v where "v = value_from base 0 ds"
  obtain x where x: "strto_scan (\<lambda>neg. tmax) m nptr (int base) =
      Some (sg = [chr_minus], nptr + length ws + length sg + length ds, x, True, v > unat tmax)"
      "v \<le> unat tmax \<longrightarrow> unat x = v"
    using strto_scan_value [OF n b w, of "\<lambda>neg. tmax"] by (auto simp: v_def)
  have le: "v \<le> unat tmax \<longleftrightarrow> v < 2 ^ LENGTH('w)" using tmax by linarith
  then have xv: "v < 2 ^ LENGTH('w) \<Longrightarrow> x = of_nat v" using x(2) word_of_unat by blast
  show ?thesis
    using x le xv unfolding v_def [symmetric] signed_value_def
    by (auto simp: Let_def range_errno_def not_less not_le)
qed

text \<open>No digit after the white space and the sign.\<close>

definition no_number_at :: "mem \<Rightarrow> nat \<Rightarrow> nat \<Rightarrow> byte list \<Rightarrow> byte list \<Rightarrow> bool" where
  "no_number_at m nptr base ws sg \<longleftrightarrow>
     block m nptr (length ws + length sg) = ws @ sg \<and> (\<forall>b \<in> set ws. space_code (uint b)) \<and>
     sg \<in> {[], [chr_minus], [chr_plus]} \<and> int base \<le> digval (m (nptr + length ws + length sg)) \<and>
     (sg = [] \<longrightarrow> \<not> space_code (uint (m (nptr + length ws))) \<and> m (nptr + length ws) \<notin> {chr_minus, chr_plus})"

lemma strto_scan_nothing:
  fixes lim :: "bool \<Rightarrow> 'w::len word"
  assumes n: "no_number_at m nptr base ws sg" and b: "2 \<le> base" "base \<le> 36"
  shows "\<exists>s. strto_scan lim m nptr (int base) = Some (sg = [chr_minus], s, 0, False, False)"
proof -
  let ?s = "nptr + length ws + length sg"
  have bl: "block m nptr (length ws) = ws" "block m (nptr + length ws) (length sg) = sg"
    using n unfolding no_number_at_def block_append by auto
  have sg: "sg = [] \<or> sg = [chr_minus] \<or> sg = [chr_plus]" using n by (auto simp: no_number_at_def)
  have "\<not> space_code (uint (m (nptr + length ws)))"
    using sg bl(2) n by (auto simp: no_number_at_def block_Suc chr_codes space_code_def blank_code_def)
  then have "skip_space m nptr = Some (nptr + length ws)"
    using n bl(1) by (intro skip_space_eq) (auto simp: no_number_at_def)
  moreover have "strto_sign m (nptr + length ws) = (sg = [chr_minus], ?s)"
    using sg bl(2) n by (auto simp: strto_sign_def block_Suc chr_codes no_number_at_def)
  moreover have "digval chr_0 = 0" by (simp add: digval_code digit_of_def chr_0_def)
  then have "m ?s \<noteq> chr_0" using n b by (auto simp: no_number_at_def)
  then have "strto_base m ?s (int base) = (int base, ?s)" using b by (simp add: strto_base_def)
  moreover have "strto_loop m (int base) cutoff cutlim ?s 0 False False = Some (?s, 0, False, False)" for cutoff :: "'w word" and cutlim
    using n by (subst strto_loop.simps) (simp add: no_number_at_def)
  ultimately show ?thesis by (simp add: strto_scan_def)
qed

lemma conversion_of_nothing:
  fixes tmax tmin :: "'w::len word"
  assumes "no_number_at m nptr base ws sg" "2 \<le> base" "base \<le> 36"
  shows "signed_limit tmax True \<noteq> 0 \<Longrightarrow>
      map_option (signed_finish tmax tmin nptr) (strto_scan (signed_limit tmax) m nptr (int base)) = Some (0, nptr, None)"
    and "map_option (unsigned_finish tmax nptr) (strto_scan (\<lambda>neg. tmax) m nptr (int base)) = Some (0, nptr, None)"
proof -
  obtain s where "strto_scan (signed_limit tmax) m nptr (int base) = Some (sg = [chr_minus], s, 0, False, False)"
    using strto_scan_nothing [OF assms] by blast
  moreover assume "signed_limit tmax True \<noteq> 0"
  ultimately show "map_option (signed_finish tmax tmin nptr) (strto_scan (signed_limit tmax) m nptr (int base)) = Some (0, nptr, None)"
    by (cases "sg = [chr_minus]") simp_all
next
  obtain s where "strto_scan (\<lambda>neg. tmax) m nptr (int base) = Some (sg = [chr_minus], s, 0, False, False)"
    using strto_scan_nothing [OF assms] by blast
  then show "map_option (unsigned_finish tmax nptr) (strto_scan (\<lambda>neg. tmax) m nptr (int base)) = Some (0, nptr, None)"
    by simp
qed

lemma strto_scan_base_0:
  assumes "skip_space m nptr = Some s0" and "s = snd (strto_sign m s0)"
  shows "strto_scan lim m nptr 0 = strto_scan lim m nptr (if hex_prefix m s then 16 else if m s = chr_0 then 8 else 10)"
  using assms by (auto simp: strto_scan_def strto_base_def hex_prefix_def case_prod_beta Let_def)

lemma signed_number:
  assumes "number_at m nptr base ws sg ds" and "2 \<le> base" and "base \<le> 36" and "v = signed_value base sg ds"
  shows "strtol m nptr (int base) =
      Some (word_of_int (clamp 32 v), nptr + length ws + length sg + length ds, range_errno (clamp 32 v \<noteq> v)) \<and>
    strtoll m nptr (int base) =
      Some (word_of_int (clamp 64 v), nptr + length ws + length sg + length ds, range_errno (clamp 64 v \<noteq> v))"
proof -
  have "\<not> bad_base (int base)" using assms(2,3) by (rule bad_base_int)
  then show ?thesis
    unfolding strtol_def strtoll_def using assms(4)
      signed_conversion [OF assms(1-3), of LONG_MAX LONG_MIN] signed_conversion [OF assms(1-3), of LLONG_MAX LLONG_MIN]
    by (simp add: LONG_MAX_def LONG_MIN_def LLONG_MAX_def LLONG_MIN_def Let_def)
qed

lemma unsigned_number:
  assumes "number_at m nptr base ws sg ds" and "2 \<le> base" and "base \<le> 36" and "v = value_from base 0 ds"
  shows "strtoul m nptr (int base) =
      Some (if v < 2 ^ 32 then word_of_int (signed_value base sg ds) else ULONG_MAX,
            nptr + length ws + length sg + length ds, range_errno (2 ^ 32 \<le> v)) \<and>
    strtoull m nptr (int base) =
      Some (if v < 2 ^ 64 then word_of_int (signed_value base sg ds) else ULLONG_MAX,
            nptr + length ws + length sg + length ds, range_errno (2 ^ 64 \<le> v))"
proof -
  have "\<not> bad_base (int base)" using assms(2,3) by (rule bad_base_int)
  then show ?thesis
    unfolding strtoul_def strtoull_def using assms(4)
      unsigned_conversion [OF assms(1-3), of ULONG_MAX] unsigned_conversion [OF assms(1-3), of ULLONG_MAX]
    by (simp add: ULONG_MAX_def ULLONG_MAX_def)
qed

section \<open>Properties\<close>

text \<open>
  C15: for every number in a string, \<^verbatim>\<open>strtol()\<close> and \<^verbatim>\<open>strtoll()\<close> return the value it stands for, or
  the nearest representable value with \<^verbatim>\<open>errno\<close> set to \<^verbatim>\<open>ERANGE\<close>, and store the address after the last
  digit; also for the two most negative values.
\<close>

theorem strto_signed_value:
  assumes "number_at m nptr base ws sg ds" and "2 \<le> base" and "base \<le> 36" and "v = signed_value base sg ds"
  shows "strtol m nptr (int base) =
      Some (word_of_int (clamp 32 v), nptr + length ws + length sg + length ds, range_errno (clamp 32 v \<noteq> v)) \<and>
    strtoll m nptr (int base) =
      Some (word_of_int (clamp 64 v), nptr + length ws + length sg + length ds, range_errno (clamp 64 v \<noteq> v))"
  using assms by (rule signed_number)

text \<open>The string \<open>" -12a"\<close> in EBCDIC, at 8.\<close>

definition sample_text :: mem where
  "sample_text = store (\<lambda>a. 0) 8 [0x40, 0x60, 0xF1, 0xF2, 0x81]"

lemma sample_text_number: "number_at sample_text 8 10 [0x40] [chr_minus] [0xF1, 0xF2]"
  by (simp add: number_at_def sample_text_def store_Cons block_Suc chr_codes digval_code digit_of_def
      space_code_def blank_code_def hex_prefix_def)

theorem strto_signed_value_witness: "strtol sample_text 8 10 = Some (- 12, 12, None)"
  using strto_signed_value [OF sample_text_number _ _ refl]
  by (simp add: signed_value_def clamp_def range_errno_def digval_code digit_of_def)

text \<open>
  \<^verbatim>\<open>strtoul()\<close> and \<^verbatim>\<open>strtoull()\<close> return the value modulo the range of their type with a minus sign
  negating it, and the largest value with \<^verbatim>\<open>ERANGE\<close> when the digits exceed the range.
\<close>

theorem strto_unsigned_value:
  assumes "number_at m nptr base ws sg ds" and "2 \<le> base" and "base \<le> 36" and "v = value_from base 0 ds"
  shows "strtoul m nptr (int base) =
      Some (if v < 2 ^ 32 then word_of_int (signed_value base sg ds) else ULONG_MAX,
            nptr + length ws + length sg + length ds, range_errno (2 ^ 32 \<le> v)) \<and>
    strtoull m nptr (int base) =
      Some (if v < 2 ^ 64 then word_of_int (signed_value base sg ds) else ULLONG_MAX,
            nptr + length ws + length sg + length ds, range_errno (2 ^ 64 \<le> v))"
  using assms by (rule unsigned_number)

theorem strto_unsigned_value_witness: "strtoul sample_text 8 10 = Some (4294967284, 12, None)"
  using strto_unsigned_value [OF sample_text_number _ _ refl]
  by (simp add: signed_value_def range_errno_def digval_code digit_of_def)

text \<open>
  Without a digit the four conversions return 0 and store the address they were given; a base
  that is neither 0 nor from 2 to 36 does the same and sets \<^verbatim>\<open>errno\<close> to \<^verbatim>\<open>EINVAL\<close>.
\<close>

theorem strto_no_number:
  assumes "no_number_at m nptr base ws sg" and "2 \<le> base" and "base \<le> 36" and "bad < 0 \<or> bad = 1 \<or> 36 < bad"
  shows "strtol m nptr (int base) = Some (0, nptr, None) \<and> strtoul m nptr (int base) = Some (0, nptr, None) \<and>
    strtoll m nptr (int base) = Some (0, nptr, None) \<and> strtoull m nptr (int base) = Some (0, nptr, None) \<and>
    strtol m nptr bad = Some (0, nptr, Some EINVAL) \<and> strtoul m nptr bad = Some (0, nptr, Some EINVAL) \<and>
    strtoll m nptr bad = Some (0, nptr, Some EINVAL) \<and> strtoull m nptr bad = Some (0, nptr, Some EINVAL)"
proof -
  have "\<not> bad_base (int base)" using assms(2,3) by (rule bad_base_int)
  moreover have "bad_base bad" using assms(4) by (simp add: bad_base_def)
  moreover have "signed_limit LONG_MAX True \<noteq> 0" "signed_limit LLONG_MAX True \<noteq> 0"
    by (simp_all add: signed_limit_def LONG_MAX_def LLONG_MAX_def)
  note conversion_of_nothing(1) [OF assms(1-3) this(1), of LONG_MIN] conversion_of_nothing(1) [OF assms(1-3) this(2), of LLONG_MIN]
    conversion_of_nothing(2) [OF assms(1-3), of ULONG_MAX] conversion_of_nothing(2) [OF assms(1-3), of ULLONG_MAX]
  ultimately show ?thesis
    unfolding strtol_def strtoul_def strtoll_def strtoull_def by (simp only: if_True if_False simp_thms)
qed

theorem strto_no_number_witness: "strtol sample_text 12 10 = Some (0, 12, None) \<and> strtoul sample_text 8 37 = Some (0, 8, Some EINVAL)"
proof -
  have "no_number_at sample_text 12 10 [] []"
    by (simp add: no_number_at_def sample_text_def store_Cons chr_codes digval_code digit_of_def space_code_def blank_code_def)
  then show ?thesis
    using strto_no_number [of sample_text 12 10 "[]" "[]" 37] by (auto simp: strtoul_def bad_base_def)
qed

text \<open>
  Base 0 means base 16 after \<^verbatim>\<open>0x\<close> and a hexadecimal digit, base 8 after any other \<^verbatim>\<open>0\<close>, and base 10
  otherwise: the conversion is the one with that base.
\<close>

lemma strto_base_0:
  assumes "skip_space m nptr = Some s0" and "s = snd (strto_sign m s0)"
  shows "strtol m nptr 0 = strtol m nptr (if hex_prefix m s then 16 else if m s = chr_0 then 8 else 10) \<and>
    strtoul m nptr 0 = strtoul m nptr (if hex_prefix m s then 16 else if m s = chr_0 then 8 else 10) \<and>
    strtoll m nptr 0 = strtoll m nptr (if hex_prefix m s then 16 else if m s = chr_0 then 8 else 10) \<and>
    strtoull m nptr 0 = strtoull m nptr (if hex_prefix m s then 16 else if m s = chr_0 then 8 else 10)"
proof -
  define base :: int where "base = (if hex_prefix m s then 16 else if m s = chr_0 then 8 else 10)"
  have "\<not> bad_base base" "\<not> bad_base 0" by (simp_all add: bad_base_def base_def)
  then show ?thesis
    unfolding base_def [symmetric] strtol_def strtoul_def strtoll_def strtoull_def
    by (simp only: if_False strto_scan_base_0 [OF assms, folded base_def] simp_thms)
qed

end
