(* ===== verification/Printf_Strto.thy ===== *)
theory Printf_Strto
  imports Printf Strto
begin

text \<open>
  Formatted output and the conversions back: an integer printed by \<^verbatim>\<open>vsprintf()\<close> with one of the plain integer conversions is read back by the
  conversion function of its type and base.
\<close>

section \<open>The digits as the conversions read them\<close>

lemma digval_table: "d < 16 \<Longrightarrow> digval (table_of sp ! d) = int d"
proof -
  assume "d < 16"
  then have "d \<in> set [0..<16]" by simp
  moreover have "\<forall>d \<in> set [0..<16]. digit_of (uint (digits_lower ! d)) = int d \<and> digit_of (uint (digits_upper ! d)) = int d"
    by (simp add: upt_rec digits_lower_def digits_upper_def digit_of_def)
  ultimately show ?thesis by (auto simp: digval_code table_of_def)
qed

lemma value_from_snoc: "value_from base v (ds @ [d]) = value_from base v ds * base + nat (digval d)"
  by (simp add: value_from_def)

lemma value_from_digits:
  assumes "\<forall>d \<in> set ds. d < 16"
  shows "value_from base 0 (rev (map ((!) (table_of sp)) ds)) = value_le base ds"
  using assms by (induction ds) (simp_all add: value_from_snoc digval_table value_le_def)

lemma digits_at_block:
  assumes "block m s (length ds) = ds" and "\<forall>d \<in> set ds. digval d < int base" and "int base \<le> digval (m (s + length ds))"
  shows "digits_at m base s ds"
  using assms by (induction ds arbitrary: s) (auto simp: block_Suc)

section \<open>The plain conversions\<close>

definition length_modifier :: "byte list \<Rightarrow> int \<Rightarrow> bool" where
  "length_modifier mods l \<longleftrightarrow> mods = [] \<and> l = 0 \<or> mods = [c_l] \<and> l = 1 \<or> mods = [c_l, c_l] \<and> l = 2"

definition integer_specifier :: "byte \<Rightarrow> bool" where
  "integer_specifier sp \<longleftrightarrow> sp \<in> {c_d, c_i, c_u, c_x, c_X, c_o}"

lemma read_plain_spec:
  assumes "str_at m p (mods @ [sp])" and "length_modifier mods l" and "integer_specifier sp"
  shows "read_spec m args p ap = Some (no_flags\<lparr>lng := l\<rparr>, p + length mods, ap)"
proof -
  have "m p \<in> {c_l, c_d, c_i, c_u, c_x, c_X, c_o}" using assms by (auto simp: length_modifier_def integer_specifier_def)
  then have nd: "\<not> holds (isdigit (uint (m p))) \<and> m p \<notin> {c_minus, c_plus, c_blank, c_hash, c_zero, c_star, c_dot}"
    by (elim insertE emptyE) (simp_all add: class_test_codes digit_code_def)
  then have f: "flags_loop m args no_flags p ap = Some (no_flags, p, ap)"
    by (subst flags_loop.simps) (simp add: end_flags_def no_flags_def)
  have n: "number_loop m 0 p = Some (0, p)" using nd by (subst number_loop.simps) simp
  have "sp \<notin> {c_l, c_L, c_h, c_z, c_t, c_j}" using assms(3) unfolding integer_specifier_def by (elim insertE emptyE) simp_all
  then have l: "length_part m no_flags p = (no_flags\<lparr>lng := l\<rparr>, p + length mods)"
    using assms(1,2) unfolding length_modifier_def by (elim disjE) (simp_all add: length_part_def no_flags_def)
  have p: "precision_part m args (no_flags\<lparr>width := 0\<rparr>) p ap = Some (no_flags, p, ap)" using nd by (simp add: precision_part_def no_flags_def)
  have "width no_flags = 0" by (simp add: no_flags_def)
  then show ?thesis by (simp add: read_spec_def f n l p)
qed

lemma plain_conversion:
  assumes "str_at m p (mods @ [sp])" and "length_modifier mods l" and "integer_specifier sp" and "c = no_flags\<lparr>lng := l\<rparr>"
  shows "conversion dbl m args p ap written =
    Some (c99_int c sp (arg_value args c sp ap), None, p + length mods, ap + (if l = 2 then 2 else 1))"
proof (cases "m p = c_d")
  case True
  then have "mods = []" "sp = c_d" "l = 0" using assms(1,2) by (auto simp: length_modifier_def)
  then show ?thesis using True assms(4) by (simp add: conversion_def dec_text_eq) (simp add: no_flags_def arg_value_def is_signed_def c99_int_def number_text_def sign_text_def)
next
  case False
  then have "\<not> is_plain (m p)" using assms(1-3) by (auto simp: length_modifier_def integer_specifier_def is_plain_def is_float_def)
  moreover have sp: "m (p + length mods) = sp" using assms(1,2) by (auto simp: length_modifier_def)
  moreover have "sp \<in> {c_d, c_x, c_X, c_u, c_i, c_o, c_p}" using assms(3) by (auto simp: integer_specifier_def)
  ultimately show ?thesis
    using int_conversion [OF read_plain_spec [OF assms(1-3)], where dbl = dbl and written = written] assms(4) by (simp add: conversion_examin)
qed

lemma plain_text:
  assumes "c = no_flags\<lparr>lng := l\<rparr>" and "integer_specifier sp" and "length (nat_digits (base_of sp) (nat \<bar>v\<bar>)) \<le> 22"
  obtains ds where "c99_int c sp v = (if v < 0 then [c_minus] else []) @ ds" "ds \<noteq> []"
    "value_from (base_of sp) 0 ds = nat \<bar>v\<bar>" "\<forall>d \<in> set ds. digval d < int (base_of sp)"
    "length ds \<le> 22"
proof (cases "v = 0")
  case True
  have "digval c_zero = 0" using digval_table [of 0 c_d] by (simp add: table_distinct)
  moreover have "c99_int c sp v = [c_zero]" using True assms
    by (auto simp: c99_int_def number_text_def sign_text_def Let_def no_flags_def integer_specifier_def)
  ultimately show thesis using True base_of_bounds(1) [of sp] by (intro that [of "[c_zero]"]) simp_all
next
  case False
  let ?ns = "nat_digits (base_of sp) (nat \<bar>v\<bar>)"
  let ?ds = "rev (map ((!) (table_of sp)) ?ns)"
  have b: "2 \<le> base_of sp" using base_of_bounds(1) [of sp] by simp
  have lt: "d < base_of sp \<and> d < 16" if "d \<in> set ?ns" for d
    using nat_digits_lt [OF b that] base_of_bounds(2) [of sp] by simp
  have ne: "?ns \<noteq> []" using False b by simp
  then have "1 - length ?ns = 0" by (simp add: Suc_le_eq)
  then have "c99_int c sp v = (if v < 0 then [c_minus] else []) @ ?ds"
    using assms by (auto simp: c99_int_def number_text_def sign_text_def Let_def no_flags_def integer_specifier_def)
  moreover have "value_from (base_of sp) 0 ?ds = nat \<bar>v\<bar>" using lt by (simp add: value_from_digits value_nat_digits [OF b])
  moreover have "\<forall>d \<in> set ?ds. digval d < int (base_of sp)" using lt by (auto simp: digval_table)
  ultimately show thesis using ne assms(3) by (intro that [of ?ds]) simp_all
qed

lemma printed_number:
  assumes "str_at m format (c_percent # mods @ [sp])" and "length_modifier mods l" and "integer_specifier sp"
    and "v = arg_value args (no_flags\<lparr>lng := l\<rparr>) sp 0"
  obtains n m' sg ds where "vsprintf dbl m s format args = Some (int n, m')" "number_at m' s (base_of sp) [] sg ds"
    "n = length sg + length ds" "signed_value (base_of sp) sg ds = v" "value_from (base_of sp) 0 ds = nat \<bar>v\<bar>"
proof -
  let ?c = "no_flags\<lparr>lng := l\<rparr>"
  obtain ds where ds: "c99_int ?c sp v = (if v < 0 then [c_minus] else []) @ ds" "ds \<noteq> []"
      "value_from (base_of sp) 0 ds = nat \<bar>v\<bar>" "\<forall>d \<in> set ds. digval d < int (base_of sp)" "length ds \<le> 22"
    using plain_text [OF refl assms(3), where v = v and l = l] digit_count [of sp args ?c sp 0] assms(4) by blast
  define sg where "sg = (if v < 0 then [c_minus] else [])"
  have s: "m format = c_percent" "str_at m (format + 1) (mods @ [sp])" using assms(1) by simp_all
  have e: "m (format + 1 + length mods + 1) = 0" using s(2) by (simp add: str_at_block)
  have fin: "renders dbl m args (format + 1 + length mods + 1) ap' w [] []" for ap' w by (rule renders.finish) (rule e)
  have c: "conversion dbl m args (format + 1) 0 0 = Some (c99_int ?c sp v, None, format + 1 + length mods, 0 + (if l = 2 then 2 else 1))"
    unfolding assms(4) by (rule plain_conversion [OF s(2) assms(2,3) refl])
  have "renders dbl m args format 0 0 (c99_int ?c sp v @ []) (case None of None \<Rightarrow> [] | Some x \<Rightarrow> x # [])"
    by (rule renders.conv [OF s(1) c fin])
  then have r: "renders dbl m args format 0 0 (sg @ ds) []" unfolding ds(1) sg_def by simp
  have len: "length (sg @ ds) \<le> 0x7FFFFFFF" using ds(5) by (simp add: sg_def)
  let ?m = "store m s ((sg @ ds) @ [0])"
  have v: "vsprintf dbl m s format args = Some (int (length (sg @ ds)), ?m)" using vsprintf_eq [OF r len] by blast
  have at: "?m (s + k) = ((sg @ ds) @ [0]) ! k" if "k \<le> length (sg @ ds)" for k using that by (intro store_inside) simp
  have blk: "block ?m s (length sg) = sg" "block ?m (s + length sg) (length ds) = ds" "?m (s + length sg + length ds) = 0"
    using at by (auto intro!: nth_equalityI simp: nth_append add.assoc simp del: append_assoc)
  have "digits_at ?m (base_of sp) (s + length sg) ds"
    using blk(2,3) ds(4) base_of_bounds(2) [of sp] by (intro digits_at_block) (simp_all add: digval_code digit_of_def)
  moreover have "\<not> hex_prefix ?m (s + length sg)"
  proof
    assume "hex_prefix ?m (s + length sg)"
    then have x: "digval (?m (s + length sg + 1)) = 33" by (auto simp: hex_prefix_def chr_codes digval_code digit_of_def)
    have "?m (s + length sg + 1) = (if length ds = 1 then 0 else ds ! 1)" using at [of "length sg + 1"] ds(2)
      by (cases ds) (auto simp: nth_append add.assoc simp del: append_assoc)
    moreover have "ds ! 1 \<in> set ds" if "length ds \<noteq> 1" using that ds(2) by (intro nth_mem) (cases ds, auto)
    ultimately show False using x ds(4) base_of_bounds(2) [of sp] by (auto simp: digval_code digit_of_def split: if_splits)
  qed
  ultimately have "number_at ?m s (base_of sp) [] sg ds" using ds(2) blk(1) by (simp add: number_at_def sg_def chr_codes)
  then show thesis using that [OF v] ds(3) by (simp add: sg_def signed_value_def chr_codes)
qed

section \<open>The values\<close>

lemma in_range_words: "\<not> 4294967296 \<le> unat (w :: u32)" "\<not> 18446744073709551616 \<le> unat (x :: u64)"
  by (simp_all add: not_le)

lemma clamp_sint: "clamp 32 (sint (w :: i32)) = sint w" "clamp 64 (sint (x :: u64)) = sint x"
  using sint_ge [of w] sint_lt [of w] sint_ge [of x] sint_lt [of x] by (simp_all add: clamp_def)

lemma printed_value:
  assumes "length_modifier mods l"
  shows "arg_value args (no_flags\<lparr>lng := l\<rparr>) sp 0 =
    (if mods = [c_l, c_l] then (if is_signed sp then sint (word64 (args 0) (args 1)) else uint (word64 (args 0) (args 1)))
     else if is_signed sp then sint (args 0) else uint (args 0))"
  using assms by (auto simp: length_modifier_def arg_value_def no_flags_def)

section \<open>Properties\<close>

text \<open>
  C21: an integer printed is read back.  A format of one of \<open>%d %i %u %x %X %o\<close>, also with \<open>l\<close> or \<open>ll\<close>, makes \<^verbatim>\<open>vsprintf()\<close> store a text from
  which \<^verbatim>\<open>strtol()\<close>, \<^verbatim>\<open>strtoul()\<close>, \<^verbatim>\<open>strtoll()\<close> or \<^verbatim>\<open>strtoull()\<close>, as the type is signed and as long, reads in the base of the conversion exactly the
  argument, without an error and up to the end of the text; also for the most negative and the largest values.
\<close>

theorem printf_strto_roundtrip:
  assumes "str_at m format (c_percent # mods @ [sp])" and "length_modifier mods l" and "integer_specifier sp"
  shows "\<exists>n m'. vsprintf dbl m s format args = Some (int n, m') \<and>
    (if mods = [c_l, c_l] then
       (if is_signed sp then strtoll m' s (int (base_of sp)) else strtoull m' s (int (base_of sp))) = Some (word64 (args 0) (args 1), s + n, None)
     else (if is_signed sp then strtol m' s (int (base_of sp)) else strtoul m' s (int (base_of sp))) = Some (args 0, s + n, None))"
proof -
  let ?v = "arg_value args (no_flags\<lparr>lng := l\<rparr>) sp 0"
  obtain n m' sg ds where p: "vsprintf dbl m s format args = Some (int n, m')" "number_at m' s (base_of sp) [] sg ds"
    "n = length sg + length ds" "signed_value (base_of sp) sg ds = ?v" "value_from (base_of sp) 0 ds = nat \<bar>?v\<bar>"
    using printed_number [OF assms refl] by metis
  have b: "2 \<le> base_of sp" "base_of sp \<le> 36" using base_of_bounds [of sp] by simp_all
  note sn = signed_number [OF p(2) b refl, unfolded p(4)] and un = unsigned_number [OF p(2) b refl, unfolded p(4,5)]
  have u: "nat (uint (args 0)) < 2 ^ 32" "nat (uint (word64 (args 0) (args 1))) < 2 ^ 64" by simp_all
  note v = printed_value [OF assms(2), of args sp] and r = clamp_sint range_errno_def p(1,3) add.assoc in_range_words
  show ?thesis
  proof (cases "mods = [c_l, c_l]"; cases "is_signed sp")
    assume c: "mods = [c_l, c_l]" "is_signed sp"
    then show ?thesis using sn v by (simp add: r)
  next
    assume c: "mods = [c_l, c_l]" "\<not> is_signed sp"
    then show ?thesis using un v u by (simp add: r)
  next
    assume c: "mods \<noteq> [c_l, c_l]" "is_signed sp"
    then show ?thesis using sn v by (simp add: r)
  next
    assume c: "mods \<noteq> [c_l, c_l]" "\<not> is_signed sp"
    then show ?thesis using un v u by (simp add: r)
  qed
qed

theorem printf_strto_roundtrip_witness:
  "\<exists>n m'. vsprintf (\<lambda>_ _ _ _ _ _. []) (store (\<lambda>a. 0) 8 [c_percent, c_d]) 100 8 (\<lambda>i. 0x80000000) = Some (int n, m') \<and>
     strtol m' 100 10 = Some (0x80000000, 100 + n, None)"
proof -
  have s: "str_at (store (\<lambda>a. 0) 8 [c_percent, c_d]) 8 (c_percent # [] @ [c_d])" by (simp add: store_Cons)
  show ?thesis
    using printf_strto_roundtrip [OF s, of 0 "\<lambda>_ _ _ _ _ _. []" 100 "\<lambda>i. 0x80000000"]
    by (simp add: length_modifier_def integer_specifier_def is_signed_def base_of_def)
qed

end
