(* ===== verification/Fileio.thy ===== *)
theory Fileio
  imports Cmem Ctype Errno
begin

text \<open>
  The streams below the functions of ISO C (\<^verbatim>\<open>src/stdio\<close>): \<^verbatim>\<open>@@fflush.c\<close>, \<^verbatim>\<open>@@fgetc.c\<close>, \<^verbatim>\<open>@@fputc.c\<close>, \<^verbatim>\<open>@@fpswt.c\<close>,
  the opening of the DCB in \<^verbatim>\<open>@@fpopen.c\<close>, \<^verbatim>\<open>@@fgets.c\<close>, \<^verbatim>\<open>@@fputs.c\<close>, \<^verbatim>\<open>@@fread.c\<close>, \<^verbatim>\<open>@@fwrite.c\<close>, \<^verbatim>\<open>ungetc.c\<close>,
  \<^verbatim>\<open>clearerr.c\<close>, \<^verbatim>\<open>feof.c\<close>, \<^verbatim>\<open>ferror.c\<close> and the seek on a \<open>+\<close> stream in \<^verbatim>\<open>@@fseek.c\<close>.

  A stream is the structure \<^verbatim>\<open>_file\<close> of \<^verbatim>\<open>include/stdio.h\<close>.  Its buffer is the list of the bytes \<^verbatim>\<open>calloc()\<close> returned, empty
  while there is none, and \<^verbatim>\<open>upto\<close> and \<^verbatim>\<open>endbuf\<close> are offsets into it; the flags are the sets of the bits that are on, and
  \<^verbatim>\<open>errno\<close> goes along with the stream.  A store past the end of the buffer makes the list longer, so that a buffer that keeps its
  length has had no such store.  \<^verbatim>\<open>'\n'\<close> is X'15' and \<^verbatim>\<open>long\<close> has 32 bits.

  The access methods (\<^verbatim>\<open>@@aread.asm\<close> and its companions), the terminal and the control blocks the opening looks at are the
  parameter \<open>am\<close>; a value of \<open>'d\<close> is a data set with its DCB, in the state the requests so far have left it.
\<close>

section \<open>Definitions\<close>

subsection \<open>The structure\<close>

datatype fflag = F_DYNAMIC | F_OPEN | F_READ | F_WRITE | F_APPEND | F_BINARY | F_RECORD | F_BSAM | F_TERM | F_RLSE
  | F_POSEND | F_DCBOUT | F_EXTEND | F_ENOSPC | F_ERROR | F_EOF

datatype xflag = X_UPDAT | X_DIRTY | X_PUTLINE | X_GETLINE | X_DDDCB

definition RECFM_TYPE :: byte where "RECFM_TYPE = 0xC0"
definition RECFM_F :: byte where "RECFM_F = 0x80"
definition RECFM_V :: byte where "RECFM_V = 0x40"
definition RECFM_U :: byte where "RECFM_U = 0xC0"
definition RECFM_S :: byte where "RECFM_S = 0x08"

abbreviation NL :: byte where "NL \<equiv> 0x15"
abbreviation BLANK :: byte where "BLANK \<equiv> 0x40"
abbreviation EOF :: int where "EOF \<equiv> - 1"

record 'd stream =
  dcb :: 'd
  lrecl :: nat
  blksize :: nat
  ungetch :: int
  filepos :: u32
  buf :: "byte list"
  bpos :: nat
  endbuf :: nat
  flags :: "fflag set"
  recfm :: byte
  ddname :: string
  member :: string
  dataset :: string
  xflags :: "xflag set"
  errno :: int

text \<open>The outcome of an open request: a DCB, or the negative number in place of its address.\<close>

datatype 'd opened = Refused int 'd | Opened 'd

record 'd access =
  aread :: "'d \<Rightarrow> int \<times> byte list \<times> 'd"
  awrite :: "'d \<Rightarrow> byte list \<Rightarrow> int \<times> 'd"
  aclose :: "'d \<Rightarrow> int \<times> 'd"
  aopen :: "nat \<Rightarrow> nat \<Rightarrow> nat \<Rightarrow> nat \<Rightarrow> string \<Rightarrow> string \<Rightarrow> 'd \<Rightarrow> 'd opened"
  dcbrecfm :: "'d \<Rightarrow> byte"
  dcblrecl :: "'d \<Rightarrow> nat"
  dcbblksi :: "'d \<Rightarrow> nat"
  dcbdevt :: "'d \<Rightarrow> byte"
  rdjfcb :: "'d \<Rightarrow> string option"
  tget :: "'d \<Rightarrow> nat \<Rightarrow> byte list \<times> 'd"
  tput :: "'d \<Rightarrow> byte list \<Rightarrow> 'd"
  ddbusy :: "string \<Rightarrow> bool"
  dddum :: "string \<Rightarrow> bool"
  storage :: "nat \<Rightarrow> bool"

definition rtype :: "'d stream \<Rightarrow> byte" where
  "rtype fp = recfm fp AND RECFM_TYPE"

text \<open>Bytes stored from an offset of the buffer on.\<close>

definition put_at :: "byte list \<Rightarrow> nat \<Rightarrow> byte list \<Rightarrow> byte list" where
  "put_at b i xs = take i b @ xs @ drop (i + length xs) b"

definition pending :: "'d stream \<Rightarrow> byte list" where
  "pending fp = take (bpos fp) (buf fp)"

definition seterr :: "int \<Rightarrow> 'd stream \<Rightarrow> 'd stream" where
  "seterr e fp = fp\<lparr>errno := e\<rparr>"

definition setflag :: "fflag \<Rightarrow> 'd stream \<Rightarrow> 'd stream" where
  "setflag f fp = fp\<lparr>flags := insert f (flags fp)\<rparr>"

definition DCBDVTRM :: byte where "DCBDVTRM = 0x4F"

definition on_terminal :: "'d access \<Rightarrow> 'd stream \<Rightarrow> bool" where
  "on_terminal am fp \<longleftrightarrow> X_PUTLINE \<notin> xflags fp \<and> X_GETLINE \<notin> xflags fp \<and> dcbdevt am (dcb fp) = DCBDVTRM"

subsection \<open>\<^verbatim>\<open>__fflush()\<close> and \<^verbatim>\<open>__fflnl()\<close>\<close>

text \<open>\<^verbatim>\<open>begwrite\<close> and \<^verbatim>\<open>finwrite\<close>: a record is built in \<^verbatim>\<open>asmbuf\<close> and handed over.\<close>

definition put_record :: "'d access \<Rightarrow> byte list \<Rightarrow> 'd stream \<Rightarrow> int \<times> 'd stream" where
  "put_record am r fp = (let (err, d) = awrite am (dcb fp) r in (err, fp\<lparr>dcb := d\<rparr>))"

definition rdw :: "nat \<Rightarrow> byte list" where
  "rdw n = [word_of_nat (n div 256), word_of_nat n, 0, 0]"

definition fixflush :: "'d access \<Rightarrow> byte \<Rightarrow> 'd stream \<Rightarrow> int \<times> 'd stream" where
  "fixflush am fill fp =
     (let data = pending fp
      in if rtype fp = RECFM_U then put_record am (if data = [] then [fill] else data) fp
         else put_record am (data @ replicate (lrecl fp - length data) fill) fp)"

definition varflush :: "'d access \<Rightarrow> 'd stream \<Rightarrow> int \<times> 'd stream" where
  "varflush am fp = (let data = pending fp in put_record am (rdw (length data + 4) @ data) fp)"

definition write_failed :: "int \<Rightarrow> 'd stream \<Rightarrow> 'd stream" where
  "write_failed err fp =
     (let fp = setflag F_ERROR fp; fp = (if err = 12 then setflag F_ENOSPC fp else fp)
      in seterr (if err = 12 then ENOSPC else EIO) fp)"

definition fail_fast :: "'d stream \<Rightarrow> int \<times> 'd stream" where
  "fail_fast fp = (if F_ENOSPC \<in> flags fp then (12, seterr ENOSPC fp) else (8, seterr EIO fp))"

definition updrec :: "'d access \<Rightarrow> 'd stream \<Rightarrow> int \<times> 'd stream" where
  "updrec am fp =
     (let fp = fp\<lparr>xflags := xflags fp - {X_DIRTY}\<rparr>;
          binary = F_BINARY \<in> flags fp;
          len = (if \<not> binary \<and> endbuf fp > 0 then endbuf fp - 1 else endbuf fp);
          data = take len (buf fp);
          r = (if rtype fp = RECFM_F then data @ replicate (lrecl fp - len) (if binary then 0 else BLANK)
               else if rtype fp = RECFM_V then rdw (len + 4) @ data
               else data);
          (err, fp) = put_record am r fp
      in (err, if err \<noteq> 0 then write_failed err fp else fp))"

text \<open>What the record counts in the byte view beyond the characters put into it.\<close>

definition record_pad :: "'d stream \<Rightarrow> bool \<Rightarrow> nat" where
  "record_pad fp newline =
     (let len = bpos fp;
          pad = (if rtype fp = RECFM_F then lrecl fp - len else if rtype fp = RECFM_U \<and> len = 0 then 1 else 0)
      in pad + (if newline then 0 else 1))"

definition write_pending :: "'d access \<Rightarrow> bool \<Rightarrow> 'd stream \<Rightarrow> int \<times> 'd stream" where
  "write_pending am newline fp =
     (let (err, fp') =
            (if rtype fp = RECFM_F \<or> rtype fp = RECFM_U then fixflush am (if F_BINARY \<in> flags fp then 0 else BLANK) fp
             else if rtype fp = RECFM_V then varflush am fp
             else (0, fp))
      in (err,
          if err \<noteq> 0 then write_failed err fp'
          else if F_BINARY \<notin> flags fp then fp'\<lparr>filepos := filepos fp' + word_of_nat (record_pad fp newline)\<rparr>
          else fp'))"

definition reset_buffer :: "int \<times> 'd stream \<Rightarrow> int \<times> 'd stream" where
  "reset_buffer r = (fst r, (snd r)\<lparr>bpos := 0\<rparr>)"

definition flushrec :: "'d access \<Rightarrow> 'd stream \<Rightarrow> bool \<Rightarrow> int \<times> 'd stream" where
  "flushrec am fp newline =
     (if X_DIRTY \<in> xflags fp then
        if F_ERROR \<in> flags fp then fail_fast (fp\<lparr>xflags := xflags fp - {X_DIRTY}\<rparr>) else updrec am fp
      else if F_RECORD \<in> flags fp \<or> F_DCBOUT \<notin> flags fp \<or> bpos fp = 0 \<and> \<not> newline then (0, fp)
      else if F_ERROR \<in> flags fp then reset_buffer (fail_fast fp)
      else if on_terminal am fp then
        reset_buffer (0, if bpos fp = 0 then fp else fp\<lparr>dcb := tput am (dcb fp) (pending fp)\<rparr>)
      else reset_buffer (write_pending am newline fp))"

definition fflush :: "'d access \<Rightarrow> 'd stream \<Rightarrow> int \<times> 'd stream" where
  "fflush am fp = flushrec am fp False"

definition fflnl :: "'d access \<Rightarrow> 'd stream \<Rightarrow> int \<times> 'd stream" where
  "fflnl am fp = flushrec am fp True"
subsection \<open>Reading a character from a DCB that reads\<close>

text \<open>Trailing zeros of a text record are dropped.\<close>

definition trim_nuls :: "byte list \<Rightarrow> byte list" where
  "trim_nuls xs = rev (dropWhile (\<lambda>b. b = 0) (rev xs))"

text \<open>The record \<^verbatim>\<open>__aread()\<close> returns, or nothing with the indicator set.  The length in an RDW below 4 wraps around.\<close>

definition rdw_length :: "byte list \<Rightarrow> nat" where
  "rdw_length r = nat ((uint (r ! 0) * 256 + uint (r ! 1) - 4) mod 2 ^ 32)"

definition read_record :: "'d access \<Rightarrow> 'd stream \<Rightarrow> byte list option \<times> 'd stream" where
  "read_record am fp =
     (let (rc, r, d) = aread am (dcb fp); fp = fp\<lparr>dcb := d\<rparr>
      in if rc \<noteq> 0 then (None, if rc > 0 then seterr EIO (setflag F_ERROR fp) else setflag F_EOF fp)
         else if rtype fp = RECFM_F then (Some (take (lrecl fp) r), fp)
         else if rtype fp = RECFM_V then
           (Some (take (rdw_length r) (drop 4 r)), fp)
         else if rtype fp = RECFM_U then (Some r, fp)
         else (None, setflag F_EOF fp))"

text \<open>The label \<^verbatim>\<open>success\<close>: the data go into the buffer, with a newline on a text stream.\<close>

definition fill_buffer :: "byte list \<Rightarrow> 'd stream \<Rightarrow> 'd stream" where
  "fill_buffer data fp =
     (let data = (if F_BINARY \<in> flags fp then data else trim_nuls data);
          data = (if F_BINARY \<in> flags fp then data else data @ [NL])
      in fp\<lparr>buf := put_at (buf fp) 0 data, bpos := 0, endbuf := length data\<rparr>)"

text \<open>The label \<^verbatim>\<open>dogetc\<close>.\<close>

definition next_char :: "'d stream \<Rightarrow> int \<times> 'd stream" where
  "next_char fp = (uint (buf fp ! bpos fp), fp\<lparr>bpos := bpos fp + 1, filepos := filepos fp + 1\<rparr>)"

text \<open>A line of the terminal (with a record length of 2 or more), without the blanks around it, and the lines that stand for the end
  of file.\<close>

definition tso_line :: "byte list \<Rightarrow> nat \<Rightarrow> byte list" where
  "tso_line raw len =
     (let s = takeWhile (\<lambda>b. b \<noteq> 0) (take (len - 1) raw);
          s = dropWhile (\<lambda>b. holds (isspace (uint b))) s
      in rev (dropWhile (\<lambda>b. holds (isspace (uint b))) (rev s)))"

definition tso_eof :: "byte list set" where
  "tso_eof = {[0x61, 0x5C], [0x61, 0x61], [0x4C, 0x85, 0x96, 0x86, 0x6E], [0x4C, 0xC5, 0xD6, 0xC6, 0x6E]}"

text \<open>\<^verbatim>\<open>__fgetc()\<close> from the test of the buffer on.\<close>

definition get_more :: "'d access \<Rightarrow> 'd stream \<Rightarrow> int \<times> 'd stream" where
  "get_more am fp =
     (if on_terminal am fp then
        let (raw, d) = tget am (dcb fp) (lrecl fp - 1); fp = fp\<lparr>dcb := d\<rparr>; line = tso_line raw (lrecl fp - 1)
        in if line \<in> tso_eof then (EOF, fp) else next_char (fill_buffer line fp)
      else
        let (err, fp) = (if X_DIRTY \<in> xflags fp then fflush am fp else (0, fp))
        in if err \<noteq> 0 then (EOF, fp)
           else case read_record am fp of (None, fp) \<Rightarrow> (EOF, fp) | (Some data, fp) \<Rightarrow> next_char (fill_buffer data fp))"

definition get_buffered :: "'d access \<Rightarrow> 'd stream \<Rightarrow> int \<times> 'd stream" where
  "get_buffered am fp = (if bpos fp < endbuf fp then next_char fp else get_more am fp)"

text \<open>After the DCB has been turned round, and for a stream whose DCB reads all of \<^verbatim>\<open>__fgetc()\<close>.\<close>

definition get_turned :: "'d access \<Rightarrow> 'd stream \<Rightarrow> int \<times> 'd stream" where
  "get_turned am fp =
     (if F_RECORD \<in> flags fp then (EOF, fp)
      else if ungetch fp \<noteq> - 1 then (ungetch fp, fp\<lparr>ungetch := - 1\<rparr>)
      else if F_EOF \<in> flags fp then (EOF, fp)
      else get_buffered am fp)"

definition fgetc_reading :: "'d access \<Rightarrow> 'd stream \<Rightarrow> int \<times> 'd stream" where
  "fgetc_reading am fp =
     (if F_READ \<notin> flags fp then (EOF, seterr EBADF fp)
      else if F_ERROR \<in> flags fp then (EOF, seterr EIO fp)
      else get_turned am fp)"

subsection \<open>Opening the DCB, and turning it round\<close>

text \<open>The mode of the open request; \<open>reopened\<close> as the code has it in \<^verbatim>\<open>_FILE_FLAG_EXTEND\<close>.\<close>

definition named :: "string \<Rightarrow> bool" where
  "named s \<longleftrightarrow> s \<noteq> [] \<and> hd s \<noteq> CHR '' ''"

definition open_mode :: "'d stream \<Rightarrow> nat" where
  "open_mode fp =
     (if F_DCBOUT \<in> flags fp then if F_APPEND \<in> flags fp \<or> F_EXTEND \<in> flags fp then 3 else 1
      else if F_WRITE \<in> flags fp \<and> F_APPEND \<notin> flags fp \<and> \<not> named (member fp) then 2
      else 0)"

definition recfm_index :: "'d stream \<Rightarrow> nat" where
  "recfm_index fp = (if rtype fp = RECFM_V then 1 else if rtype fp = RECFM_U then 2 else 0)"

definition buffer_size :: "'d stream \<Rightarrow> nat" where
  "buffer_size fp =
     (if rtype fp = RECFM_F then lrecl fp else if rtype fp = RECFM_V then lrecl fp - 4 else blksize fp)"

text \<open>The part after a successful open.\<close>

definition opened_stream :: "'d access \<Rightarrow> 'd stream \<Rightarrow> int \<times> 'd stream" where
  "opened_stream am fp =
     (let plus = F_READ \<in> flags fp \<and> F_WRITE \<in> flags fp;
          fp = (setflag F_OPEN fp)\<lparr>ungetch := - 1\<rparr>
      in if plus \<and> dcbdevt am (dcb fp) AND 0xF0 \<noteq> 0x20 then
           (1, seterr EINVAL (fp\<lparr>dcb := snd (aclose am (dcb fp)), flags := flags fp - {F_OPEN}\<rparr>))
         else
           let fp = (if plus \<and> F_DCBOUT \<in> flags fp then setflag F_EXTEND fp else fp);
               fp = fp\<lparr>recfm := dcbrecfm am (dcb fp), lrecl := dcblrecl am (dcb fp), blksize := dcbblksi am (dcb fp)\<rparr>
           in case rdjfcb am (dcb fp) of
                None \<Rightarrow> (1, fp)
              | Some jfcbdsnm \<Rightarrow>
                  let fp = (if named jfcbdsnm then fp\<lparr>dataset := takeWhile (\<lambda>c. c \<noteq> CHR '' '') (take 44 jfcbdsnm)\<rparr> else fp)
                  in if F_RECORD \<in> flags fp then (0, fp)
                  else
                    let i = (if F_WRITE \<notin> flags fp \<and> dataset fp = ''NULLFILE'' then 0 else buffer_size fp)
                    in if \<not> storage am (i + 8) then (1, fp\<lparr>buf := []\<rparr>)
                       else (0, fp\<lparr>buf := replicate (i + 8) 0, bpos := 0, endbuf := (if F_DCBOUT \<in> flags fp then i else 0)\<rparr>))"

definition open_refused :: "int \<Rightarrow> 'd stream \<Rightarrow> int \<times> 'd stream" where
  "open_refused rc fp = (1, if rc = - 45 then seterr EOPNOTSUPP fp else if rc = - 12 then seterr ENOMEM fp else fp)"

text \<open>
  \<^verbatim>\<open>__fpopen()\<close> of a stream whose mode gives the DCB no attributes of its own (\<^verbatim>\<open>_FILE_XFLAG_DDDCB\<close> is off); \<^verbatim>\<open>dcb\<close> keeps the data
  set when the request is refused.
\<close>

definition fpopen :: "'d access \<Rightarrow> 'd stream \<Rightarrow> int \<times> 'd stream" where
  "fpopen am fp =
     (if ddname fp = [] then (1, fp)
      else if ddbusy am (ddname fp) then (1, seterr EBUSY fp)
      else
        let want = open_mode fp;
            bsam = (if F_BSAM \<in> flags fp then 8 else 0);
            fp = fp\<lparr>xflags := xflags fp - {X_UPDAT, X_DIRTY}\<rparr>;
            dummy = F_WRITE \<notin> flags fp \<and> lrecl fp = 0 \<and> blksize fp = 0 \<and> dddum am (ddname fp);
            req = (\<lambda>mode. if dummy then aopen am (mode + bsam) 0 80 80 (ddname fp) (member fp)
                          else aopen am (mode + bsam) (recfm_index fp) (lrecl fp) (blksize fp) (ddname fp) (member fp))
        in case req want (dcb fp) of
             Opened d \<Rightarrow>
               opened_stream am (if want = 2 then fp\<lparr>dcb := d, xflags := insert X_UPDAT (xflags fp)\<rparr> else fp\<lparr>dcb := d\<rparr>)
           | Refused rc d \<Rightarrow>
               if want = 2 then
                 case req 0 d of
                   Opened d \<Rightarrow> opened_stream am (fp\<lparr>dcb := d\<rparr>)
                 | Refused rc d \<Rightarrow> open_refused rc (fp\<lparr>dcb := d\<rparr>)
               else open_refused rc (fp\<lparr>dcb := d\<rparr>))"

definition redcb :: "'d access \<Rightarrow> 'd stream \<Rightarrow> bool \<Rightarrow> int \<times> 'd stream" where
  "redcb am fp out =
     (let (rc, d) = (if F_OPEN \<in> flags fp then aclose am (dcb fp) else (0, dcb fp));
          lost = (if rc = 0 then 0 else if rc = 12 then ENOSPC else EIO);
          (err, fp) = fpopen am
            (fp\<lparr>dcb := d, buf := [], bpos := 0, endbuf := 0, ungetch := - 1,
                flags := flags fp - {F_OPEN, F_DCBOUT, F_EOF} \<union> (if out then {F_DCBOUT} else {}), errno := 0\<rparr>)
      in if err \<noteq> 0 then (- 1, fp) else if lost \<noteq> 0 then (1, seterr lost fp) else (0, fp))"

text \<open>The loops that read on; the DCB reads.\<close>

partial_function (option) read_all :: "'d access \<Rightarrow> 'd stream \<Rightarrow> 'd stream option" where
  "read_all am fp = (let r = fgetc_reading am fp in if fst r = EOF then Some (snd r) else read_all am (snd r))"

partial_function (option) read_to :: "'d access \<Rightarrow> u32 \<Rightarrow> 'd stream \<Rightarrow> 'd stream option" where
  "read_to am pos fp =
     (if filepos fp < pos then
        let r = fgetc_reading am fp in if fst r = EOF then Some (snd r) else read_to am pos (snd r)
      else Some fp)"

definition skipto :: "'d access \<Rightarrow> 'd stream \<Rightarrow> u32 \<Rightarrow> 'd stream option" where
  "skipto am fp pos =
     (let fp = fp\<lparr>filepos := 0\<rparr>
      in if F_POSEND \<in> flags fp then map_option (\<lambda>fp. fp\<lparr>flags := flags fp - {F_POSEND}\<rparr>) (read_all am fp)
         else read_to am pos fp)"

text \<open>The peek of a stream that is to write at the end: \<open>Inl\<close> the answer and the stream, \<open>Inr\<close> the position it is at.\<close>

definition at_end :: "'d access \<Rightarrow> 'd stream \<Rightarrow> (int \<times> 'd stream, 'd stream) sum option" where
  "at_end am fp =
     (if named (member fp) then Some (Inl (- 1, seterr EOPNOTSUPP fp))
      else if F_EOF \<in> flags fp then Some (Inr fp)
      else if F_APPEND \<in> flags fp then
        map_option (\<lambda>fp. if F_ERROR \<in> flags fp then Inl (- 1, fp) else Inr fp) (read_all am fp)
      else
        let had = ungetch fp \<noteq> - 1; (c, fp) = fgetc_reading am fp
        in Some (if F_ERROR \<in> flags fp then Inl (- 1, fp)
                 else if c \<noteq> EOF then
                   Inl (- 1, seterr EOPNOTSUPP
                     (if had then fp\<lparr>ungetch := c\<rparr> else fp\<lparr>bpos := bpos fp - 1, filepos := filepos fp - 1\<rparr>))
                 else Inr fp))"

definition turn :: "'d access \<Rightarrow> 'd stream \<Rightarrow> bool \<Rightarrow> u32 \<Rightarrow> (int \<times> 'd stream) option" where
  "turn am fp out pos =
     (let (err, fp) = fflush am fp
      in if err \<noteq> 0 then Some (- 1, fp)
         else
           let (r, fp) = redcb am fp out
           in if r > 0 then
                let e = errno fp
                in map_option (\<lambda>fp. (- 1, seterr e (if e = ENOSPC then setflag F_ENOSPC (setflag F_ERROR fp) else setflag F_ERROR fp)))
                     (if out then Some (fp\<lparr>filepos := pos\<rparr>) else skipto am fp pos)
              else if r < 0 then
                let e = (if errno fp \<noteq> 0 then errno fp else EIO);
                    (r, fp) = (if out then redcb am fp False else (1, fp))
                in map_option (\<lambda>fp. (- 1, seterr e (if F_OPEN \<in> flags fp then fp else setflag F_ERROR fp)))
                     (if out \<and> r = 0 then skipto am (fp\<lparr>flags := flags fp - {F_POSEND}\<rparr>) pos else Some fp)
              else if out then Some (0, fp\<lparr>filepos := pos\<rparr>)
              else map_option (Pair 0) (skipto am fp pos))"

definition fpswt :: "'d access \<Rightarrow> 'd stream \<Rightarrow> bool \<Rightarrow> (int \<times> 'd stream) option" where
  "fpswt am fp out =
     (if F_OPEN \<notin> flags fp then Some (- 1, seterr EBADF fp)
      else if out then
        Option.bind (at_end am fp) (\<lambda>r. case r of Inl r \<Rightarrow> Some r | Inr fp \<Rightarrow> turn am fp True (filepos fp))
      else turn am fp False (filepos fp))"

subsection \<open>\<^verbatim>\<open>__fgetc()\<close> and \<^verbatim>\<open>__fputc()\<close>\<close>

definition fgetc :: "'d access \<Rightarrow> 'd stream \<Rightarrow> (int \<times> 'd stream) option" where
  "fgetc am fp =
     (if F_READ \<notin> flags fp then Some (EOF, seterr EBADF fp)
      else if F_ERROR \<in> flags fp then Some (EOF, seterr EIO fp)
      else if F_DCBOUT \<in> flags fp then
        map_option (\<lambda>(err, fp). if err \<noteq> 0 then (EOF, fp) else get_turned am fp) (fpswt am fp False)
      else Some (get_turned am fp))"

text \<open>A byte written over in place.\<close>

definition overwrite :: "'d stream \<Rightarrow> int \<Rightarrow> int \<times> 'd stream" where
  "overwrite fp c =
     (let is_text = F_BINARY \<notin> flags fp;
          last = (if is_text then endbuf fp - 1 else endbuf fp)
      in if is_text \<and> last \<le> bpos fp then
           if c = uint NL then (0, fp\<lparr>bpos := bpos fp + 1, filepos := filepos fp + 1\<rparr>)
           else (- 1, seterr EOPNOTSUPP fp)
         else if is_text \<and> c = uint NL then
           if rtype fp \<noteq> RECFM_F then (- 1, seterr EOPNOTSUPP fp)
           else
             (0, fp\<lparr>buf := put_at (buf fp) (bpos fp) (replicate (last - bpos fp) BLANK),
                    filepos := filepos fp + word_of_nat (endbuf fp - bpos fp), bpos := endbuf fp,
                    xflags := insert X_DIRTY (xflags fp)\<rparr>)
         else
           (0, fp\<lparr>buf := put_at (buf fp) (bpos fp) [word_of_int c], bpos := bpos fp + 1, filepos := filepos fp + 1,
                  xflags := insert X_DIRTY (xflags fp)\<rparr>))"

definition fpupc :: "'d access \<Rightarrow> 'd stream \<Rightarrow> int \<Rightarrow> (int \<times> 'd stream) option" where
  "fpupc am fp c =
     (let fp = fp\<lparr>ungetch := - 1\<rparr>
      in if endbuf fp \<le> bpos fp then
           let (k, fp) = fgetc_reading am fp
           in if F_ERROR \<in> flags fp then Some (- 1, fp)
              else if k = EOF then map_option (\<lambda>(err, fp). (if err \<noteq> 0 then - 1 else 1, fp)) (fpswt am fp True)
              else Some (overwrite (fp\<lparr>bpos := bpos fp - 1, filepos := filepos fp - 1\<rparr>) c)
         else Some (overwrite fp c))"

text \<open>\<^verbatim>\<open>__fputc()\<close> from the test for a newline on.\<close>

definition put_buffered :: "'d access \<Rightarrow> int \<Rightarrow> 'd stream \<Rightarrow> int \<times> 'd stream" where
  "put_buffered am c fp =
     (if F_BINARY \<notin> flags fp \<and> c = uint NL then
        let (err, fp) = fflnl am (fp\<lparr>filepos := filepos fp + 1\<rparr>) in (if err \<noteq> 0 then EOF else c, fp)
      else
        let (err, fp) = (if bpos fp = endbuf fp then fflush am fp else (0, fp))
        in if err \<noteq> 0 then (EOF, fp)
           else (c, fp\<lparr>buf := put_at (buf fp) (bpos fp) [word_of_int c], bpos := bpos fp + 1, filepos := filepos fp + 1\<rparr>))"

definition fputc :: "'d access \<Rightarrow> int \<Rightarrow> 'd stream \<Rightarrow> (int \<times> 'd stream) option" where
  "fputc am c fp =
     (if F_WRITE \<notin> flags fp then Some (EOF, seterr EBADF fp)
      else if F_RECORD \<in> flags fp then Some (c, fp)
      else if F_ERROR \<in> flags fp then Some (EOF, seterr (if F_ENOSPC \<in> flags fp then ENOSPC else EIO) fp)
      else if F_DCBOUT \<notin> flags fp then
        if X_UPDAT \<in> xflags fp then
          map_option (\<lambda>(r, fp). if r < 0 then (EOF, fp) else if r = 0 then (c, fp) else put_buffered am c fp) (fpupc am fp c)
        else map_option (\<lambda>(err, fp). if err \<noteq> 0 then (EOF, fp) else put_buffered am c fp) (fpswt am fp True)
      else Some (put_buffered am c fp))"

subsection \<open>Strings, blocks and indicators\<close>

text \<open>A string is the bytes before its zero.\<close>

fun fputs_loop :: "'d access \<Rightarrow> byte list \<Rightarrow> int \<Rightarrow> 'd stream \<Rightarrow> (int \<times> 'd stream) option" where
  "fputs_loop am [] i fp = Some (i, fp)"
| "fputs_loop am (c # s) i fp =
     Option.bind (fputc am (uint c) fp) (\<lambda>(r, fp). if r = EOF then Some (EOF, fp) else fputs_loop am s (i + 1) fp)"

definition fputs :: "'d access \<Rightarrow> byte list \<Rightarrow> 'd stream \<Rightarrow> (int \<times> 'd stream) option" where
  "fputs am s fp = (if F_RECORD \<in> flags fp then Some (EOF, fp) else fputs_loop am s 0 fp)"

text \<open>The characters \<^verbatim>\<open>__fgets()\<close> stores and the last value of \<^verbatim>\<open>c\<close>.\<close>

fun fgets_loop :: "'d access \<Rightarrow> nat \<Rightarrow> 'd stream \<Rightarrow> (byte list \<times> int \<times> 'd stream) option" where
  "fgets_loop am 0 fp = Some ([], 0, fp)"
| "fgets_loop am (Suc n) fp =
     Option.bind (fgetc am fp) (\<lambda>(c, fp).
       if c = EOF then Some ([], c, fp)
       else if c = uint NL then Some ([NL], c, fp)
       else if n = 0 then Some ([word_of_int c], c, fp)
       else map_option (\<lambda>(s, c', fp). (word_of_int c # s, c', fp)) (fgets_loop am n fp))"

text \<open>The result is the string stored at \<^verbatim>\<open>s\<close>, before its zero, or the null pointer.\<close>

definition fgets :: "'d access \<Rightarrow> int \<Rightarrow> 'd stream \<Rightarrow> (byte list option \<times> 'd stream) option" where
  "fgets am n fp =
     (if F_EOF \<in> flags fp \<or> F_RECORD \<in> flags fp \<or> n < 1 then Some (None, fp)
      else map_option (\<lambda>(s, c, fp). (if s = [] \<and> c = EOF then None else Some s, fp)) (fgets_loop am (nat (n - 1)) fp))"

text \<open>Elements of \<^verbatim>\<open>esize\<close> bytes: how many went through, and, reading, the bytes stored.\<close>

fun fwrite_loop :: "'d access \<Rightarrow> nat \<Rightarrow> byte list \<Rightarrow> nat \<Rightarrow> nat \<Rightarrow> 'd stream \<Rightarrow> (nat \<times> 'd stream) option" where
  "fwrite_loop am esize [] i j fp = Some (i, fp)"
| "fwrite_loop am esize (c # data) i j fp =
     Option.bind (fputc am (uint c) fp) (\<lambda>(r, fp).
       if r = EOF then Some (i, fp)
       else if j + 1 = esize then fwrite_loop am esize data (i + 1) 0 fp
       else fwrite_loop am esize data i (j + 1) fp)"

definition fwrite_record :: "'d access \<Rightarrow> byte list \<Rightarrow> nat \<Rightarrow> nat \<Rightarrow> 'd stream \<Rightarrow> nat \<times> 'd stream" where
  "fwrite_record am ptr esize nmemb fp =
     (let limit = (if rtype fp = RECFM_V \<and> recfm fp AND RECFM_S \<noteq> 0 then lrecl fp - 4 else lrecl fp);
          n = esize * nmemb
      in if esize = 0 \<or> nmemb = 0 then (0, fp)
         else if nmemb > limit div esize then (0, seterr EINVAL fp)
         else if rtype fp = RECFM_V \<and>
           (n < 4 \<or> uint (ptr ! 0) * 256 + uint (ptr ! 1) \<noteq> int n \<or> ptr ! 2 \<noteq> 0 \<or> ptr ! 3 \<noteq> 0) then (0, seterr EINVAL fp)
         else
           let (err, fp) = put_record am (take n ptr) fp
           in if err \<noteq> 0 then (0, write_failed err fp) else (1, fp\<lparr>filepos := filepos fp + 1\<rparr>))"

definition fwrite :: "'d access \<Rightarrow> byte list \<Rightarrow> nat \<Rightarrow> nat \<Rightarrow> 'd stream \<Rightarrow> (nat \<times> 'd stream) option" where
  "fwrite am ptr esize nmemb fp =
     (if F_WRITE \<notin> flags fp then Some (0, seterr EBADF fp)
      else if F_ERROR \<in> flags fp then Some (0, seterr (if F_ENOSPC \<in> flags fp then ENOSPC else EIO) fp)
      else if F_RECORD \<in> flags fp then Some (fwrite_record am ptr esize nmemb fp)
      else if esize = 0 then Some (0, fp)
      else fwrite_loop am esize (take (esize * nmemb) ptr) 0 0 fp)"

fun fread_loop :: "'d access \<Rightarrow> nat \<Rightarrow> nat \<Rightarrow> nat \<Rightarrow> nat \<Rightarrow> 'd stream \<Rightarrow> (nat \<times> byte list \<times> 'd stream) option" where
  "fread_loop am esize 0 i j fp = Some (i, [], fp)"
| "fread_loop am esize (Suc left) i j fp =
     Option.bind (fgetc am fp) (\<lambda>(c, fp).
       if c = EOF then Some (i, [], fp)
       else map_option (\<lambda>(i, data, fp). (i, word_of_int c # data, fp))
              (if j + 1 = esize then fread_loop am esize left (i + 1) 0 fp else fread_loop am esize left i (j + 1) fp))"

definition fread_record :: "'d access \<Rightarrow> nat \<Rightarrow> nat \<Rightarrow> 'd stream \<Rightarrow> nat \<times> byte list \<times> 'd stream" where
  "fread_record am esize nmemb fp =
     (let (rc, r, d) = aread am (dcb fp); fp = fp\<lparr>dcb := d\<rparr>
      in if rc \<noteq> 0 then (0, [], if rc > 0 then seterr EIO (setflag F_ERROR fp) else setflag F_EOF fp)
         else
           let data = take (esize * nmemb mod 2 ^ 32) r
           in (if esize = 0 then 0 else length data div esize, data, fp\<lparr>filepos := filepos fp + 1\<rparr>))"

definition fread :: "'d access \<Rightarrow> nat \<Rightarrow> nat \<Rightarrow> 'd stream \<Rightarrow> (nat \<times> byte list \<times> 'd stream) option" where
  "fread am esize nmemb fp =
     (if F_READ \<notin> flags fp then Some (0, [], seterr EBADF fp)
      else if F_ERROR \<in> flags fp then Some (0, [], seterr EIO fp)
      else if F_EOF \<in> flags fp then Some (0, [], fp)
      else if F_RECORD \<in> flags fp then Some (fread_record am esize nmemb fp)
      else if esize = 0 then Some (nmemb, [], fp)
      else fread_loop am esize (esize * nmemb) 0 0 fp)"

definition ungetc :: "int \<Rightarrow> 'd stream \<Rightarrow> int \<times> 'd stream" where
  "ungetc c fp =
     (if ungetch fp \<noteq> - 1 \<or> c = EOF then (EOF, fp)
      else (c, fp\<lparr>ungetch := c mod 256, flags := flags fp - {F_EOF}\<rparr>))"

definition clearerr :: "'d stream \<Rightarrow> 'd stream" where
  "clearerr fp = fp\<lparr>flags := flags fp - {F_ERROR, F_EOF, F_ENOSPC}\<rparr>"

definition feof :: "'d stream \<Rightarrow> int" where
  "feof fp = (if F_EOF \<in> flags fp then 1 else 0)"

definition ferror :: "'d stream \<Rightarrow> int" where
  "ferror fp = (if F_ERROR \<in> flags fp then 1 else 0)"

declare read_all.simps [code] read_to.simps [code]

section \<open>Data of a data set kept in storage\<close>

text \<open>The records of a data set, of at most ten bytes, and the number of those read.\<close>

definition tape :: "(byte list list \<times> nat) access" where
  "tape = \<lparr>aread = (\<lambda>(rs, k). if k < length rs then (0, take 10 (rs ! k), (rs, k + 1)) else (- 1, [], (rs, k))),
     awrite = (\<lambda>(rs, k) r. (0, (rs @ [r], k))), aclose = (\<lambda>d. (0, d)),
     aopen = (\<lambda>mode recfm lrecl blksize dd mem (rs, k). Opened (if mode = 1 then ([], 0) else (rs, 0))),
     dcbrecfm = (\<lambda>d. RECFM_V), dcblrecl = (\<lambda>d. 10), dcbblksi = (\<lambda>d. 14), dcbdevt = (\<lambda>d. 0x20), rdjfcb = (\<lambda>d. Some ''A.B''),
     tget = (\<lambda>d n. ([], d)), tput = (\<lambda>d s. d), ddbusy = (\<lambda>dd. False), dddum = (\<lambda>dd. False), storage = (\<lambda>n. True)\<rparr>"

text \<open>A stream with variable-length records of up to six characters just opened on it.\<close>

definition tape_stream :: "fflag set \<Rightarrow> byte list list \<Rightarrow> (byte list list \<times> nat) stream" where
  "tape_stream fl rs = \<lparr>dcb = (rs, 0), lrecl = 10, blksize = 14, ungetch = - 1, filepos = 0, buf = replicate 14 0, bpos = 0,
     endbuf = (if F_DCBOUT \<in> fl then 6 else 0), flags = fl, recfm = RECFM_V, ddname = ''DD'', member = '''', dataset = ''A.B'',
     xflags = {}, errno = 0\<rparr>"

lemma length_put_at: "i + length xs \<le> length b \<Longrightarrow> length (put_at b i xs) = length b"
  by (simp add: put_at_def)

end
