(* ===== verification/Fileio_Safe.thy ===== *)
theory Fileio_Safe
  imports Fileio
begin

text \<open>
  The buffer of a stream that only reads or only writes: no sequence of calls stores outside the bytes that were allocated for it,
  and once a write has failed nothing more is written until \<^verbatim>\<open>clearerr()\<close>.
\<close>

section \<open>Streams of one direction\<close>

definition plain :: "'d stream \<Rightarrow> bool" where
  "plain fp \<longleftrightarrow> (F_DCBOUT \<in> flags fp \<longleftrightarrow> F_WRITE \<in> flags fp) \<and> (F_READ \<in> flags fp \<longleftrightarrow> F_WRITE \<notin> flags fp) \<and>
     X_DIRTY \<notin> xflags fp \<and> F_RECORD \<notin> flags fp"

text \<open>The buffer as \<^verbatim>\<open>__fpopen()\<close> allocates it, and the offsets inside it.\<close>

definition buf_ok :: "'d stream \<Rightarrow> bool" where
  "buf_ok fp \<longleftrightarrow> length (buf fp) = buffer_size fp + 8 \<and> lrecl fp \<le> length (buf fp) \<and> 0 < buffer_size fp \<and>
     (if F_DCBOUT \<in> flags fp then bpos fp \<le> endbuf fp \<and> endbuf fp = buffer_size fp
      else bpos fp \<le> endbuf fp + 1 \<and> endbuf fp < length (buf fp))"

text \<open>The records a data set of the format of the stream can have.\<close>

definition record_ok :: "'d stream \<Rightarrow> byte list \<Rightarrow> bool" where
  "record_ok fp r \<longleftrightarrow>
     (rtype fp = RECFM_V \<longrightarrow> length r \<le> lrecl fp) \<and> (rtype fp = RECFM_U \<longrightarrow> length r \<le> blksize fp)"

definition reads_ok :: "'d access \<Rightarrow> 'd stream \<Rightarrow> bool" where
  "reads_ok am fp \<longleftrightarrow> (\<forall>d r d'. aread am d = (0, r, d') \<longrightarrow> record_ok fp r)"

definition kept :: "'d access \<Rightarrow> 'd stream \<Rightarrow> 'd stream \<Rightarrow> bool" where
  "kept am fp fp' \<longleftrightarrow> plain fp' \<and> buf_ok fp' \<and> reads_ok am fp' \<and> length (buf fp') = length (buf fp)"

lemma trim_nuls_length: "length (trim_nuls xs) \<le> length xs"
  using length_dropWhile_le [of "\<lambda>b. b = 0" "rev xs"] by (simp add: trim_nuls_def)

lemma tso_line_length: "length (tso_line raw len) \<le> len - 1"
proof -
  have "length (tso_line raw len) \<le> length (takeWhile (\<lambda>b. b \<noteq> 0) (take (len - 1) raw))"
    unfolding tso_line_def Let_def length_rev
    by (rule order_trans [OF length_dropWhile_le], unfold length_rev, rule length_dropWhile_le)
  also have "\<dots> \<le> len - 1" by (rule order_trans [OF length_takeWhile_le]) simp
  finally show ?thesis .
qed

text \<open>Changes of the other fields.\<close>

lemma ok_congs:
  assumes "flags fp' \<inter> {F_DCBOUT, F_WRITE, F_READ, F_RECORD} = flags fp \<inter> {F_DCBOUT, F_WRITE, F_READ, F_RECORD}"
    "xflags fp' = xflags fp" "recfm fp' = recfm fp" "lrecl fp' = lrecl fp" "blksize fp' = blksize fp"
  shows "plain fp' = plain fp" "reads_ok am fp' = reads_ok am fp" "buffer_size fp' = buffer_size fp"
    "(F_DCBOUT \<in> flags fp') = (F_DCBOUT \<in> flags fp)"
proof -
  have "f \<in> flags fp' \<longleftrightarrow> f \<in> flags fp" if "f \<in> {F_DCBOUT, F_WRITE, F_READ, F_RECORD}" for f
    using assms(1) that by blast
  then show "plain fp' = plain fp" "reads_ok am fp' = reads_ok am fp" "buffer_size fp' = buffer_size fp"
    "(F_DCBOUT \<in> flags fp') = (F_DCBOUT \<in> flags fp)"
    using assms by (simp_all add: plain_def reads_ok_def record_ok_def rtype_def buffer_size_def)
qed

text \<open>A step that leaves the fields of the format and the direction alone keeps the stream when it keeps the buffer.\<close>

lemma keptI:
  assumes "plain fp" "reads_ok am fp" "buf_ok fp"
    and "flags fp' \<inter> {F_DCBOUT, F_WRITE, F_READ, F_RECORD} = flags fp \<inter> {F_DCBOUT, F_WRITE, F_READ, F_RECORD}"
      "xflags fp' = xflags fp" "recfm fp' = recfm fp" "lrecl fp' = lrecl fp" "blksize fp' = blksize fp"
    and "length (buf fp') = length (buf fp)"
      "if F_DCBOUT \<in> flags fp then bpos fp' \<le> endbuf fp' \<and> endbuf fp' = endbuf fp
       else bpos fp' \<le> endbuf fp' + 1 \<and> endbuf fp' < length (buf fp')"
  shows "kept am fp fp'"
  using assms ok_congs [OF assms(4-8)] by (auto simp: kept_def buf_ok_def)

lemma put_record_fields: "snd (put_record am r fp) = fp\<lparr>dcb := snd (awrite am (dcb fp) r)\<rparr>"
  by (simp add: put_record_def case_prod_beta Let_def)

definition only_io :: "'d stream \<Rightarrow> 'd stream \<Rightarrow> bool" where
  "only_io fp fp' \<longleftrightarrow>
     flags fp' \<inter> {F_DCBOUT, F_WRITE, F_READ, F_RECORD} = flags fp \<inter> {F_DCBOUT, F_WRITE, F_READ, F_RECORD} \<and>
     xflags fp' = xflags fp \<and> recfm fp' = recfm fp \<and> lrecl fp' = lrecl fp \<and> blksize fp' = blksize fp \<and> buf fp' = buf fp \<and>
     endbuf fp' = endbuf fp"

lemma kept_only_io:
  assumes "plain fp" "reads_ok am fp" "buf_ok fp" "only_io fp fp'" "bpos fp' \<le> bpos fp"
  shows "kept am fp fp'"
  using assms by (intro keptI) (auto simp: only_io_def buf_ok_def)

lemma only_io_fields [simp]:
  "only_io fp (fp\<lparr>dcb := d\<rparr>)" "only_io fp (fp\<lparr>filepos := n\<rparr>)" "only_io fp (fp\<lparr>bpos := k\<rparr>)" "only_io fp (fp\<lparr>ungetch := c\<rparr>)"
  "only_io fp fp" "only_io fp (seterr e fp)" "only_io fp (setflag F_ERROR fp)" "only_io fp (setflag F_ENOSPC fp)"
  "only_io fp (setflag F_EOF fp)"
  by (simp_all add: only_io_def seterr_def setflag_def)

lemma bpos_simps [simp]: "bpos (seterr e fp) = bpos fp" "bpos (setflag f fp) = bpos fp"
  by (simp_all add: seterr_def setflag_def)

lemma only_io_trans: "only_io fp fp' \<Longrightarrow> only_io fp' fp'' \<Longrightarrow> only_io fp fp''"
  by (simp add: only_io_def)

lemma only_io_write_failed: "only_io fp (write_failed err fp) \<and> bpos (write_failed err fp) = bpos fp"
  by (simp add: write_failed_def Let_def only_io_def seterr_def setflag_def)

lemma flush_dcb: "\<exists>d. snd (fixflush am fill fp) = fp\<lparr>dcb := d\<rparr>" "\<exists>d. snd (varflush am fp) = fp\<lparr>dcb := d\<rparr>"
  by (auto simp: fixflush_def varflush_def put_record_fields Let_def)

lemma only_io_write_pending: "only_io fp (snd (write_pending am newline fp)) \<and> bpos (snd (write_pending am newline fp)) = bpos fp"
proof -
  obtain err d where "(if rtype fp = RECFM_F \<or> rtype fp = RECFM_U then fixflush am (if F_BINARY \<in> flags fp then 0 else BLANK) fp
             else if rtype fp = RECFM_V then varflush am fp else (0, fp)) = (err, fp\<lparr>dcb := d\<rparr>)"
    using flush_dcb [where am = am and fp = fp] by (metis (no_types, lifting) prod.collapse stream.surjective stream.update_convs(1))
  then show ?thesis
    using only_io_write_failed [of "fp\<lparr>dcb := d\<rparr>" err] only_io_trans [of fp "fp\<lparr>dcb := d\<rparr>"]
    by (simp add: write_pending_def Let_def only_io_def)
qed

lemma only_io_reset: "only_io fp (snd r) \<Longrightarrow> only_io fp (snd (reset_buffer r))" "bpos (snd (reset_buffer r)) = 0"
  by (simp_all add: reset_buffer_def only_io_def)

lemma only_io_flush: "only_io fp (snd (flushrec am fp newline)) \<and> bpos (snd (flushrec am fp newline)) \<le> bpos fp" if "X_DIRTY \<notin> xflags fp"
proof -
  have "only_io fp (snd (fail_fast fp))" by (simp add: fail_fast_def)
  then show ?thesis using that only_io_write_pending [of fp am newline]
    by (simp add: flushrec_def only_io_reset)
qed

lemma kept_flush:
  assumes "plain fp" "reads_ok am fp" "buf_ok fp" "flushrec am fp newline = (err, fp')"
  shows "kept am fp fp'"
  using kept_only_io [OF assms(1-3)] only_io_flush [of fp am newline] assms(1,4) by (simp add: plain_def)
section \<open>Reading\<close>

lemma kept_fill:
  assumes "plain fp" "reads_ok am fp" "buf_ok fp" "F_DCBOUT \<notin> flags fp" "length data + 2 \<le> length (buf fp)"
    "next_char (fill_buffer data fp) = (c, fp')"
  shows "kept am fp fp'"
proof -
  let ?data = "if F_BINARY \<in> flags fp then data else trim_nuls data @ [NL]"
  have len: "length ?data < length (buf fp)" using assms(5) trim_nuls_length [of data] by simp
  then have "length (put_at (buf fp) 0 ?data) = length (buf fp)" by (intro length_put_at) simp
  then show ?thesis using assms(1-4,6) len
    by (intro keptI) (auto simp: next_char_def fill_buffer_def Let_def split: if_splits)
qed

lemma kept_dcb: "plain fp \<Longrightarrow> reads_ok am fp \<Longrightarrow> buf_ok fp \<Longrightarrow> only_io fp fp' \<Longrightarrow> bpos fp' = bpos fp \<Longrightarrow>
    plain fp' \<and> reads_ok am fp' \<and> buf_ok fp' \<and> (F_DCBOUT \<in> flags fp') = (F_DCBOUT \<in> flags fp)"
proof (intro conjI)
  assume a: "plain fp" "reads_ok am fp" "buf_ok fp" "only_io fp fp'" "bpos fp' = bpos fp"
  have "kept am fp fp'" by (rule kept_only_io [OF a(1-4)]) (simp add: a(5))
  then show "plain fp'" "reads_ok am fp'" "buf_ok fp'" by (simp_all only: kept_def)
  show "(F_DCBOUT \<in> flags fp') = (F_DCBOUT \<in> flags fp)"
    using a(4) unfolding only_io_def by (intro ok_congs(4)) simp_all
qed

lemma kept_eq: "kept am fp fp'" if "kept am fp1 fp'" "only_io fp fp1"
  using that by (simp add: kept_def only_io_def)

lemma read_record_only_io: "only_io fp (snd (read_record am fp)) \<and> bpos (snd (read_record am fp)) = bpos fp"
proof -
  obtain rc r d where r: "aread am (dcb fp) = (rc, r, d)" by (metis prod_cases3)
  let ?fp = "fp\<lparr>dcb := d\<rparr>"
  have io: "only_io fp (setflag F_ERROR ?fp)" "only_io fp (setflag F_EOF ?fp)"
    by (rule only_io_trans [OF only_io_fields(1) only_io_fields(7)], rule only_io_trans [OF only_io_fields(1) only_io_fields(9)])
  have "only_io fp (seterr EIO (setflag F_ERROR ?fp))"
    by (rule only_io_trans [OF io(1) only_io_fields(6)])
  moreover have "snd (read_record am fp) \<in> {seterr EIO (setflag F_ERROR ?fp), setflag F_EOF ?fp, ?fp}"
    using r by (simp add: read_record_def Let_def)
  ultimately show ?thesis using io by auto
qed

lemma read_record_length:
  assumes "reads_ok am fp" "buf_ok fp" "read_record am fp = (Some data, fp')"
  shows "length data + 2 \<le> length (buf fp)"
proof -
  obtain rc r d where r: "aread am (dcb fp) = (rc, r, d)" by (metis prod_cases3)
  then have rc: "rc = 0" using assms(3) by (auto simp: read_record_def Let_def split: if_splits)
  then have "record_ok fp r" using assms(1) r by (auto simp: reads_ok_def)
  then show ?thesis using assms(2,3) r rc
    by (auto simp: read_record_def buf_ok_def buffer_size_def record_ok_def rtype_def Let_def split: if_splits)
qed

lemma kept_get_more:
  assumes "plain fp" "reads_ok am fp" "buf_ok fp" "F_DCBOUT \<notin> flags fp" "get_more am fp = (c, fp')"
  shows "kept am fp fp'"
proof (cases "on_terminal am fp")
  case True
  obtain raw d where t: "tget am (dcb fp) (lrecl fp - 1) = (raw, d)" by force
  let ?fp = "fp\<lparr>dcb := d\<rparr>" and ?line = "tso_line raw (lrecl fp - 1)"
  have ok: "plain ?fp" "reads_ok am ?fp" "buf_ok ?fp" "F_DCBOUT \<notin> flags ?fp"
    using kept_dcb [OF assms(1-3), of ?fp] assms(4) by simp_all
  have "length ?line + 2 \<le> length (buf ?fp)"
    using tso_line_length [of raw "lrecl fp - 1"] assms(3) by (auto simp: buf_ok_def)
  then have "kept am ?fp (snd (next_char (fill_buffer ?line ?fp)))" using kept_fill [OF ok] by (metis prod.collapse)
  moreover have "kept am fp ?fp" using kept_only_io [OF assms(1-3)] by simp
  ultimately show ?thesis using assms(5) True t kept_eq [of am ?fp _ fp]
    by (auto simp: get_more_def Let_def split: if_splits)
next
  case False
  have "X_DIRTY \<notin> xflags fp" using assms(1) by (simp add: plain_def)
  then have get: "(case read_record am fp of (None, fp) \<Rightarrow> (EOF, fp) | (Some data, fp) \<Rightarrow> next_char (fill_buffer data fp)) = (c, fp')"
    using assms(5) False by (simp add: get_more_def)
  obtain o' fp1 where r: "read_record am fp = (o', fp1)" by force
  have io: "only_io fp fp1" "bpos fp1 = bpos fp" using read_record_only_io [of fp am] r by simp_all
  show ?thesis
  proof (cases o')
    case None
    then show ?thesis using get r kept_only_io [OF assms(1-3) io(1)] io(2) by simp
  next
    case (Some data)
    have "length data + 2 \<le> length (buf fp1)"
      using read_record_length [OF assms(2,3)] r Some io(1) by (simp add: only_io_def)
    moreover have "next_char (fill_buffer data fp1) = (c, fp')" using get r Some by simp
    ultimately show ?thesis
      using kept_fill [of fp1 am data c fp'] kept_dcb [OF assms(1-3) io] assms(4) kept_eq [OF _ io(1)] by simp
  qed
qed

lemma kept_get_turned:
  assumes "plain fp" "reads_ok am fp" "buf_ok fp" "F_DCBOUT \<notin> flags fp" "get_turned am fp = (c, fp')"
  shows "kept am fp fp'"
proof -
  have same: "kept am fp fp1" if "only_io fp fp1" "bpos fp1 = bpos fp" for fp1
    using kept_only_io [OF assms(1-3) that(1)] that(2) by simp
  have next_kept: "kept am fp (snd (next_char fp))" if "bpos fp < endbuf fp"
    using assms(1-4) that by (intro keptI) (auto simp: next_char_def buf_ok_def)
  have "kept am fp (snd (get_buffered am fp))"
    using next_kept kept_get_more [OF assms(1-4)] by (simp add: get_buffered_def) (metis prod.collapse)
  then show ?thesis using assms(5) same [of fp] same [of "fp\<lparr>ungetch := - 1\<rparr>"]
    by (auto simp: get_turned_def split: if_splits)
qed

lemma kept_fgetc:
  assumes "plain fp" "reads_ok am fp" "buf_ok fp" "fgetc am fp = Some (c, fp')"
  shows "kept am fp fp'"
proof -
  have same: "kept am fp fp1" if "only_io fp fp1" "bpos fp1 = bpos fp" for fp1
    using kept_only_io [OF assms(1-3) that(1)] that(2) by simp
  show ?thesis
    using assms same [of "seterr EBADF fp"] same [of "seterr EIO fp"] kept_get_turned [OF assms(1-3)]
    by (auto simp: fgetc_def plain_def split: if_splits)
qed

section \<open>Writing\<close>

lemma kept_put_buffered:
  assumes "plain fp" "reads_ok am fp" "buf_ok fp" "F_DCBOUT \<in> flags fp" "F_ERROR \<notin> flags fp" "put_buffered am c fp = (r, fp')"
  shows "kept am fp fp'"
proof (cases "F_BINARY \<notin> flags fp \<and> c = uint NL")
  case True
  let ?fp = "fp\<lparr>filepos := filepos fp + 1\<rparr>"
  have "plain ?fp" "reads_ok am ?fp" "buf_ok ?fp" using kept_dcb [OF assms(1-3), of ?fp] by simp_all
  moreover obtain err where "fflnl am ?fp = (err, fp')" using assms(6) True by (auto simp: put_buffered_def Let_def split: prod.splits)
  ultimately have "kept am ?fp fp'" by (intro kept_flush) (simp_all add: fflnl_def)
  then show ?thesis using kept_eq [of am ?fp fp' fp] by simp
next
  case False
  obtain err fp1 where f: "(if bpos fp = endbuf fp then fflush am fp else (0, fp)) = (err, fp1)" by force
  have k: "kept am fp fp1"
  proof (cases "bpos fp = endbuf fp")
    case True
    then show ?thesis using f kept_flush [OF assms(1-3)] by (simp add: fflush_def)
  next
    case False
    then show ?thesis using f assms(1-3) by (simp add: kept_def)
  qed
  have io: "only_io fp fp1" "bpos fp1 < endbuf fp1"
  proof -
    show "only_io fp fp1"
      using f only_io_flush [of fp am False] assms(1) by (auto simp: plain_def fflush_def split: if_splits)
    have end1: "endbuf fp1 = buffer_size fp" "0 < buffer_size fp"
      using \<open>only_io fp fp1\<close> assms(3,4) by (auto simp: only_io_def buf_ok_def)
    have "flushrec am fp False = (err, fp1) \<Longrightarrow> 0 < bpos fp \<Longrightarrow> bpos fp1 = 0"
      using assms(1,4) by (auto simp: flushrec_def plain_def reset_buffer_def split: if_splits)
    then show "bpos fp1 < endbuf fp1"
      using f end1 assms(3,4) by (auto simp: fflush_def buf_ok_def split: if_splits)
  qed
  have fp': "fp' = fp1 \<or> fp' = fp1\<lparr>buf := put_at (buf fp1) (bpos fp1) [word_of_int c], bpos := bpos fp1 + 1, filepos := filepos fp1 + 1\<rparr>"
    using assms(6) False f by (auto simp: put_buffered_def split: if_splits)
  have d: "F_DCBOUT \<in> flags fp1" using io(1) assms(4) by (auto simp: only_io_def)
  have "bpos fp1 < length (buf fp1)" using k d io(2) by (auto simp: kept_def buf_ok_def)
  then have "kept am fp1 (fp1\<lparr>buf := put_at (buf fp1) (bpos fp1) [word_of_int c], bpos := bpos fp1 + 1, filepos := filepos fp1 + 1\<rparr>)"
    using k d io(2) by (intro keptI) (auto simp: kept_def length_put_at)
  then show ?thesis using fp' k kept_eq [OF _ io(1)] by auto
qed

lemma kept_fputc:
  assumes "plain fp" "reads_ok am fp" "buf_ok fp" "fputc am c fp = Some (r, fp')"
  shows "kept am fp fp'"
proof -
  have same: "kept am fp (seterr e fp)" for e using kept_only_io [OF assms(1-3)] by simp
  consider "F_WRITE \<notin> flags fp \<or> F_ERROR \<in> flags fp" | "F_DCBOUT \<in> flags fp" "F_ERROR \<notin> flags fp" "F_WRITE \<in> flags fp"
    using assms(1) by (auto simp: plain_def)
  then show ?thesis
  proof cases
    case 1
    then have "\<exists>e. fp' = seterr e fp" using assms(1,4) by (auto simp: fputc_def plain_def split: if_splits)
    then show ?thesis using same by auto
  next
    case 2
    then have "put_buffered am c fp = (r, fp')" using assms(1,4) by (auto simp: fputc_def plain_def)
    then show ?thesis using kept_put_buffered [OF assms(1-3) 2(1,2)] by simp
  qed
qed

section \<open>Sequences of calls\<close>

text \<open>The calls of a program on one stream, with whatever arguments.\<close>

inductive write_call :: "'d access \<Rightarrow> 'd stream \<Rightarrow> 'd stream \<Rightarrow> bool" for am where
  call_fputc: "fputc am c fp = Some (r, fp') \<Longrightarrow> write_call am fp fp'"
| call_fputs: "fputs am s fp = Some (r, fp') \<Longrightarrow> write_call am fp fp'"
| call_fwrite: "fwrite am ptr n k fp = Some (i, fp') \<Longrightarrow> write_call am fp fp'"
| call_fflush: "fflush am fp = (r, fp') \<Longrightarrow> write_call am fp fp'"

inductive stdio_call :: "'d access \<Rightarrow> 'd stream \<Rightarrow> 'd stream \<Rightarrow> bool" for am where
  call_write: "write_call am fp fp' \<Longrightarrow> stdio_call am fp fp'"
| call_fgetc: "fgetc am fp = Some (c, fp') \<Longrightarrow> stdio_call am fp fp'"
| call_fgets: "fgets am n fp = Some (s, fp') \<Longrightarrow> stdio_call am fp fp'"
| call_fread: "fread am n k fp = Some (i, data, fp') \<Longrightarrow> stdio_call am fp fp'"
| call_ungetc: "ungetc c fp = (r, fp') \<Longrightarrow> stdio_call am fp fp'"
| call_clearerr: "fp' = clearerr fp \<Longrightarrow> stdio_call am fp fp'"

lemma kept_refl: "plain fp \<Longrightarrow> reads_ok am fp \<Longrightarrow> buf_ok fp \<Longrightarrow> kept am fp fp"
  by (simp add: kept_def)

lemma kept_trans: "kept am fp fp1 \<Longrightarrow> kept am fp1 fp2 \<Longrightarrow> kept am fp fp2"
  by (simp add: kept_def)

lemma keptD: "kept am fp fp' \<Longrightarrow> plain fp'" "kept am fp fp' \<Longrightarrow> reads_ok am fp'" "kept am fp fp' \<Longrightarrow> buf_ok fp'"
  by (simp_all add: kept_def)

lemma kept_fputs:
  "plain fp \<Longrightarrow> reads_ok am fp \<Longrightarrow> buf_ok fp \<Longrightarrow> fputs_loop am s i fp = Some (r, fp') \<Longrightarrow> kept am fp fp'"
proof (induction s arbitrary: i fp)
  case (Cons c s)
  obtain r1 fp1 where f: "fputc am (uint c) fp = Some (r1, fp1)" using Cons.prems(4) by (cases "fputc am (uint c) fp") auto
  have "kept am fp fp1" using kept_fputc [OF Cons.prems(1-3) f] .
  then show ?case using Cons.prems(4) f Cons.IH [of fp1 "i + 1"] kept_trans [of am fp fp1 fp'] keptD [of am fp fp1]
    by (simp split: if_splits)
qed (simp add: kept_refl)

lemma kept_fwrite:
  "plain fp \<Longrightarrow> reads_ok am fp \<Longrightarrow> buf_ok fp \<Longrightarrow> fwrite_loop am n data i j fp = Some (k, fp') \<Longrightarrow> kept am fp fp'"
proof (induction data arbitrary: i j fp)
  case (Cons c data)
  obtain r1 fp1 where f: "fputc am (uint c) fp = Some (r1, fp1)" using Cons.prems(4) by (cases "fputc am (uint c) fp") auto
  have "kept am fp fp1" using kept_fputc [OF Cons.prems(1-3) f] .
  then show ?case using Cons.prems(4) f Cons.IH [of fp1 "i + 1" 0] Cons.IH [of fp1 i "j + 1"]
      kept_trans [of am fp fp1 fp'] keptD [of am fp fp1]
    by (simp split: if_splits)
qed (simp add: kept_refl)

lemma kept_fgets:
  "plain fp \<Longrightarrow> reads_ok am fp \<Longrightarrow> buf_ok fp \<Longrightarrow> fgets_loop am n fp = Some (s, c, fp') \<Longrightarrow> kept am fp fp'"
proof (induction n arbitrary: fp s)
  case (Suc n)
  obtain c1 fp1 where f: "fgetc am fp = Some (c1, fp1)" using Suc.prems(4) by (cases "fgetc am fp") auto
  have "kept am fp fp1" using kept_fgetc [OF Suc.prems(1-3) f] .
  then show ?case using Suc.prems(4) f Suc.IH [of fp1] kept_trans [of am fp fp1 fp'] keptD [of am fp fp1]
    by (auto split: if_splits)
qed (simp add: kept_refl)

lemma kept_fread:
  "plain fp \<Longrightarrow> reads_ok am fp \<Longrightarrow> buf_ok fp \<Longrightarrow> fread_loop am n left i j fp = Some (k, data, fp') \<Longrightarrow> kept am fp fp'"
proof (induction left arbitrary: i j fp data)
  case (Suc left)
  obtain c1 fp1 where f: "fgetc am fp = Some (c1, fp1)" using Suc.prems(4) by (cases "fgetc am fp") auto
  have "kept am fp fp1" using kept_fgetc [OF Suc.prems(1-3) f] .
  then show ?case using Suc.prems(4) f Suc.IH [of fp1] kept_trans [of am fp fp1 fp'] keptD [of am fp fp1]
    by (auto split: if_splits)
qed (simp add: kept_refl)

lemma kept_write_call:
  assumes "write_call am fp fp'" "plain fp" "reads_ok am fp" "buf_ok fp"
  shows "kept am fp fp'"
  using assms(1)
proof cases
  case (call_fputc c r)
  then show ?thesis using kept_fputc [OF assms(2-4)] by simp
next
  case (call_fputs s r)
  then show ?thesis using kept_fputs [OF assms(2-4)] assms(2) by (simp add: fputs_def plain_def)
next
  case (call_fwrite ptr n k i)
  have "kept am fp (seterr e fp)" for e using kept_only_io [OF assms(2-4)] by simp
  then show ?thesis using call_fwrite kept_fwrite [OF assms(2-4)] assms(2) kept_refl [OF assms(2-4)]
    by (auto simp: fwrite_def plain_def split: if_splits)
next
  case (call_fflush r)
  then show ?thesis using kept_flush [OF assms(2-4)] by (simp add: fflush_def)
qed

lemma kept_stdio_call:
  assumes "stdio_call am fp fp'" "plain fp" "reads_ok am fp" "buf_ok fp"
  shows "kept am fp fp'"
  using assms(1)
proof cases
  case call_write
  then show ?thesis using kept_write_call assms(2-4) by blast
next
  case (call_fgetc c)
  then show ?thesis using kept_fgetc [OF assms(2-4)] by simp
next
  case (call_fgets n s)
  then show ?thesis using kept_fgets [OF assms(2-4)] kept_refl [OF assms(2-4)]
    by (auto simp: fgets_def split: if_splits)
next
  case (call_fread n k i data)
  have "kept am fp (seterr e fp)" for e using kept_only_io [OF assms(2-4)] by simp
  then show ?thesis using call_fread kept_fread [OF assms(2-4)] assms(2) kept_refl [OF assms(2-4)]
    by (auto simp: fread_def plain_def split: if_splits)
next
  case (call_ungetc c r)
  have "only_io fp (fp\<lparr>ungetch := u, flags := flags fp - {F_EOF}\<rparr>)" for u by (auto simp: only_io_def)
  then have "kept am fp (fp\<lparr>ungetch := u, flags := flags fp - {F_EOF}\<rparr>)" for u using kept_only_io [OF assms(2-4)] by simp
  then show ?thesis using call_ungetc kept_refl [OF assms(2-4)] by (auto simp: ungetc_def split: if_splits)
next
  case call_clearerr
  have "only_io fp (clearerr fp)" by (auto simp: only_io_def clearerr_def)
  then show ?thesis using call_clearerr kept_only_io [OF assms(2-4)] by (simp add: clearerr_def)
qed

lemma kept_calls:
  assumes "(stdio_call am)\<^sup>*\<^sup>* fp fp'" "plain fp" "reads_ok am fp" "buf_ok fp"
  shows "kept am fp fp'"
  using assms(1)
proof (induction rule: rtranclp_induct)
  case base
  then show ?case using kept_refl assms(2-4) by blast
next
  case (step fp1 fp2)
  then show ?case using kept_stdio_call kept_trans keptD by blast
qed

text \<open>Every call on such a stream returns.\<close>

lemma fgetc_returns: "plain fp \<Longrightarrow> fgetc am fp \<noteq> None"
  by (auto simp: fgetc_def plain_def)

lemma fputc_returns: "plain fp \<Longrightarrow> fputc am c fp \<noteq> None"
  by (auto simp: fputc_def plain_def)

section \<open>Properties\<close>

lemma stuck_write_call:
  assumes "write_call am fp fp'" "plain fp" "F_WRITE \<in> flags fp" "F_ERROR \<in> flags fp"
  shows "dcb fp' = dcb fp \<and> flags fp' = flags fp \<and> xflags fp' = xflags fp"
proof -
  have put: "\<exists>e. fputc am c fp = Some (EOF, seterr e fp)" for c using assms(2-4) by (auto simp: fputc_def plain_def)
  from assms(1) show ?thesis
  proof cases
    case (call_fputc c r)
    then show ?thesis using put [of c] by (auto simp: seterr_def)
  next
    case (call_fputs s r)
    show ?thesis
    proof (cases s)
      case (Cons a s')
      obtain e where "fputc am (uint a) fp = Some (EOF, seterr e fp)" using put by blast
      then show ?thesis using call_fputs Cons assms(2) by (auto simp: fputs_def plain_def seterr_def)
    qed (use call_fputs assms(2) in \<open>simp add: fputs_def plain_def\<close>)
  next
    case (call_fwrite ptr n k i)
    then show ?thesis using assms(2-4) by (auto simp: fwrite_def plain_def seterr_def)
  next
    case (call_fflush r)
    then show ?thesis using assms(2-4)
      by (auto simp: fflush_def flushrec_def plain_def fail_fast_def reset_buffer_def seterr_def split: if_splits)
  qed
qed

lemma stuck_write_calls:
  assumes "(write_call am)\<^sup>*\<^sup>* fp fp'" "plain fp" "F_WRITE \<in> flags fp" "F_ERROR \<in> flags fp"
  shows "dcb fp' = dcb fp \<and> flags fp' = flags fp \<and> xflags fp' = xflags fp"
  using assms(1)
proof (induction rule: rtranclp_induct)
  case (step fp1 fp2)
  then have "plain fp1" using assms(2) by (simp add: plain_def)
  then show ?case using stuck_write_call [OF step.hyps(2)] step.IH assms(3,4) by simp
qed simp

lemma first_failure:
  assumes "plain fp" "F_WRITE \<in> flags fp" "F_ERROR \<notin> flags fp" "0 < bpos fp" "\<not> on_terminal am fp"
    "rtype fp \<in> {RECFM_F, RECFM_V, RECFM_U}" "\<forall>r. fst (awrite am (dcb fp) r) = err" "err \<noteq> 0"
  shows "\<exists>fp'. fflush am fp = (err, fp') \<and> F_ERROR \<in> flags fp' \<and> errno fp' = (if err = 12 then ENOSPC else EIO) \<and> bpos fp' = 0"
proof -
  have put: "fst (put_record am r fp) = err" for r using assms(7) by (simp add: put_record_def case_prod_beta Let_def)
  then have rec: "fst (fixflush am fill fp) = err" "fst (varflush am fp) = err" for fill
    by (simp_all add: fixflush_def varflush_def Let_def)
  have "\<exists>fp1. write_pending am False fp = (err, write_failed err fp1)"
    using assms(6,8) rec by (auto simp: write_pending_def Let_def case_prod_beta)
  then obtain fp1 where w: "write_pending am False fp = (err, write_failed err fp1)" by blast
  have "flushrec am fp False = reset_buffer (err, write_failed err fp1)"
    using assms(1-5) w by (auto simp: flushrec_def plain_def)
  then show ?thesis by (simp add: fflush_def reset_buffer_def write_failed_def Let_def setflag_def seterr_def)
qed


lemma tape_reads: "reads_ok tape (tape_stream fl rs)"
  by (simp add: reads_ok_def record_ok_def tape_def tape_stream_def rtype_def RECFM_U_def RECFM_V_def RECFM_TYPE_def)

lemma tape_ok: "F_RECORD \<notin> fl \<Longrightarrow> F_DCBOUT \<in> fl \<longleftrightarrow> F_WRITE \<in> fl \<Longrightarrow> F_READ \<in> fl \<longleftrightarrow> F_WRITE \<notin> fl \<Longrightarrow>
    plain (tape_stream fl rs) \<and> buf_ok (tape_stream fl rs)"
  by (auto simp: plain_def buf_ok_def buffer_size_def tape_stream_def rtype_def RECFM_U_def RECFM_V_def RECFM_F_def RECFM_TYPE_def)




text \<open>
  A record without data puts a byte into a binary stream.  Where the next record of a data set with variable-length records is
  an RDW alone, which a text stream writes for an empty line, \<^verbatim>\<open>__fgetc()\<close> on a binary stream returns whatever the buffer starts
  with and counts it, and the position is past the end of the buffer.
\<close>
theorem binary_empty_record:
  assumes "F_READ \<in> flags fp" "flags fp \<inter> {F_ERROR, F_EOF, F_RECORD, F_DCBOUT} = {}" "F_BINARY \<in> flags fp" "X_DIRTY \<notin> xflags fp"
    "ungetch fp = - 1" "endbuf fp \<le> bpos fp" "rtype fp = RECFM_V" "dcbdevt am (dcb fp) \<noteq> DCBDVTRM"
    "aread am (dcb fp) = (0, [0, 4, 0, 0], d)"
  shows "\<exists>fp'. fgetc am fp = Some (uint (buf fp ! 0), fp') \<and> bpos fp' = 1 \<and> endbuf fp' = 0 \<and> filepos fp' = filepos fp + 1"
proof -
  have "read_record am fp = (Some [], fp\<lparr>dcb := d\<rparr>)"
    using assms(7,9) by (simp add: read_record_def Let_def rdw_length_def RECFM_V_def RECFM_F_def RECFM_U_def rtype_def)
  then have "get_more am fp = next_char (fp\<lparr>dcb := d, buf := buf fp, bpos := 0, endbuf := 0\<rparr>)"
    using assms(3,4,8) by (simp add: get_more_def on_terminal_def fill_buffer_def put_at_def)
  then show ?thesis using assms by (auto simp: fgetc_def get_turned_def get_buffered_def next_char_def)
qed

theorem binary_empty_record_witness:
  "\<exists>fp'. fgetc tape (tape_stream {F_OPEN, F_READ, F_BINARY} [[0, 4, 0, 0]]) = Some (0, fp') \<and> bpos fp' = 1 \<and> endbuf fp' = 0 \<and> filepos fp' = 1"
  using binary_empty_record [of "tape_stream {F_OPEN, F_READ, F_BINARY} [[0, 4, 0, 0]]" tape "([[0, 4, 0, 0]], 1)"]
  by (simp add: tape_stream_def tape_def rtype_def RECFM_TYPE_def RECFM_V_def DCBDVTRM_def)

end
