(* ===== verification/Fileio_Text.thy ===== *)
theory Fileio_Text
  imports Fileio_Safe
begin

text \<open>
  Text streams and the records behind them.  What is written line by line with \<^verbatim>\<open>__fputs()\<close> comes out as one record for each
  line, longer lines continued in the next record; what \<^verbatim>\<open>__fread()\<close> and \<^verbatim>\<open>__fgetc()\<close> deliver is the records with a newline after
  each; and the position counts what a reader of the data set will have read.
\<close>

section \<open>Lines and records\<close>

text \<open>A text cut into lines of at most \<open>cap\<close> characters, after the beginning \<open>cur\<close> of a line: the whole lines and the rest.\<close>

fun split_lines :: "nat \<Rightarrow> byte list \<Rightarrow> byte list \<Rightarrow> byte list list \<times> byte list" where
  "split_lines cap cur [] = ([], cur)"
| "split_lines cap cur (c # s) =
     (if c = NL then (cur # fst (split_lines cap [] s), snd (split_lines cap [] s))
      else if length cur = cap then (cur # fst (split_lines cap [c] s), snd (split_lines cap [c] s))
      else split_lines cap (cur @ [c]) s)"

text \<open>A line as the data of its record, and as the record the access method gets.\<close>

definition line_data :: "'d stream \<Rightarrow> byte list \<Rightarrow> byte list" where
  "line_data fp l =
     (if rtype fp = RECFM_F then l @ replicate (lrecl fp - length l) BLANK
      else if rtype fp = RECFM_U \<and> l = [] then [BLANK] else l)"

definition line_record :: "'d stream \<Rightarrow> byte list \<Rightarrow> byte list" where
  "line_record fp l = (if rtype fp = RECFM_V then rdw (length l + 4) @ l else line_data fp l)"

text \<open>What a reader gets for a line.\<close>

definition line_view :: "'d stream \<Rightarrow> byte list \<Rightarrow> byte list" where
  "line_view fp l = line_data fp l @ [NL]"

definition write_all :: "'d access \<Rightarrow> byte list list \<Rightarrow> 'd \<Rightarrow> 'd" where
  "write_all am rs d = fold (\<lambda>r d. snd (awrite am d r)) rs d"

lemma write_all_Nil [simp]: "write_all am [] d = d"
  by (simp add: write_all_def)

lemma write_all_snoc [simp]: "write_all am (rs @ [r]) d = snd (awrite am (write_all am rs d) r)"
  by (simp add: write_all_def)

lemma write_all_Cons [simp]: "write_all am (r # rs) d = write_all am rs (snd (awrite am d r))"
  by (simp add: write_all_def)

section \<open>Writing\<close>

text \<open>A text stream whose DCB writes, in good order.\<close>

definition text_out :: "'d stream \<Rightarrow> bool" where
  "text_out fp \<longleftrightarrow> F_WRITE \<in> flags fp \<and> F_RECORD \<notin> flags fp \<and> F_ERROR \<notin> flags fp \<and> F_DCBOUT \<in> flags fp \<and>
     F_BINARY \<notin> flags fp \<and> X_DIRTY \<notin> xflags fp \<and> rtype fp \<in> {RECFM_F, RECFM_V, RECFM_U} \<and>
     bpos fp \<le> endbuf fp \<and> endbuf fp = buffer_size fp \<and> 0 < endbuf fp \<and> length (buf fp) = endbuf fp + 8"

text \<open>A data set on a device that is no terminal and takes every record.\<close>

definition takes_all :: "'d access \<Rightarrow> bool" where
  "takes_all am \<longleftrightarrow> (\<forall>d. dcbdevt am d \<noteq> DCBDVTRM) \<and> (\<forall>d r. fst (awrite am d r) = 0)"

text \<open>\<open>fp'\<close> is \<open>fp\<close> after the lines \<open>ls\<close>, with the beginning \<open>cur\<close> of another in the buffer.\<close>

definition same_kind :: "'d stream \<Rightarrow> 'd stream \<Rightarrow> bool" where
  "same_kind fp fp' \<longleftrightarrow> flags fp' = flags fp \<and> recfm fp' = recfm fp \<and> lrecl fp' = lrecl fp \<and> blksize fp' = blksize fp"

definition written :: "'d access \<Rightarrow> 'd stream \<Rightarrow> byte list list \<Rightarrow> byte list \<Rightarrow> 'd stream \<Rightarrow> bool" where
  "written am fp ls cur fp' \<longleftrightarrow> text_out fp' \<and> same_kind fp fp' \<and>
     dcb fp' = write_all am (map (line_record fp) ls) (dcb fp) \<and> pending fp' = cur \<and>
     filepos fp' + word_of_nat (length (pending fp)) =
       filepos fp + word_of_nat (length (concat (map (line_view fp) ls)) + length cur)"

lemma recfm_distinct [simp]: "RECFM_F \<noteq> RECFM_V" "RECFM_V \<noteq> RECFM_F" "RECFM_F \<noteq> RECFM_U" "RECFM_U \<noteq> RECFM_F"
  "RECFM_V \<noteq> RECFM_U" "RECFM_U \<noteq> RECFM_V"
  by (simp_all add: RECFM_F_def RECFM_V_def RECFM_U_def)

lemma same_kind_attrs:
  assumes "same_kind fp fp'"
  shows "rtype fp' = rtype fp" "lrecl fp' = lrecl fp" "blksize fp' = blksize fp" "buffer_size fp' = buffer_size fp"
    "line_data fp' = line_data fp" "line_record fp' = line_record fp" "line_view fp' = line_view fp"
  using assms by (auto simp: same_kind_def rtype_def buffer_size_def line_data_def line_record_def line_view_def fun_eq_iff)

lemma text_out_length: "text_out fp \<Longrightarrow> length (pending fp) = bpos fp"
  by (simp add: text_out_def pending_def)

text \<open>The line goes out with its blanks, and its newline is counted.\<close>

lemma line_data_length: "length (line_data fp (pending fp)) + (if newline then 0 else 1) = length (pending fp) + record_pad fp newline"
  if "text_out fp"
proof -
  have "bpos fp \<le> lrecl fp" if "rtype fp = RECFM_F" using \<open>text_out fp\<close> that by (auto simp: text_out_def buffer_size_def)
  then show ?thesis using that text_out_length [OF that]
    by (cases "bpos fp = 0") (auto simp: line_data_def record_pad_def)
qed

lemma write_pending_text:
  assumes "text_out fp" "takes_all am"
  shows "write_pending am newline fp =
    (0, fp\<lparr>dcb := snd (awrite am (dcb fp) (line_record fp (pending fp))),
           filepos := filepos fp + word_of_nat (record_pad fp newline)\<rparr>)"
proof -
  have put: "put_record am r fp = (0, fp\<lparr>dcb := snd (awrite am (dcb fp) r)\<rparr>)" for r
    using assms(2) by (simp add: put_record_def takes_all_def case_prod_beta Let_def)
  show ?thesis using assms(1)
    by (auto simp: write_pending_def fixflush_def varflush_def line_record_def line_data_def Let_def text_out_def put)
qed

lemma flushrec_text:
  assumes "text_out fp" "takes_all am"
  shows "flushrec am fp newline =
    (if pending fp = [] \<and> \<not> newline then (0, fp)
     else (0, fp\<lparr>dcb := snd (awrite am (dcb fp) (line_record fp (pending fp))),
                 filepos := filepos fp + word_of_nat (record_pad fp newline), bpos := 0\<rparr>))"
proof -
  have "pending fp = [] \<longleftrightarrow> bpos fp = 0" using text_out_length [OF assms(1)] by auto
  moreover have "\<not> on_terminal am fp" using assms(2) by (simp add: on_terminal_def takes_all_def)
  ultimately show ?thesis using assms write_pending_text [OF assms]
    by (auto simp: flushrec_def text_out_def reset_buffer_def)
qed

text \<open>After a flush one more line is out, and its newline counts.\<close>

lemma line_view_length: "length (line_view fp (pending fp)) = length (pending fp) + record_pad fp newline + (if newline then 1 else 0)"
  if "text_out fp"
  using line_data_length [OF that, of newline] by (simp add: line_view_def split: if_splits)
section \<open>A text written\<close>

lemma written_refl: "text_out fp \<Longrightarrow> written am fp [] (pending fp) fp"
  by (simp add: written_def same_kind_def)

text \<open>Another line is out.\<close>

lemma written_line:
  assumes "written am fp ls cur fp'" "takes_all am" "cur = [] \<longrightarrow> newline"
  shows "\<exists>fp''. flushrec am (if newline then fp'\<lparr>filepos := filepos fp' + 1\<rparr> else fp') newline = (0, fp'') \<and>
    bpos fp'' = 0 \<and> written am fp (ls @ [cur]) [] fp''"
proof -
  let ?fp = "if newline then fp'\<lparr>filepos := filepos fp' + 1\<rparr> else fp'"
  let ?fp' = "fp'\<lparr>dcb := snd (awrite am (dcb fp') (line_record fp' (pending fp'))),
    filepos := filepos ?fp + word_of_nat (record_pad fp' newline), bpos := 0\<rparr>"
  have out: "text_out fp'" and cur: "pending fp' = cur" and kind: "same_kind fp fp'" using assms(1) by (simp_all add: written_def)
  note attrs = same_kind_attrs [OF kind]
  have same: "pending ?fp = pending fp'" "text_out ?fp" "line_record ?fp = line_record fp'" "record_pad ?fp = record_pad fp'" "dcb ?fp = dcb fp'"
    using out by (auto simp: pending_def text_out_def line_record_def line_data_def rtype_def record_pad_def buffer_size_def fun_eq_iff)
  have flush: "flushrec am ?fp newline = (0, ?fp')"
    using flushrec_text [OF same(2) assms(2), of newline] assms(3) cur same by (cases newline) simp_all
  have "word_of_nat (length (line_view fp cur)) = word_of_nat (length cur) + (word_of_nat (record_pad fp' newline) + (if newline then 1 else 0) :: u32)"
    using line_view_length [OF out, of newline] cur attrs by simp
  moreover have "text_out ?fp'" "pending ?fp' = []" "same_kind fp ?fp'"
    using out kind by (simp_all add: text_out_def pending_def rtype_def buffer_size_def same_kind_def)
  moreover have "filepos fp' + word_of_nat (length (pending fp)) =
      filepos fp + (word_of_nat (length (concat (map (line_view fp) ls))) + word_of_nat (length cur))"
    using assms(1) by (simp add: written_def)
  ultimately have "written am fp (ls @ [cur]) [] ?fp'"
    using assms(1) cur attrs by (simp add: written_def algebra_simps)
  then show ?thesis using flush by auto
qed

text \<open>Another character is in the buffer.\<close>

lemma written_char:
  assumes "written am fp ls cur fp'" "length cur < buffer_size fp"
  shows "written am fp ls (cur @ [c])
    (fp'\<lparr>buf := put_at (buf fp') (bpos fp') [c], bpos := bpos fp' + 1, filepos := filepos fp' + 1\<rparr>)"
proof -
  have out: "text_out fp'" and cur: "pending fp' = cur" and kind: "same_kind fp fp'" using assms(1) by (simp_all add: written_def)
  have len: "bpos fp' = length cur" using text_out_length [OF out] cur by simp
  have less: "bpos fp' < endbuf fp'" "bpos fp' < length (buf fp')"
    using len assms(2) out same_kind_attrs(4) [OF kind] by (simp_all add: text_out_def)
  let ?fp = "fp'\<lparr>buf := put_at (buf fp') (bpos fp') [c], bpos := bpos fp' + 1, filepos := filepos fp' + 1\<rparr>"
  have "pending ?fp = cur @ [c]" using less cur len by (simp add: put_at_def pending_def)
  moreover have "text_out ?fp" "same_kind fp ?fp"
    using out less kind by (auto simp: text_out_def rtype_def buffer_size_def same_kind_def length_put_at)
  moreover have "filepos ?fp + word_of_nat (length (pending fp)) =
      filepos fp + word_of_nat (length (concat (map (line_view fp) ls)) + length (cur @ [c]))"
    using assms(1) by (simp add: written_def algebra_simps)
  ultimately show ?thesis using assms(1) by (simp add: written_def)
qed

lemma put_buffered_written:
  assumes "written am fp ls cur fp'" "takes_all am"
  shows "\<exists>fp''. put_buffered am (uint c) fp' = (uint c, fp'') \<and>
    (if c = NL then written am fp (ls @ [cur]) [] fp''
     else if length cur = buffer_size fp then written am fp (ls @ [cur]) [c] fp''
     else written am fp ls (cur @ [c]) fp'')"
proof -
  have out: "text_out fp'" and cur: "pending fp' = cur" and kind: "same_kind fp fp'" using assms(1) by (simp_all add: written_def)
  have nl: "uint c = uint NL \<longleftrightarrow> c = NL" by (metis word_uint_eq_iff)
  have bin: "F_BINARY \<notin> flags fp'" using out by (simp add: text_out_def)
  have cap: "endbuf fp' = buffer_size fp" "bpos fp' = length cur" "0 < buffer_size fp" "length cur \<le> buffer_size fp"
    using out same_kind_attrs(4) [OF kind] text_out_length [OF out] cur by (simp_all add: text_out_def)
  show ?thesis
  proof (cases "c = NL")
    case True
    then show ?thesis using written_line [OF assms, of True] bin by (auto simp: put_buffered_def fflnl_def)
  next
    case other: False
    show ?thesis
    proof (cases "length cur = buffer_size fp")
      case True
      with cap have "cur \<noteq> []" by auto
      then obtain fp1 where f: "flushrec am fp' False = (0, fp1)" "bpos fp1 = 0" "written am fp (ls @ [cur]) [] fp1"
        using written_line [OF assms, of False] by auto
      then show ?thesis using written_char [OF f(3), of c] cap other nl True by (simp add: put_buffered_def fflush_def bin)
    next
      case False
      then show ?thesis using written_char [OF assms(1), of c] cap other nl by (simp add: put_buffered_def bin)
    qed
  qed
qed

lemma fputc_text: "text_out fp \<Longrightarrow> fputc am c fp = Some (put_buffered am c fp)"
  by (simp add: fputc_def text_out_def)

lemma fputs_written:
  assumes "written am fp ls cur fp'" "takes_all am"
  shows "\<exists>fp''. fputs_loop am s i fp' = Some (i + int (length s), fp'') \<and>
    written am fp (ls @ fst (split_lines (buffer_size fp) cur s)) (snd (split_lines (buffer_size fp) cur s)) fp''"
  using assms(1)
proof (induction s arbitrary: ls cur fp' i)
  case (Cons c s)
  obtain fp1 where f: "put_buffered am (uint c) fp' = (uint c, fp1)"
    "if c = NL then written am fp (ls @ [cur]) [] fp1
     else if length cur = buffer_size fp then written am fp (ls @ [cur]) [c] fp1
     else written am fp ls (cur @ [c]) fp1"
    using put_buffered_written [OF Cons.prems assms(2)] by blast
  have "uint c \<noteq> EOF" using uint_ge_0 [of c] by linarith
  then have step: "fputs_loop am (c # s) i fp' = fputs_loop am s (i + 1) fp1"
    using fputc_text [of fp' am "uint c"] Cons.prems f(1) by (simp add: written_def)
  show ?case
    using f(2) Cons.IH [of "ls @ [cur]" "[]" fp1 "i + 1"] Cons.IH [of "ls @ [cur]" "[c]" fp1 "i + 1"]
      Cons.IH [of ls "cur @ [c]" fp1 "i + 1"] step
    by (auto simp: algebra_simps split: if_splits)
qed simp

text \<open>The rest of the text, with the flush that ends the last line.\<close>

definition all_lines :: "nat \<Rightarrow> byte list \<Rightarrow> byte list list" where
  "all_lines cap s = (let (ls, r) = split_lines cap [] s in if r = [] then ls else ls @ [r])"

lemma fflush_written:
  assumes "written am fp ls cur fp'" "takes_all am"
  shows "\<exists>fp''. fflush am fp' = (0, fp'') \<and> written am fp (if cur = [] then ls else ls @ [cur]) [] fp''"
proof (cases "cur = []")
  case True
  have "text_out fp'" "pending fp' = []" using assms(1) True by (simp_all add: written_def)
  then have "fflush am fp' = (0, fp')" using flushrec_text [OF _ assms(2)] by (simp add: fflush_def)
  then show ?thesis using assms(1) True by auto
next
  case False
  then show ?thesis using written_line [OF assms, of False] by (auto simp: fflush_def)
qed

lemma fputs_fflush:
  assumes "text_out fp" "pending fp = []" "takes_all am"
  shows "\<exists>fp1 fp2. fputs am s fp = Some (int (length s), fp1) \<and> fflush am fp1 = (0, fp2) \<and>
    written am fp (fst (split_lines (buffer_size fp) [] s)) (snd (split_lines (buffer_size fp) [] s)) fp1 \<and>
    written am fp (all_lines (buffer_size fp) s) [] fp2"
proof -
  obtain fp1 where f: "fputs_loop am s 0 fp = Some (int (length s), fp1)"
    "written am fp (fst (split_lines (buffer_size fp) [] s)) (snd (split_lines (buffer_size fp) [] s)) fp1"
    using fputs_written [OF written_refl [OF assms(1)] assms(3), of s 0] assms(2) by auto
  have "F_RECORD \<notin> flags fp" using assms(1) by (simp add: text_out_def)
  then show ?thesis using f fflush_written [OF f(2) assms(3)]
    by (auto simp: fputs_def all_lines_def case_prod_beta Let_def)
qed

section \<open>Reading\<close>

text \<open>A text stream whose DCB reads.\<close>

definition text_in :: "'d stream \<Rightarrow> bool" where
  "text_in fp \<longleftrightarrow> F_READ \<in> flags fp \<and> F_RECORD \<notin> flags fp \<and> F_ERROR \<notin> flags fp \<and> F_EOF \<notin> flags fp \<and>
     F_DCBOUT \<notin> flags fp \<and> F_BINARY \<notin> flags fp \<and> X_DIRTY \<notin> xflags fp \<and> ungetch fp = - 1 \<and>
     rtype fp \<in> {RECFM_F, RECFM_V, RECFM_U}"

text \<open>The records a data set still has for its reader.\<close>

fun delivers :: "'d access \<Rightarrow> byte list list \<Rightarrow> 'd \<Rightarrow> bool" where
  "delivers am [] d \<longleftrightarrow> fst (aread am d) < 0"
| "delivers am (r # rs) d \<longleftrightarrow> (\<exists>d'. aread am d = (0, r, d') \<and> delivers am rs d')"

definition record_data :: "'d stream \<Rightarrow> byte list \<Rightarrow> byte list" where
  "record_data fp r =
     (if rtype fp = RECFM_F then take (lrecl fp) r
      else if rtype fp = RECFM_V then take (rdw_length r) (drop 4 r)
      else r)"

definition record_view :: "'d stream \<Rightarrow> byte list \<Rightarrow> byte list" where
  "record_view fp r = trim_nuls (record_data fp r) @ [NL]"

text \<open>The stream stands before the characters \<open>cs\<close>.\<close>

definition stands_before :: "'d access \<Rightarrow> 'd stream \<Rightarrow> byte list \<Rightarrow> bool" where
  "stands_before am fp cs \<longleftrightarrow> text_in fp \<and> endbuf fp \<le> length (buf fp) \<and>
     (\<exists>rs. delivers am rs (dcb fp) \<and> cs = drop (bpos fp) (take (endbuf fp) (buf fp)) @ concat (map (record_view fp) rs))"

lemma read_record_text:
  assumes "text_in fp" "aread am (dcb fp) = (0, r, d)"
  shows "read_record am fp = (Some (record_data fp r), fp\<lparr>dcb := d\<rparr>)"
  using assms by (auto simp: read_record_def record_data_def text_in_def rtype_def)

lemma record_view_cong: "recfm fp' = recfm fp \<Longrightarrow> lrecl fp' = lrecl fp \<Longrightarrow> record_view fp' = record_view fp"
  by (simp add: record_view_def record_data_def rtype_def fun_eq_iff)

lemma fgetc_text: "text_in fp \<Longrightarrow> fgetc am fp = Some (get_buffered am fp)"
  by (simp add: fgetc_def text_in_def get_turned_def)

lemma get_more_text:
  assumes "text_in fp" "\<forall>d. dcbdevt am d \<noteq> DCBDVTRM"
  shows "get_more am fp = (case read_record am fp of (None, fp) \<Rightarrow> (EOF, fp) | (Some data, fp) \<Rightarrow> next_char (fill_buffer data fp))"
  using assms by (simp add: get_more_def on_terminal_def text_in_def)

lemma take_put_at [simp]: "take (length xs) (put_at b 0 xs) = xs"
  by (simp add: put_at_def)

lemma fgetc_stands_before:
  assumes "stands_before am fp (c # cs)" "\<forall>d. dcbdevt am d \<noteq> DCBDVTRM"
  shows "\<exists>fp'. fgetc am fp = Some (uint c, fp') \<and> stands_before am fp' cs \<and> filepos fp' = filepos fp + 1"
proof -
  have inp: "text_in fp" and len: "endbuf fp \<le> length (buf fp)" using assms(1) by (simp_all add: stands_before_def)
  obtain rs where rs: "delivers am rs (dcb fp)"
    "c # cs = drop (bpos fp) (take (endbuf fp) (buf fp)) @ concat (map (record_view fp) rs)"
    using assms(1) by (auto simp: stands_before_def)
  show ?thesis
  proof (cases "bpos fp < endbuf fp")
    case True
    then have "drop (bpos fp) (take (endbuf fp) (buf fp)) = buf fp ! bpos fp # drop (bpos fp + 1) (take (endbuf fp) (buf fp))"
      using len by (simp add: Cons_nth_drop_Suc [symmetric])
    then have "buf fp ! bpos fp = c" "cs = drop (bpos fp + 1) (take (endbuf fp) (buf fp)) @ concat (map (record_view fp) rs)"
      using rs(2) by simp_all
    then show ?thesis using True inp len rs(1) fgetc_text [OF inp]
      by (auto simp: get_buffered_def next_char_def stands_before_def text_in_def rtype_def
          record_view_cong [of "fp\<lparr>bpos := Suc (bpos fp), filepos := filepos fp + 1\<rparr>" fp])
  next
    case False
    then have none: "c # cs = concat (map (record_view fp) rs)" using rs(2) len by simp
    then obtain r rs' where r: "rs = r # rs'" by (cases rs) auto
    then obtain d where d: "aread am (dcb fp) = (0, r, d)" "delivers am rs' d" using rs(1) by auto
    let ?data = "record_view fp r"
    let ?fp = "fp\<lparr>dcb := d, buf := put_at (buf fp) 0 ?data, bpos := 0, endbuf := length ?data\<rparr>"
    have "F_BINARY \<notin> flags fp" using inp by (simp add: text_in_def)
    then have fill: "fill_buffer (record_data fp r) (fp\<lparr>dcb := d\<rparr>) = ?fp"
      by (simp add: fill_buffer_def record_view_def Let_def)
    have get: "fgetc am fp = Some (next_char ?fp)"
      using fgetc_text [OF inp] get_more_text [OF inp assms(2)] read_record_text [OF inp d(1)] False fill by (simp add: get_buffered_def)
    obtain x xs where x: "?data = x # xs" by (cases ?data) (simp_all add: record_view_def)
    then have cc: "c = x" "cs = xs @ concat (map (record_view fp) rs')" using none r by simp_all
    have "next_char ?fp = (uint c, ?fp\<lparr>bpos := 1, filepos := filepos fp + 1\<rparr>)"
      using x cc by (simp add: next_char_def put_at_def)
    moreover have "stands_before am (?fp\<lparr>bpos := 1, filepos := filepos fp + 1\<rparr>) cs"
      using inp d(2) cc x record_view_cong [of "?fp\<lparr>bpos := 1, filepos := filepos fp + 1\<rparr>" fp]
      by (auto simp: stands_before_def text_in_def rtype_def put_at_def)
    ultimately show ?thesis using get by simp
  qed
qed

lemma fgetc_stands_at_end:
  assumes "stands_before am fp []" "\<forall>d. dcbdevt am d \<noteq> DCBDVTRM"
  shows "\<exists>fp'. fgetc am fp = Some (EOF, fp') \<and> F_EOF \<in> flags fp' \<and> filepos fp' = filepos fp"
proof -
  have inp: "text_in fp" and len: "endbuf fp \<le> length (buf fp)" using assms(1) by (simp_all add: stands_before_def)
  obtain rs where rs: "delivers am rs (dcb fp)" "[] = drop (bpos fp) (take (endbuf fp) (buf fp)) @ concat (map (record_view fp) rs)"
    using assms(1) by (auto simp: stands_before_def)
  have "rs = []" using rs(2) by (cases rs) (auto simp: record_view_def)
  then have "fst (aread am (dcb fp)) < 0" using rs(1) by simp
  moreover have "\<not> bpos fp < endbuf fp" using rs(2) len by simp
  ultimately show ?thesis using fgetc_text [OF inp] get_more_text [OF inp assms(2)]
    by (simp add: get_buffered_def read_record_def case_prod_beta Let_def setflag_def)
qed

lemma fread_stands_before:
  assumes "\<forall>d. dcbdevt am d \<noteq> DCBDVTRM"
  shows "stands_before am fp cs \<Longrightarrow> length cs < n \<Longrightarrow>
    \<exists>fp'. fread_loop am 1 n i 0 fp = Some (i + length cs, cs, fp') \<and> F_EOF \<in> flags fp' \<and>
      filepos fp' = filepos fp + word_of_nat (length cs)"
proof (induction cs arbitrary: n i fp)
  case Nil
  then obtain m where "n = Suc m" by (cases n) auto
  then show ?case using fgetc_stands_at_end [OF Nil.prems(1) assms] by auto
next
  case (Cons c cs)
  then obtain m where m: "n = Suc m" "length cs < m" by (cases n) auto
  obtain fp' where f: "fgetc am fp = Some (uint c, fp')" "stands_before am fp' cs" "filepos fp' = filepos fp + 1"
    using fgetc_stands_before [OF Cons.prems(1) assms] by blast
  have "uint c \<noteq> EOF" using uint_ge_0 [of c] by linarith
  then show ?case using Cons.IH [OF f(2) m(2), of "i + 1"] f m by (auto simp: algebra_simps)
qed

section \<open>Written and read back\<close>

definition same_format :: "'d stream \<Rightarrow> 'd stream \<Rightarrow> bool" where
  "same_format fp fq \<longleftrightarrow> recfm fq = recfm fp \<and> lrecl fq = lrecl fp \<and> blksize fq = blksize fp"

lemma rdw_value: "n < 65536 \<Longrightarrow> uint (rdw n ! 0) * 256 + uint (rdw n ! 1) = int n"
proof -
  assume n: "n < 65536"
  have "unat (word_of_nat (n div 256) :: byte) = n div 256" using n by (simp add: unat_of_nat take_bit_eq_mod)
  moreover have "unat (word_of_nat n :: byte) = n mod 256" by (simp add: unat_of_nat take_bit_eq_mod)
  moreover have "int (n div 256) * 256 + int (n mod 256) = int n"
    using arg_cong [OF div_mult_mod_eq [of n 256], of int] by (simp only: of_nat_add of_nat_mult of_nat_numeral)
  ultimately have "int (unat (rdw n ! 0)) * 256 + int (unat (rdw n ! 1)) = int n"
    by (simp add: rdw_def)
  then show ?thesis by simp
qed

lemma record_of_line:
  assumes "text_out fp" "same_format fp fq" "length l \<le> buffer_size fp" "lrecl fp < 65536"
  shows "record_data fq (line_record fp l) = line_data fp l"
proof -
  have t: "rtype fq = rtype fp" "lrecl fq = lrecl fp" using assms(2) by (simp_all add: same_format_def rtype_def)
  consider "rtype fp = RECFM_F" | "rtype fp = RECFM_V" | "rtype fp = RECFM_U" using assms(1) by (auto simp: text_out_def)
  then show ?thesis
  proof cases
    case 1
    then have "length l \<le> lrecl fp" using assms(3) by (simp add: buffer_size_def)
    then show ?thesis using 1 t by (simp add: record_data_def line_record_def line_data_def)
  next
    case 2
    then have n: "length l + 4 < 65536" using assms(1,3,4) by (auto simp: buffer_size_def text_out_def)
    let ?r = "rdw (length l + 4) @ l"
    have "?r ! 0 = rdw (length l + 4) ! 0" "?r ! 1 = rdw (length l + 4) ! 1" "drop 4 ?r = l" by (simp_all add: rdw_def)
    moreover have "nat ((int (length l + 4) - 4) mod 2 ^ 32) = length l" using n by simp
    ultimately show ?thesis using 2 t rdw_value [OF n] by (simp add: record_data_def line_record_def line_data_def rdw_length_def)
  next
    case 3
    then show ?thesis using t by (simp add: record_data_def line_record_def)
  qed
qed

text \<open>Lines that fit come out as they are.\<close>

lemma split_lines_fit:
  "NL \<notin> set l \<Longrightarrow> length (cur @ l) \<le> cap \<Longrightarrow>
    split_lines cap cur (l @ NL # s) = ((cur @ l) # fst (split_lines cap [] s), snd (split_lines cap [] s))"
  by (induction l arbitrary: cur) auto

lemma split_lines_of_lines:
  "\<forall>l\<in>set ls. NL \<notin> set l \<and> length l \<le> cap \<Longrightarrow> split_lines cap [] (concat (map (\<lambda>l. l @ [NL]) ls)) = (ls, [])"
proof (induction ls)
  case (Cons l ls)
  then show ?case using split_lines_fit [of l "[]" cap] by auto
qed simp

lemma all_lines_of_lines:
  "\<forall>l\<in>set ls. NL \<notin> set l \<and> length l \<le> cap \<Longrightarrow> all_lines cap (concat (map (\<lambda>l. l @ [NL]) ls)) = ls"
  by (simp add: all_lines_def split_lines_of_lines)

lemma trim_nuls_id: "xs = [] \<or> last xs \<noteq> 0 \<Longrightarrow> trim_nuls xs = xs"
  by (cases xs rule: rev_cases) (simp_all add: trim_nuls_def)

lemma line_data_trim: "l = [] \<or> last l \<noteq> 0 \<Longrightarrow> trim_nuls (line_data fp l) = line_data fp l"
  by (intro trim_nuls_id, cases "lrecl fp - length l") (auto simp: line_data_def replicate_append_same [symmetric] simp del: replicate_Suc)

text \<open>What is left of a data set from its first record on; every record written goes to the end of it.\<close>

definition keeps_records :: "'d access \<Rightarrow> ('d \<Rightarrow> byte list list) \<Rightarrow> bool" where
  "keeps_records am recs \<longleftrightarrow> (\<forall>d r. recs (snd (awrite am d r)) = recs d @ [r])"

lemma records_written: "keeps_records am recs \<Longrightarrow> recs (write_all am rs d) = recs d @ rs"
  by (induction rs arbitrary: d) (simp_all add: keeps_records_def)

section \<open>Properties\<close>

lemmas RECFM_defs = RECFM_TYPE_def RECFM_F_def RECFM_V_def RECFM_U_def

lemma tape_text: "text_out (tape_stream {F_OPEN, F_WRITE, F_DCBOUT} [])" "pending (tape_stream fl rs) = []" "takes_all tape"
  by (simp_all add: text_out_def pending_def takes_all_def tape_stream_def tape_def rtype_def buffer_size_def RECFM_defs DCBDVTRM_def split: prod.splits)

lemma tape_simps: "write_all tape rs (xs, k) = (xs @ rs, k)" "dcb (tape_stream fl xs) = (xs, 0)" "filepos (tape_stream fl xs) = 0"
  by (induction rs arbitrary: xs) (simp_all add: tape_def tape_stream_def)

lemma tape_lines: "buffer_size (tape_stream fl xs) = 6" "line_record (tape_stream fl xs) = (\<lambda>l. rdw (length l + 4) @ l)"
  "line_view (tape_stream fl xs) = (\<lambda>l. l @ [NL])"
  by (simp_all add: fun_eq_iff line_record_def line_view_def line_data_def tape_stream_def rtype_def RECFM_defs buffer_size_def)

text \<open>
  C11: a text is written as lines.  On a text stream of any record format \<^verbatim>\<open>__fputs()\<close> takes the whole text, and what the access
  method has got is one record for each line - an empty one too, and a line longer than the buffer continued in the next record -
  filled with blanks on fixed-length records, after an RDW on variable ones; what is begun is in the buffer, \<^verbatim>\<open>__fflush()\<close> makes it
  a record too, and the position is the number of characters a reader will have read, newlines and blanks included.
\<close>
theorem text_as_records:
  assumes "text_out fp" "pending fp = []" "takes_all am"
  shows "\<exists>fp1 fp2. fputs am s fp = Some (int (length s), fp1) \<and>
    dcb fp1 = write_all am (map (line_record fp) (fst (split_lines (buffer_size fp) [] s))) (dcb fp) \<and>
    pending fp1 = snd (split_lines (buffer_size fp) [] s) \<and>
    fflush am fp1 = (0, fp2) \<and> pending fp2 = [] \<and>
    dcb fp2 = write_all am (map (line_record fp) (all_lines (buffer_size fp) s)) (dcb fp) \<and>
    filepos fp2 = filepos fp + word_of_nat (length (concat (map (line_view fp) (all_lines (buffer_size fp) s))))"
proof -
  obtain fp1 fp2 where f: "fputs am s fp = Some (int (length s), fp1)" "fflush am fp1 = (0, fp2)"
    "written am fp (fst (split_lines (buffer_size fp) [] s)) (snd (split_lines (buffer_size fp) [] s)) fp1"
    "written am fp (all_lines (buffer_size fp) s) [] fp2"
    using fputs_fflush [OF assms, of s] by blast
  show ?thesis using f assms(2) by (intro exI [of _ fp1] exI [of _ fp2]) (simp add: written_def)
qed

theorem text_as_records_witness:
  "\<exists>fp1 fp2. fputs tape [0xC1, 0xC2, 0xC3, 0xC4, 0xC5, 0xC6, 0xC7, 0x15, 0x15, 0xC8] (tape_stream {F_OPEN, F_WRITE, F_DCBOUT} []) = Some (10, fp1) \<and>
    dcb fp1 = ([[0, 10, 0, 0, 0xC1, 0xC2, 0xC3, 0xC4, 0xC5, 0xC6], [0, 5, 0, 0, 0xC7], [0, 4, 0, 0]], 0) \<and> pending fp1 = [0xC8] \<and>
    fflush tape fp1 = (0, fp2) \<and>
    dcb fp2 = ([[0, 10, 0, 0, 0xC1, 0xC2, 0xC3, 0xC4, 0xC5, 0xC6], [0, 5, 0, 0, 0xC7], [0, 4, 0, 0], [0, 5, 0, 0, 0xC8]], 0) \<and> filepos fp2 = 12"
proof -
  let ?fp = "tape_stream {F_OPEN, F_WRITE, F_DCBOUT} []" and ?s = "[0xC1, 0xC2, 0xC3, 0xC4, 0xC5, 0xC6, 0xC7, 0x15, 0x15, 0xC8] :: byte list"
  have ok: "text_out ?fp" "pending ?fp = []" "takes_all tape" by (simp_all add: tape_text)
  have cut: "split_lines 6 [] ?s = ([[0xC1, 0xC2, 0xC3, 0xC4, 0xC5, 0xC6], [0xC7], []], [0xC8])" by simp
  have all: "all_lines 6 ?s = [[0xC1, 0xC2, 0xC3, 0xC4, 0xC5, 0xC6], [0xC7], [], [0xC8]]" by (simp add: all_lines_def)
  show ?thesis using text_as_records [OF ok, of ?s] unfolding tape_lines tape_simps cut all
    by (simp add: rdw_def) blast
qed

text \<open>
  C6: lines written are read back.  Lines that fit the records and do not end in X'00', written to an empty data set and read
  again from its beginning in the same format, come back each with a newline after it - as they were on variable-length records,
  with the blanks of the record on fixed-length ones, and one blank for an empty line on undefined ones - and then comes the end of
  file; the position the writer was left at is the one the reader ends at.
\<close>
theorem text_roundtrip:
  assumes "text_out fp" "pending fp = []" "takes_all am" "lrecl fp < 65536" "filepos fp = 0"
    and "keeps_records am recs" "recs (dcb fp) = []"
    and lines: "\<forall>l\<in>set ls. NL \<notin> set l \<and> length l \<le> buffer_size fp \<and> (l = [] \<or> last l \<noteq> 0)"
    and fq: "text_in fq" "same_format fp fq" "bpos fq = 0" "endbuf fq = 0" "filepos fq = 0"
    and n: "length (concat (map (line_view fp) ls)) < n"
  shows "\<exists>fp1 fp2. fputs am (concat (map (\<lambda>l. l @ [NL]) ls)) fp = Some (int (length (concat (map (\<lambda>l. l @ [NL]) ls))), fp1) \<and>
    fflush am fp1 = (0, fp2) \<and>
    (\<forall>d. delivers am (recs (dcb fp2)) d \<longrightarrow>
      (\<exists>fq'. fread am 1 n (fq\<lparr>dcb := d\<rparr>) =
          Some (length (concat (map (line_view fp) ls)), concat (map (line_view fp) ls), fq') \<and>
        feof fq' = 1 \<and> filepos fq' = filepos fp2))"
proof -
  let ?s = "concat (map (\<lambda>l. l @ [NL]) ls)" and ?v = "concat (map (line_view fp) ls)"
  have all: "all_lines (buffer_size fp) ?s = ls" using lines by (intro all_lines_of_lines) auto
  obtain fp1 fp2 where f: "fputs am ?s fp = Some (int (length ?s), fp1)" "fflush am fp1 = (0, fp2)" "written am fp ls [] fp2"
    using fputs_fflush [OF assms(1-3), of ?s] all by auto
  have recs: "recs (dcb fp2) = map (line_record fp) ls"
    using f(3) records_written [OF assms(6)] assms(7) by (simp add: written_def)
  have view: "record_view fq (line_record fp l) = line_view fp l" if "l \<in> set ls" for l
    using record_of_line [OF assms(1) fq(2) _ assms(4), of l] line_data_trim [of l fp] lines that by (simp add: record_view_def line_view_def)
  then have views: "map (record_view fq) (map (line_record fp) ls) = map (line_view fp) ls" by simp
  have "\<exists>fq'. fread am 1 n (fq\<lparr>dcb := d\<rparr>) = Some (length ?v, ?v, fq') \<and> feof fq' = 1 \<and> filepos fq' = filepos fp2"
    if d: "delivers am (recs (dcb fp2)) d" for d
  proof -
    have "record_view (fq\<lparr>dcb := d\<rparr>) = record_view fq" by (rule record_view_cong) simp_all
    moreover have "?v = concat (map (record_view fq) (map (line_record fp) ls))" by (simp only: views)
    ultimately have "stands_before am (fq\<lparr>dcb := d\<rparr>) ?v"
      using fq d recs unfolding stands_before_def
      by (intro conjI exI [of _ "map (line_record fp) ls"]) (simp_all add: text_in_def rtype_def)
    then obtain fq' where "fread_loop am 1 n 0 0 (fq\<lparr>dcb := d\<rparr>) = Some (length ?v, ?v, fq')" "F_EOF \<in> flags fq'"
      "filepos fq' = word_of_nat (length ?v)"
      using fread_stands_before [of am "fq\<lparr>dcb := d\<rparr>" ?v n 0] n assms(3) fq(5) by (auto simp: takes_all_def)
    then show ?thesis using fq f(3) assms(2,5) by (auto simp: fread_def text_in_def feof_def written_def)
  qed
  then show ?thesis using f by blast
qed

theorem text_roundtrip_witness:
  "\<exists>fp1 fp2. fputs tape [0xC1, 0xC2, 0x15, 0x15] (tape_stream {F_OPEN, F_WRITE, F_DCBOUT} []) = Some (4, fp1) \<and> fflush tape fp1 = (0, fp2) \<and>
    (\<exists>fq'. fread tape 1 10 (tape_stream {F_OPEN, F_READ} (fst (dcb fp2))) = Some (4, [0xC1, 0xC2, 0x15, 0x15], fq') \<and> feof fq' = 1 \<and>
      filepos fq' = filepos fp2)"
proof -
  let ?fp = "tape_stream {F_OPEN, F_WRITE, F_DCBOUT} []" and ?fq = "tape_stream {F_OPEN, F_READ} []"
  let ?ls = "[[0xC1, 0xC2], []] :: byte list list"
  have ok: "text_out ?fp" "pending ?fp = []" "takes_all tape" by (simp_all add: tape_text)
  have view: "concat (map (line_view ?fp) ?ls) = [0xC1, 0xC2, 0x15, 0x15]" by (simp add: tape_lines)
  have cat: "concat (map (\<lambda>l. l @ [NL]) ?ls) = [0xC1, 0xC2, 0x15, 0x15]" by simp
  have len: "length [0xC1, 0xC2, 0x15, 0x15 :: byte] = 4" by simp
  have inp: "text_in ?fq" "same_format ?fp ?fq" "bpos ?fq = 0" "endbuf ?fq = 0" "filepos ?fq = 0" "lrecl ?fp < 65536" "filepos ?fp = 0" "fst (dcb ?fp) = []"
    by (simp_all add: text_in_def same_format_def tape_stream_def rtype_def RECFM_defs)
  have keeps: "keeps_records tape fst" by (simp add: keeps_records_def tape_def split: prod.splits)
  have lines: "\<forall>l\<in>set ?ls. NL \<notin> set l \<and> length l \<le> buffer_size ?fp \<and> (l = [] \<or> last l \<noteq> 0)" by (simp add: tape_lines)
  obtain fp1 fp2 where f: "fputs tape [0xC1, 0xC2, 0x15, 0x15] ?fp = Some (4, fp1)" "fflush tape fp1 = (0, fp2)"
    "\<forall>d. delivers tape (fst (dcb fp2)) d \<longrightarrow> (\<exists>fq'. fread tape 1 10 (?fq\<lparr>dcb := d\<rparr>) = Some (4, [0xC1, 0xC2, 0x15, 0x15], fq') \<and>
        feof fq' = 1 \<and> filepos fq' = filepos fp2)"
    using text_roundtrip [OF ok(1-3) inp(6,7) keeps inp(8) lines inp(1-5), where n = 10] unfolding view cat len of_nat_numeral by auto
  have "dcb fp2 = ([[0, 6, 0, 0, 0xC1, 0xC2], [0, 4, 0, 0]], 0)"
    using fputs_fflush [OF ok, of "[0xC1, 0xC2, 0x15, 0x15]"] f(1,2)
    by (auto simp: written_def tape_lines tape_simps all_lines_def rdw_def tape_def)
  then have "delivers tape (fst (dcb fp2)) (fst (dcb fp2), 0)" by (simp add: tape_def)
  moreover have "?fq\<lparr>dcb := (fst (dcb fp2), 0)\<rparr> = tape_stream {F_OPEN, F_READ} (fst (dcb fp2))" by (simp add: tape_stream_def)
  ultimately show ?thesis using f by metis
qed

end
