(* ===== verification/Strutil.thy ===== *)
theory Strutil
  imports Cstring
begin

text \<open>
  The pattern match and the padded copies of \<^verbatim>\<open>src/ext/strutil\<close>: \<^verbatim>\<open>@@patmat.c\<close>, \<^verbatim>\<open>memcpyp.c\<close> and \<^verbatim>\<open>strcpyp.c\<close>.
\<close>

section \<open>Definitions\<close>

abbreviation STAR :: byte where "STAR \<equiv> 0x5C"
abbreviation QUERY :: byte where "QUERY \<equiv> 0x6F"
abbreviation BLANK :: byte where "BLANK \<equiv> 0x40"

subsection \<open>\<^verbatim>\<open>__patmat()\<close>\<close>

text \<open>The loops over blanks and over stars.\<close>

partial_function (option) skip_blanks :: "mem \<Rightarrow> nat \<Rightarrow> nat option" where
  "skip_blanks m str = (if m str = BLANK then skip_blanks m (str + 1) else Some str)"

partial_function (option) skip_stars :: "mem \<Rightarrow> nat \<Rightarrow> nat option" where
  "skip_stars m pat = (if m (pat + 1) = STAR then skip_stars m (pat + 1) else Some pat)"

text \<open>
  The function, and with \<open>after_star\<close> the loop over \<^verbatim>\<open>*(++str)\<close>, which calls it.
\<close>

partial_function (option) patmat_or_loop :: "mem \<Rightarrow> bool \<Rightarrow> nat \<Rightarrow> nat \<Rightarrow> bool option" where
  "patmat_or_loop m after_star str pat =
     (if after_star then
        if m (str + 1) = 0 then Some False
        else if m (str + 1) = m (pat + 1) \<or> m (pat + 1) = QUERY then
          Option.bind (patmat_or_loop m False (str + 2) (pat + 2))
            (\<lambda>r. if r then Some True else patmat_or_loop m True (str + 1) pat)
        else patmat_or_loop m True (str + 1) pat
      else if m pat = 0 then Option.bind (skip_blanks m str) (\<lambda>str. Some (m str = 0))
      else if m pat = STAR then
        Option.bind (skip_stars m pat) (\<lambda>pat. if m (pat + 1) = 0 then Some True else patmat_or_loop m True str pat)
      else if m str = 0 then Some False
      else if m pat = QUERY \<or> m str = m pat then patmat_or_loop m False (str + 1) (pat + 1)
      else Some False)"

definition patmat :: "mem \<Rightarrow> nat \<Rightarrow> nat \<Rightarrow> int option" where
  "patmat m str pat = map_option (\<lambda>r. if r then 1 else 0) (patmat_or_loop m False str pat)"

declare skip_blanks.simps [code] skip_stars.simps [code] patmat_or_loop.simps [code]

subsection \<open>\<^verbatim>\<open>memcpyp()\<close> and \<^verbatim>\<open>strcpyp()\<close>\<close>

definition copy_pad :: "mem \<Rightarrow> nat \<Rightarrow> int \<Rightarrow> nat \<Rightarrow> int \<Rightarrow> i32 \<Rightarrow> mem" where
  "copy_pad m t tlen source slen pad =
     (let slen = (if slen > tlen then tlen else slen);
          m = (if slen > 0 then memcpy m t source (word_of_int slen) else m);
          (t, tlen) = (if slen > 0 then (t + nat slen, tlen - slen) else (t, tlen))
      in if tlen > 0 then memset m t pad (word_of_int tlen) else m)"

definition memcpyp :: "mem \<Rightarrow> nat \<Rightarrow> int \<Rightarrow> nat \<Rightarrow> int \<Rightarrow> i32 \<Rightarrow> nat \<times> mem" where
  "memcpyp m target tlen source slen pad = (target, copy_pad m target tlen source slen pad)"

definition strcpyp :: "mem \<Rightarrow> nat \<Rightarrow> int \<Rightarrow> nat option \<Rightarrow> i32 \<Rightarrow> (nat \<times> mem) option" where
  "strcpyp m target tlen source pad =
     (case source of
        None \<Rightarrow> Some (target, copy_pad m target tlen 0 0 pad)
      | Some source \<Rightarrow> map_option (\<lambda>slen. (target, copy_pad m target tlen source (int slen) pad)) (strlen m source))"

section \<open>What a pattern matches\<close>

text \<open>
  A question mark is any one character, a star at the end of the pattern any rest, another star one character or more, and stars
  next to each other are one; the string may have blanks behind the match.
\<close>

fun one_star :: "byte list \<Rightarrow> byte list" where
  "one_star (p # q # ps) = (if p = STAR \<and> q = STAR then one_star (q # ps) else p # one_star (q # ps))"
| "one_star ps = ps"

fun matches :: "byte list \<Rightarrow> byte list \<Rightarrow> bool" where
  "matches s [] \<longleftrightarrow> set s \<subseteq> {BLANK}"
| "matches s (p # ps) \<longleftrightarrow>
     (if p = STAR then ps = [] \<or> (\<exists>k\<in>{1..<length s}. matches (drop k s) ps)
      else s \<noteq> [] \<and> (p = QUERY \<or> hd s = p) \<and> matches (tl s) ps)"

lemma skip_blanks_eq: "str_at m a s \<Longrightarrow> \<exists>b. skip_blanks m a = Some b \<and> (m b = 0 \<longleftrightarrow> set s \<subseteq> {BLANK})"
proof (induction s arbitrary: a)
  case Nil
  then show ?case by (subst skip_blanks.simps) auto
next
  case (Cons c s)
  then show ?case by (subst skip_blanks.simps) (auto simp: Cons.IH [of "Suc a"])
qed

lemma one_star_Cons:
  "one_star (STAR # dropWhile (\<lambda>p. p = STAR) ps) = one_star (STAR # ps)"
  by (induction ps) auto

lemma one_star_rest: "p \<noteq> STAR \<Longrightarrow> one_star (p # ps) = p # one_star ps"
  by (cases ps) auto

lemma one_star_star: "ps = [] \<or> hd ps \<noteq> STAR \<Longrightarrow> one_star (STAR # ps) = STAR # one_star ps"
  by (cases ps) auto

lemma skip_stars_eq: "str_at m (q + 1) ps \<Longrightarrow>
    \<exists>k. skip_stars m q = Some (q + k) \<and> dropWhile (\<lambda>p. p = STAR) ps = drop k ps \<and> k \<le> length ps"
proof (induction ps arbitrary: q)
  case Nil
  then show ?case by (subst skip_stars.simps) simp
next
  case (Cons p ps)
  show ?case
  proof (cases "p = STAR")
    case True
    then obtain k where "skip_stars m (q + 1) = Some (q + 1 + k)" "dropWhile (\<lambda>p. p = STAR) ps = drop k ps" "k \<le> length ps"
      using Cons.IH [of "q + 1"] Cons.prems by auto
    then show ?thesis using True Cons.prems by (intro exI [of _ "Suc k"]) (subst skip_stars.simps, simp)
  next
    case False
    then show ?thesis using Cons.prems by (intro exI [of _ 0]) (subst skip_stars.simps, simp)
  qed
qed

lemma bex_range: "0 < n \<Longrightarrow> (\<exists>k\<in>{1..<Suc n}. P k) \<longleftrightarrow> P 1 \<or> (\<exists>k\<in>{1..<n}. P (k + 1))"
proof -
  assume "0 < n"
  then have "{1..<Suc n} = insert 1 (Suc ` {1..<n})" by auto
  then show ?thesis by (simp del: image_Suc_atLeastLessThan)
qed

lemma matches_drop:
  assumes "i < length s" "y \<noteq> STAR"
  shows "matches (drop i s) (y # ps) \<longleftrightarrow> (y = QUERY \<or> s ! i = y) \<and> matches (drop (i + 1) s) ps"
proof -
  have "drop i s = s ! i # drop (i + 1) s" using assms(1) by (simp add: Cons_nth_drop_Suc)
  then show ?thesis using assms(2) by simp
qed

text \<open>The loop after a star tries each later character.\<close>

lemma star_loop:
  assumes rec: "\<And>a s. str_at m a s \<Longrightarrow> m (a + length s + 1) = 0 \<Longrightarrow> patmat_or_loop m False a (q + 2) = Some (matches s ps)"
    and "m (q + 1) = p" "p \<noteq> 0"
  shows "str_at m a s \<Longrightarrow> m (a + length s + 1) = 0 \<Longrightarrow>
    patmat_or_loop m True a q = Some (\<exists>k\<in>{1..<length s}. (p = QUERY \<or> s ! k = p) \<and> matches (drop (k + 1) s) ps)"
proof (induction s arbitrary: a)
  case Nil
  then show ?case by (subst patmat_or_loop.simps) simp
next
  case (Cons c s)
  have s: "str_at m (a + 1) s" "m (a + 1 + length s + 1) = 0" using Cons.prems by simp_all
  note IH = Cons.IH [OF s]
  show ?case
  proof (cases s)
    case Nil
    then show ?thesis using s by (subst patmat_or_loop.simps) simp
  next
    case (Cons d t)
    have d: "m (a + 1) = d" "d \<noteq> 0" "str_at m (a + 2) t" "m (a + 2 + length t + 1) = 0" using s Cons by simp_all
    have range: "(\<exists>k\<in>{1..<length (c # s)}. P k) \<longleftrightarrow> P 1 \<or> (\<exists>k\<in>{1..<length s}. P (k + 1))" for P
      using bex_range [of "length s" P] Cons by simp
    show ?thesis unfolding range
      using d assms(2,3) rec [OF d(3,4)] IH Cons by (subst patmat_or_loop.simps) (auto simp: numeral_2_eq_2)
  qed
qed

lemma patmat_matches:
  "str_at m q p \<Longrightarrow> str_at m a s \<Longrightarrow> m (a + length s + 1) = 0 \<Longrightarrow> patmat_or_loop m False a q = Some (matches s (one_star p))"
proof (induction "length p" arbitrary: p q a s rule: less_induct)
  case less
  show ?case
  proof (cases p)
    case Nil
    then show ?thesis using less.prems(1) skip_blanks_eq [OF less.prems(2)] by (subst patmat_or_loop.simps) auto
  next
    case (Cons x ps)
    have x: "m q = x" "x \<noteq> 0" "str_at m (q + 1) ps" using less.prems(1) Cons by simp_all
    show ?thesis
    proof (cases "x = STAR")
      case False
      then show ?thesis
      proof (cases s)
        case Nil
        then show ?thesis using False x Cons less.prems(2) by (subst patmat_or_loop.simps) (simp add: one_star_rest)
      next
        case s: (Cons c t)
        have "patmat_or_loop m False (a + 1) (q + 1) = Some (matches t (one_star ps))"
          using less.hyps [of ps "q + 1" "a + 1" t] less.prems(2,3) x Cons s by simp
        then show ?thesis using False x Cons less.prems(2) s by (subst patmat_or_loop.simps) (auto simp: one_star_rest)
      qed
    next
      case star: True
      obtain k where k: "skip_stars m q = Some (q + k)" "dropWhile (\<lambda>p. p = STAR) ps = drop k ps" "k \<le> length ps"
        using skip_stars_eq [OF x(3)] by blast
      let ?ps = "drop k ps"
      have rest: "str_at m (q + k + 1) ?ps" using str_at_drop [OF x(3) k(3)] by (simp add: algebra_simps)
      have nostar: "?ps = [] \<or> hd ?ps \<noteq> STAR" using hd_dropWhile [of "\<lambda>p. p = STAR" ps] k(2) by (cases "?ps = []") simp_all
      have one: "one_star p = STAR # one_star ?ps"
        using one_star_Cons [of ps] one_star_star [OF nostar] k(2) Cons star by simp
      show ?thesis
      proof (cases ?ps)
        case Nil
        then show ?thesis using x k(1) one star rest by (subst patmat_or_loop.simps) simp
      next
        case (Cons y ys)
        have y: "m (q + k + 1) = y" "y \<noteq> 0" "str_at m (q + k + 2) ys" "y \<noteq> STAR" using rest nostar Cons by simp_all
        have "length ys < length p" using \<open>p = x # ps\<close> using arg_cong [OF Cons, of length] by simp
        then have "patmat_or_loop m False a' (q + k + 2) = Some (matches s' (one_star ys))"
          if "str_at m a' s'" "m (a' + length s' + 1) = 0" for a' s'
          using less.hyps [of ys "q + k + 2"] y(3) that by blast
        then have loop: "patmat_or_loop m True a (q + k) =
            Some (\<exists>i\<in>{1..<length s}. (y = QUERY \<or> s ! i = y) \<and> matches (drop (i + 1) s) (one_star ys))"
          using star_loop [of m "q + k" "one_star ys" y a s] y(1,2) less.prems(2,3) by simp
        have "matches (drop i s) (y # one_star ys) \<longleftrightarrow> (y = QUERY \<or> s ! i = y) \<and> matches (drop (i + 1) s) (one_star ys)"
          if "i \<in> {1..<length s}" for i using matches_drop [of i s y] that y(4) by simp
        then have "(\<exists>i\<in>{1..<length s}. matches (drop i s) (y # one_star ys)) \<longleftrightarrow>
            (\<exists>i\<in>{1..<length s}. (y = QUERY \<or> s ! i = y) \<and> matches (drop (i + 1) s) (one_star ys))" by blast
        moreover have "patmat_or_loop m False a q = patmat_or_loop m True a (q + k)"
          using x k(1) star y(1,2) by (subst patmat_or_loop.simps) simp
        moreover have "one_star p = STAR # y # one_star ys" unfolding one Cons one_star_rest [OF y(4)] ..
        ultimately show ?thesis using loop by simp
      qed
    qed
  qed
qed
section \<open>Padded copies\<close>

lemma take_block: "k \<le> n \<Longrightarrow> take k (block m p n) = block m p k"
  by (simp add: block_def take_map)

lemma copy_pad_eq:
  assumes "0 \<le> tlen" "tlen < 2 ^ 24" "0 \<le> slen" "t \<le> source \<or> source + nat slen \<le> t"
  shows "copy_pad m t tlen source slen pad =
    store m t (take (nat tlen) (block m source (nat slen)) @ replicate (nat (tlen - slen)) (ucast pad))"
proof -
  let ?n = "min slen tlen"
  have n: "0 \<le> ?n" "?n \<le> tlen" "?n < 2 ^ 24" "source + nat ?n \<le> t \<or> t \<le> source" using assms by auto
  have u: "unat (word_of_int k :: u32) = nat k" if "0 \<le> k" "k < 2 ^ 24" for k :: int
    using that by (simp add: unat32_of_int)
  have blk: "take (nat tlen) (block m source (nat slen)) = block m source (nat ?n)"
    using assms take_block [of "nat tlen" "nat slen" m source] by (cases "slen \<le> tlen") (auto simp: min_def)
  have copy: "(if ?n > 0 then memcpy m t source (word_of_int ?n) else m) = store m t (block m source (nat ?n))"
    using memcpy_eq [of "word_of_int ?n" t source m] n u [OF n(1,3)] by auto
  have set: "memset m' p pad (word_of_int k) = store m' p (replicate (nat k) (ucast pad))" if "0 \<le> k" "k < 2 ^ 24" for m' p and k :: int
    using memset_eq [of "word_of_int k"] u [OF that] that by simp
  show ?thesis
  proof (cases "slen < tlen")
    case True
    then show ?thesis using copy set [of "tlen - slen"] assms blk
      by (cases "slen = 0") (auto simp: copy_pad_def Let_def store_append)
  next
    case False
    then show ?thesis using copy assms blk by (cases "tlen = 0") (auto simp: copy_pad_def Let_def)
  qed
qed

section \<open>Properties\<close>



text \<open>
  A star in the middle of a pattern reads past the end of the string.  Where the string ends before such a star, the loop
  after it starts behind the zero: \<^verbatim>\<open>"A"\<close> matches \<^verbatim>\<open>"A*B"\<close> when the storage behind the string happens to hold a B and a zero.
\<close>
theorem patmat_reads_past_end:
  "\<exists>m. str_at m 0 [0xC1] \<and> str_at m 100 [0xC1, STAR, 0xC2] \<and> patmat m 0 100 = Some 1 \<and> \<not> matches [0xC1] (one_star [0xC1, STAR, 0xC2])"
proof -
  let ?m = "store (store (\<lambda>a. 0) 0 [0xC1, 0, 0xC2]) 100 [0xC1, STAR, 0xC2]"
  have "str_at ?m 0 [0xC1]" "str_at ?m 100 [0xC1, STAR, 0xC2]" by (simp_all add: store_def)
  moreover have "patmat ?m 0 100 = Some 1" by code_simp
  moreover have "\<not> matches [0xC1] (one_star [0xC1, STAR, 0xC2])" by code_simp
  ultimately show ?thesis by blast
qed

text \<open>
  The padded copies fill the target.  Up to a target of 16 megabytes less one, \<^verbatim>\<open>memcpyp()\<close> and \<^verbatim>\<open>strcpyp()\<close> store exactly the
  bytes of the target: the beginning of the source that fits, then the fill byte, for a source that is not overwritten before it is
  read; a null pointer is an empty string.
\<close>
theorem copies_pad:
  assumes "0 \<le> tlen" "tlen < 2 ^ 24" "0 \<le> slen" "t \<le> source \<or> source + nat slen \<le> t"
    and "str_at m source s" "nat slen = length s"
  shows "memcpyp m t tlen source slen pad = (t, store m t (take (nat tlen) s @ replicate (nat (tlen - slen)) (ucast pad))) \<and>
    strcpyp m t tlen (Some source) pad = Some (t, store m t (take (nat tlen) s @ replicate (nat tlen - length s) (ucast pad))) \<and>
    strcpyp m t tlen None pad = Some (t, store m t (replicate (nat tlen) (ucast pad)))"
proof -
  have s: "block m source (nat slen) = s" using assms(5,6) by (simp add: str_at_block)
  have "slen = int (length s)" using assms(3,6) by simp
  then have "nat (tlen - slen) = nat tlen - length s" "strlen m source = Some (length s)" "int (length s) = slen"
    using assms(1) strlen_eq [OF assms(5)] by simp_all
  then show ?thesis using copy_pad_eq [OF assms(1-4), of m pad] copy_pad_eq [OF assms(1,2), of 0 t 0 m pad] s
    by (simp add: memcpyp_def strcpyp_def)
qed

theorem copies_pad_witness:
  "strcpyp (store (\<lambda>a. 0) 0 [0xC9, 0xC5, 0xC6]) 50 5 (Some 0) 0x40 = Some (50, store (store (\<lambda>a. 0) 0 [0xC9, 0xC5, 0xC6]) 50 [0xC9, 0xC5, 0xC6, 0x40, 0x40])"
proof -
  let ?m = "store (\<lambda>a. 0) 0 [0xC9, 0xC5, 0xC6]"
  have "str_at ?m 0 [0xC9, 0xC5, 0xC6]" by (simp add: store_def)
  then have "strcpyp ?m 50 5 (Some 0) 0x40 = Some (50, store ?m 50
      (take (nat 5) [0xC9, 0xC5, 0xC6] @ replicate (nat 5 - length [0xC9, 0xC5, 0xC6 :: byte]) (ucast (0x40 :: i32))))"
    by (intro copies_pad [where slen = 3, THEN conjunct2, THEN conjunct1]) simp_all
  moreover have "take (nat 5) [0xC9, 0xC5, 0xC6] @ replicate (nat 5 - length [0xC9, 0xC5, 0xC6 :: byte]) (ucast (0x40 :: i32)) =
      [0xC9, 0xC5, 0xC6, 0x40, 0x40 :: byte]" by code_simp
  ultimately show ?thesis by (simp only:)
qed

end
