(* ===== verification/Dynalloc.thy ===== *)
theory Dynalloc
  imports Strto
begin

text \<open>
  Dynamic allocation, the text units of an SVC 99 request (\<^verbatim>\<open>src/mvs/dynalloc\<close>): the two functions that build a unit,
  \<^verbatim>\<open>__nwtx99()\<close> and \<^verbatim>\<open>__nwtx9a()\<close>, and the \<^verbatim>\<open>__tx...()\<close> routines that add the units of one parameter to a list.

  A text unit is the list of the bytes of its block of storage.  The list \<^verbatim>\<open>*txt99\<close> is the list of its items, which is what
  \<^verbatim>\<open>arrayadd()\<close> is shown to keep (\<open>Array\<close>); strings are the lists of their bytes without the zero that ends
  them, \<open>None\<close> the null pointer.  Which calls get the storage they ask for is a parameter.
\<close>

section \<open>Strings and storage\<close>

text \<open>The characters of the sources in EBCDIC.\<close>

definition alphabet :: "(char \<times> byte) list" where
  "alphabet = zip ''ABCDEFGHIJKLMNOPQRSTUVWXYZ0123456789=,;(). ''
     [0xC1, 0xC2, 0xC3, 0xC4, 0xC5, 0xC6, 0xC7, 0xC8, 0xC9, 0xD1, 0xD2, 0xD3, 0xD4, 0xD5, 0xD6, 0xD7, 0xD8, 0xD9,
      0xE2, 0xE3, 0xE4, 0xE5, 0xE6, 0xE7, 0xE8, 0xE9, 0xF0, 0xF1, 0xF2, 0xF3, 0xF4, 0xF5, 0xF6, 0xF7, 0xF8, 0xF9,
      0x7E, 0x6B, 0x5E, 0x4D, 0x5D, 0x4B, 0x40]"

definition ebcdic :: "string \<Rightarrow> byte list" where
  "ebcdic s = map (\<lambda>c. the (map_of alphabet c)) s"

abbreviation BLANK :: byte where "BLANK \<equiv> 0x40"
abbreviation DOT :: byte where "DOT \<equiv> 0x4B"
abbreviation LPAREN :: byte where "LPAREN \<equiv> 0x4D"
abbreviation RPAREN :: byte where "RPAREN \<equiv> 0x5D"
abbreviation SEMICOLON :: byte where "SEMICOLON \<equiv> 0x5E"
abbreviation COMMA :: byte where "COMMA \<equiv> 0x6B"
abbreviation EQUALS :: byte where "EQUALS \<equiv> 0x7E"

text \<open>\<^verbatim>\<open>atoi()\<close> of a string that stands alone in storage.\<close>

definition int_of :: "byte list \<Rightarrow> int" where
  "int_of t = sint (the (atoi (store (\<lambda>a. 0) 0 t) 0))"

declare skip_space.simps [code] strto_loop.simps [code]

definition int_or_0 :: "byte list option \<Rightarrow> int" where
  "int_or_0 t = (case t of None \<Rightarrow> 0 | Some t \<Rightarrow> int_of t)"

text \<open>\<^verbatim>\<open>__tok()\<close> of \<^verbatim>\<open>tok.h\<close>, and \<^verbatim>\<open>strtok()\<close>, with the rest of the string in the place of the position: the token and the new position.\<close>

definition tok :: "byte list \<Rightarrow> byte list option \<Rightarrow> byte list option \<times> byte list option" where
  "tok delims old =
     (case old of
        None \<Rightarrow> (None, None)
      | Some p \<Rightarrow>
          let len = length (takeWhile (\<lambda>b. b \<in> set delims) p)
          in if length p \<le> len then (None, None)
             else
               let p = drop len p;
                   len = length (takeWhile (\<lambda>b. b \<notin> set delims) p)
               in if length p \<le> len then (Some p, None) else (Some (take len p), Some (drop (len + 1) p)))"

lemma tok_shorter: "tok ds (Some p) = (Some t, Some q) \<Longrightarrow> length q < length p"
  by (auto simp: tok_def Let_def split: if_splits)

function tok_all :: "byte list \<Rightarrow> byte list option \<Rightarrow> byte list list" where
  "tok_all delims old = (case tok delims old of (None, old) \<Rightarrow> [] | (Some t, old) \<Rightarrow> t # tok_all delims old)"
  by pat_completeness auto
termination
proof (relation "measure (\<lambda>(ds, old). case old of None \<Rightarrow> 0 | Some p \<Rightarrow> Suc (length p))", goal_cases)
  case (2 ds old r old' t)
  then show ?case using tok_shorter [of ds _ t] by (cases old; cases old') (auto simp: tok_def)
qed simp

declare tok_all.simps [simp del]

text \<open>\<^verbatim>\<open>memcmp(entry, t, strlen(t)) == 0\<close> for an entry that ends with a zero.\<close>

definition starts_as :: "byte list \<Rightarrow> byte list \<Rightarrow> bool" where
  "starts_as t entry \<longleftrightarrow> take (length t) (entry @ [0]) = t"

text \<open>
  The state: how many calls have asked for storage, and the text units of the list.  \<open>st n\<close> says whether the call numbered \<open>n\<close>
  gets its storage.
\<close>

record dyn =
  asked :: nat
  tunits :: "byte list list"

type_synonym storage = "nat \<Rightarrow> bool"
type_synonym builder = "storage \<Rightarrow> byte list option \<Rightarrow> dyn \<Rightarrow> int \<times> dyn"

definition ask :: "storage \<Rightarrow> dyn \<Rightarrow> bool \<times> dyn" where
  "ask st s = (st (asked s), s\<lparr>asked := asked s + 1\<rparr>)"

definition arrayadd_unit :: "storage \<Rightarrow> byte list \<Rightarrow> dyn \<Rightarrow> int \<times> dyn" where
  "arrayadd_unit st u s = (case ask st s of (granted, s) \<Rightarrow> if granted then (0, s\<lparr>tunits := tunits s @ [u]\<rparr>) else (- 1, s))"

section \<open>Text units\<close>

text \<open>Numbers of the machine in storage.\<close>

definition halfword :: "int \<Rightarrow> byte list" where
  "halfword i = (let w = word_of_int i :: u16 in [ucast (drop_bit 8 w), ucast w])"

definition fullword :: "int \<Rightarrow> byte list" where
  "fullword i = (let w = word_of_int i :: u32 in [ucast (drop_bit 24 w), ucast (drop_bit 16 w), ucast (drop_bit 8 w), ucast w])"

text \<open>\<open>n\<close> bytes copied from a string that ends with a zero.\<close>

definition copied :: "nat \<Rightarrow> byte list \<Rightarrow> byte list" where
  "copied n t = take n (t @ replicate n 0)"

text \<open>
  \<^verbatim>\<open>struct txt99\<close> has 8 bytes, of which three halfwords, the first byte of the text and one byte of padding; \<^verbatim>\<open>calloc()\<close> clears
  the block.
\<close>

definition nwtx99 :: "storage \<Rightarrow> int \<Rightarrow> int \<Rightarrow> int \<Rightarrow> byte list option \<Rightarrow> dyn \<Rightarrow> byte list option \<times> dyn" where
  "nwtx99 st dal count sz t s =
     (let bytes = nat (count * sz)
      in case ask st s of (granted, s) \<Rightarrow>
           (if granted
            then Some (halfword dal @ halfword count @ halfword sz @
                       (case t of None \<Rightarrow> replicate bytes 0 | Some t \<Rightarrow> copied bytes t) @ replicate 2 0)
            else None, s))"

text \<open>The sizes and texts one behind the other from the field \<^verbatim>\<open>size\<close> on; a null pointer leaves a size of 0.\<close>

definition next_text :: "byte list option \<Rightarrow> byte list" where
  "next_text t = (case t of None \<Rightarrow> halfword 0 | Some t \<Rightarrow> halfword (int (length t)) @ t)"

definition text_len :: "byte list option \<Rightarrow> nat" where
  "text_len t = (case t of None \<Rightarrow> 0 | Some t \<Rightarrow> length t)"

definition nwtx9a :: "storage \<Rightarrow> int \<Rightarrow> byte list option list \<Rightarrow> dyn \<Rightarrow> byte list option \<times> dyn" where
  "nwtx9a st dal array s =
     (let len = sum_list (map text_len array);
          bytes = length array * 2 + len;
          texts = concat (map next_text array)
      in case ask st s of (granted, s) \<Rightarrow>
           (if granted
            then Some (halfword dal @ halfword (int (length array)) @ texts @ replicate (4 + bytes - length texts) 0)
            else None, s))"

text \<open>The arguments of \<^verbatim>\<open>__nwtx9s()\<close> behind a null pointer are not read.\<close>

definition nwtx9s :: "storage \<Rightarrow> int \<Rightarrow> byte list option list \<Rightarrow> dyn \<Rightarrow> byte list option \<times> dyn" where
  "nwtx9s st dal args s =
     (let array = takeWhile (\<lambda>t. t \<noteq> None) args;
          len = sum_list (map text_len array);
          bytes = length args * 2 + len;
          texts = concat (map next_text array)
      in case ask st s of (granted, s) \<Rightarrow>
           (if granted
            then Some (halfword dal @ halfword (int (length args)) @ texts @ replicate (4 + bytes - length texts) 0)
            else None, s))"

text \<open>The steps the routines share: a unit built with \<^verbatim>\<open>__nwtx99()\<close> is added, and the result is that of \<^verbatim>\<open>arrayadd()\<close>, or 1.\<close>

definition add_unit :: "storage \<Rightarrow> int \<Rightarrow> int \<Rightarrow> int \<Rightarrow> byte list option \<Rightarrow> dyn \<Rightarrow> int \<times> dyn" where
  "add_unit st dal count sz t s =
     (case nwtx99 st dal count sz t s of (None, s) \<Rightarrow> (1, s) | (Some tu, s) \<Rightarrow> arrayadd_unit st tu s)"

definition add_unit_or_1 :: "storage \<Rightarrow> int \<Rightarrow> int \<Rightarrow> int \<Rightarrow> byte list option \<Rightarrow> dyn \<Rightarrow> int \<times> dyn" where
  "add_unit_or_1 st dal count sz t s =
     (case add_unit st dal count sz t s of (err, s) \<Rightarrow> (if err \<noteq> 0 then 1 else 0, s))"

text \<open>The keys of \<^verbatim>\<open>iefzb4d2.h\<close>.\<close>

definition DALDDNAM :: int where "DALDDNAM = 0x0001"
definition DALDSNAM :: int where "DALDSNAM = 0x0002"
definition DALMEMBR :: int where "DALMEMBR = 0x0003"
definition DALSTATS :: int where "DALSTATS = 0x0004"
definition DALNDISP :: int where "DALNDISP = 0x0005"
definition DALCDISP :: int where "DALCDISP = 0x0006"
definition DALTRK :: int where "DALTRK = 0x0007"
definition DALCYL :: int where "DALCYL = 0x0008"
definition DALBLKLN :: int where "DALBLKLN = 0x0009"
definition DALPRIME :: int where "DALPRIME = 0x000A"
definition DALSECND :: int where "DALSECND = 0x000B"
definition DALDIR :: int where "DALDIR = 0x000C"
definition DALRLSE :: int where "DALRLSE = 0x000D"
definition DALROUND :: int where "DALROUND = 0x000F"
definition DALVLSER :: int where "DALVLSER = 0x0010"
definition DALPRIVT :: int where "DALPRIVT = 0x0011"
definition DALVLSEQ :: int where "DALVLSEQ = 0x0012"
definition DALVLCNT :: int where "DALVLCNT = 0x0013"
definition DALUNIT :: int where "DALUNIT = 0x0015"
definition DALUNCNT :: int where "DALUNCNT = 0x0016"
definition DALPARAL :: int where "DALPARAL = 0x0017"
definition DALSYSOU :: int where "DALSYSOU = 0x0018"
definition DALSPGNM :: int where "DALSPGNM = 0x0019"
definition DALSFMNO :: int where "DALSFMNO = 0x001A"
definition DALCLOSE :: int where "DALCLOSE = 0x001C"
definition DALCOPYS :: int where "DALCOPYS = 0x001D"
definition DALLABEL :: int where "DALLABEL = 0x001E"
definition DALDSSEQ :: int where "DALDSSEQ = 0x001F"
definition DALINOUT :: int where "DALINOUT = 0x0021"
definition DALEXPDT :: int where "DALEXPDT = 0x0022"
definition DALRETPD :: int where "DALRETPD = 0x0023"
definition DALDUMMY :: int where "DALDUMMY = 0x0024"
definition DALFCBIM :: int where "DALFCBIM = 0x0025"
definition DALFCBAV :: int where "DALFCBAV = 0x0026"
definition DALTERM :: int where "DALTERM = 0x0028"
definition DALUCS :: int where "DALUCS = 0x0029"
definition DALUFOLD :: int where "DALUFOLD = 0x002A"
definition DALUVRFY :: int where "DALUVRFY = 0x002B"
definition DALDCBDS :: int where "DALDCBDS = 0x002C"
definition DALBFALN :: int where "DALBFALN = 0x002E"
definition DALBFTEK :: int where "DALBFTEK = 0x002F"
definition DALBLKSZ :: int where "DALBLKSZ = 0x0030"
definition DALBUFL :: int where "DALBUFL = 0x0032"
definition DALBUFNO :: int where "DALBUFNO = 0x0034"
definition DALBUFOF :: int where "DALBUFOF = 0x0035"
definition DALDEN :: int where "DALDEN = 0x003B"
definition DALDSORG :: int where "DALDSORG = 0x003C"
definition DALEROPT :: int where "DALEROPT = 0x003D"
definition DALKYLEN :: int where "DALKYLEN = 0x0040"
definition DALLIMCT :: int where "DALLIMCT = 0x0041"
definition DALLRECL :: int where "DALLRECL = 0x0042"
definition DALNCP :: int where "DALNCP = 0x0044"
definition DALRECFM :: int where "DALRECFM = 0x0049"
definition DALTRTCH :: int where "DALTRTCH = 0x004F"
definition DALPERMA :: int where "DALPERMA = 0x0052"
definition DALRTDDN :: int where "DALRTDDN = 0x0055"
definition DALSUSER :: int where "DALSUSER = 0x0058"
definition DALSHOLD :: int where "DALSHOLD = 0x0059"
definition DALPROT :: int where "DALPROT = 0x0061"
definition DALUSRID :: int where "DALUSRID = 0x0063"
definition DUNUNALC :: int where "DUNUNALC = 0x0007"

lemmas key_defs =
  DALDDNAM_def DALDSNAM_def DALMEMBR_def DALSTATS_def DALNDISP_def DALCDISP_def DALTRK_def DALCYL_def
  DALBLKLN_def DALPRIME_def DALSECND_def DALDIR_def DALRLSE_def DALROUND_def DALVLSER_def DALPRIVT_def
  DALVLSEQ_def DALVLCNT_def DALUNIT_def DALUNCNT_def DALPARAL_def DALSYSOU_def DALSPGNM_def DALSFMNO_def
  DALCLOSE_def DALCOPYS_def DALLABEL_def DALDSSEQ_def DALINOUT_def DALEXPDT_def DALRETPD_def DALDUMMY_def
  DALFCBIM_def DALFCBAV_def DALTERM_def DALUCS_def DALUFOLD_def DALUVRFY_def DALDCBDS_def DALBFALN_def
  DALBFTEK_def DALBLKSZ_def DALBUFL_def DALBUFNO_def DALBUFOF_def DALDEN_def DALDSORG_def DALEROPT_def
  DALKYLEN_def DALLIMCT_def DALLRECL_def DALNCP_def DALRECFM_def DALTRTCH_def DALPERMA_def
  DALRTDDN_def DALSUSER_def DALSHOLD_def DALPROT_def DALUSRID_def DUNUNALC_def

section \<open>Parameters without a value\<close>

definition txnew :: builder where "txnew st unused s = add_unit_or_1 st DALSTATS 1 1 (Some [0x04]) s"
definition txold :: builder where "txold st unused s = add_unit_or_1 st DALSTATS 1 1 (Some [0x01]) s"
definition txmod :: builder where "txmod st unused s = add_unit_or_1 st DALSTATS 1 1 (Some [0x02]) s"
definition txshr :: builder where "txshr st unused s = add_unit_or_1 st DALSTATS 1 1 (Some [0x08]) s"
definition txkeep :: builder where "txkeep st unused s = add_unit st DALNDISP 1 1 (Some [0x08]) s"
definition txdel :: builder where "txdel st unused s = add_unit st DALNDISP 1 1 (Some [0x04]) s"
definition txcat :: builder where "txcat st unused s = add_unit st DALNDISP 1 1 (Some [0x02]) s"
definition txucat :: builder where "txucat st unused s = add_unit st DALNDISP 1 1 (Some [0x01]) s"
definition txakee :: builder where "txakee st unused s = add_unit st DALCDISP 1 1 (Some [0x08]) s"
definition txadel :: builder where "txadel st unused s = add_unit st DALCDISP 1 1 (Some [0x04]) s"
definition txacat :: builder where "txacat st unused s = add_unit st DALCDISP 1 1 (Some [0x02]) s"
definition txauca :: builder where "txauca st unused s = add_unit st DALCDISP 1 1 (Some [0x01]) s"
definition txinpu :: builder where "txinpu st unused s = add_unit st DALINOUT 1 1 (Some [0x80]) s"
definition txoutp :: builder where "txoutp st unused s = add_unit st DALINOUT 1 1 (Some [0x40]) s"
definition txrddn :: builder where "txrddn st unused s = add_unit st DALRTDDN 1 8 None s"
definition txclos :: builder where "txclos st unused s = add_unit_or_1 st DALCLOSE 0 0 None s"
definition txcyl :: builder where "txcyl st unused s = add_unit st DALCYL 0 0 None s"
definition txdmy :: builder where "txdmy st unused s = add_unit st DALDUMMY 0 0 None s"
definition txhold :: builder where "txhold st unused s = add_unit st DALSHOLD 0 0 None s"
definition txpara :: builder where "txpara st unused s = add_unit st DALPARAL 0 0 None s"
definition txperm :: builder where "txperm st unused s = add_unit st DALPERMA 0 0 None s"
definition txpriv :: builder where "txpriv st unused s = add_unit st DALPRIVT 0 0 None s"
definition txprot :: builder where "txprot st unused s = add_unit st DALPROT 0 0 None s"
definition txrlse :: builder where "txrlse st unused s = add_unit st DALRLSE 0 0 None s"
definition txrnd :: builder where "txrnd st unused s = add_unit st DALROUND 0 0 None s"
definition txterm :: builder where "txterm st unused s = add_unit st DALTERM 0 0 None s"
definition txtrk :: builder where "txtrk st unused s = add_unit st DALTRK 0 0 None s"
definition txunal :: builder where "txunal st unused s = add_unit st DUNUNALC 0 0 None s"

section \<open>Numbers\<close>

text \<open>\<^verbatim>\<open>&p[4-k]\<close> where \<^verbatim>\<open>p\<close> is the address of an int: its \<open>k\<close> low-order bytes.\<close>

definition low_bytes :: "nat \<Rightarrow> int \<Rightarrow> byte list" where
  "low_bytes k len = drop (4 - k) (fullword len)"

definition txbksz :: builder where
  "txbksz st blksize s =
     (let len = int_or_0 blksize;
          len = (if len > 32760 then 32760 else len)
      in if len > 0 then add_unit st DALBLKSZ 1 2 (Some (low_bytes 2 len)) s else (1, s))"

definition txblk :: builder where
  "txblk st blocks s =
     (let len = int_or_0 blocks in if len \<noteq> 0 then add_unit st DALBLKLN 1 3 (Some (low_bytes 3 len)) s else (1, s))"

definition txbufl :: builder where
  "txbufl st len_text s =
     (let len = int_or_0 len_text;
          len = (if len > 32760 then 32760 else len)
      in if len > 0 then add_unit st DALBUFL 1 2 (Some (low_bytes 2 len)) s else (1, s))"

definition txbufn :: builder where
  "txbufn st bufno s =
     (let len = int_or_0 bufno;
          len = (if len > 255 then 255 else len)
      in if len > 0 then add_unit st DALBUFNO 1 1 (Some (low_bytes 1 len)) s else (1, s))"

definition txbufo :: builder where
  "txbufo st offset s =
     (let len = int_or_0 offset;
          len = (if len = 0 \<and> offset = Some (ebcdic ''L'') then 0x80 else len)
      in if 0 \<le> len \<and> len \<le> 99 \<or> len = 0x80 then add_unit st DALBUFOF 1 1 (Some (low_bytes 1 len)) s else (1, s))"

definition txcopy :: builder where
  "txcopy st copies s =
     (let len = int_or_0 copies
      in if len \<ge> 1 \<and> len \<le> 255 then add_unit st DALCOPYS 1 1 (Some (low_bytes 1 len)) s else (1, s))"

definition txdir :: builder where
  "txdir st pds_dir s =
     (let len = int_or_0 pds_dir in if len \<noteq> 0 then add_unit st DALDIR 1 3 (Some (low_bytes 3 len)) s else (1, s))"

definition txkeyl :: builder where
  "txkeyl st len_text s =
     (let len = int_or_0 len_text
      in if len \<ge> 0 \<and> len \<le> 255 then add_unit st DALKYLEN 1 1 (Some (low_bytes 1 len)) s else (1, s))"

definition txlmct :: builder where
  "txlmct st limit s =
     (let len = int_or_0 limit;
          len = (if len > 32760 then 32760 else len)
      in if len > 0 then add_unit st DALLIMCT 1 3 (Some (low_bytes 3 len)) s else (1, s))"

definition txlrec :: builder where
  "txlrec st lrecl s =
     (let len = int_or_0 lrecl
      in case lrecl of
           None \<Rightarrow> (1, s)
         | Some t \<Rightarrow>
             let len = (if hd (ebcdic ''X'') \<in> set t then 0x8000
                        else if hd (ebcdic ''K'') \<in> set t
                             then let len = int32 (len * 1024) in if len > 32760 then 32760 else len
                        else if len > 32760 then 32760 else len)
             in add_unit st DALLRECL 1 2 (Some (low_bytes 2 len)) s)"

definition txncp :: builder where
  "txncp st count s =
     (let len = int_or_0 count
      in if len \<ge> 1 \<and> len \<le> 255 then add_unit st DALNCP 1 1 (Some (low_bytes 1 len)) s else (1, s))"

definition txretp :: builder where
  "txretp st days s =
     (let len = int_or_0 days
      in if len \<ge> 1 \<and> len \<le> 93000 then add_unit st DALRETPD 1 3 (Some (low_bytes 3 len)) s else (1, s))"

definition txseq :: builder where
  "txseq st sequence s =
     (let len = int_or_0 sequence
      in if len \<ge> 1 \<and> len \<le> 9999 then add_unit st DALDSSEQ 1 2 (Some (low_bytes 2 len)) s else (1, s))"

definition txunct :: builder where
  "txunct st count s =
     (let len = int_or_0 count in if len > 0 then add_unit st DALUNCNT 1 1 (Some (low_bytes 1 len)) s else (1, s))"

definition txvlct :: builder where
  "txvlct st max_vols s =
     (let len = int_or_0 max_vols
      in if len \<ge> 1 \<and> len \<le> 255 then add_unit st DALVLCNT 1 1 (Some (low_bytes 1 len)) s else (1, s))"

definition txvseq :: builder where
  "txvseq st sequence s =
     (let len = int_or_0 sequence
      in if len \<ge> 1 \<and> len \<le> 255 then add_unit st DALVLSEQ 1 2 (Some (low_bytes 2 len)) s else (1, s))"

section \<open>Choices from a table\<close>

text \<open>The searches with \<^verbatim>\<open>strcmp()\<close> and with \<^verbatim>\<open>memcmp()\<close>: the value of the first entry.\<close>

fun by_name :: "(string \<times> int) list \<Rightarrow> byte list \<Rightarrow> int option" where
  "by_name [] t = None"
| "by_name ((n, v) # es) t = (if ebcdic n = t then Some v else by_name es t)"

fun by_prefix :: "(string \<times> int) list \<Rightarrow> byte list \<Rightarrow> int option" where
  "by_prefix [] t = None"
| "by_prefix ((n, v) # es) t = (if starts_as t (ebcdic n) then Some v else by_prefix es t)"

definition densities :: "(string \<times> int) list" where
  "densities = [(''200'', 0x03), (''556'', 0x43), (''800'', 0x83), (''1600'', 0xC3), (''6250'', 0xD3)]"

definition error_options :: "(string \<times> int) list" where
  "error_options = [(''BSAM'', 0x10), (''TEST'', 0x10), (''ABEND'', 0x20), (''SKIP'', 0x40), (''SKP'', 0x40), (''ACCEPT'', 0x80)]"

definition organizations :: "(string \<times> int) list" where
  "organizations =
     [(''CQ'', 0x0800), (''CX'', 0x1000), (''DA'', 0x2000), (''DAU'', 0x2100), (''GS'', 0x0080), (''MQ'', 0x0400), (''PO'', 0x0200),
      (''POU'', 0x0300), (''PS'', 0x4000), (''PSU'', 0x4100), (''TCAM'', 0x0004), (''3705'', 0x0004), (''TQ'', 0x0020), (''TX'', 0x0040),
      (''VSAM'', 0x0008)]"

definition techniques :: "(string \<times> int) list" where
  "techniques = [(''DYNAMIC'', 0x08), (''EXCHANGE'', 0x10), (''RECORD'', 0x20), (''SIMPLE'', 0x40), (''AREA'', 0x60)]"

definition label_types :: "(string \<times> int) list" where
  "label_types =
     [(''NL'', 0x01), (''SL'', 0x02), (''NSL'', 0x04), (''SUL'', 0x0A), (''BLP'', 0x10), (''LTM'', 0x21), (''AL'', 0x40), (''AUL'', 0x48)]"

definition recordings :: "(string \<times> int) list" where
  "recordings = [(''C'', 0x13), (''COMP'', 0x08), (''E'', 0x23), (''ET'', 0x2B), (''NOCOMP'', 0x04), (''T'', 0x3B)]"

definition txden :: builder where
  "txden st density s =
     (case Option.bind density (by_name densities) of None \<Rightarrow> (1, s) | Some v \<Rightarrow> add_unit st DALDEN 1 1 (Some [word_of_int v]) s)"

definition txerop :: builder where
  "txerop st opt s =
     (case Option.bind opt (by_name error_options) of None \<Rightarrow> (1, s) | Some v \<Rightarrow> add_unit st DALEROPT 1 1 (Some [word_of_int v]) s)"

definition txorg :: builder where
  "txorg st dsorg s =
     (case Option.bind dsorg (by_name organizations) of None \<Rightarrow> (1, s) | Some v \<Rightarrow> add_unit st DALDSORG 1 2 (Some (halfword v)) s)"

definition txbfte :: builder where
  "txbfte st technique s =
     (case technique of
        None \<Rightarrow> (1, s)
      | Some t \<Rightarrow>
          if t = [] then (1, s)
          else case by_prefix techniques t of None \<Rightarrow> (1, s) | Some v \<Rightarrow> add_unit st DALBFTEK 1 1 (Some [word_of_int v]) s)"

definition txlabe :: builder where
  "txlabe st label s =
     (case label of
        None \<Rightarrow> (1, s)
      | Some t \<Rightarrow>
          if length t \<le> 1 then (1, s)
          else case by_prefix label_types t of None \<Rightarrow> (1, s) | Some v \<Rightarrow> add_unit st DALLABEL 1 1 (Some [word_of_int v]) s)"

definition txtrtc :: builder where
  "txtrtc st trtch s =
     (case trtch of
        None \<Rightarrow> (1, s)
      | Some t \<Rightarrow>
          if t = [] then (1, s)
          else case by_prefix recordings t of None \<Rightarrow> (1, s) | Some v \<Rightarrow> add_unit st DALTRTCH 1 1 (Some [word_of_int v]) s)"

definition txbfal :: builder where
  "txbfal st align s =
     (case align of
        None \<Rightarrow> (1, s)
      | Some t \<Rightarrow>
          if t = [] then (1, s)
          else if starts_as t (ebcdic ''FULL'') then add_unit st DALBFALN 1 1 (Some [0x01]) s
          else if starts_as t (ebcdic ''DOUBLE'') then add_unit st DALBFALN 1 1 (Some [0x02]) s
          else (1, s))"

text \<open>\<^verbatim>\<open>type |= table[j].type\<close> for the first entry of each letter, folded to upper case with the bit of the blank.\<close>

definition formats :: "(string \<times> int) list" where
  "formats =
     [(''M'', 0x02), (''R'', 0x02), (''A'', 0x04), (''G'', 0x04), (''S'', 0x08), (''B'', 0x10), (''D'', 0x20), (''T'', 0x20), (''V'', 0x40),
      (''F'', 0x80), (''U'', 0xC0)]"

fun recfm_type :: "byte list \<Rightarrow> byte \<Rightarrow> byte" where
  "recfm_type [] ty = ty"
| "recfm_type (c # cs) ty =
     recfm_type cs (case by_name formats [c OR BLANK] of None \<Rightarrow> ty | Some v \<Rightarrow> ty OR word_of_int v)"

definition txrecf :: builder where
  "txrecf st recfm s =
     (case recfm of
        None \<Rightarrow> (1, s)
      | Some t \<Rightarrow> let ty = recfm_type t 0 in if ty = 0 then (1, s) else add_unit st DALRECFM 1 1 (Some [ty]) s)"

section \<open>Names and texts\<close>

definition txddn :: builder where
  "txddn st ddname s = (case ddname of None \<Rightarrow> (1, s) | Some t \<Rightarrow> add_unit st DALDDNAM 1 (int (length t)) (Some t) s)"

definition txdcbd :: builder where
  "txdcbd st dataset s =
     (case dataset of
        None \<Rightarrow> (1, s)
      | Some t \<Rightarrow> if length t = 0 \<or> length t > 44 then (1, s) else add_unit st DALDCBDS 1 (int (length t)) (Some t) s)"

text \<open>The name and the text between the first \<^verbatim>\<open>(\<close> and the \<^verbatim>\<open>)\<close> behind it.\<close>

definition txdsn :: builder where
  "txdsn st dataset s =
     (case dataset of
        None \<Rightarrow> (1, s)
      | Some t \<Rightarrow>
          if length t \<ge> 80 then (1, s)
          else
            let dsn = takeWhile (\<lambda>b. b \<noteq> LPAREN) t;
                member = takeWhile (\<lambda>b. b \<noteq> RPAREN) (drop (length dsn + 1) t);
                (err, s) = (if LPAREN \<in> set t then add_unit_or_1 st DALMEMBR 1 (int (length member)) (Some member) s else (0, s))
            in if err \<noteq> 0 then (err, s) else add_unit st DALDSNAM 1 (int (length dsn)) (Some dsn) s)"

definition txdest :: builder where
  "txdest st dest s =
     (case dest of
        None \<Rightarrow> (1, s)
      | Some t \<Rightarrow>
          if DOT \<in> set t then
            if length t \<ge> 40 then (1, s)
            else
              let node = takeWhile (\<lambda>b. b \<noteq> DOT) t;
                  user = drop (length node + 1) t;
                  (err, s) = add_unit_or_1 st DALUSRID 1 (int (length user)) (Some user) s
              in if err \<noteq> 0 then (err, s) else add_unit_or_1 st DALSUSER 1 (int (length node)) (Some node) s
          else add_unit_or_1 st DALSUSER 1 (int (length t)) (Some t) s)"

definition txexpd :: builder where
  "txexpd st yyddd s =
     (case yyddd of None \<Rightarrow> (1, s) | Some t \<Rightarrow> if length t = 5 then add_unit st DALEXPDT 1 (int (length t)) (Some t) s else (1, s))"

definition txfcb :: builder where
  "txfcb st fcb s =
     (case fcb of
        None \<Rightarrow> (1, s)
      | Some t \<Rightarrow>
          if t = [] then (1, s)
          else if t = ebcdic ''ALIGN'' then add_unit st DALFCBAV 1 1 (Some [0x08]) s
          else if t = ebcdic ''VERIFY'' then add_unit st DALFCBAV 1 1 (Some [0x04]) s
          else add_unit st DALFCBIM 1 (int (length t)) (Some t) s)"

definition txform :: builder where
  "txform st form s =
     (case form of
        None \<Rightarrow> (1, s)
      | Some t \<Rightarrow> if 1 \<le> length t \<and> length t \<le> 4 then add_unit st DALSFMNO 1 (int (length t)) (Some t) s else (1, s))"

definition txpgm :: builder where
  "txpgm st pgm s =
     (case pgm of
        None \<Rightarrow> (1, s)
      | Some t \<Rightarrow> if 1 \<le> length t \<and> length t \<le> 8 then add_unit st DALSPGNM 1 (int (length t)) (Some t) s else (1, s))"

definition txsyso :: builder where
  "txsyso st out_class s =
     (case out_class of
        None \<Rightarrow> add_unit_or_1 st DALSYSOU 0 0 None s
      | Some t \<Rightarrow> add_unit_or_1 st DALSYSOU 1 1 (Some t) s)"

definition txucs :: builder where
  "txucs st name s =
     (case name of
        None \<Rightarrow> (1, s)
      | Some t \<Rightarrow>
          if t = [] then (1, s)
          else if t = ebcdic ''FOLD'' then add_unit st DALUFOLD 0 0 None s
          else if t = ebcdic ''VERIFY'' then add_unit st DALUVRFY 0 0 None s
          else add_unit st DALUCS 1 (int (length t)) (Some t) s)"

definition txunit :: builder where
  "txunit st unit_name s =
     (case unit_name of
        None \<Rightarrow> (1, s)
      | Some t \<Rightarrow> if t = [] then (1, s) else add_unit st DALUNIT 1 (int (length t)) (Some t) s)"

section \<open>Lists in a text\<close>

text \<open>
  The volume serials are collected in an array of their own; the result of its \<^verbatim>\<open>arrayadd()\<close> is not looked at.  Both routines copy
  their text into a block of storage first.
\<close>

fun collect :: "storage \<Rightarrow> byte list list \<Rightarrow> byte list option list \<Rightarrow> dyn \<Rightarrow> byte list option list \<times> dyn" where
  "collect st [] tmp s = (tmp, s)"
| "collect st (p # ps) tmp s = (case ask st s of (granted, s) \<Rightarrow> collect st ps (if granted then tmp @ [Some p] else tmp) s)"

definition txvols :: builder where
  "txvols st vols s =
     (let t = (case vols of None \<Rightarrow> [] | Some t \<Rightarrow> t);
          (buf, s) = ask st s
      in if t = [] \<or> \<not> buf then (1, s)
         else
           let (tmp, s) = collect st (tok_all (ebcdic '' ,'') (Some t)) [] s
           in if tmp = [] then (1, s)
              else case nwtx9a st DALVLSER tmp s of (None, s) \<Rightarrow> (1, s) | (Some tu, s) \<Rightarrow> arrayadd_unit st tu s)"

definition txspac :: builder where
  "txspac st space s =
     (let t = (case space of None \<Rightarrow> [] | Some t \<Rightarrow> t);
          (buf, s) = ask st s
      in if t = [] \<or> \<not> buf then (1, s)
         else
           let (prim, tok_save) = tok (ebcdic '' ,'') (Some t);
               (sec, tok_save) = tok (ebcdic '','') tok_save;
               (dir, tok_save) = tok [] tok_save;
               (err, s) = add_unit st DALPRIME 1 3 (Some (low_bytes 3 (int_or_0 prim))) s
           in if err \<noteq> 0 then (err, s)
              else
                case nwtx99 st DALSECND 1 3 (Some (low_bytes 3 (int_or_0 sec))) s of
                  (None, s) \<Rightarrow> (1, s)
                | (Some tu, s) \<Rightarrow>
                    let (err, s) = arrayadd_unit st tu s;
                        len = int_or_0 dir
                    in if len \<noteq> 0 then add_unit st DALDIR 1 3 (Some (low_bytes 3 len)) s else (err, s))"

end
