(* ===== verification/Dynalloc_Units.thy ===== *)
theory Dynalloc_Units
  imports Dynalloc
begin

text \<open>
  What the routines of \<open>Dynalloc\<close> put into the list: SVC 99 reads each unit as the key and the texts it was built from, every
  routine adds well-formed units or fails, and the numbers are those of the decimal text.
\<close>

section \<open>How SVC 99 reads a text unit\<close>

text \<open>The layout of the reference manual: the key, the number of values, and for each its length and its bytes.\<close>

definition number_of :: "byte list \<Rightarrow> nat" where
  "number_of bs = foldl (\<lambda>n b. n * 256 + unat b) 0 bs"

fun values_of :: "nat \<Rightarrow> byte list \<Rightarrow> byte list list option" where
  "values_of 0 bs = Some []"
| "values_of (Suc n) bs =
     (if length bs < 2 then None
      else
        let k = number_of (take 2 bs); bs = drop 2 bs
        in if k \<le> length bs then map_option (Cons (take k bs)) (values_of n (drop k bs)) else None)"

definition read_unit :: "byte list \<Rightarrow> (nat \<times> byte list list) option" where
  "read_unit u =
     (if length u < 4 then None
      else map_option (Pair (number_of (take 2 u))) (values_of (number_of (take 2 (drop 2 u))) (drop 4 u)))"

section \<open>Numbers in storage\<close>

lemma unat16_of_int: "unat (word_of_int i :: u16) = nat (i mod 65536)"
  by (simp add: unsigned_of_int take_bit_eq_mod)
lemma unat32_mod: "unat (word_of_int i :: u32) = nat (i mod 4294967296)"
  by (simp add: unsigned_of_int take_bit_eq_mod)
lemma byte_of_word: "unat (ucast (drop_bit n w) :: byte) = unat (w :: 'a::len word) div 2 ^ n mod 256"
  by (simp add: unat_bit_simps)
lemma low_byte_of_word: "unat (ucast w :: byte) = unat (w :: 'a::len word) mod 256"
  by (simp add: unat_bit_simps)
lemma number_of_Cons4: "number_of [a] = unat a" "number_of [a, b] = unat a * 256 + unat b"
  "number_of [a, b, c] = (unat a * 256 + unat b) * 256 + unat c"
  by (simp_all add: number_of_def)



lemma mod_bytes2: "n div 2 ^ 8 mod 256 * 256 + n mod 256 = n mod (65536 :: nat)"
  using mod_mult2_eq [of n 256 256] by simp

lemma mod_bytes3: "(n div 2 ^ 16 mod 256 * 256 + n div 2 ^ 8 mod 256) * 256 + n mod 256 = n mod (16777216 :: nat)"
proof -
  have "n mod (65536 * 256) = 65536 * (n div 65536 mod 256) + n mod 65536" by (rule mod_mult2_eq)
  then show ?thesis unfolding mod_bytes2 [symmetric] by (simp add: algebra_simps)
qed

lemma number_of_halfword: "number_of (halfword i) = nat (i mod 65536)"
proof -
  define w where "w = (word_of_int i :: u16)"
  have "number_of (halfword i) = unat w div 2 ^ 8 mod 256 * 256 + unat w mod 256"
    unfolding halfword_def Let_def w_def [symmetric] number_of_Cons4 byte_of_word unfolding low_byte_of_word ..
  also have "\<dots> = unat w" unfolding mod_bytes2 by simp
  finally show ?thesis unfolding w_def unat16_of_int .
qed

lemma mod_int_nat: "m dvd k \<Longrightarrow> 0 < m \<Longrightarrow> 0 < k \<Longrightarrow> nat (i mod int k) mod m = nat (i mod int m)"
proof -
  assume "m dvd k" "0 < m" "0 < k"
  then have "int m dvd int k" by simp
  have "nat (i mod int k) mod m = nat (i mod int k mod int m)"
    using \<open>0 < k\<close> by (simp add: nat_mod_distrib)
  also have "i mod int k mod int m = i mod int m" by (rule mod_mod_cancel) fact
  finally show ?thesis .
qed

lemma low_bytes_eqs:
  "low_bytes 1 i = [ucast w]" "low_bytes 2 i = [ucast (drop_bit 8 w), ucast w]"
  "low_bytes 3 i = [ucast (drop_bit 16 w), ucast (drop_bit 8 w), ucast w]" if "w = (word_of_int i :: u32)"
  using that by (simp_all add: low_bytes_def fullword_def Let_def numeral_eq_Suc)

lemma number_of_low_bytes:
  "number_of (low_bytes 1 i) = nat (i mod 256)" "number_of (low_bytes 2 i) = nat (i mod 65536)"
  "number_of (low_bytes 3 i) = nat (i mod 16777216)"
proof -
  define w where "w = (word_of_int i :: u32)"
  have w: "unat w = nat (i mod int 4294967296)" unfolding w_def unat32_mod by simp
  note e = low_bytes_eqs [OF w_def] number_of_Cons4 byte_of_word
  show "number_of (low_bytes 1 i) = nat (i mod 256)" unfolding e unfolding low_byte_of_word w using mod_int_nat [of 256 4294967296 i] by simp
  show "number_of (low_bytes 2 i) = nat (i mod 65536)" unfolding e unfolding low_byte_of_word mod_bytes2 w using mod_int_nat [of 65536 4294967296 i] by simp
  show "number_of (low_bytes 3 i) = nat (i mod 16777216)" unfolding e unfolding low_byte_of_word mod_bytes3 w using mod_int_nat [of 16777216 4294967296 i] by simp
qed

lemma halfword_length [simp]: "length (halfword i) = 2"
  by (simp add: halfword_def Let_def)

lemma low_bytes_length: "k \<le> 4 \<Longrightarrow> length (low_bytes k i) = k"
  by (simp add: low_bytes_def fullword_def Let_def)

section \<open>Units read back\<close>

lemma values_of_halfword:
  "values_of (Suc n) (halfword k @ bs) =
     (if nat (k mod 65536) \<le> length bs
      then map_option (Cons (take (nat (k mod 65536)) bs)) (values_of n (drop (nat (k mod 65536)) bs)) else None)"
  by (simp add: number_of_halfword Let_def)

lemma values_of_texts:
  "list_all (\<lambda>t. text_len t < 65536) array \<Longrightarrow>
     values_of (length array) (concat (map next_text array) @ bs) = Some (map (\<lambda>t. case t of None \<Rightarrow> [] | Some t \<Rightarrow> t) array)"
proof (induction array)
  case (Cons t array)
  then show ?case
    by (cases t) (simp_all del: values_of.simps add: next_text_def text_len_def values_of_halfword)
qed simp

lemma read_unit_eq:
  "read_unit (halfword dal @ halfword count @ bs) =
     map_option (Pair (nat (dal mod 65536))) (values_of (nat (count mod 65536)) bs)"
  by (simp add: read_unit_def number_of_halfword)

lemma copied_all [simp]: "copied (length t) t = t"
  by (simp add: copied_def)

lemma copied_length [simp]: "length (copied n t) = n"
  by (simp add: copied_def)

lemma read_one:
  "length b < 65536 \<Longrightarrow> read_unit (halfword dal @ halfword 1 @ halfword (int (length b)) @ b @ bs) = Some (nat (dal mod 65536), [b])"
  using values_of_texts [of "[Some b]" bs] by (simp add: read_unit_eq next_text_def text_len_def)

lemma nwtx99_one:
  assumes "length b < 65536" "copied (length b) t = b"
  shows "nwtx99 st dal 1 (int (length b)) (Some t) s =
    (if st (asked s) then Some (halfword dal @ halfword 1 @ halfword (int (length b)) @ b @ replicate 2 0) else None,
     s\<lparr>asked := asked s + 1\<rparr>)"
  using assms by (simp add: nwtx99_def ask_def)

section \<open>What a routine adds\<close>

definition well_formed :: "byte list \<Rightarrow> bool" where
  "well_formed u \<longleftrightarrow> read_unit u \<noteq> None"

text \<open>Some call that asked for storage between two states was refused.\<close>

definition refused :: "storage \<Rightarrow> dyn \<Rightarrow> dyn \<Rightarrow> bool" where
  "refused st s s' \<longleftrightarrow> (\<exists>n\<in>{asked s..<asked s'}. \<not> st n)"

text \<open>
  Units are added at the end, and all of them can be read; a routine that succeeds has added one.  A routine that fails has been
  refused storage (\<open>puts\<close>), or has added none (\<open>adds\<close>).
\<close>

definition extends :: "dyn \<Rightarrow> int \<times> dyn \<Rightarrow> byte list list \<Rightarrow> bool" where
  "extends s r us \<longleftrightarrow>
     asked s \<le> asked (snd r) \<and> tunits (snd r) = tunits s @ us \<and> list_all well_formed us \<and> (fst r = 0 \<longrightarrow> us \<noteq> [])"

definition puts :: "storage \<Rightarrow> dyn \<Rightarrow> int \<times> dyn \<Rightarrow> bool" where
  "puts st s r \<longleftrightarrow> (\<exists>us. extends s r us \<and> (fst r \<noteq> 0 \<longrightarrow> refused st s (snd r)))"

definition adds :: "storage \<Rightarrow> dyn \<Rightarrow> int \<times> dyn \<Rightarrow> bool" where
  "adds st s r \<longleftrightarrow> (\<exists>us. extends s r us \<and> (fst r \<noteq> 0 \<longrightarrow> us = [] \<or> refused st s (snd r)))"

lemma puts_adds: "puts st s r \<Longrightarrow> adds st s r"
  by (auto simp: puts_def adds_def)

lemma adds_fail: "err \<noteq> 0 \<Longrightarrow> adds st s (err, s)"
  by (simp add: adds_def extends_def)

lemma refused_later: "refused st s' s'' \<Longrightarrow> asked s \<le> asked s' \<Longrightarrow> refused st s s''"
  unfolding refused_def by (meson atLeastLessThan_iff order_trans)

lemma refused_more: "refused st s s' \<Longrightarrow> asked s' \<le> asked s'' \<Longrightarrow> refused st s s''"
  unfolding refused_def by (meson atLeastLessThan_iff less_le_trans)

lemma ask_eq: "ask st s = (st (asked s), s\<lparr>asked := asked s + 1\<rparr>)"
  by (simp add: ask_def)

lemma puts_asked: "puts st (s\<lparr>asked := n\<rparr>) r \<Longrightarrow> asked s \<le> n \<Longrightarrow> puts st s r"
  using refused_later [of st "s\<lparr>asked := n\<rparr>" "snd r" s] unfolding puts_def extends_def by auto

lemma puts_refused: "err \<noteq> 0 \<Longrightarrow> \<not> st (asked s) \<Longrightarrow> puts st s (err, s\<lparr>asked := asked s + 1\<rparr>)"
  by (simp add: puts_def extends_def refused_def)

lemma puts_arrayadd: "well_formed u \<Longrightarrow> puts st s (arrayadd_unit st u s)"
  by (auto simp: puts_def extends_def refused_def arrayadd_unit_def ask_def)

lemma puts_nwtx:
  assumes "well_formed u" "nwtx99 st dal count sz t s = (if st (asked s) then Some u else None, s\<lparr>asked := asked s + 1\<rparr>)"
  shows "puts st s (add_unit st dal count sz t s)"
proof (cases "st (asked s)")
  case True
  have "puts st s (arrayadd_unit st u (s\<lparr>asked := asked s + 1\<rparr>))"
    by (rule puts_asked [OF puts_arrayadd [OF assms(1)]]) simp
  then show ?thesis using True assms(2) by (simp add: add_unit_def)
next
  case False
  then show ?thesis using puts_refused [of 1 st s] assms(2) by (simp add: add_unit_def)
qed

lemma well_formed_one: "length b < 65536 \<Longrightarrow> well_formed (halfword dal @ halfword 1 @ halfword (int (length b)) @ b @ bs)"
  by (simp add: well_formed_def read_one)

lemma puts_one: "length b < 65536 \<Longrightarrow> copied (length b) t = b \<Longrightarrow> puts st s (add_unit st dal 1 (int (length b)) (Some t) s)"
  by (rule puts_nwtx [OF well_formed_one [of b] nwtx99_one])

lemma puts_text: "length t < 65536 \<Longrightarrow> puts st s (add_unit st dal 1 (int (length t)) (Some t) s)"
  by (rule puts_one) simp_all

lemma puts_low: "k \<le> 4 \<Longrightarrow> puts st s (add_unit st dal 1 (int k) (Some (low_bytes k i)) s)"
  using puts_text [of "low_bytes k i" st s dal] by (simp add: low_bytes_length)

lemma puts_char: "puts st s (add_unit st dal 1 1 (Some t) s)"
  using puts_one [of "copied 1 t" t st s dal] by simp

lemma puts_half: "puts st s (add_unit st dal 1 2 (Some (halfword i)) s)"
  using puts_text [of "halfword i" st s dal] by (simp del: One_nat_def)

lemma puts_none: "puts st s (add_unit st dal 0 0 None s)"
  by (rule puts_nwtx [of "halfword dal @ halfword 0 @ halfword 0 @ replicate 2 0"])
    (simp_all add: nwtx99_def ask_def well_formed_def read_unit_eq)

lemma puts_return: "puts st s (add_unit st dal 1 8 None s)"
  by (rule puts_nwtx [OF well_formed_one [of "replicate 8 0" dal "replicate 2 0"]]) (simp_all add: nwtx99_def ask_def)

lemmas puts_numbers = puts_low [of 1, simplified] puts_low [of 2, simplified] puts_low [of 3, simplified]

lemma puts_or_1: "puts st s (add_unit st dal count k t s) \<Longrightarrow> puts st s (add_unit_or_1 st dal count k t s)"
  by (auto simp: add_unit_or_1_def puts_def extends_def split: prod.splits)

text \<open>One unit after another.\<close>

lemma puts_then:
  assumes "puts st s r" and "\<And>s'. puts st s' (f s')"
  shows "puts st s (if fst r \<noteq> 0 then r else f (snd r))"
proof (cases "fst r = 0")
  case True
  obtain us where us: "extends s r us" using assms(1) by (auto simp: puts_def)
  obtain vs where vs: "extends (snd r) (f (snd r)) vs" "fst (f (snd r)) \<noteq> 0 \<longrightarrow> refused st (snd r) (snd (f (snd r)))"
    using assms(2) [of "snd r"] by (auto simp: puts_def)
  have "extends s (f (snd r)) (us @ vs)" using us vs(1) by (auto simp: extends_def)
  moreover have "fst (f (snd r)) \<noteq> 0 \<longrightarrow> refused st s (snd (f (snd r)))"
    using vs(2) us refused_later by (auto simp: extends_def)
  ultimately show ?thesis using True unfolding puts_def by auto
qed (use assms(1) in simp)

text \<open>The loops over \<^verbatim>\<open>__tok()\<close> give the tokens of \<open>Cstring\<close>.\<close>

lemma drop_takeWhile: "drop (length (takeWhile P xs)) xs = dropWhile P xs"
  by (metis dropWhile_eq_drop)

lemma take_takeWhile: "take (length (takeWhile P xs)) xs = takeWhile P xs"
  by (metis takeWhile_eq_take)

lemma tok_eq:
  assumes "rest = dropWhile (\<lambda>b. b \<in> set ds) p" "r2 = dropWhile (\<lambda>b. b \<notin> set ds) rest"
  shows "tok ds (Some p) =
    (if rest = [] then (None, None)
     else (Some (takeWhile (\<lambda>b. b \<notin> set ds) rest), if r2 = [] then None else Some (tl r2)))"
proof -
  have e: "length p \<le> length (takeWhile (\<lambda>b. b \<in> set ds) p) \<longleftrightarrow> rest = []"
    unfolding assms(1) drop_takeWhile [symmetric] by (simp only: drop_eq_Nil)
  have e2: "length rest \<le> length (takeWhile (\<lambda>b. b \<notin> set ds) rest) \<longleftrightarrow> r2 = []"
    unfolding assms(2) drop_takeWhile [symmetric] by (simp only: drop_eq_Nil)
  have t2: "r2 = [] \<Longrightarrow> takeWhile (\<lambda>b. b \<notin> set ds) rest = rest"
    using takeWhile_dropWhile_id [of "\<lambda>b. b \<notin> set ds" rest] unfolding assms(2) [symmetric] by simp
  have "drop (length (takeWhile (\<lambda>b. b \<notin> set ds) rest) + 1) rest = tl (drop (length (takeWhile (\<lambda>b. b \<notin> set ds) rest)) rest)"
    by (simp add: drop_Suc drop_tl)
  then have d: "drop (length (takeWhile (\<lambda>b. b \<notin> set ds) rest) + 1) rest = tl r2"
    unfolding drop_takeWhile assms(2) [symmetric] .
  show ?thesis
    unfolding tok_def option.case Let_def drop_takeWhile assms(1) [symmetric] take_takeWhile e e2 d
    by (cases "rest = []"; cases "r2 = []") (simp_all only: t2 if_True if_False simp_thms)
qed

lemma tok_all_None [simp]: "tok_all ds None = []"
  by (subst tok_all.simps) (simp add: tok_def)

lemma tok_all_unfold:
  assumes "rest = dropWhile (\<lambda>b. b \<in> set ds) p" "r2 = dropWhile (\<lambda>b. b \<notin> set ds) rest"
  shows "tok_all ds (Some p) =
    (if rest = [] then [] else takeWhile (\<lambda>b. b \<notin> set ds) rest # (if r2 = [] then [] else tok_all ds (Some (tl r2))))"
  by (subst tok_all.simps) (simp add: tok_eq [OF assms])

lemma tok_all_tokens: "tok_all ds (Some p) = tokens (set ds) p"
proof (induction "length p" arbitrary: p rule: less_induct)
  case less
  define rest where "rest = dropWhile (\<lambda>b. b \<in> set ds) p"
  define r2 where "r2 = dropWhile (\<lambda>b. b \<notin> set ds) rest"
  have "length r2 \<le> length p" unfolding r2_def rest_def by (meson length_dropWhile_le order_trans)
  then have IH: "r2 \<noteq> [] \<Longrightarrow> tok_all ds (Some (tl r2)) = tokens (set ds) (tl r2)" using less [of "tl r2"] by (cases r2) auto
  have "r2 = [] \<Longrightarrow> tokens (set ds) (tl r2) = []" by simp
  then show ?case unfolding tok_all_unfold [OF rest_def r2_def]
    by (subst tokens_dropWhile, unfold rest_def [symmetric] r2_def [symmetric], cases "rest = []"; cases "r2 = []")
      (simp_all only: IH if_True if_False simp_thms list.sel(2) tokens_Nil)
qed

lemma tokens_bound: "length (tokens D p) \<le> length p \<and> (\<forall>t\<in>set (tokens D p). length t \<le> length p)"
proof (induction "length p" arbitrary: p rule: less_induct)
  case less
  define rest where "rest = dropWhile (\<lambda>b. b \<in> D) p"
  define r2 where "r2 = dropWhile (\<lambda>b. b \<notin> D) rest"
  define w where "w = takeWhile (\<lambda>b. b \<notin> D) rest"
  have tk: "tokens D p = (if rest = [] then [] else w # tokens D (tl r2))"
    unfolding w_def r2_def rest_def by (rule tokens_dropWhile)
  show ?case
  proof (cases rest)
    case Nil
    then show ?thesis using tk by simp
  next
    case (Cons x xs)
    have le: "length rest \<le> length p" unfolding rest_def by (rule length_dropWhile_le)
    have "rest \<noteq> []" using Cons by simp
    have "hd rest \<notin> D" using hd_dropWhile [of "\<lambda>b. b \<in> D" p] \<open>rest \<noteq> []\<close> unfolding rest_def by blast
    then have "w \<noteq> []" using Cons by (simp add: w_def)
    then have "0 < length w" by simp
    have "w @ r2 = rest" unfolding w_def r2_def by (rule takeWhile_dropWhile_id)
    then have "length w + length r2 = length rest" using length_append [of w r2] by simp
    then have l: "length (tl r2) < length p" "length w \<le> length p"
      using le \<open>0 < length w\<close> length_tl [of r2] by linarith+
    have IH: "length (tokens D (tl r2)) \<le> length (tl r2)" "\<And>t. t \<in> set (tokens D (tl r2)) \<Longrightarrow> length t \<le> length (tl r2)"
      using less.hyps [OF l(1)] by blast+
    have tk: "tokens D p = w # tokens D (tl r2)" using tk \<open>rest \<noteq> []\<close> by (simp only: if_False)
    show ?thesis unfolding tk list.set(2) list.size(4) ball_simps(7)
      using IH(1) l order_trans [OF IH(2) less_imp_le [OF l(1)]] by simp
  qed
qed

text \<open>The volume serials and the quantities of a space request.\<close>

lemma collect_eq: "\<exists>n. collect st ps tmp s = (tmp @ n, s\<lparr>asked := asked s + length ps\<rparr>) \<and> set n \<subseteq> Some ` set ps \<and> length n \<le> length ps"
proof (induction ps arbitrary: tmp s)
  case (Cons p ps)
  obtain n where "collect st ps (if st (asked s) then tmp @ [Some p] else tmp) (s\<lparr>asked := asked s + 1\<rparr>) =
      ((if st (asked s) then tmp @ [Some p] else tmp) @ n, s\<lparr>asked := asked s + 1 + length ps\<rparr>)" "set n \<subseteq> Some ` set ps" "length n \<le> length ps"
    using Cons.IH [of "if st (asked s) then tmp @ [Some p] else tmp" "s\<lparr>asked := asked s + 1\<rparr>"] by auto
  then show ?case by (intro exI [of _ "(if st (asked s) then [Some p] else []) @ n"]) (auto simp: ask_def)
qed simp


lemma nwtx9a_eq:
  "nwtx9a st dal array s =
     (if st (asked s)
      then Some (halfword dal @ halfword (int (length array)) @ concat (map next_text array) @
                 replicate (4 + (length array * 2 + sum_list (map text_len array)) - length (concat (map next_text array))) 0)
      else None, s\<lparr>asked := asked s + 1\<rparr>)"
  by (simp add: nwtx9a_def ask_def Let_def)

lemma read_texts:
  "list_all (\<lambda>t. text_len t < 65536) array \<Longrightarrow> length array < 65536 \<Longrightarrow>
     read_unit (halfword dal @ halfword (int (length array)) @ concat (map next_text array) @ bs) =
       Some (nat (dal mod 65536), map (\<lambda>t. case t of None \<Rightarrow> [] | Some t \<Rightarrow> t) array)"
  by (simp add: read_unit_eq values_of_texts)

lemma adds_step:
  assumes "adds st (s\<lparr>asked := n\<rparr>) r" "asked s \<le> n"
  shows "adds st s r"
proof -
  obtain us where "extends (s\<lparr>asked := n\<rparr>) r us" "fst r \<noteq> 0 \<longrightarrow> us = [] \<or> refused st (s\<lparr>asked := n\<rparr>) (snd r)"
    using assms(1) by (auto simp: adds_def)
  then show ?thesis unfolding adds_def using assms(2) refused_later [of st "s\<lparr>asked := n\<rparr>" "snd r" s]
    by (intro exI [of _ us]) (auto simp: extends_def)
qed

lemma adds_txvols: "vols = Some t \<Longrightarrow> length t < 65536 \<Longrightarrow> adds st s (txvols st vols s)"
proof -
  assume v: "vols = Some t" and t: "length t < 65536"
  let ?ps = "tok_all (ebcdic '' ,'') (Some t)"
  obtain n where n: "collect st ?ps [] (s\<lparr>asked := asked s + 1\<rparr>) = (n, s\<lparr>asked := asked s + 1 + length ?ps\<rparr>)"
      "set n \<subseteq> Some ` set ?ps" "length n \<le> length ?ps"
    using collect_eq [of st ?ps "[]" "s\<lparr>asked := asked s + 1\<rparr>"] by auto
  define k where "k = asked s + 1 + length ?ps"
  have "list_all (\<lambda>t. text_len t < 65536) n" "length n < 65536"
    using n(2,3) t tokens_bound [of "set (ebcdic '' ,'')" t] unfolding tok_all_tokens by (force simp: list_all_iff text_len_def)+
  then have wf: "well_formed (halfword DALVLSER @ halfword (int (length n)) @ concat (map next_text n) @ bs)" for bs
    by (simp add: well_formed_def read_texts)
  have "adds st s (case nwtx9a st DALVLSER n (s\<lparr>asked := k\<rparr>) of (None, s) \<Rightarrow> (1, s) | (Some tu, s) \<Rightarrow> arrayadd_unit st tu s)"
    unfolding nwtx9a_eq using puts_adds [OF puts_asked [OF puts_arrayadd [OF wf]], of s "k + 1"] adds_step [OF adds_fail, of 1 s "k + 1"]
    by (simp add: k_def)
  then show ?thesis
    using v n(1) adds_step [OF adds_fail, of 1 s "asked s + 1"] adds_step [OF adds_fail, of 1 s k]
    by (simp add: txvols_def ask_def k_def)
qed

lemma adds_txspac: "adds st s (txspac st space s)"
proof -
  define t where "t = (case space of None \<Rightarrow> [] | Some t \<Rightarrow> t)"
  define s1 where "s1 = s\<lparr>asked := asked s + 1\<rparr>"
  obtain prim k1 sec k2 dir k3 where toks: "tok (ebcdic '' ,'') (Some t) = (prim, k1)" "tok (ebcdic '','') k1 = (sec, k2)" "tok [] k2 = (dir, k3)"
    by (metis surj_pair)
  let ?P = "add_unit st DALPRIME 1 3 (Some (low_bytes 3 (int_or_0 prim))) s1"
  let ?S = "add_unit st DALSECND 1 3 (Some (low_bytes 3 (int_or_0 sec)))"
  let ?D = "add_unit st DALDIR 1 3 (Some (low_bytes 3 (int_or_0 dir)))"
  define rest where "rest = (\<lambda>s. case nwtx99 st DALSECND 1 3 (Some (low_bytes 3 (int_or_0 sec))) s of
      (None, s) \<Rightarrow> (1, s)
    | (Some tu, s) \<Rightarrow> (case arrayadd_unit st tu s of (err, s) \<Rightarrow> if int_or_0 dir \<noteq> 0 then ?D s else (err, s)))"
  have "puts st s (rest s)" for s
  proof (cases "nwtx99 st DALSECND 1 3 (Some (low_bytes 3 (int_or_0 sec))) s")
    case (Pair tu s')
    show ?thesis
    proof (cases "int_or_0 dir = 0 \<or> tu = None")
      case True
      then have "rest s = ?S s" by (cases tu) (auto simp: rest_def add_unit_def Pair split: prod.splits)
      then show ?thesis using puts_numbers(3) by simp
    next
      case False
      then obtain u where u: "tu = Some u" "int_or_0 dir \<noteq> 0" by auto
      then have r: "rest s = ?D (snd (?S s))" "?S s = arrayadd_unit st u s'" by (simp_all add: rest_def add_unit_def Pair case_prod_beta)
      obtain us where us: "extends s (?S s) us" using puts_numbers(3) unfolding puts_def by blast
      obtain vs where vs: "extends (snd (?S s)) (rest s) vs" "fst (rest s) \<noteq> 0 \<longrightarrow> refused st (snd (?S s)) (snd (rest s))"
        using puts_numbers(3) [of st "snd (?S s)"] unfolding r(1) puts_def by blast
      have "extends s (rest s) (us @ vs)" using us vs(1) by (auto simp: extends_def)
      then show ?thesis using vs(2) us refused_later by (auto simp: puts_def extends_def)
    qed
  qed
  from puts_then [OF puts_numbers(3) this] have all: "puts st s1 (if fst ?P \<noteq> 0 then ?P else rest (snd ?P))" .
  have "txspac st space s = (if t = [] \<or> \<not> st (asked s) then (1, s1) else if fst ?P \<noteq> 0 then ?P else rest (snd ?P))"
    unfolding txspac_def ask_def t_def [symmetric] s1_def [symmetric] rest_def Let_def prod.case toks by (simp add: case_prod_beta)
  moreover have "adds st s (1, s1)" unfolding s1_def by (rule adds_step [OF adds_fail]) simp_all
  moreover have "adds st s (if fst ?P \<noteq> 0 then ?P else rest (snd ?P))"
    by (rule puts_adds, rule puts_asked [where n = "asked s + 1"], fold s1_def, rule all) simp
  ultimately show ?thesis by (cases "t = [] \<or> \<not> st (asked s)") (simp_all only: if_True if_False)
qed

lemma txdsn_short:
  assumes "length t < 80"
  shows "txdsn st (Some t) s =
    (let dsn = takeWhile (\<lambda>b. b \<noteq> LPAREN) t;
         member = takeWhile (\<lambda>b. b \<noteq> RPAREN) (drop (length dsn + 1) t);
         r = add_unit_or_1 st DALMEMBR 1 (int (length member)) (Some member) s
     in if LPAREN \<in> set t then if fst r \<noteq> 0 then r else add_unit st DALDSNAM 1 (int (length dsn)) (Some dsn) (snd r)
        else add_unit st DALDSNAM 1 (int (length dsn)) (Some dsn) s)"
  using assms by (simp add: txdsn_def Let_def case_prod_beta)

lemma adds_txdsn: "adds st s (txdsn st (Some t) s)"
proof (cases "length t < 80")
  case True
  define dsn where "dsn = takeWhile (\<lambda>b. b \<noteq> LPAREN) t"
  define member where "member = takeWhile (\<lambda>b. b \<noteq> RPAREN) (drop (length dsn + 1) t)"
  have l: "length dsn < 65536" "length member < 65536"
    using length_takeWhile_le [of "\<lambda>b. b \<noteq> LPAREN" t] length_takeWhile_le [of "\<lambda>b. b \<noteq> RPAREN" "drop (length dsn + 1) t"] True
    unfolding dsn_def [symmetric] member_def [symmetric] by simp_all
  let ?r = "add_unit_or_1 st DALMEMBR 1 (int (length member)) (Some member) s"
  have "puts st s (if fst ?r \<noteq> 0 then ?r else add_unit st DALDSNAM 1 (int (length dsn)) (Some dsn) (snd ?r))"
    by (rule puts_then [OF puts_or_1 [OF puts_text [OF l(2)]] puts_text [OF l(1)]])
  moreover have "puts st s (add_unit st DALDSNAM 1 (int (length dsn)) (Some dsn) s)" by (rule puts_text [OF l(1)])
  ultimately show ?thesis
    unfolding txdsn_short [OF True] Let_def dsn_def [symmetric] member_def [symmetric] by (simp add: puts_adds)
qed (simp add: txdsn_def adds_fail)

lemma txdest_node:
  assumes "DOT \<in> set t"
  shows "txdest st (Some t) s =
    (let node = takeWhile (\<lambda>b. b \<noteq> DOT) t;
         user = drop (length node + 1) t;
         r = add_unit_or_1 st DALUSRID 1 (int (length user)) (Some user) s
     in if length t \<ge> 40 then (1, s)
        else if fst r \<noteq> 0 then r else add_unit_or_1 st DALSUSER 1 (int (length node)) (Some node) (snd r))"
  using assms by (simp add: txdest_def Let_def case_prod_beta)

lemma adds_txdest: "length t < 65536 \<Longrightarrow> adds st s (txdest st (Some t) s)"
proof (cases "DOT \<in> set t")
  case True
  assume t: "length t < 65536"
  define node where "node = takeWhile (\<lambda>b. b \<noteq> DOT) t"
  define user where "user = drop (length node + 1) t"
  have l: "length node < 65536" "length user < 65536"
    using t length_takeWhile_le [of "\<lambda>b. b \<noteq> DOT" t] by (simp_all add: node_def user_def)
  let ?r = "add_unit_or_1 st DALUSRID 1 (int (length user)) (Some user) s"
  have "puts st s (if fst ?r \<noteq> 0 then ?r else add_unit_or_1 st DALSUSER 1 (int (length node)) (Some node) (snd ?r))"
    by (rule puts_then [OF puts_or_1 [OF puts_text [OF l(2)]] puts_or_1 [OF puts_text [OF l(1)]]])
  then show ?thesis
    unfolding txdest_node [OF True] Let_def node_def [symmetric] user_def [symmetric] by (simp add: puts_adds adds_fail)
qed (auto simp: txdest_def intro!: puts_adds puts_or_1 puts_text)


text \<open>The routines, as the reference manual lists them.\<close>

definition routines :: "builder list" where
  "routines =
     [txddn, txrddn, txdsn, txdmy, txnew, txold, txmod, txshr, txkeep, txdel, txcat, txucat, txakee, txadel, txacat, txauca, txdcbd,
      txunit, txunct, txpara, txvols, txvlct, txvseq, txpriv,
      txtrk, txcyl, txblk, txspac, txdir, txrlse, txrnd, txlabe, txseq, txinpu, txoutp, txexpd, txretp, txprot, txterm, txperm, txclos,
      txunal, txsyso, txpgm, txform, txdest, txhold, txcopy, txfcb, txucs,
      txorg, txrecf, txlrec, txbksz, txkeyl, txbfal, txbfte, txbufl, txbufn, txbufo, txden, txtrtc, txerop, txlmct, txncp]"

lemmas puts_rules = puts_text puts_char puts_half puts_none puts_return puts_numbers
lemmas adds_rules = puts_adds [OF puts_rules(1)] puts_adds [OF puts_rules(2)] puts_adds [OF puts_rules(3)] puts_adds [OF puts_rules(4)]
  puts_adds [OF puts_rules(5)] puts_adds [OF puts_rules(6)] puts_adds [OF puts_rules(7)] puts_adds [OF puts_rules(8)]
  puts_adds [OF puts_or_1 [OF puts_rules(2)]] puts_adds [OF puts_or_1 [OF puts_rules(4)]] adds_fail

lemma adds_unused:
  "f \<in> set [txrddn, txdmy, txnew, txold, txmod, txshr, txkeep, txdel, txcat, txucat, txakee, txadel, txacat, txauca, txpara, txpriv,
      txtrk, txcyl, txrlse, txrnd, txinpu, txoutp, txprot, txterm, txperm, txclos, txunal, txhold] \<Longrightarrow> adds st s (f st t s)"
  unfolding txrddn_def txdmy_def txnew_def txold_def txmod_def txshr_def txkeep_def txdel_def txcat_def txucat_def txakee_def txadel_def
    txacat_def txauca_def txpara_def txpriv_def txtrk_def txcyl_def txrlse_def txrnd_def txinpu_def txoutp_def txprot_def txterm_def
    txperm_def txclos_def txunal_def txhold_def
  by (simp, elim disjE) (simp_all add: adds_rules)

lemma adds_number:
  "f \<in> set [txunct, txvlct, txvseq, txblk, txdir, txseq, txretp, txcopy, txbksz, txkeyl, txbufl, txbufn, txbufo, txlmct, txncp] \<Longrightarrow>
     adds st s (f st t s)"
  unfolding txunct_def txvlct_def txvseq_def txblk_def txdir_def txseq_def txretp_def txcopy_def txbksz_def txkeyl_def txbufl_def
    txbufn_def txbufo_def txlmct_def txncp_def Let_def
  by (simp, elim disjE) (simp_all add: adds_rules)

lemma adds_choice: "f \<in> set [txlabe, txorg, txrecf, txlrec, txbfal, txbfte, txden, txtrtc, txerop] \<Longrightarrow> adds st s (f st t s)"
  unfolding txlabe_def txorg_def txrecf_def txlrec_def txbfal_def txbfte_def txden_def txtrtc_def txerop_def Let_def
  by (simp, elim disjE) (simp_all add: adds_rules split: option.split)

lemma adds_five: "length a = 5 \<Longrightarrow> adds st s (add_unit st dal 1 5 (Some a) s)"
  using puts_adds [OF puts_text, of a st s dal] by simp

lemma adds_name:
  "f \<in> set [txddn, txdcbd, txunit, txexpd, txsyso, txpgm, txform, txfcb, txucs] \<Longrightarrow> (\<And>x. t = Some x \<Longrightarrow> length x < 65536) \<Longrightarrow>
     adds st s (f st t s)"
  unfolding txddn_def txdcbd_def txunit_def txexpd_def txsyso_def txpgm_def txform_def txfcb_def txucs_def
  by (cases t; simp; elim disjE) (simp_all add: adds_rules adds_five)

lemma adds_list: "(\<And>x. t = Some x \<Longrightarrow> length x < 65536) \<Longrightarrow> f \<in> set [txdsn, txvols, txspac, txdest] \<Longrightarrow> adds st s (f st t s)"
proof (cases t)
  case None
  assume "f \<in> set [txdsn, txvols, txspac, txdest]"
  moreover have "adds st s (txvols st None s)" using adds_step [OF adds_fail, of 1 s "asked s + 1"] by (simp add: txvols_def ask_def)
  ultimately show ?thesis using None adds_txspac by (auto simp: txdsn_def txdest_def adds_fail)
next
  case (Some x)
  assume "\<And>x. t = Some x \<Longrightarrow> length x < 65536" "f \<in> set [txdsn, txvols, txspac, txdest]"
  then show ?thesis using Some adds_txdsn adds_txdest adds_txvols adds_txspac by auto
qed

section \<open>The numbers\<close>

text \<open>\<^verbatim>\<open>atoi()\<close> of decimal digits: their value, or the largest int.\<close>

abbreviation decimal_digit :: "byte \<Rightarrow> bool" where
  "decimal_digit b \<equiv> 0xF0 \<le> uint b \<and> uint b \<le> 0xF9"

lemma digits_at_store:
  "\<forall>b\<in>set ds. decimal_digit b \<Longrightarrow> m (p + length ds) = 0 \<Longrightarrow> digits_at (store m p ds) 10 p ds"
proof (induction ds arbitrary: m p)
  case Nil
  then show ?case by (simp add: digval_code digit_of_def)
next
  case (Cons b ds)
  have "store m p (b # ds) p = b" using store_inside [of 0 "b # ds" m p] by simp
  moreover have "digval b < 10" using Cons.prems(1) by (simp add: digval_code digit_of_def)
  moreover have "digits_at (store (m(p := b)) (p + 1) ds) 10 (p + 1) ds" using Cons by simp
  ultimately show ?case by (simp add: store_Cons')
qed

lemma int_of_digits:
  assumes "ds \<noteq> []" "\<forall>b\<in>set ds. decimal_digit b"
  shows "int_of ds = int (min (value_from 10 0 ds) 2147483647)"
proof -
  let ?m = "store (\<lambda>a. 0) 0 ds"
  have "number_at ?m 0 10 [] [] ds"
    using assms digits_at_store [of ds "\<lambda>a. 0" 0] by (simp add: number_at_def)
  from signed_number [OF this _ _ refl]
  have "strtol ?m 0 10 = Some (word_of_int (clamp 32 (int (value_from 10 0 ds))), length ds,
      range_errno (clamp 32 (int (value_from 10 0 ds)) \<noteq> int (value_from 10 0 ds)))"
    by (simp add: signed_value_def)
  moreover have c: "clamp 32 (int v) = int (min v 2147483647)" for v by (simp add: clamp_def max_def min_def)
  moreover have "int (min v 2147483647) < 2147483648" for v by simp
  ultimately show ?thesis using int32_small [of "int (min (value_from 10 0 ds) 2147483647)"]
    by (simp add: int_of_def atoi_def int32_def)
qed
text \<open>A number in a unit of its own.\<close>

lemma add_number:
  assumes "st (asked s)" "st (asked s + 1)" "k \<in> {1, 2, 3}"
  shows "\<exists>u. add_unit st dal 1 (int k) (Some (low_bytes k i)) s = (0, s\<lparr>asked := asked s + 2, tunits := tunits s @ [u]\<rparr>) \<and>
    read_unit u = Some (nat (dal mod 65536), [low_bytes k i])"
proof -
  have l: "length (low_bytes k i) = k" "length (low_bytes k i) < 65536" using assms(3) by (auto simp: low_bytes_length)
  show ?thesis
    using nwtx99_one [OF l(2) copied_all, of st dal s] read_one [OF l(2)] assms l(1)
    by (intro exI [of _ "halfword dal @ halfword 1 @ halfword (int k) @ low_bytes k i @ replicate 2 0"])
      (simp add: add_unit_def arrayadd_unit_def ask_def numeral_2_eq_2)
qed

text \<open>
  The routines whose argument is a number, as the reference manual describes them: the key, the bytes of the value, the numbers
  accepted and the value stored.
\<close>

definition numeric :: "(builder \<times> int \<times> nat \<times> (nat \<Rightarrow> bool) \<times> (nat \<Rightarrow> nat)) list" where
  "numeric =
     [(txbksz, DALBLKSZ, 2, \<lambda>v. 0 < v, \<lambda>v. min v 32760),
      (txblk, DALBLKLN, 3, \<lambda>v. 0 < v, \<lambda>v. v mod 2 ^ 24),
      (txbufl, DALBUFL, 2, \<lambda>v. 0 < v, \<lambda>v. min v 32760),
      (txbufn, DALBUFNO, 1, \<lambda>v. 0 < v, \<lambda>v. min v 255),
      (txbufo, DALBUFOF, 1, \<lambda>v. v \<le> 99 \<or> v = 128, \<lambda>v. v),
      (txcopy, DALCOPYS, 1, \<lambda>v. 1 \<le> v \<and> v \<le> 255, \<lambda>v. v),
      (txdir, DALDIR, 3, \<lambda>v. 0 < v, \<lambda>v. v mod 2 ^ 24),
      (txkeyl, DALKYLEN, 1, \<lambda>v. v \<le> 255, \<lambda>v. v),
      (txlmct, DALLIMCT, 3, \<lambda>v. 0 < v, \<lambda>v. min v 32760),
      (txlrec, DALLRECL, 2, \<lambda>v. True, \<lambda>v. min v 32760),
      (txncp, DALNCP, 1, \<lambda>v. 1 \<le> v \<and> v \<le> 255, \<lambda>v. v),
      (txretp, DALRETPD, 3, \<lambda>v. 1 \<le> v \<and> v \<le> 93000, \<lambda>v. v),
      (txseq, DALDSSEQ, 2, \<lambda>v. 1 \<le> v \<and> v \<le> 9999, \<lambda>v. v),
      (txunct, DALUNCNT, 1, \<lambda>v. 0 < v, \<lambda>v. v mod 256),
      (txvlct, DALVLCNT, 1, \<lambda>v. 1 \<le> v \<and> v \<le> 255, \<lambda>v. v),
      (txvseq, DALVLSEQ, 2, \<lambda>v. 1 \<le> v \<and> v \<le> 255, \<lambda>v. v)]"

definition stores_number :: "int \<Rightarrow> nat \<Rightarrow> nat \<Rightarrow> dyn \<Rightarrow> int \<times> dyn \<Rightarrow> bool" where
  "stores_number key k n s r \<longleftrightarrow>
     (\<exists>u b. r = (0, s\<lparr>asked := asked s + 2, tunits := tunits s @ [u]\<rparr>) \<and> read_unit u = Some (nat key, [b]) \<and> length b = k \<and> number_of b = n)"

lemma stores_add_number:
  assumes "st (asked s)" "st (asked s + 1)" "k \<in> {1, 2, 3}" "0 \<le> key" "key < 65536" "number_of (low_bytes k i) = n"
  shows "stores_number key k n s (add_unit st key 1 (int k) (Some (low_bytes k i)) s)"
proof -
  have "key mod 65536 = key" "length (low_bytes k i) = k" using assms(3-5) by (auto simp: low_bytes_length)
  then show ?thesis using add_number [OF assms(1-3), of key i] assms(6) by (auto simp: stores_number_def)
qed

lemma stores_add:
  assumes "st (asked s)" "st (asked s + 1)" "0 \<le> key" "key < 65536"
  shows "nat (i mod 256) = n \<Longrightarrow> stores_number key 1 n s (add_unit st key 1 1 (Some (low_bytes 1 i)) s)"
    and "nat (i mod 65536) = n \<Longrightarrow> stores_number key 2 n s (add_unit st key 1 2 (Some (low_bytes 2 i)) s)"
    and "nat (i mod 16777216) = n \<Longrightarrow> stores_number key 3 n s (add_unit st key 1 3 (Some (low_bytes 3 i)) s)"
  using stores_add_number [OF assms(1,2) _ assms(3,4), of 1 i n] stores_add_number [OF assms(1,2) _ assms(3,4), of 2 i n]
    stores_add_number [OF assms(1,2) _ assms(3,4), of 3 i n] number_of_low_bytes [of i] by (simp_all del: One_nat_def)


lemma no_letter: "\<forall>b\<in>set ds. decimal_digit b \<Longrightarrow> \<not> decimal_digit c \<Longrightarrow> c \<notin> set ds"
  by blast

lemma letters [simp]: "ebcdic ''L'' = [0xD3]" "ebcdic ''X'' = [0xE7]" "ebcdic ''K'' = [0xD2]"
  by code_simp+

lemma numeric_stores:
  assumes "(f, key, k, ok, enc) \<in> set numeric" "int_of ds = int v" "v < 2147483648" "\<forall>b\<in>set ds. decimal_digit b"
    and "st (asked s)" "st (asked s + 1)"
  shows "if ok v then stores_number key k (enc v) s (f st (Some ds) s) else f st (Some ds) s = (1, s)"
proof -
  have no: "(0xE7 :: byte) \<notin> set ds" "(0xD2 :: byte) \<notin> set ds" "ds \<noteq> [0xD3]" using assms(4) by auto
  note add = stores_add [OF assms(5,6)]
  have ints: "int_or_0 (Some ds) = int v" using assms(2) by (simp add: int_or_0_def)
  show ?thesis
    using assms(1) unfolding numeric_def
    by (simp only: list.set insert_iff empty_iff prod.inject simp_thms, elim disjE conjE)
      (simp_all only: txbksz_def txblk_def txbufl_def txbufn_def txbufo_def txcopy_def txdir_def txkeyl_def txlmct_def txlrec_def txncp_def txretp_def txseq_def txunct_def txvlct_def txvseq_def Let_def ints, auto intro!: add simp del: One_nat_def simp: key_defs no min_def nat_mod_distrib)
qed

lemma values_of_zeros: "values_of n (replicate (n * 2) 0 @ bs) = Some (replicate n [])"
proof (induction n)
  case (Suc n)
  have "halfword 0 = [0, 0]" by (simp add: halfword_def Let_def)
  then have "replicate (Suc n * 2) 0 @ bs = halfword 0 @ replicate (n * 2) 0 @ bs" by simp
  then show ?case using Suc values_of_halfword [of n 0 "replicate (n * 2) 0 @ bs"] by simp
qed simp

lemma next_text_len: "length (next_text t) = 2 + text_len t"
  by (cases t) (simp_all add: next_text_def text_len_def)

lemma texts_length: "length (concat (map next_text array)) = length array * 2 + sum_list (map text_len array)"
  by (induction array) (simp_all add: next_text_len)

lemma values_of_append:
  assumes "list_all (\<lambda>t. text_len t < 65536) array"
  shows "values_of (length array + n) (concat (map next_text array) @ bs) =
    map_option (append (map (\<lambda>t. case t of None \<Rightarrow> [] | Some t \<Rightarrow> t) array)) (values_of n bs)"
  using assms
proof (induction array)
  case Nil
  then show ?case by (simp add: option.map_ident)
next
  case (Cons t array)
  then show ?case
    by (cases t) (simp_all del: values_of.simps add: next_text_def text_len_def values_of_halfword option.map_comp comp_def)
qed

definition text_or_empty :: "byte list option \<Rightarrow> byte list" where
  "text_or_empty t = (case t of None \<Rightarrow> [] | Some t \<Rightarrow> t)"

section \<open>Properties\<close>



text \<open>
  C29: what the routines do to the list.  Whichever calls are refused storage, each of the routines of the reference manual leaves the
  units of the list in place and adds at its end only units SVC 99 can read; one that returns 0 has added a unit, and one that fails has
  added none unless a call it made was refused storage.
\<close>
theorem routines_add_units:
  assumes "f \<in> set routines" "\<forall>x. t = Some x \<longrightarrow> length x < 65536"
  shows "\<exists>us. tunits (snd (f st t s)) = tunits s @ us \<and> (\<forall>u\<in>set us. read_unit u \<noteq> None) \<and>
    (fst (f st t s) = 0 \<longrightarrow> us \<noteq> []) \<and>
    (fst (f st t s) \<noteq> 0 \<longrightarrow> us = [] \<or> (\<exists>n. asked s \<le> n \<and> n < asked (snd (f st t s)) \<and> \<not> st n))"
proof -
  consider "f \<in> set [txrddn, txdmy, txnew, txold, txmod, txshr, txkeep, txdel, txcat, txucat, txakee, txadel, txacat, txauca, txpara, txpriv,
      txtrk, txcyl, txrlse, txrnd, txinpu, txoutp, txprot, txterm, txperm, txclos, txunal, txhold]"
    | "f \<in> set [txunct, txvlct, txvseq, txblk, txdir, txseq, txretp, txcopy, txbksz, txkeyl, txbufl, txbufn, txbufo, txlmct, txncp]"
    | "f \<in> set [txlabe, txorg, txrecf, txlrec, txbfal, txbfte, txden, txtrtc, txerop]"
    | "f \<in> set [txddn, txdcbd, txunit, txexpd, txsyso, txpgm, txform, txfcb, txucs]"
    | "f \<in> set [txdsn, txvols, txspac, txdest]"
    using assms(1) unfolding routines_def by (simp only: list.set insert_iff) blast
  then have "adds st s (f st t s)"
    by cases (use adds_unused adds_number adds_choice adds_name adds_list assms(2) in blast)+
  then show ?thesis unfolding adds_def extends_def well_formed_def refused_def list_all_iff by fastforce
qed

theorem routines_add_units_witness:
  "\<exists>us. tunits (snd (txvols (\<lambda>n. True) (Some [0xC1]) \<lparr>asked = 0, tunits = [[]]\<rparr>)) = [] # us \<and> (\<forall>u\<in>set us. read_unit u \<noteq> None)"
  using routines_add_units [of txvols "Some [0xC1]" "\<lambda>n. True" "\<lparr>asked = 0, tunits = [[]]\<rparr>"] by (auto simp: routines_def)




text \<open>
  With more than one value, \<^verbatim>\<open>__nwtx99()\<close> does not store the lengths of the second and later ones: SVC 99 cannot read the unit.
\<close>
lemma nwtx99_two_values:
  "Option.bind (fst (nwtx99 (\<lambda>n. True) DALVLSER 2 6 (Some (ebcdic ''VOL001VOL002'')) \<lparr>asked = 0, tunits = []\<rparr>)) read_unit = None"
proof -
  have t: "ebcdic ''VOL001VOL002'' = [0xE5, 0xD6, 0xD3, 0xF0, 0xF0, 0xF1, 0xE5, 0xD6, 0xD3, 0xF0, 0xF0, 0xF2]" by code_simp
  have "values_of (Suc (Suc 0)) (halfword 6 @ ebcdic ''VOL001VOL002'' @ replicate 2 0) = None"
    unfolding values_of_halfword t by (simp add: number_of_def Let_def)
  then show ?thesis by (simp add: nwtx99_def ask_def t copied_def read_unit_eq numeral_2_eq_2)
qed

text \<open>A serial is missing from the unit when its \<^verbatim>\<open>arrayadd()\<close> is refused storage, and the routine returns 0.\<close>
lemma txvols_drops_volume:
  "fst (txvols (\<lambda>n. n \<noteq> 2) (Some (ebcdic ''A,B'')) \<lparr>asked = 0, tunits = []\<rparr>) = 0 \<and>
   map read_unit (tunits (snd (txvols (\<lambda>n. n \<noteq> 2) (Some (ebcdic ''A,B'')) \<lparr>asked = 0, tunits = []\<rparr>))) = [Some (16, [ebcdic ''A''])]"
  by code_simp

end
