(* ===== verification/Dsalc.thy ===== *)
theory Dsalc
  imports Dynalloc_Units
begin

text \<open>
  Dynamic allocation with keywords (\<^verbatim>\<open>src/mvs/dynalloc/@@dsalc.c\<close>, \<^verbatim>\<open>@@dsalcf.c\<close>, \<^verbatim>\<open>@@dsfree.c\<close>): the keywords of the option string, the text
  units they become, and the request.  SVC 99 itself is a parameter: what it returns for a request block, and the text units as it
  left them.  The position of \<^verbatim>\<open>strtok()\<close> in the C run-time anchor is saved and restored by \<^verbatim>\<open>__dsalc()\<close> and not part of the state.
\<close>

section \<open>Definitions\<close>

record dsalc_keywords =
  kw_blksize :: "byte list option"
  kw_ddn :: "byte list option"
  kw_disp :: "byte list option"
  kw_dcbdsn :: "byte list option"
  kw_dsn :: "byte list option"
  kw_dsorg :: "byte list option"
  kw_lrecl :: "byte list option"
  kw_recfm :: "byte list option"
  kw_space :: "byte list option"
  kw_unit :: "byte list option"
  kw_volser :: "byte list option"
  kw_mount :: bool
  kw_freeclose :: bool

definition no_keywords :: dsalc_keywords where
  "no_keywords =
     \<lparr>kw_blksize = None, kw_ddn = None, kw_disp = None, kw_dcbdsn = None, kw_dsn = None, kw_dsorg = None, kw_lrecl = None,
      kw_recfm = None, kw_space = None, kw_unit = None, kw_volser = None, kw_mount = False, kw_freeclose = False\<rparr>"

subsection \<open>The option string\<close>

definition toupper_byte :: "byte \<Rightarrow> byte" where
  "toupper_byte b = word_of_int (the (toupper (uint b)))"

text \<open>
  \<^verbatim>\<open>unparen()\<close> at a \<^verbatim>\<open>(\<close> behind \<open>front\<close> with \<open>rest\<close> behind it: the string before the place it returns and the one from there on.
  Where the parenthesis is dropped the loop goes on behind the next character.
\<close>

definition unparen :: "byte list \<Rightarrow> byte list \<Rightarrow> byte list \<times> byte list" where
  "unparen front rest =
     (let (front, rest) =
        (if front = [] \<or> last front \<noteq> EQUALS then (front @ [EQUALS], rest)
         else case rest of [] \<Rightarrow> (front, []) | c # rest \<Rightarrow> (front @ [c], rest))
      in (front @ takeWhile (\<lambda>b. b \<noteq> RPAREN) rest, tl (dropWhile (\<lambda>b. b \<noteq> RPAREN) rest)))"

definition isdsn :: "byte list \<Rightarrow> bool" where
  "isdsn t = (let t = dropWhile (\<lambda>b. b = BLANK) t in take 4 t = ebcdic ''DSN='' \<or> take 7 t = ebcdic ''DSNAME='')"

text \<open>
  The loop that makes \<^verbatim>\<open>"...SPACE=TRK=val1,val2;..."\<close>: \<open>t\<close> is the keyword up to the place the loop is at, \<open>p\<close> the rest of the
  string.
\<close>

lemma tl_dropWhile_length: "length (tl (dropWhile P r)) \<le> length r"
  using length_dropWhile_le [of P r] by simp

lemma unparen_shorter: "length (snd (unparen t r)) \<le> length r"
  using tl_dropWhile_length [of "\<lambda>b. b \<noteq> RPAREN"] by (cases r) (auto simp: unparen_def Let_def intro: le_SucI)

function convert :: "byte list \<Rightarrow> byte list \<Rightarrow> byte list" where
  "convert t [] = t"
| "convert t (c # r) =
     (if c = LPAREN \<and> isdsn (t @ c # r) then
        if RPAREN \<in> set r then
          convert (t @ [c] @ takeWhile (\<lambda>b. b \<noteq> RPAREN) r @ [RPAREN]) (tl (dropWhile (\<lambda>b. b \<noteq> RPAREN) r))
        else t @ c # r
      else
        case (if c = LPAREN then unparen t r else (t, c # r)) of
          (t, []) \<Rightarrow> t
        | (t, d # r) \<Rightarrow> if d = COMMA \<or> d = SEMICOLON then t @ SEMICOLON # convert [] r else convert (t @ [d]) r)"
  by pat_completeness auto
termination
proof (relation "measure (\<lambda>(t, p). length p)", goal_cases)
  case (2 t c r)
  then show ?case using tl_dropWhile_length [of "\<lambda>b. b \<noteq> RPAREN" r] by simp
next
  case (3 t c r x)
  then show ?case using unparen_shorter [of t r] by (auto split: if_splits dest!: arg_cong [of _ "unparen t r" "\<lambda>x. length (snd x)"])
next
  case (4 t c r x)
  then show ?case using unparen_shorter [of t r] by (auto split: if_splits dest!: arg_cong [of _ "unparen t r" "\<lambda>x. length (snd x)"])
qed simp

definition occurs :: "string \<Rightarrow> byte list \<Rightarrow> bool" where
  "occurs k p \<longleftrightarrow> first_sub 0 (ebcdic k) p \<noteq> None"

definition keyword :: "byte list \<Rightarrow> dsalc_keywords \<Rightarrow> dsalc_keywords" where
  "keyword p d =
     (if p = ebcdic ''MOUNT'' then d\<lparr>kw_mount := True\<rparr>
      else if p = ebcdic ''FREE=CLOSE'' then d\<lparr>kw_freeclose := True\<rparr>
      else if occurs ''BLKSIZE='' p then d\<lparr>kw_blksize := Some (drop 8 p)\<rparr>
      else if occurs ''DD='' p then d\<lparr>kw_ddn := Some (drop 3 p)\<rparr>
      else if occurs ''DDNAME='' p then d\<lparr>kw_ddn := Some (drop 7 p)\<rparr>
      else if occurs ''DISP='' p then d\<lparr>kw_disp := Some (drop 5 p)\<rparr>
      else if occurs ''DCBDSN='' p then d\<lparr>kw_dcbdsn := Some (drop 7 p)\<rparr>
      else if occurs ''DSN='' p then d\<lparr>kw_dsn := Some (drop 4 p)\<rparr>
      else if occurs ''DSNAME='' p then d\<lparr>kw_dsn := Some (drop 7 p)\<rparr>
      else if occurs ''DSORG='' p then d\<lparr>kw_dsorg := Some (drop 6 p)\<rparr>
      else if occurs ''RECFM='' p then d\<lparr>kw_recfm := Some (drop 6 p)\<rparr>
      else if occurs ''LRECL='' p then d\<lparr>kw_lrecl := Some (drop 6 p)\<rparr>
      else if occurs ''SPACE='' p then d\<lparr>kw_space := Some (drop 6 p)\<rparr>
      else if occurs ''UNIT='' p then d\<lparr>kw_unit := Some (drop 5 p)\<rparr>
      else if occurs ''VOLSER='' p then d\<lparr>kw_volser := Some (drop 7 p)\<rparr>
      else d)"

definition parse :: "byte list option \<Rightarrow> dsalc_keywords" where
  "parse opts =
     (let temp = (case opts of None \<Rightarrow> [] | Some t \<Rightarrow> convert [] (map toupper_byte t))
      in fold keyword (tok_all [SEMICOLON] (Some temp)) no_keywords)"

subsection \<open>The text units\<close>

definition dsspace :: "storage \<Rightarrow> byte list \<Rightarrow> dyn \<Rightarrow> int \<times> dyn" where
  "dsspace st space s =
     (let front = takeWhile (\<lambda>b. b \<notin> {EQUALS, COMMA}) space;
          unit = take 11 front;
          (err, s) = (if unit = ebcdic ''CYL'' then txcyl st None s
                      else if unit = ebcdic ''TRK'' then txtrk st None s
                      else txblk st (Some unit) s)
      in if err \<noteq> 0 \<or> length front = length space then (err, s)
         else
           let x = dropWhile (\<lambda>b. \<not> holds (isdigit (uint b))) (drop (length front + 1) space);
               qty = take 31 (takeWhile (\<lambda>b. b \<noteq> RPAREN) x)
           in txspac st (Some qty) s)"

text \<open>Routines called one after the other until one fails.\<close>

fun steps :: "(dyn \<Rightarrow> int \<times> dyn) list \<Rightarrow> dyn \<Rightarrow> int \<times> dyn" where
  "steps [] s = (0, s)"
| "steps (f # fs) s = (case f s of (err, s) \<Rightarrow> if err \<noteq> 0 then (err, s) else steps fs s)"

definition given :: "byte list option \<Rightarrow> (byte list \<Rightarrow> dyn \<Rightarrow> int \<times> dyn) \<Rightarrow> (dyn \<Rightarrow> int \<times> dyn) list" where
  "given t f = (case t of None \<Rightarrow> [] | Some t \<Rightarrow> [f t])"

definition disp_status :: "storage \<Rightarrow> byte list option \<Rightarrow> dyn \<Rightarrow> int \<times> dyn" where
  "disp_status st p s =
     (case p of
        None \<Rightarrow> txnew st None s
      | Some p \<Rightarrow>
          if p = [] then txnew st None s
          else if occurs ''NEW'' p then txnew st None s
          else if occurs ''OLD'' p then txold st None s
          else if occurs ''MOD'' p then txmod st None s
          else if occurs ''SHR'' p then txshr st None s
          else (1, s))"

definition disp_normal :: "storage \<Rightarrow> byte list \<Rightarrow> dyn \<Rightarrow> int \<times> dyn" where
  "disp_normal st p s =
     (if occurs ''DEL'' p then txdel st None s
      else if occurs ''UNCAT'' p then txucat st None s
      else if occurs ''CAT'' p then txcat st None s
      else if occurs ''KEEP'' p then txkeep st None s
      else (1, s))"

definition disp_abnormal :: "storage \<Rightarrow> byte list \<Rightarrow> dyn \<Rightarrow> int \<times> dyn" where
  "disp_abnormal st p s =
     (if occurs ''DEL'' p then txadel st None s
      else if occurs ''UNCAT'' p then txauca st None s
      else if occurs ''CAT'' p then txacat st None s
      else if occurs ''KEEP'' p then txakee st None s
      else (1, s))"

definition disp_units :: "storage \<Rightarrow> byte list \<Rightarrow> dyn \<Rightarrow> int \<times> dyn" where
  "disp_units st disp =
     (let (p1, old) = tok (ebcdic '' ,'') (Some disp);
          (p2, old) = tok (ebcdic '' ,'') old;
          (p3, old) = tok (ebcdic '' ,'') old
      in steps (disp_status st p1 # given p2 (disp_normal st) @ given p3 (disp_abnormal st)))"

definition ddn_unit :: "storage \<Rightarrow> byte list option \<Rightarrow> dyn \<Rightarrow> int \<times> dyn" where
  "ddn_unit st ddn = (if ddn \<noteq> None \<and> ddn \<noteq> Some [] then txddn st ddn else txrddn st None)"

definition dsalc_units :: "storage \<Rightarrow> dsalc_keywords \<Rightarrow> dyn \<Rightarrow> int \<times> dyn" where
  "dsalc_units st d =
     steps
       (ddn_unit st (kw_ddn d) #
        given (if kw_dsn d = Some [] then None else kw_dsn d) (\<lambda>t. txdsn st (Some t)) @
        given (kw_disp d) (disp_units st) @
        given (kw_dcbdsn d) (\<lambda>t. txdcbd st (Some t)) @
        given (kw_dsorg d) (\<lambda>t. txorg st (Some t)) @
        given (kw_recfm d) (\<lambda>t. txrecf st (Some t)) @
        given (kw_lrecl d) (\<lambda>t. txlrec st (Some t)) @
        given (kw_blksize d) (\<lambda>t. txbksz st (Some t)) @
        given (kw_space d) (dsspace st) @
        given (kw_unit d) (\<lambda>t. txunit st (Some t)) @
        given (kw_volser d) (\<lambda>t. txvols st (Some t)) @
        (if kw_freeclose d then [txclos st None] else []))"

subsection \<open>The request\<close>

text \<open>
  The fields of the request block that are set; the others are zero.  The list of text units ends with the pointer whose high-order
  bit is set: here it is the list of the units.
\<close>

record rb99 =
  rb_len :: int
  rb_request :: byte
  rb_flag1 :: byte
  rb_txtptr :: "byte list list"

definition S99VRBAL :: byte where "S99VRBAL = 0x01"
definition S99VRBUN :: byte where "S99VRBUN = 0x02"
definition S99NOCNV :: byte where "S99NOCNV = 0x40"
definition S99NOMNT :: byte where "S99NOMNT = 0x20"

type_synonym svc99 = "rb99 \<Rightarrow> int \<times> byte list list"

text \<open>
  The state around a call: the requests issued so far, the string in the caller's \<^verbatim>\<open>ddname\<close>, and the calls that asked for storage.
\<close>

record job =
  issued :: "rb99 list"
  ddname_is :: "byte list option"
  asks :: nat

definition issue :: "svc99 \<Rightarrow> rb99 \<Rightarrow> job \<Rightarrow> int \<times> byte list list \<times> job" where
  "issue svc rb j = (case svc rb of (err, units) \<Rightarrow> (err, units, j\<lparr>issued := issued j @ [rb]\<rparr>))"

text \<open>\<^verbatim>\<open>crt\<close> says whether there is a C run-time anchor, \<^verbatim>\<open>ddname\<close> whether the caller passed a buffer.\<close>

definition dsalc :: "svc99 \<Rightarrow> storage \<Rightarrow> bool \<Rightarrow> bool \<Rightarrow> byte list option \<Rightarrow> job \<Rightarrow> int \<times> job" where
  "dsalc svc st crt ddname opts j =
     (if \<not> crt then (1, j)
      else
        case ask st \<lparr>asked = asks j, tunits = []\<rparr> of (temp, s) \<Rightarrow>
          if \<not> temp then (1, j\<lparr>asks := asked s\<rparr>)
          else
            let d = parse opts;
                (err, s) = dsalc_units st d s;
                j = j\<lparr>asks := asked s\<rparr>
            in if err \<noteq> 0 then (err, j)
               else if tunits s = [] then (err, j)
               else
                 let flag1 = (if (kw_unit d \<noteq> None \<or> kw_volser d \<noteq> None) \<and> \<not> kw_mount d then S99NOCNV OR S99NOMNT else S99NOCNV);
                     rb = \<lparr>rb_len = 20, rb_request = S99VRBAL, rb_flag1 = flag1, rb_txtptr = tunits s\<rparr>;
                     (err, units, j) = issue svc rb j
                 in if err \<noteq> 0 then (err, j)
                    else (err, if ddname then j\<lparr>ddname_is := Some (takeWhile (\<lambda>b. b \<noteq> 0) (take 8 (drop 6 (hd units))))\<rparr> else j))"

text \<open>\<open>opts\<close> is the text \<^verbatim>\<open>vsnprintf()\<close> formats (\<open>Printf\<close>), of which the buffer holds the first 511 characters.\<close>

definition dsalcf :: "svc99 \<Rightarrow> storage \<Rightarrow> bool \<Rightarrow> bool \<Rightarrow> byte list option \<Rightarrow> job \<Rightarrow> int \<times> job" where
  "dsalcf svc st crt ddname opts j = (case opts of None \<Rightarrow> (4, j) | Some t \<Rightarrow> dsalc svc st crt ddname (Some (take 511 t)) j)"

definition dsfree :: "svc99 \<Rightarrow> storage \<Rightarrow> byte list option \<Rightarrow> job \<Rightarrow> int \<times> job" where
  "dsfree svc st ddname j =
     (let (err, s) = steps [txddn st ddname, txunal st None] \<lparr>asked = asks j, tunits = []\<rparr>;
          j = j\<lparr>asks := asked s\<rparr>
      in if err \<noteq> 0 then (err, j)
         else if tunits s = [] then (err, j)
         else
           let rb = \<lparr>rb_len = 20, rb_request = S99VRBUN, rb_flag1 = 0, rb_txtptr = tunits s\<rparr>;
               (err, units, j) = issue svc rb j
           in (err, j))"

section \<open>Whatever storage there is\<close>

text \<open>The length of every string is below 64K when that of the option string is.\<close>

definition short :: "byte list option \<Rightarrow> bool" where
  "short t \<longleftrightarrow> (\<forall>x. t = Some x \<longrightarrow> length x < 65536)"

definition short_keywords :: "dsalc_keywords \<Rightarrow> bool" where
  "short_keywords d \<longleftrightarrow>
     list_all short [kw_blksize d, kw_ddn d, kw_disp d, kw_dcbdsn d, kw_dsn d, kw_dsorg d, kw_lrecl d, kw_recfm d, kw_space d, kw_unit d, kw_volser d]"

lemma short_simps [simp]: "short None" "short (Some x) \<longleftrightarrow> length x < 65536"
  by (simp_all add: short_def)

lemma while_lengths: "length (takeWhile P xs) + length (dropWhile P xs) = length xs"
  unfolding length_append [symmetric] takeWhile_dropWhile_id ..

lemma unparen_length: "length (fst (unparen t r)) + length (snd (unparen t r)) \<le> length t + 1 + length r"
proof -
  have "length (takeWhile P xs) + length (tl (dropWhile P xs)) \<le> length xs" for P :: "byte \<Rightarrow> bool" and xs
    using while_lengths [of P xs] by simp
  from this [of "\<lambda>b. b \<noteq> RPAREN"] show ?thesis by (cases r) (auto simp: unparen_def Let_def intro: le_SucI)
qed

lemma convert_length: "length (convert t p) \<le> length t + length p"
proof (induction t p rule: convert.induct)
  case (2 t c r)
  show ?case
  proof (cases "c = LPAREN \<and> isdsn (t @ c # r)")
    case True
    have "length (takeWhile (\<lambda>b. b \<noteq> RPAREN) r) + length (dropWhile (\<lambda>b. b \<noteq> RPAREN) r) = length r"
      by (rule while_lengths)
    moreover have "length (convert (t @ [c] @ takeWhile (\<lambda>b. b \<noteq> RPAREN) r @ [RPAREN]) (tl (dropWhile (\<lambda>b. b \<noteq> RPAREN) r))) \<le>
        length t + 2 + length (takeWhile (\<lambda>b. b \<noteq> RPAREN) r) + length (tl (dropWhile (\<lambda>b. b \<noteq> RPAREN) r))" if "RPAREN \<in> set r"
      using 2(1) [OF True that] by simp
    moreover have "length (tl (dropWhile (\<lambda>b. b \<noteq> RPAREN) r)) < length (dropWhile (\<lambda>b. b \<noteq> RPAREN) r)" if "RPAREN \<in> set r"
    proof -
      have "dropWhile (\<lambda>b. b \<noteq> RPAREN) r \<noteq> []" using that by simp
      then show ?thesis by (cases "dropWhile (\<lambda>b. b \<noteq> RPAREN) r") simp_all
    qed
    ultimately have "length (convert (t @ [c] @ takeWhile (\<lambda>b. b \<noteq> RPAREN) r @ [RPAREN]) (tl (dropWhile (\<lambda>b. b \<noteq> RPAREN) r))) \<le>
        length t + 1 + length r" if "RPAREN \<in> set r"
      using that by linarith
    then show ?thesis using True by (subst convert.simps) auto
  next
    case False
    obtain t' p where u: "(if c = LPAREN then unparen t r else (t, c # r)) = (t', p)" by fastforce
    then have l: "length t' + length p \<le> length t + 1 + length r" using unparen_length [of t r] by (auto split: if_splits)
    show ?thesis
    proof (cases p)
      case Nil
      then show ?thesis using False u l by (subst convert.simps) auto
    next
      case (Cons d r')
      have "length (convert [] r') \<le> length r'" if "d = COMMA \<or> d = SEMICOLON"
        using 2(2) [OF False u [symmetric] Cons that] by simp
      moreover have "length (convert (t' @ [d]) r') \<le> length t' + 1 + length r'" if "\<not> (d = COMMA \<or> d = SEMICOLON)"
        using 2(3) [OF False u [symmetric] Cons that] by simp
      ultimately show ?thesis using False u l Cons by (subst convert.simps) auto
    qed
  qed
qed simp

lemma drop_short [simp]: "length p < 65536 \<Longrightarrow> short (Some (drop n p))"
  by simp

lemma short_updates:
  "short_keywords d \<Longrightarrow> short v \<Longrightarrow> short_keywords (d\<lparr>kw_blksize := v\<rparr>)"
  "short_keywords d \<Longrightarrow> short v \<Longrightarrow> short_keywords (d\<lparr>kw_ddn := v\<rparr>)"
  "short_keywords d \<Longrightarrow> short v \<Longrightarrow> short_keywords (d\<lparr>kw_disp := v\<rparr>)"
  "short_keywords d \<Longrightarrow> short v \<Longrightarrow> short_keywords (d\<lparr>kw_dcbdsn := v\<rparr>)"
  "short_keywords d \<Longrightarrow> short v \<Longrightarrow> short_keywords (d\<lparr>kw_dsn := v\<rparr>)"
  "short_keywords d \<Longrightarrow> short v \<Longrightarrow> short_keywords (d\<lparr>kw_dsorg := v\<rparr>)"
  "short_keywords d \<Longrightarrow> short v \<Longrightarrow> short_keywords (d\<lparr>kw_lrecl := v\<rparr>)"
  "short_keywords d \<Longrightarrow> short v \<Longrightarrow> short_keywords (d\<lparr>kw_recfm := v\<rparr>)"
  "short_keywords d \<Longrightarrow> short v \<Longrightarrow> short_keywords (d\<lparr>kw_space := v\<rparr>)"
  "short_keywords d \<Longrightarrow> short v \<Longrightarrow> short_keywords (d\<lparr>kw_unit := v\<rparr>)"
  "short_keywords d \<Longrightarrow> short v \<Longrightarrow> short_keywords (d\<lparr>kw_volser := v\<rparr>)"
  "short_keywords d \<Longrightarrow> short_keywords (d\<lparr>kw_mount := m\<rparr>)"
  "short_keywords d \<Longrightarrow> short_keywords (d\<lparr>kw_freeclose := m\<rparr>)"
  by (simp_all add: short_keywords_def)

lemma if_rule: "(c \<Longrightarrow> P x) \<Longrightarrow> (\<not> c \<Longrightarrow> P y) \<Longrightarrow> P (if c then x else y)"
  by simp

lemma short_keyword: "short_keywords d \<Longrightarrow> length p < 65536 \<Longrightarrow> short_keywords (keyword p d)"
  unfolding keyword_def by (intro if_rule [where P = short_keywords] short_updates drop_short)

lemma short_fold: "short_keywords d \<Longrightarrow> list_all (\<lambda>p. length p < 65536) ps \<Longrightarrow> short_keywords (fold keyword ps d)"
  by (induction ps arbitrary: d) (simp_all add: short_keyword)

lemma short_parse:
  assumes "short opts"
  shows "short_keywords (parse opts)"
proof -
  define temp where "temp = (case opts of None \<Rightarrow> [] | Some t \<Rightarrow> convert [] (map toupper_byte t))"
  have "length temp < 65536"
    using assms convert_length [of "[]" "map toupper_byte (the opts)"] by (cases opts) (auto simp: temp_def)
  then have "list_all (\<lambda>p. length p < 65536) (tok_all [SEMICOLON] (Some temp))"
    unfolding tok_all_tokens list_all_iff using tokens_bound [of "set [SEMICOLON]" temp] by (meson le_less_trans)
  moreover have "short_keywords no_keywords" by (simp add: short_keywords_def no_keywords_def)
  ultimately show ?thesis unfolding parse_def temp_def [symmetric] Let_def by (rule short_fold [rotated])
qed

text \<open>Units are added, whether the calls succeed or fail.\<close>

definition grows :: "dyn \<Rightarrow> int \<times> dyn \<Rightarrow> bool" where
  "grows s r \<longleftrightarrow> asked s \<le> asked (snd r) \<and> (\<exists>us. tunits (snd r) = tunits s @ us \<and> list_all well_formed us)"

lemma adds_grows: "adds st s r \<Longrightarrow> grows s r"
  by (auto simp: adds_def extends_def grows_def)

lemma grows_steps:
  assumes "\<And>f s. f \<in> set fs \<Longrightarrow> grows s (f s)"
  shows "grows s (steps fs s)"
  using assms
proof (induction fs arbitrary: s)
  case (Cons f fs)
  obtain err s' where f: "f s = (err, s')" by fastforce
  have "grows s (err, s')" using Cons.prems [of f s] f by simp
  moreover have "grows s' (steps fs s')" using Cons by simp
  ultimately show ?case using f by (auto simp: grows_def)
qed (simp add: grows_def)

lemma grows_then: "grows s r \<Longrightarrow> grows (snd r) r' \<Longrightarrow> grows s r'"
  by (auto simp: grows_def)

lemma grows_self: "grows s (err, s)"
  by (simp add: grows_def)

lemma given_set: "f \<in> set (given t g) \<longleftrightarrow> (\<exists>x. t = Some x \<and> f = g x)"
  by (cases t) (auto simp: given_def)

lemma adds_dispositions:
  "adds st s (txnew st t s)" "adds st s (txold st t s)" "adds st s (txmod st t s)" "adds st s (txshr st t s)"
  "adds st s (txdel st t s)" "adds st s (txucat st t s)" "adds st s (txcat st t s)" "adds st s (txkeep st t s)"
  "adds st s (txadel st t s)" "adds st s (txauca st t s)" "adds st s (txacat st t s)" "adds st s (txakee st t s)"
  using adds_unused [of txnew] adds_unused [of txold] adds_unused [of txmod] adds_unused [of txshr] adds_unused [of txdel]
    adds_unused [of txucat] adds_unused [of txcat] adds_unused [of txkeep] adds_unused [of txadel] adds_unused [of txauca]
    adds_unused [of txacat] adds_unused [of txakee] by simp_all

lemma adds_keywords:
  "adds st s (txrddn st t s)" "adds st s (txclos st t s)" "adds st s (txcyl st t s)" "adds st s (txtrk st t s)" "adds st s (txblk st t s)"
  "adds st s (txlrec st t s)" "adds st s (txbksz st t s)" "adds st s (txorg st t s)" "adds st s (txrecf st t s)"
  "short t \<Longrightarrow> adds st s (txddn st t s)" "short t \<Longrightarrow> adds st s (txdcbd st t s)" "short t \<Longrightarrow> adds st s (txunit st t s)"
  "short t \<Longrightarrow> adds st s (txdsn st t s)" "short t \<Longrightarrow> adds st s (txvols st t s)"
  using adds_unused [of txrddn] adds_unused [of txclos] adds_unused [of txcyl] adds_unused [of txtrk] adds_number [of txblk]
    adds_choice [of txlrec] adds_number [of txbksz] adds_choice [of txorg] adds_choice [of txrecf] adds_name [of txddn t]
    adds_name [of txdcbd t] adds_name [of txunit t] adds_list [of t txdsn] adds_list [of t txvols] by (simp_all add: short_def)

lemmas grows_dispositions = adds_dispositions [THEN adds_grows]
lemmas grows_keywords = adds_keywords [THEN adds_grows]

lemma grows_disp: "grows s (disp_units st disp s)"
proof -
  have "grows s (disp_status st p s)" "grows s (disp_normal st p' s)" "grows s (disp_abnormal st p' s)" for p p' s
    unfolding disp_status_def disp_normal_def disp_abnormal_def
    by (auto intro: grows_dispositions grows_self split: option.split)
  then show ?thesis unfolding disp_units_def case_prod_beta Let_def by (intro grows_steps) (auto simp: given_set)
qed

lemma grows_dsspace: "grows s (dsspace st space s)"
proof -
  have kind: "grows s (if a then txcyl st None s else if b then txtrk st None s else txblk st t s)" for a b t s
    by (simp add: grows_keywords)
  have spac: "grows s (txspac st t s)" for t s by (rule adds_grows [OF adds_txspac])
  show ?thesis unfolding dsspace_def Let_def case_prod_beta prod.collapse
    by (rule if_rule [where P = "grows s"]) (rule kind, rule grows_then [OF kind spac])
qed

lemma list_all_given: "list_all P (given t g) \<longleftrightarrow> (\<forall>x. t = Some x \<longrightarrow> P (g x))"
  by (cases t) (simp_all add: given_def)

lemma grows_steps_all: "list_all (\<lambda>f. \<forall>s. grows s (f s)) fs \<Longrightarrow> grows s (steps fs s)"
  by (rule grows_steps) (simp add: list_all_iff)

lemma grows_ddn: "short t \<Longrightarrow> grows s (ddn_unit st t s)"
  by (simp add: ddn_unit_def grows_keywords)

lemma units_steps:
  assumes "short_keywords d"
  shows "\<exists>fs. dsalc_units st d = steps (ddn_unit st (kw_ddn d) # fs) \<and> list_all (\<lambda>f. \<forall>s. grows s (f s)) fs"
proof -
  have s: "\<And>t. kw_dsn d = Some t \<Longrightarrow> short (Some t)" "\<And>t. kw_dcbdsn d = Some t \<Longrightarrow> short (Some t)"
      "\<And>t. kw_unit d = Some t \<Longrightarrow> short (Some t)" "\<And>t. kw_volser d = Some t \<Longrightarrow> short (Some t)"
    using assms unfolding short_keywords_def by auto
  have "(if kw_dsn d = Some [] then None else kw_dsn d) = Some t \<Longrightarrow> short (Some t)" for t
    using s(1) by (cases "kw_dsn d = Some []") simp_all
  then have "list_all (\<lambda>f. \<forall>s. grows s (f s))
      (given (if kw_dsn d = Some [] then None else kw_dsn d) (\<lambda>t. txdsn st (Some t)) @ given (kw_disp d) (disp_units st) @
       given (kw_dcbdsn d) (\<lambda>t. txdcbd st (Some t)) @ given (kw_dsorg d) (\<lambda>t. txorg st (Some t)) @
       given (kw_recfm d) (\<lambda>t. txrecf st (Some t)) @ given (kw_lrecl d) (\<lambda>t. txlrec st (Some t)) @
       given (kw_blksize d) (\<lambda>t. txbksz st (Some t)) @ given (kw_space d) (dsspace st) @
       given (kw_unit d) (\<lambda>t. txunit st (Some t)) @ given (kw_volser d) (\<lambda>t. txvols st (Some t)) @
       (if kw_freeclose d then [txclos st None] else []))"
    using s
    by (simp only: list_all_append list_all_given list.pred_inject grows_disp grows_dsspace grows_keywords simp_thms split: if_split,
      auto intro!: grows_keywords simp del: short_simps)
  then show ?thesis unfolding dsalc_units_def [abs_def] by blast
qed

lemma grows_units:
  assumes "short_keywords d"
  shows "grows s (dsalc_units st d s)"
proof -
  have "short (kw_ddn d)" using assms unfolding short_keywords_def by simp
  then show ?thesis using units_steps [OF assms, of st] grows_ddn by (auto intro!: grows_steps_all simp del: steps.simps)
qed

text \<open>The first unit is the DD name or asks for one: there is no success without units.\<close>

lemma adds_ddn: "short t \<Longrightarrow> adds st s (ddn_unit st t s)"
  by (simp add: ddn_unit_def adds_keywords)

lemma units_nonempty:
  assumes "short_keywords d" "fst (dsalc_units st d s) = 0"
  shows "tunits (snd (dsalc_units st d s)) \<noteq> []"
proof -
  have "short (kw_ddn d)" using assms(1) unfolding short_keywords_def by simp
  obtain fs where fs: "dsalc_units st d = steps (ddn_unit st (kw_ddn d) # fs)" "list_all (\<lambda>f. \<forall>s. grows s (f s)) fs"
    using units_steps [OF assms(1)] by blast
  obtain err s1 where d: "ddn_unit st (kw_ddn d) s = (err, s1)" by fastforce
  then have e: "err = 0" "dsalc_units st d s = steps fs s1" using assms(2) fs(1) by (simp_all split: if_splits)
  have "tunits s1 \<noteq> []" using adds_ddn [OF \<open>short (kw_ddn d)\<close>, of st s] d e(1) by (auto simp: adds_def extends_def)
  then show ?thesis using grows_steps_all [OF fs(2), of s1] e(2) by (auto simp: grows_def)
qed

section \<open>The documented request\<close>

text \<open>
  What the reference manual says of the keywords, as the keys and values of the text units in the order of the request, or \<open>None\<close> for
  a keyword that makes the call fail.
\<close>

type_synonym parameters = "(nat \<times> byte list list) list"

definition param :: "int \<Rightarrow> byte list \<Rightarrow> parameters" where
  "param key v = [(nat key, [v])]"

definition both :: "parameters option \<Rightarrow> parameters option \<Rightarrow> parameters option" where
  "both a b = Option.bind a (\<lambda>x. map_option (append x) b)"

definition choice :: "int \<Rightarrow> (string \<times> byte) list \<Rightarrow> byte list \<Rightarrow> parameters option" where
  "choice key table p = map_option (\<lambda>e. param key [snd e]) (find (\<lambda>e. sublist (ebcdic (fst e)) p) table)"

definition statuses :: "(string \<times> byte) list" where
  "statuses = [(''NEW'', 0x04), (''OLD'', 0x01), (''MOD'', 0x02), (''SHR'', 0x08)]"

definition dispositions :: "(string \<times> byte) list" where
  "dispositions = [(''DEL'', 0x04), (''UNCAT'', 0x01), (''CAT'', 0x02), (''KEEP'', 0x08)]"

definition disp_params :: "byte list \<Rightarrow> parameters option" where
  "disp_params t =
     (let ws = tokens {BLANK, COMMA} t
      in both (if ws = [] then Some (param DALSTATS [0x04]) else choice DALSTATS statuses (ws ! 0))
         (both (if length ws < 2 then Some [] else choice DALNDISP dispositions (ws ! 1))
           (if length ws < 3 then Some [] else choice DALCDISP dispositions (ws ! 2))))"

definition ddn_params :: "byte list option \<Rightarrow> parameters" where
  "ddn_params t = (if t = None \<or> t = Some [] then param DALRTDDN (replicate 8 0) else param DALDDNAM (the t))"

definition dsn_params :: "byte list \<Rightarrow> parameters option" where
  "dsn_params t =
     (let dsn = takeWhile (\<lambda>b. b \<noteq> LPAREN) t
      in if length t \<ge> 80 then None
         else Some ((if LPAREN \<in> set t then param DALMEMBR (takeWhile (\<lambda>b. b \<noteq> RPAREN) (drop (length dsn + 1) t)) else []) @
                    param DALDSNAM dsn))"

definition lrecl_value :: "byte list \<Rightarrow> int" where
  "lrecl_value t =
     (if 0xE7 \<in> set t then 0x8000 else min 32760 (if 0xD2 \<in> set t then int32 (int_of t * 1024) else int_of t))"

definition quantities :: "byte list \<Rightarrow> parameters option" where
  "quantities q =
     (let (prim, rest) = tok [BLANK, COMMA] (Some q);
          (sec, rest) = tok [COMMA] rest;
          (dir, rest) = tok [] rest
      in if q = [] then None
         else Some (param DALPRIME (low_bytes 3 (int_or_0 prim)) @ param DALSECND (low_bytes 3 (int_or_0 sec)) @
                    (if int_or_0 dir \<noteq> 0 then param DALDIR (low_bytes 3 (int_or_0 dir)) else [])))"

definition space_params :: "byte list \<Rightarrow> parameters option" where
  "space_params t =
     (let kind = takeWhile (\<lambda>b. b \<notin> {EQUALS, COMMA}) t;
          kind11 = take 11 kind;
          rest = dropWhile (\<lambda>b. \<not> holds (isdigit (uint b))) (drop (length kind + 1) t)
      in both (if kind11 = ebcdic ''CYL'' then Some [(nat DALCYL, [])]
               else if kind11 = ebcdic ''TRK'' then Some [(nat DALTRK, [])]
               else if int_of kind11 = 0 then None else Some (param DALBLKLN (low_bytes 3 (int_of kind11))))
         (if length kind = length t then Some [] else quantities (take 31 (takeWhile (\<lambda>b. b \<noteq> RPAREN) rest))))"

definition volumes :: "byte list \<Rightarrow> parameters option" where
  "volumes t = (let vs = tokens {BLANK, COMMA} t in if vs = [] then None else Some [(nat DALVLSER, vs)])"

definition optional :: "byte list option \<Rightarrow> (byte list \<Rightarrow> parameters option) \<Rightarrow> parameters option" where
  "optional t f = (case t of None \<Rightarrow> Some [] | Some t \<Rightarrow> f t)"

fun all_of :: "parameters option list \<Rightarrow> parameters option" where
  "all_of [] = Some []"
| "all_of (p # ps) = both p (all_of ps)"

definition request_params :: "dsalc_keywords \<Rightarrow> parameters option" where
  "request_params d =
     all_of
       [Some (ddn_params (kw_ddn d)),
        optional (if kw_dsn d = Some [] then None else kw_dsn d) dsn_params,
        optional (kw_disp d) disp_params,
        optional (kw_dcbdsn d) (\<lambda>t. if length t = 0 \<or> length t > 44 then None else Some (param DALDCBDS t)),
        optional (kw_dsorg d) (\<lambda>t. map_option (\<lambda>v. param DALDSORG (halfword v)) (by_name organizations t)),
        optional (kw_recfm d) (\<lambda>t. if recfm_type t 0 = 0 then None else Some (param DALRECFM [recfm_type t 0])),
        optional (kw_lrecl d) (\<lambda>t. Some (param DALLRECL (low_bytes 2 (lrecl_value t)))),
        optional (kw_blksize d) (\<lambda>t. if int_of t \<le> 0 then None else Some (param DALBLKSZ (low_bytes 2 (min 32760 (int_of t))))),
        optional (kw_space d) space_params,
        optional (kw_unit d) (\<lambda>t. if t = [] then None else Some (param DALUNIT t)),
        optional (kw_volser d) volumes,
        Some (if kw_freeclose d then [(nat DALCLOSE, [])] else [])]"

text \<open>The units added are those of the parameters, with all storage there.\<close>

definition outcome :: "parameters option \<Rightarrow> dyn \<Rightarrow> int \<times> dyn \<Rightarrow> bool" where
  "outcome w s r \<longleftrightarrow>
     (case w of
        None \<Rightarrow> fst r \<noteq> 0
      | Some ps \<Rightarrow> fst r = 0 \<and> (\<exists>us. tunits (snd r) = tunits s @ us \<and> map read_unit us = map Some ps))"

lemma outcome_fail: "outcome None s (1, s')"
  by (simp add: outcome_def)

lemma outcome_step: "outcome w (s\<lparr>asked := n\<rparr>) r \<Longrightarrow> outcome w s r"
  by (cases w) (simp_all add: outcome_def)

lemma outcome_then:
  assumes "outcome a s r" "\<And>s'. outcome b s' (f s')"
  shows "outcome (both a b) s (if fst r \<noteq> 0 then r else f (snd r))"
proof (cases a)
  case (Some ps)
  then obtain us where us: "fst r = 0" "tunits (snd r) = tunits s @ us" "map read_unit us = map Some ps"
    using assms(1) by (auto simp: outcome_def)
  show ?thesis
  proof (cases b)
    case (Some qs)
    then obtain vs where "fst (f (snd r)) = 0" "tunits (snd (f (snd r))) = tunits (snd r) @ vs" "map read_unit vs = map Some qs"
      using assms(2) [of "snd r"] by (auto simp: outcome_def)
    then show ?thesis using us Some \<open>a = Some ps\<close> by (auto simp: outcome_def both_def intro: exI [of _ "us @ vs"])
  next
    case None
    then show ?thesis using us assms(2) [of "snd r"] \<open>a = Some ps\<close> by (simp add: outcome_def both_def)
  qed
qed (use assms(1) in \<open>simp add: outcome_def both_def\<close>)

lemma steps_Cons: "steps (f # fs) s = (if fst (f s) \<noteq> 0 then f s else steps fs (snd (f s)))"
  by (simp add: case_prod_beta prod_eq_iff)

lemma outcome_Nil: "outcome (all_of []) s (steps [] s)"
  by (simp add: outcome_def)

lemma outcome_Cons:
  "(\<And>s. outcome w s (f s)) \<Longrightarrow> (\<And>s. outcome (all_of ws) s (steps fs s)) \<Longrightarrow> outcome (all_of (w # ws)) s (steps (f # fs) s)"
  unfolding steps_Cons all_of.simps by (rule outcome_then)

lemma both_empty [simp]: "both (Some []) b = b"
  by (cases b) (simp_all add: both_def)

lemma outcome_given:
  assumes "\<And>x s. t = Some x \<Longrightarrow> outcome (g x) s (f x s)" "\<And>s. outcome (all_of ws) s (steps fs s)"
  shows "outcome (all_of (optional t g # ws)) s (steps (given t f @ fs) s)"
proof (cases t)
  case None
  then show ?thesis using assms(2) by (simp add: optional_def given_def)
next
  case (Some x)
  have "outcome (all_of (g x # ws)) s (steps (f x # fs) s)" by (rule outcome_Cons [OF assms(1) [OF Some] assms(2)])
  then show ?thesis by (simp add: Some optional_def given_def)
qed

text \<open>The units of the routines.\<close>

lemma outcome_add:
  assumes "\<forall>n. st n" "0 \<le> key" "key < 65536" "length b < 65536" "copied (length b) t = b" "k = int (length b)"
  shows "outcome (Some (param key b)) s (add_unit st key 1 k (Some t) s)"
  using nwtx99_one [OF assms(4,5), of st key s] read_one [OF assms(4), of key] assms(1-3,6)
  by (simp add: add_unit_def arrayadd_unit_def ask_def outcome_def param_def)

lemma outcome_text:
  "\<forall>n. st n \<Longrightarrow> 0 \<le> key \<Longrightarrow> key < 65536 \<Longrightarrow> length t < 65536 \<Longrightarrow>
     outcome (Some (param key t)) s (add_unit st key 1 (int (length t)) (Some t) s)"
  by (rule outcome_add) simp_all

lemma outcome_low:
  "\<forall>n. st n \<Longrightarrow> 0 \<le> key \<Longrightarrow> key < 65536 \<Longrightarrow> k \<le> 4 \<Longrightarrow>
     outcome (Some (param key (low_bytes k i))) s (add_unit st key 1 (int k) (Some (low_bytes k i)) s)"
  using outcome_text [of st key "low_bytes k i"] by (simp add: low_bytes_length)

lemmas outcome_numbers = outcome_low [where k = 2, simplified] outcome_low [where k = 3, simplified]

lemma outcome_char: "\<forall>n. st n \<Longrightarrow> 0 \<le> key \<Longrightarrow> key < 65536 \<Longrightarrow> outcome (Some (param key [c])) s (add_unit st key 1 1 (Some [c]) s)"
  using outcome_text [of st key "[c]"] by simp

lemma outcome_half:
  "\<forall>n. st n \<Longrightarrow> 0 \<le> key \<Longrightarrow> key < 65536 \<Longrightarrow> outcome (Some (param key (halfword i))) s (add_unit st key 1 2 (Some (halfword i)) s)"
  by (rule outcome_add) (simp_all add: copied_def)

lemma outcome_no_value:
  "\<forall>n. st n \<Longrightarrow> 0 \<le> key \<Longrightarrow> key < 65536 \<Longrightarrow> outcome (Some [(nat key, [])]) s (add_unit st key 0 0 None s)"
  by (simp add: add_unit_def nwtx99_def arrayadd_unit_def ask_def outcome_def read_unit_eq)

lemma outcome_return: "\<forall>n. st n \<Longrightarrow> outcome (Some (param DALRTDDN (replicate 8 0))) s (add_unit st DALRTDDN 1 8 None s)"
  using read_one [of "replicate 8 0" DALRTDDN "replicate 2 0"]
  by (simp add: add_unit_def nwtx99_def arrayadd_unit_def ask_def outcome_def param_def DALRTDDN_def)

lemma outcome_or_1: "outcome w s (add_unit st key n k t s) \<Longrightarrow> outcome w s (add_unit_or_1 st key n k t s)"
  by (cases w) (auto simp: add_unit_or_1_def outcome_def split: prod.splits)

lemma separators [simp]: "ebcdic '' ,'' = [BLANK, COMMA]" "ebcdic '','' = [COMMA]"
  by code_simp+

lemma outcome_ddn: "\<forall>n. st n \<Longrightarrow> short t \<Longrightarrow> outcome (Some (ddn_params t)) s (ddn_unit st t s)"
  by (cases t) (auto simp: ddn_unit_def ddn_params_def txddn_def txrddn_def DALDDNAM_def intro: outcome_return outcome_text)

lemma outcome_dsn:
  assumes st: "\<forall>n. st n"
  shows "outcome (dsn_params t) s (txdsn st (Some t) s)"
proof (cases "length t < 80")
  case True
  define dsn where "dsn = takeWhile (\<lambda>b. b \<noteq> LPAREN) t"
  define member where "member = takeWhile (\<lambda>b. b \<noteq> RPAREN) (drop (length dsn + 1) t)"
  have l: "length dsn < 65536" "length member < 65536"
    using length_takeWhile_le [of "\<lambda>b. b \<noteq> LPAREN" t] length_takeWhile_le [of "\<lambda>b. b \<noteq> RPAREN" "drop (length dsn + 1) t"] True
    unfolding dsn_def [symmetric] member_def [symmetric] by simp_all
  have d: "outcome (Some (param DALDSNAM dsn)) s (add_unit st DALDSNAM 1 (int (length dsn)) (Some dsn) s)" for s
    by (rule outcome_text [OF st]) (simp_all add: l DALDSNAM_def)
  let ?r = "add_unit_or_1 st DALMEMBR 1 (int (length member)) (Some member) s"
  have "outcome (Some (param DALMEMBR member)) s ?r"
    by (rule outcome_or_1, rule outcome_text [OF st]) (simp_all add: l DALMEMBR_def)
  from outcome_then [OF this d]
  have "outcome (Some (param DALMEMBR member @ param DALDSNAM dsn)) s
      (if fst ?r \<noteq> 0 then ?r else add_unit st DALDSNAM 1 (int (length dsn)) (Some dsn) (snd ?r))"
    by (simp add: both_def)
  then show ?thesis
    using True d unfolding txdsn_short [OF True] dsn_params_def Let_def dsn_def [symmetric] member_def [symmetric]
    by (cases "LPAREN \<in> set t") simp_all
qed (simp add: txdsn_def dsn_params_def Let_def outcome_fail)

lemma occurs_sublist: "occurs k p \<longleftrightarrow> sublist (ebcdic k) p"
  by (simp add: occurs_def first_sub_None)

lemma outcome_choice_1:
  "\<forall>n. st n \<Longrightarrow> outcome (choice DALSTATS statuses p) s
     (if occurs ''NEW'' p then txnew st None s else if occurs ''OLD'' p then txold st None s
      else if occurs ''MOD'' p then txmod st None s else if occurs ''SHR'' p then txshr st None s else (1, s))"
  by (auto simp: choice_def statuses_def occurs_sublist txnew_def txold_def txmod_def txshr_def DALSTATS_def outcome_fail
      intro!: outcome_or_1 outcome_char)

lemma outcome_choice_2: "\<forall>n. st n \<Longrightarrow> outcome (choice DALNDISP dispositions p) s (disp_normal st p s)"
  by (auto simp: choice_def dispositions_def occurs_sublist disp_normal_def txdel_def txucat_def txcat_def txkeep_def DALNDISP_def outcome_fail
      intro!: outcome_char)

lemma outcome_choice_3: "\<forall>n. st n \<Longrightarrow> outcome (choice DALCDISP dispositions p) s (disp_abnormal st p s)"
  by (auto simp: choice_def dispositions_def occurs_sublist disp_abnormal_def txadel_def txauca_def txacat_def txakee_def DALCDISP_def outcome_fail
      intro!: outcome_char)

lemma outcome_status:
  "\<forall>n. st n \<Longrightarrow> p \<noteq> Some [] \<Longrightarrow>
     outcome (if p = None then Some (param DALSTATS [0x04]) else choice DALSTATS statuses (the p)) s (disp_status st p s)"
proof (cases p)
  case None
  assume "\<forall>n. st n"
  then have "outcome (Some (param DALSTATS [0x04])) s (txnew st None s)"
    unfolding txnew_def by (intro outcome_or_1 outcome_char) (simp_all add: DALSTATS_def)
  then show ?thesis using None by (simp add: disp_status_def)
qed (simp add: disp_status_def outcome_choice_1)

text \<open>The first tokens are those of the whole text.\<close>

lemma tok_tokens:
  "tok ds old = (t, rest) \<Longrightarrow>
     tok_all ds old = (case t of None \<Rightarrow> [] | Some t \<Rightarrow> t # tok_all ds rest) \<and> t \<noteq> Some []"
proof (cases old)
  case (Some p)
  assume tk: "tok ds old = (t, rest)"
  define r where "r = dropWhile (\<lambda>b. b \<in> set ds) p"
  define r2 where "r2 = dropWhile (\<lambda>b. b \<notin> set ds) r"
  have "r \<noteq> [] \<Longrightarrow> hd r \<notin> set ds" using hd_dropWhile [of "\<lambda>b. b \<in> set ds" p] unfolding r_def by blast
  then have "r \<noteq> [] \<Longrightarrow> takeWhile (\<lambda>b. b \<notin> set ds) r \<noteq> []" by (cases r) auto
  then have "t \<noteq> Some []" using tk tok_eq [OF r_def r2_def] Some by (auto split: if_splits)
  moreover have "tok_all ds old = (case t of None \<Rightarrow> [] | Some t \<Rightarrow> t # tok_all ds rest)"
    by (subst tok_all.simps) (simp add: tk split: option.split)
  ultimately show ?thesis by blast
qed (auto simp: tok_def)

lemma tok_done: "tok ds old = (None, rest) \<Longrightarrow> rest = None"
  by (auto simp: tok_def Let_def split: option.splits if_splits)

lemma tok_None: "tok ds None = (None, None)"
  by (simp add: tok_def)

lemma outcome_disp:
  assumes st: "\<forall>n. st n"
  shows "outcome (disp_params t) s (disp_units st t s)"
proof -
  obtain p1 r1 p2 r2 p3 r3 where toks: "tok [BLANK, COMMA] (Some t) = (p1, r1)" "tok [BLANK, COMMA] r1 = (p2, r2)" "tok [BLANK, COMMA] r2 = (p3, r3)"
    by (metis surj_pair)
  define ws where "ws = tokens {BLANK, COMMA} t"
  have ws: "ws = (case p1 of None \<Rightarrow> [] | Some a \<Rightarrow> a # (case p2 of None \<Rightarrow> [] | Some b \<Rightarrow> b # (case p3 of None \<Rightarrow> [] | Some c \<Rightarrow> c # tok_all [BLANK, COMMA] r3)))"
    using tok_tokens [OF toks(1)] tok_tokens [OF toks(2)] tok_tokens [OF toks(3)] tok_all_tokens [of "[BLANK, COMMA]" t]
    by (simp add: ws_def split: option.split)
  have none: "p1 = None \<Longrightarrow> p2 = None" "p2 = None \<Longrightarrow> p3 = None"
    using tok_done [of _ _ r1] tok_done [of _ _ r2] toks tok_None by (metis prod.inject)+
  have "disp_params t = all_of
      [if p1 = None then Some (param DALSTATS [0x04]) else choice DALSTATS statuses (the p1),
       optional p2 (choice DALNDISP dispositions), optional p3 (choice DALCDISP dispositions)]"
    unfolding disp_params_def ws_def [symmetric] Let_def ws using none
    by (cases p1; cases p2; cases p3) (simp_all add: optional_def both_def option.map_ident comp_def split: option.split)
  moreover have "disp_units st t s = steps (disp_status st p1 # given p2 (disp_normal st) @ given p3 (disp_abnormal st) @ []) s"
    by (simp add: disp_units_def toks Let_def)
  moreover have "outcome (all_of
      [if p1 = None then Some (param DALSTATS [0x04]) else choice DALSTATS statuses (the p1),
       optional p2 (choice DALNDISP dispositions), optional p3 (choice DALCDISP dispositions)]) s
      (steps (disp_status st p1 # given p2 (disp_normal st) @ given p3 (disp_abnormal st) @ []) s)"
    by (intro outcome_Cons outcome_given outcome_Nil outcome_status [OF st] outcome_choice_2 [OF st] outcome_choice_3 [OF st])
      (use tok_tokens [OF toks(1)] in blast)
  ultimately show ?thesis by simp
qed

lemma outcome_attributes:
  assumes st: "\<forall>n. st n"
  shows "outcome (if length t = 0 \<or> length t > 44 then None else Some (param DALDCBDS t)) s (txdcbd st (Some t) s)"
    and "outcome (map_option (\<lambda>v. param DALDSORG (halfword v)) (by_name organizations t)) s (txorg st (Some t) s)"
    and "outcome (if recfm_type t 0 = 0 then None else Some (param DALRECFM [recfm_type t 0])) s (txrecf st (Some t) s)"
    and "outcome (Some (param DALLRECL (low_bytes 2 (lrecl_value t)))) s (txlrec st (Some t) s)"
    and "outcome (if int_of t \<le> 0 then None else Some (param DALBLKSZ (low_bytes 2 (min 32760 (int_of t))))) s (txbksz st (Some t) s)"
proof -
  note rules = outcome_text [OF st] outcome_half [OF st] outcome_char [OF st] outcome_numbers [OF st]
  show "outcome (if length t = 0 \<or> length t > 44 then None else Some (param DALDCBDS t)) s (txdcbd st (Some t) s)"
    using rules(1) [of DALDCBDS t s] by (simp add: txdcbd_def outcome_fail DALDCBDS_def)
  show "outcome (map_option (\<lambda>v. param DALDSORG (halfword v)) (by_name organizations t)) s (txorg st (Some t) s)"
    using rules(2) [of DALDSORG] by (cases "by_name organizations t") (simp_all add: txorg_def outcome_fail DALDSORG_def)
  show "outcome (if recfm_type t 0 = 0 then None else Some (param DALRECFM [recfm_type t 0])) s (txrecf st (Some t) s)"
    using rules(3) [of DALRECFM] by (simp add: txrecf_def Let_def outcome_fail DALRECFM_def)
  have "(if 0xE7 \<in> set t then 0x8000
        else if 0xD2 \<in> set t then let len = int32 (int_of t * 1024) in if len > 32760 then 32760 else len
        else if int_of t > 32760 then 32760 else int_of t) = lrecl_value t"
    unfolding lrecl_value_def by (simp add: Let_def min_def)
  then have "txlrec st (Some t) s = add_unit st DALLRECL 1 2 (Some (low_bytes 2 (lrecl_value t))) s"
    unfolding txlrec_def int_or_0_def option.case letters list.sel Let_def by (simp only:)
  then show "outcome (Some (param DALLRECL (low_bytes 2 (lrecl_value t)))) s (txlrec st (Some t) s)"
    using rules(4) [of DALLRECL] by (simp add: DALLRECL_def)
  show "outcome (if int_of t \<le> 0 then None else Some (param DALBLKSZ (low_bytes 2 (min 32760 (int_of t))))) s (txbksz st (Some t) s)"
    using rules(4) [of DALBLKSZ] by (auto simp: txbksz_def int_or_0_def outcome_fail DALBLKSZ_def min_def Let_def)
qed

lemma outcome_unit:
  "\<forall>n. st n \<Longrightarrow> length t < 65536 \<Longrightarrow> outcome (if t = [] then None else Some (param DALUNIT t)) s (txunit st (Some t) s)"
  using outcome_text [of st DALUNIT t s] by (simp add: txunit_def outcome_fail DALUNIT_def)

lemma collect_all: "\<forall>n. st n \<Longrightarrow> collect st ps tmp s = (tmp @ map Some ps, s\<lparr>asked := asked s + length ps\<rparr>)"
  by (induction ps arbitrary: tmp s) (simp_all add: ask_def)

lemma outcome_volumes:
  assumes st: "\<forall>n. st n" and t: "length t < 65536"
  shows "outcome (volumes t) s (txvols st (Some t) s)"
proof (cases "t = []")
  case True
  then show ?thesis using st by (simp add: volumes_def Let_def txvols_def ask_def outcome_fail)
next
  case False
  define vs where "vs = tokens {BLANK, COMMA} t"
  have "tok_all [BLANK, COMMA] (Some t) = vs" by (simp add: tok_all_tokens vs_def)
  then have eq: "txvols st (Some t) s = (if vs = [] then (1, s\<lparr>asked := asked s + 1 + length vs\<rparr>)
      else case nwtx9a st DALVLSER (map Some vs) (s\<lparr>asked := asked s + 1 + length vs\<rparr>) of
             (None, s) \<Rightarrow> (1, s) | (Some tu, s) \<Rightarrow> arrayadd_unit st tu s)"
    using st False by (simp add: txvols_def ask_def collect_all)
  have "list_all (\<lambda>t. text_len t < 65536) (map Some vs)" "length (map Some vs) < 65536"
    using t tokens_bound [of "{BLANK, COMMA}" t] by (auto simp: vs_def list_all_iff text_len_def intro: le_less_trans)
  from read_texts [OF this, of DALVLSER] show ?thesis
    using st outcome_fail [of s "s\<lparr>asked := asked s + 1 + length vs\<rparr>"] unfolding eq volumes_def vs_def [symmetric] Let_def nwtx9a_eq
    by (simp add: arrayadd_unit_def ask_def outcome_def DALVLSER_def comp_def)
qed

lemma outcome_quantities:
  assumes st: "\<forall>n. st n"
  shows "outcome (quantities q) s (txspac st (Some q) s)"
proof (cases "q = []")
  case True
  then show ?thesis using st by (simp add: quantities_def txspac_def ask_def outcome_fail case_prod_beta Let_def)
next
  case False
  obtain prim k1 sec k2 dir k3 where toks: "tok [BLANK, COMMA] (Some q) = (prim, k1)" "tok [COMMA] k1 = (sec, k2)" "tok [] k2 = (dir, k3)"
    by (metis surj_pair)
  let ?P = "add_unit st DALPRIME 1 3 (Some (low_bytes 3 (int_or_0 prim)))"
  let ?S = "add_unit st DALSECND 1 3 (Some (low_bytes 3 (int_or_0 sec)))"
  let ?D = "add_unit st DALDIR 1 3 (Some (low_bytes 3 (int_or_0 dir)))"
  have p: "outcome (Some (param DALPRIME (low_bytes 3 (int_or_0 prim)))) s (?P s)"
    and sc: "outcome (Some (param DALSECND (low_bytes 3 (int_or_0 sec)))) s (?S s)"
    and d: "outcome (Some (param DALDIR (low_bytes 3 (int_or_0 dir)))) s (?D s)" for s
    by (rule outcome_numbers(2) [OF st]; simp add: DALPRIME_def DALSECND_def DALDIR_def)+
  have quant: "quantities q = all_of [Some (param DALPRIME (low_bytes 3 (int_or_0 prim))), Some (param DALSECND (low_bytes 3 (int_or_0 sec))),
      if int_or_0 dir \<noteq> 0 then Some (param DALDIR (low_bytes 3 (int_or_0 dir))) else Some []]"
    using False by (simp add: quantities_def toks both_def)
  have ok: "fst (?S s) = 0" for s using sc [of s] by (simp add: outcome_def)
  have sec_eq: "(case nwtx99 st DALSECND 1 3 (Some (low_bytes 3 (int_or_0 sec))) s of (None, s) \<Rightarrow> (1, s)
      | (Some tu, s) \<Rightarrow> (case arrayadd_unit st tu s of (err, s) \<Rightarrow> if int_or_0 dir \<noteq> 0 then ?D s else (err, s))) =
      (if int_or_0 dir \<noteq> 0 then ?D (snd (?S s)) else ?S s)" for s
    using ok [of s] by (simp add: add_unit_def case_prod_beta split: option.splits)
  have "txspac st (Some q) s = steps (?P # ?S # (if int_or_0 dir \<noteq> 0 then [?D] else [])) (s\<lparr>asked := asked s + 1\<rparr>)"
  proof -
    have one: "steps (?S # fs) s' = steps fs (snd (?S s'))" for fs s' using ok [of s'] by (simp only: steps_Cons simp_thms if_False)
    have last: "steps [f] s' = f s'" for f s' by (simp add: case_prod_beta prod_eq_iff)
    have two: "?S s' = (0, snd (?S s'))" for s' using ok [of s'] by (simp add: prod_eq_iff)
    have "steps (?S # (if int_or_0 dir \<noteq> 0 then [?D] else [])) s' = (if int_or_0 dir \<noteq> 0 then ?D (snd (?S s')) else ?S s')" for s'
      unfolding one using two [of s'] last [of ?D] by (cases "int_or_0 dir = 0") simp_all
    then show ?thesis
      using False st unfolding txspac_def ask_def option.case separators Let_def prod.case toks steps_Cons [of ?P]
      by (simp only: case_prod_beta [of _ "?P _"] sec_eq prod.collapse simp_thms if_False)
  qed
  moreover have "outcome (quantities q) s' (steps (?P # ?S # (if int_or_0 dir \<noteq> 0 then [?D] else [])) s')" for s'
  proof (cases "int_or_0 dir = 0")
    case True
    have "outcome (all_of [Some (param DALPRIME (low_bytes 3 (int_or_0 prim))), Some (param DALSECND (low_bytes 3 (int_or_0 sec)))]) s'
        (steps [?P, ?S] s')" by (intro outcome_Cons outcome_Nil p sc)
    then show ?thesis using True unfolding quant by (simp add: both_def comp_def)
  next
    case dir: False
    have "outcome (all_of [Some (param DALPRIME (low_bytes 3 (int_or_0 prim))), Some (param DALSECND (low_bytes 3 (int_or_0 sec))),
        Some (param DALDIR (low_bytes 3 (int_or_0 dir)))]) s' (steps [?P, ?S, ?D] s')" by (intro outcome_Cons outcome_Nil p sc d)
    then show ?thesis using dir unfolding quant by simp
  qed
  ultimately show ?thesis using outcome_step by metis
qed

lemma outcome_space:
  assumes st: "\<forall>n. st n"
  shows "outcome (space_params t) s (dsspace st t s)"
proof -
  define kind where "kind = takeWhile (\<lambda>b. b \<notin> {EQUALS, COMMA}) t"
  define rest where "rest = dropWhile (\<lambda>b. \<not> holds (isdigit (uint b))) (drop (length kind + 1) t)"
  define qty where "qty = take 31 (takeWhile (\<lambda>b. b \<noteq> RPAREN) rest)"
  let ?w = "if take 11 kind = ebcdic ''CYL'' then Some [(nat DALCYL, [])]
            else if take 11 kind = ebcdic ''TRK'' then Some [(nat DALTRK, [])]
            else if int_of (take 11 kind) = 0 then None else Some (param DALBLKLN (low_bytes 3 (int_of (take 11 kind))))"
  let ?r = "if take 11 kind = ebcdic ''CYL'' then txcyl st None s else if take 11 kind = ebcdic ''TRK'' then txtrk st None s
            else txblk st (Some (take 11 kind)) s"
  have k: "outcome ?w s ?r"
    using outcome_no_value [OF st, of DALCYL s] outcome_no_value [OF st, of DALTRK s] outcome_numbers(2) [OF st, of DALBLKLN]
    by (auto simp: txcyl_def txtrk_def txblk_def int_or_0_def outcome_fail DALCYL_def DALTRK_def DALBLKLN_def)
  show ?thesis
  proof (cases "length kind = length t")
    case True
    have "dsspace st t s = ?r"
      unfolding dsspace_def Let_def case_prod_beta prod.collapse kind_def [symmetric] by (simp only: True simp_thms if_True)
    moreover have "space_params t = both ?w (Some [])"
      unfolding space_params_def Let_def kind_def [symmetric] by (simp only: True simp_thms if_True)
    moreover have "both ?w (Some []) = ?w" by (simp add: both_def)
    ultimately show ?thesis using k by simp
  next
    case False
    have "dsspace st t s = (if fst ?r \<noteq> 0 then ?r else txspac st (Some qty) (snd ?r))"
      unfolding dsspace_def Let_def case_prod_beta prod.collapse kind_def [symmetric] rest_def [symmetric] qty_def [symmetric]
      by (simp only: False simp_thms)
    moreover have "space_params t = both ?w (quantities qty)"
      unfolding space_params_def Let_def kind_def [symmetric] rest_def [symmetric] qty_def [symmetric] by (simp only: False if_False)
    ultimately show ?thesis using outcome_then [OF k outcome_quantities [OF st]] by (simp only:)
  qed
qed

lemma outcome_close: "\<forall>n. st n \<Longrightarrow> outcome (Some [(nat DALCLOSE, [])]) s (txclos st None s)"
  unfolding txclos_def by (rule outcome_or_1, rule outcome_no_value) (simp_all add: DALCLOSE_def)

lemma outcome_units:
  assumes st: "\<forall>n. st n" and d: "short_keywords d"
  shows "outcome (request_params d) s (dsalc_units st d s)"
proof -
  have s: "short (kw_ddn d)" "\<And>t. kw_unit d = Some t \<Longrightarrow> length t < 65536" "\<And>t. kw_volser d = Some t \<Longrightarrow> length t < 65536"
    using d unfolding short_keywords_def by auto
  define tail where "tail = (if kw_freeclose d then [txclos st None] else [])"
  have close: "outcome (all_of [Some (if kw_freeclose d then [(nat DALCLOSE, [])] else [])]) s (steps tail s)" for s
    using outcome_Cons [of "Some [(nat DALCLOSE, [])]" "txclos st None" "[]" "[]", OF outcome_close [OF st] outcome_Nil, of s]
    by (cases "kw_freeclose d") (simp_all add: tail_def outcome_def both_def)
  show ?thesis
    unfolding request_params_def dsalc_units_def tail_def [symmetric]
    by (intro outcome_Cons outcome_given close outcome_ddn [OF st s(1)] outcome_dsn [OF st] outcome_disp [OF st]
        outcome_attributes [OF st] outcome_space [OF st] outcome_unit [OF st s(2)] outcome_volumes [OF st s(3)])
qed

end
