(* ===== verification/Dsalc_Request.thy ===== *)
theory Dsalc_Request
  imports Dsalc
begin

text \<open>
  The option strings of \<^verbatim>\<open>__dsalc()\<close> from end to end: what a list of keywords in any order and case is parsed to, and the request it
  becomes.
\<close>

section \<open>Keywords as they are written\<close>

lemma toupper_eq: "toupper_byte b = (if lower_code (uint b) then b + 0x40 else b)"
proof -
  have "toupper (uint b) = Some (if lower_code (uint b) then uint b + 0x40 else uint b)"
    using uint_byte_range [of b] by (simp only: toupper_codes simp_thms if_True)
  then show ?thesis unfolding toupper_byte_def by simp
qed

lemma toupper_special:
  assumes "c \<in> {COMMA, SEMICOLON, LPAREN, RPAREN, EQUALS}"
  shows "toupper_byte b = c \<longleftrightarrow> b = c"
proof (cases "lower_code (uint b)")
  case True
  have "uint (b + 0x40) = (uint b + 0x40) mod 256" by (simp add: uint_word_ariths)
  moreover have "uint b \<le> 0xA9" using True by (auto simp: lower_code_def)
  ultimately have "uint (b + 0x40) = uint b + 0x40" by simp
  then have "0xC1 \<le> uint (b + 0x40)" "0x81 \<le> uint b" using True by (auto simp: lower_code_def)
  then have "b + 0x40 \<noteq> c" "b \<noteq> c" using assms by auto
  then show ?thesis using True by (simp add: toupper_eq)
qed (simp add: toupper_eq)

lemma prefix_to_equals:
  "E \<notin> set k \<Longrightarrow> E \<notin> set w \<Longrightarrow> prefix (k @ [E]) (w @ E # z) \<longleftrightarrow> k = w"
proof (induction k arbitrary: w)
  case Nil
  then show ?case by (cases w) auto
next
  case (Cons c k)
  then show ?case by (cases w) auto
qed

lemma sublist_to_equals:
  "E \<notin> set k \<Longrightarrow> E \<notin> set w \<Longrightarrow> sublist (k @ [E]) (w @ E # z) \<longleftrightarrow> suffix k w \<or> sublist (k @ [E]) z"
proof (induction w)
  case Nil
  then show ?case using prefix_to_equals [of E k "[]" z] by (simp add: sublist_Cons_right)
next
  case (Cons c w)
  then show ?case using prefix_to_equals [of E k "c # w" z] by (auto simp: sublist_Cons_right suffix_Cons)
qed

text \<open>
  The operand of a keyword: a plain one, one with arguments, as in \<^verbatim>\<open>TRK(1,2)\<close>, \<^verbatim>\<open>A.B(MEM)\<close> or, with an empty name, \<^verbatim>\<open>(NEW,CATLG)\<close>, and the
  JCL form of a space request, \<^verbatim>\<open>(TRK,(1,2))\<close>.
\<close>

datatype operand =
    Plain "byte list"
  | Call "byte list" "byte list"
  | Nested "byte list" "byte list"

datatype item =
    Keyword string "byte list" operand
  | Mount "byte list"
  | Free_Close "byte list"

fun operand_text :: "operand \<Rightarrow> byte list" where
  "operand_text (Plain v) = v"
| "operand_text (Call v a) = v @ LPAREN # a @ [RPAREN]"
| "operand_text (Nested u q) = LPAREN # u @ COMMA # LPAREN # q @ [RPAREN, RPAREN]"

fun item_text :: "item \<Rightarrow> byte list" where
  "item_text (Keyword k name v) = name @ EQUALS # operand_text v"
| "item_text (Mount name) = name"
| "item_text (Free_Close name) = name"

text \<open>A list of keywords, each with the separator behind it.\<close>

fun options_text :: "(item \<times> byte) list \<Rightarrow> byte list" where
  "options_text [] = []"
| "options_text [(i, sep)] = item_text i"
| "options_text ((i, sep) # is) = item_text i @ sep # options_text is"

text \<open>The keywords of the reference manual and the fields they set, and what they mean.\<close>

definition keys :: "(string \<times> (byte list \<Rightarrow> dsalc_keywords \<Rightarrow> dsalc_keywords)) list" where
  "keys =
     [(''BLKSIZE'', \<lambda>v d. d\<lparr>kw_blksize := Some v\<rparr>), (''DD'', \<lambda>v d. d\<lparr>kw_ddn := Some v\<rparr>), (''DDNAME'', \<lambda>v d. d\<lparr>kw_ddn := Some v\<rparr>),
      (''DISP'', \<lambda>v d. d\<lparr>kw_disp := Some v\<rparr>), (''DCBDSN'', \<lambda>v d. d\<lparr>kw_dcbdsn := Some v\<rparr>), (''DSN'', \<lambda>v d. d\<lparr>kw_dsn := Some v\<rparr>),
      (''DSNAME'', \<lambda>v d. d\<lparr>kw_dsn := Some v\<rparr>), (''DSORG'', \<lambda>v d. d\<lparr>kw_dsorg := Some v\<rparr>), (''RECFM'', \<lambda>v d. d\<lparr>kw_recfm := Some v\<rparr>),
      (''LRECL'', \<lambda>v d. d\<lparr>kw_lrecl := Some v\<rparr>), (''SPACE'', \<lambda>v d. d\<lparr>kw_space := Some v\<rparr>), (''UNIT'', \<lambda>v d. d\<lparr>kw_unit := Some v\<rparr>),
      (''VOLSER'', \<lambda>v d. d\<lparr>kw_volser := Some v\<rparr>)]"

definition is_dsn :: "string \<Rightarrow> bool" where
  "is_dsn k \<longleftrightarrow> k = ''DSN'' \<or> k = ''DSNAME''"

fun operand_value :: "bool \<Rightarrow> operand \<Rightarrow> byte list" where
  "operand_value dsn (Plain v) = v"
| "operand_value dsn (Call v a) = (if dsn then v @ LPAREN # a @ [RPAREN] else if v = [] then a else v @ EQUALS # a)"
| "operand_value dsn (Nested u q) = u @ COMMA # LPAREN # q @ [RPAREN]"

fun apply_item :: "item \<Rightarrow> dsalc_keywords \<Rightarrow> dsalc_keywords" where
  "apply_item (Keyword k name v) d =
     (case map_of keys k of None \<Rightarrow> d | Some f \<Rightarrow> f (map toupper_byte (operand_value (is_dsn k) v)) d)"
| "apply_item (Mount name) d = d\<lparr>kw_mount := True\<rparr>"
| "apply_item (Free_Close name) d = d\<lparr>kw_freeclose := True\<rparr>"

text \<open>
  The characters an operand may have.  The name before the arguments of another keyword than the data set name does not end with
  the name of a keyword.
\<close>

definition plain :: "byte list \<Rightarrow> bool" where
  "plain v \<longleftrightarrow> set v \<inter> {SEMICOLON, COMMA, LPAREN, RPAREN, EQUALS} = {}"

definition arguments :: "byte list \<Rightarrow> bool" where
  "arguments a \<longleftrightarrow> set a \<inter> {SEMICOLON, LPAREN, RPAREN, EQUALS} = {}"

fun operand_ok :: "bool \<Rightarrow> operand \<Rightarrow> bool" where
  "operand_ok dsn (Plain v) \<longleftrightarrow> plain v"
| "operand_ok dsn (Call v a) \<longleftrightarrow>
     plain v \<and> arguments a \<and>
     (\<not> dsn \<longrightarrow> (if v = [] then a \<noteq> [] else \<forall>k\<in>set (map fst keys). \<not> suffix (ebcdic k) (map toupper_byte v)))"
| "operand_ok dsn (Nested u q) \<longleftrightarrow> plain u \<and> u \<noteq> [] \<and> arguments q \<and> \<not> dsn"

fun item_ok :: "item \<Rightarrow> bool" where
  "item_ok (Keyword k name v) \<longleftrightarrow> k \<in> set (map fst keys) \<and> map toupper_byte name = ebcdic k \<and> operand_ok (is_dsn k) v"
| "item_ok (Mount name) \<longleftrightarrow> map toupper_byte name = ebcdic ''MOUNT''"
| "item_ok (Free_Close name) \<longleftrightarrow> map toupper_byte name = ebcdic ''FREE=CLOSE''"

section \<open>The conversion\<close>

text \<open>A run of ordinary characters, a separator, and the two forms of parentheses.\<close>

lemma convert_run: "set v \<inter> {SEMICOLON, COMMA, LPAREN} = {} \<Longrightarrow> convert t (v @ r) = convert (t @ v) r"
proof (induction v arbitrary: t)
  case (Cons c v)
  then have "c \<noteq> LPAREN" "c \<noteq> COMMA" "c \<noteq> SEMICOLON" by auto
  then have "convert t ((c # v) @ r) = convert (t @ [c]) (v @ r)" by simp
  then show ?case using Cons by simp
qed simp

lemma convert_separator: "c \<in> {SEMICOLON, COMMA} \<Longrightarrow> convert t (c # r) = t @ SEMICOLON # convert [] r"
  by auto

text \<open>What follows an item: nothing or a separator.\<close>

definition ends :: "byte list \<Rightarrow> bool" where
  "ends r \<longleftrightarrow> r = [] \<or> hd r \<in> {SEMICOLON, COMMA}"

lemma convert_after: "r = [] \<or> hd r \<noteq> LPAREN \<Longrightarrow>
    (case r of [] \<Rightarrow> t | d # r \<Rightarrow> if d = COMMA \<or> d = SEMICOLON then t @ SEMICOLON # convert [] r else convert (t @ [d]) r) = convert t r"
  by (cases r) auto

lemma to_paren: "RPAREN \<notin> set a \<Longrightarrow> takeWhile (\<lambda>b. b \<noteq> RPAREN) (a @ RPAREN # r) = a"
  "RPAREN \<notin> set a \<Longrightarrow> dropWhile (\<lambda>b. b \<noteq> RPAREN) (a @ RPAREN # r) = RPAREN # r"
  by (induction a) auto

lemma convert_dropped:
  assumes "\<not> isdsn (t @ LPAREN # a @ RPAREN # r)" "t \<noteq> []" "last t = EQUALS" "RPAREN \<notin> set a" "a \<noteq> []" "r = [] \<or> hd r \<noteq> LPAREN"
  shows "convert t (LPAREN # a @ RPAREN # r) = convert (t @ a) r"
proof -
  have "unparen t (a @ RPAREN # r) = (t @ a, r)"
    using assms(2-5) to_paren [of "tl a" r] by (cases a) (simp_all add: unparen_def)
  then show ?thesis using assms(1) convert_after [OF assms(6), of "t @ a"] by simp
qed

lemma convert_replaced:
  assumes "\<not> isdsn (t @ LPAREN # a @ RPAREN # r)" "t = [] \<or> last t \<noteq> EQUALS" "RPAREN \<notin> set a" "r = [] \<or> hd r \<noteq> LPAREN"
  shows "convert t (LPAREN # a @ RPAREN # r) = convert (t @ EQUALS # a) r"
proof -
  have "unparen t (a @ RPAREN # r) = (t @ EQUALS # a, r)"
    using assms(2,3) to_paren [of a r] by (simp add: unparen_def)
  then show ?thesis using assms(1) convert_after [OF assms(4), of "t @ EQUALS # a"] by simp
qed

lemma convert_kept:
  assumes "isdsn (t @ LPAREN # a @ RPAREN # r)" "RPAREN \<notin> set a"
  shows "convert t (LPAREN # a @ RPAREN # r) = convert (t @ LPAREN # a @ [RPAREN]) r"
  using assms to_paren [of a r] by simp

section \<open>The items\<close>

lemma key_texts [simp]:
  "ebcdic ''BLKSIZE'' = [0xC2, 0xD3, 0xD2, 0xE2, 0xC9, 0xE9, 0xC5]"
  "ebcdic ''DD'' = [0xC4, 0xC4]"
  "ebcdic ''DDNAME'' = [0xC4, 0xC4, 0xD5, 0xC1, 0xD4, 0xC5]"
  "ebcdic ''DISP'' = [0xC4, 0xC9, 0xE2, 0xD7]"
  "ebcdic ''DCBDSN'' = [0xC4, 0xC3, 0xC2, 0xC4, 0xE2, 0xD5]"
  "ebcdic ''DSN'' = [0xC4, 0xE2, 0xD5]"
  "ebcdic ''DSNAME'' = [0xC4, 0xE2, 0xD5, 0xC1, 0xD4, 0xC5]"
  "ebcdic ''DSORG'' = [0xC4, 0xE2, 0xD6, 0xD9, 0xC7]"
  "ebcdic ''RECFM'' = [0xD9, 0xC5, 0xC3, 0xC6, 0xD4]"
  "ebcdic ''LRECL'' = [0xD3, 0xD9, 0xC5, 0xC3, 0xD3]"
  "ebcdic ''SPACE'' = [0xE2, 0xD7, 0xC1, 0xC3, 0xC5]"
  "ebcdic ''UNIT'' = [0xE4, 0xD5, 0xC9, 0xE3]"
  "ebcdic ''VOLSER'' = [0xE5, 0xD6, 0xD3, 0xE2, 0xC5, 0xD9]"
  "ebcdic ''MOUNT'' = [0xD4, 0xD6, 0xE4, 0xD5, 0xE3]"
  "ebcdic ''FREE=CLOSE'' = [0xC6, 0xD9, 0xC5, 0xC5, 0x7E, 0xC3, 0xD3, 0xD6, 0xE2, 0xC5]"
  "ebcdic ''DSN='' = [0xC4, 0xE2, 0xD5, 0x7E]"
  "ebcdic ''DSNAME='' = [0xC4, 0xE2, 0xD5, 0xC1, 0xD4, 0xC5, 0x7E]"
  by code_simp+

fun upper_operand :: "operand \<Rightarrow> operand" where
  "upper_operand (Plain v) = Plain (map toupper_byte v)"
| "upper_operand (Call v a) = Call (map toupper_byte v) (map toupper_byte a)"
| "upper_operand (Nested u q) = Nested (map toupper_byte u) (map toupper_byte q)"

lemma toupper_kept [simp]:
  "toupper_byte COMMA = COMMA" "toupper_byte SEMICOLON = SEMICOLON" "toupper_byte LPAREN = LPAREN" "toupper_byte RPAREN = RPAREN"
  "toupper_byte EQUALS = EQUALS"
  using toupper_special [of COMMA COMMA] toupper_special [of SEMICOLON SEMICOLON] toupper_special [of LPAREN LPAREN]
    toupper_special [of RPAREN RPAREN] toupper_special [of EQUALS EQUALS] by simp_all

lemma special_in_upper: "c \<in> {COMMA, SEMICOLON, LPAREN, RPAREN, EQUALS} \<Longrightarrow> c \<in> set (map toupper_byte v) \<longleftrightarrow> c \<in> set v"
  using toupper_special [of c] by (force simp: image_iff)

lemma upper_plain: "plain (map toupper_byte v) \<longleftrightarrow> plain v" "arguments (map toupper_byte v) \<longleftrightarrow> arguments v"
  unfolding plain_def arguments_def by (simp_all only: disjoint_insert Int_empty_right special_in_upper insert_iff simp_thms)

lemma upper_text: "map toupper_byte (operand_text v) = operand_text (upper_operand v)"
  by (cases v) simp_all

lemma upper_value: "map toupper_byte (operand_value dsn v) = operand_value dsn (upper_operand v)"
  by (cases v) simp_all

fun item_value :: "item \<Rightarrow> byte list" where
  "item_value (Keyword k name v) = ebcdic k @ EQUALS # operand_value (is_dsn k) (upper_operand v)"
| "item_value (Mount name) = ebcdic ''MOUNT''"
| "item_value (Free_Close name) = ebcdic ''FREE=CLOSE''"

lemma isdsn_key: "k \<in> set (map fst keys) \<Longrightarrow> isdsn (ebcdic k @ EQUALS # x) \<longleftrightarrow> is_dsn k"
  by (simp only: keys_def list.map fst_conv list.set insert_iff empty_iff, elim disjE) (simp_all add: is_dsn_def isdsn_def Let_def)

lemma key_run: "k \<in> set (map fst keys) \<Longrightarrow> set (ebcdic k) \<inter> {SEMICOLON, COMMA, LPAREN, EQUALS} = {}"
  by (simp only: keys_def list.map fst_conv list.set insert_iff empty_iff, elim disjE) simp_all

lemma operand_converted:
  assumes "k \<in> set (map fst keys)" "operand_ok (is_dsn k) v" "ends r"
  shows "convert (ebcdic k @ [EQUALS]) (operand_text (upper_operand v) @ r) = convert (item_value (Keyword k name v)) r"
proof -
  let ?t = "ebcdic k @ [EQUALS]"
  have dsn: "isdsn (?t @ x) \<longleftrightarrow> is_dsn k" for x using isdsn_key [OF assms(1), of x] by simp
  have r: "r = [] \<or> hd r \<noteq> LPAREN" using assms(3) by (auto simp: ends_def)
  have run: "plain v \<Longrightarrow> convert t (map toupper_byte v @ r) = convert (t @ map toupper_byte v) r" for t v r
    using upper_plain(1) [of v] by (intro convert_run) (auto simp: plain_def)
  show ?thesis
  proof (cases v)
    case (Plain x)
    then show ?thesis using assms(2) run [of x ?t r] by simp
  next
    case (Call x a)
    let ?x = "map toupper_byte x" and ?a = "map toupper_byte a"
    have x: "plain ?x" "arguments ?a" "plain x" using assms(2) Call upper_plain [of x] upper_plain [of a] by simp_all
    then have a: "RPAREN \<notin> set ?a" by (simp add: arguments_def)
    have "convert ?t (operand_text (upper_operand v) @ r) = convert (?t @ ?x) (LPAREN # ?a @ RPAREN # r)"
      using run [OF x(3), of ?t "LPAREN # ?a @ RPAREN # r"] Call by simp
    also have "\<dots> = convert (item_value (Keyword k name v)) r"
    proof (cases "is_dsn k")
      case True
      then show ?thesis using convert_kept [of "?t @ ?x" ?a r] dsn a Call by simp
    next
      case False
      then have not: "\<not> isdsn ((?t @ ?x) @ LPAREN # ?a @ RPAREN # r)" using dsn [of "?x @ LPAREN # ?a @ RPAREN # r"] by simp
      show ?thesis
      proof (cases "x = []")
        case True
        then show ?thesis using convert_dropped [OF not _ _ a _ r] assms(2) Call False by simp
      next
        case nonempty: False
        then have "last ?x \<in> set ?x" by (intro last_in_set) simp
        then have "last (?t @ ?x) \<in> set ?x" using nonempty by simp
        then have "last (?t @ ?x) \<noteq> EQUALS" using x(1) unfolding plain_def by blast
        then show ?thesis using convert_replaced [OF not _ a r] nonempty Call False by simp
      qed
    qed
    finally show ?thesis .
  next
    case (Nested u q)
    let ?u = "map toupper_byte u" and ?q = "map toupper_byte q"
    have u: "plain ?u" "arguments ?q" "u \<noteq> []" "\<not> is_dsn k" using assms(2) Nested upper_plain [of u] upper_plain [of q] by simp_all
    let ?a = "?u @ COMMA # LPAREN # ?q"
    have a: "RPAREN \<notin> set ?a" using u(1,2) by (simp add: plain_def arguments_def)
    have not: "\<not> isdsn (?t @ LPAREN # ?a @ RPAREN # RPAREN # r)" using dsn u(4) by blast
    have "convert ?t (operand_text (upper_operand v) @ r) = convert (?t @ ?a) (RPAREN # r)"
      using convert_dropped [OF not _ _ a] u(3) Nested by simp
    then show ?thesis using Nested u(4) by simp
  qed
qed

lemma item_converted:
  assumes "item_ok i" "ends r"
  shows "convert [] (map toupper_byte (item_text i) @ r) = convert (item_value i) r"
proof (cases i)
  case (Keyword k name v)
  then have k: "k \<in> set (map fst keys)" "map toupper_byte name = ebcdic k" "operand_ok (is_dsn k) v" using assms(1) by simp_all
  have "convert [] ((ebcdic k @ [EQUALS]) @ operand_text (upper_operand v) @ r) =
      convert ([] @ ebcdic k @ [EQUALS]) (operand_text (upper_operand v) @ r)"
    by (rule convert_run) (use key_run [OF k(1)] in auto)
  then show ?thesis using operand_converted [OF k(1,3) assms(2), of name] k(2) Keyword upper_text [of v] by simp
qed (use assms(1) convert_run [of _ "[]" r] in auto)

section \<open>The list of keywords\<close>

lemmas key_cases = keys_def list.map fst_conv list.set insert_iff empty_iff

lemma equals_unique: "E \<notin> set k \<Longrightarrow> E \<notin> set w \<Longrightarrow> k @ E # y = w @ E # z \<longleftrightarrow> k = w \<and> y = z"
proof (induction k arbitrary: w)
  case Nil
  then show ?case by (cases w) auto
next
  case (Cons c k)
  then show ?case by (cases w) auto
qed

lemma no_equals: "E \<notin> set y \<Longrightarrow> \<not> sublist (k @ [E]) y"
  using set_mono_sublist [of "k @ [E]" y] by auto

lemma value_keys:
  assumes "k' \<in> set (map fst keys)" "operand_ok dsn v"
  shows "\<not> sublist (ebcdic k' @ [EQUALS]) (operand_value dsn (upper_operand v))"
proof (cases v)
  case (Plain x)
  then show ?thesis using assms(2) upper_plain(1) [of x] by (intro no_equals) (simp add: plain_def)
next
  case (Call x a)
  let ?x = "map toupper_byte x" and ?a = "map toupper_byte a"
  have x: "EQUALS \<notin> set ?x" "EQUALS \<notin> set ?a"
    using assms(2) Call upper_plain(1) [of x] upper_plain(2) [of a] by (simp_all add: plain_def arguments_def)
  show ?thesis
  proof (cases "dsn \<or> x = []")
    case True
    then show ?thesis using x Call by (intro no_equals) auto
  next
    case False
    then have "\<not> suffix (ebcdic k') ?x" using assms Call by auto
    moreover have "EQUALS \<notin> set (ebcdic k')" using key_run [OF assms(1)] by blast
    ultimately show ?thesis
      using False Call sublist_to_equals [of EQUALS "ebcdic k'" ?x ?a] x no_equals [OF x(2), of "ebcdic k'"] by simp
  qed
next
  case (Nested u q)
  then show ?thesis using assms(2) upper_plain(1) [of u] upper_plain(2) [of q]
    by (intro no_equals) (simp add: plain_def arguments_def)
qed

lemma ebcdic_append: "ebcdic (k @ l) = ebcdic k @ ebcdic l"
  by (simp add: ebcdic_def)

lemma ebcdic_length: "length (ebcdic k) = length k"
  by (simp add: ebcdic_def)

lemma occurs_keys:
  assumes "k \<in> set (map fst keys)" "operand_ok (is_dsn k) v" "k' \<in> set (map fst keys)"
  shows "occurs (k' @ ''='') (item_value (Keyword k name v)) \<longleftrightarrow> suffix (ebcdic k') (ebcdic k)"
proof -
  have "ebcdic ''='' = [EQUALS]" by code_simp
  moreover have "EQUALS \<notin> set (ebcdic k)" "EQUALS \<notin> set (ebcdic k')" using key_run assms(1,3) by blast+
  ultimately show ?thesis
    using sublist_to_equals [of EQUALS "ebcdic k'" "ebcdic k"] value_keys [OF assms(3,2)] by (simp add: occurs_sublist ebcdic_append)
qed

lemma keyword_chain:
  assumes "k \<in> set (map fst keys)" "\<And>k'. k' \<in> set (map fst keys) \<Longrightarrow> occurs (k' @ ''='') (ebcdic k @ EQUALS # y) \<longleftrightarrow> suffix (ebcdic k') (ebcdic k)"
  shows "keyword (ebcdic k @ EQUALS # y) d = the (map_of keys k) y d"
proof -
  let ?p = "ebcdic k @ EQUALS # y"
  have "EQUALS \<notin> set (ebcdic ''MOUNT'')" "EQUALS \<in> set ?p" by simp_all
  then have mount: "?p \<noteq> ebcdic ''MOUNT''" by metis
  have "EQUALS \<notin> set (ebcdic k)" using key_run [OF assms(1)] by blast
  moreover have "ebcdic ''FREE=CLOSE'' = [0xC6, 0xD9, 0xC5, 0xC5] @ EQUALS # [0xC3, 0xD3, 0xD6, 0xE2, 0xC5]" by simp
  moreover have "ebcdic k \<noteq> [0xC6, 0xD9, 0xC5, 0xC5]" using assms(1) by (simp only: key_cases, elim disjE) simp_all
  ultimately have free: "?p \<noteq> ebcdic ''FREE=CLOSE''"
    using equals_unique [of EQUALS "ebcdic k" "[0xC6, 0xD9, 0xC5, 0xC5]" y] by simp
  have every: "list_all (\<lambda>k'. occurs (k' @ ''='') ?p \<longleftrightarrow> suffix (ebcdic k') (ebcdic k)) (map fst keys)"
    using assms(2) by (simp only: list_all_iff) blast
  have occ: "occurs ''BLKSIZE='' ?p \<longleftrightarrow> suffix (ebcdic ''BLKSIZE'') (ebcdic k)" "occurs ''DD='' ?p \<longleftrightarrow> suffix (ebcdic ''DD'') (ebcdic k)"
    "occurs ''DDNAME='' ?p \<longleftrightarrow> suffix (ebcdic ''DDNAME'') (ebcdic k)" "occurs ''DISP='' ?p \<longleftrightarrow> suffix (ebcdic ''DISP'') (ebcdic k)"
    "occurs ''DCBDSN='' ?p \<longleftrightarrow> suffix (ebcdic ''DCBDSN'') (ebcdic k)" "occurs ''DSN='' ?p \<longleftrightarrow> suffix (ebcdic ''DSN'') (ebcdic k)"
    "occurs ''DSNAME='' ?p \<longleftrightarrow> suffix (ebcdic ''DSNAME'') (ebcdic k)" "occurs ''DSORG='' ?p \<longleftrightarrow> suffix (ebcdic ''DSORG'') (ebcdic k)"
    "occurs ''RECFM='' ?p \<longleftrightarrow> suffix (ebcdic ''RECFM'') (ebcdic k)" "occurs ''LRECL='' ?p \<longleftrightarrow> suffix (ebcdic ''LRECL'') (ebcdic k)"
    "occurs ''SPACE='' ?p \<longleftrightarrow> suffix (ebcdic ''SPACE'') (ebcdic k)" "occurs ''UNIT='' ?p \<longleftrightarrow> suffix (ebcdic ''UNIT'') (ebcdic k)"
    "occurs ''VOLSER='' ?p \<longleftrightarrow> suffix (ebcdic ''VOLSER'') (ebcdic k)"
    using every by (simp_all only: keys_def list.map fst_conv list.pred_inject append.simps)
  note chain = keyword_def [of ?p d] if_not_P [OF mount] if_not_P [OF free] occ
  show ?thesis
    using assms(1) unfolding chain
    by (simp only: key_cases, elim disjE) (simp_all add: suffix_to_prefix)
qed

lemma keyword_item: "item_ok i \<Longrightarrow> keyword (item_value i) d = apply_item i d"
proof (cases i)
  case (Keyword k name v)
  assume "item_ok i"
  then have k: "k \<in> set (map fst keys)" "operand_ok (is_dsn k) v" using Keyword by simp_all
  from this(1) obtain f where "map_of keys k = Some f" by (metis not_None_eq map_of_eq_None_iff set_map)
  then show ?thesis using keyword_chain [OF k(1), of "operand_value (is_dsn k) (upper_operand v)"] occurs_keys [OF k] Keyword
    by (simp add: upper_value)
qed (simp_all add: keyword_def)

lemma item_token:
  assumes "item_ok i"
  shows "item_value i \<noteq> [] \<and> SEMICOLON \<notin> set (item_value i)"
proof (cases i)
  case (Keyword k name v)
  then have k: "k \<in> set (map fst keys)" "operand_ok (is_dsn k) v" using assms by simp_all
  have "SEMICOLON \<notin> set (operand_value (is_dsn k) (upper_operand v))"
    using k(2) upper_plain by (cases v) (auto simp: plain_def arguments_def simp del: set_map)
  then show ?thesis using key_run [OF k(1)] Keyword by auto
qed simp_all

lemma token_run:
  assumes "v \<noteq> []" "d \<notin> set v"
  shows "dropWhile (\<lambda>b. b \<in> {d}) (v @ r) = v @ r" "takeWhile (\<lambda>b. b \<notin> {d}) (v @ d # r) = v" "dropWhile (\<lambda>b. b \<notin> {d}) (v @ d # r) = d # r"
    "takeWhile (\<lambda>b. b \<notin> {d}) v = v" "dropWhile (\<lambda>b. b \<notin> {d}) v = []"
proof -
  have in_v: "b \<in> set v \<Longrightarrow> b \<noteq> d" for b using assms(2) by blast
  then show "dropWhile (\<lambda>b. b \<in> {d}) (v @ r) = v @ r" using assms(1) by (cases v) simp_all
  show "takeWhile (\<lambda>b. b \<notin> {d}) (v @ d # r) = v" "dropWhile (\<lambda>b. b \<notin> {d}) (v @ d # r) = d # r"
    "takeWhile (\<lambda>b. b \<notin> {d}) v = v" "dropWhile (\<lambda>b. b \<notin> {d}) v = []"
    using in_v by (simp_all add: takeWhile_append2 dropWhile_append2 dropWhile_eq_Nil_conv takeWhile_eq_all_conv)
qed

lemma tokens_first:
  assumes "v \<noteq> []" "d \<notin> set v"
  shows "tokens {d} (v @ d # r) = v # tokens {d} r"
  unfolding tokens_dropWhile [of "{d}" "v @ d # r"] token_run [OF assms] by simp

lemma tokens_last:
  assumes "v \<noteq> []" "d \<notin> set v"
  shows "tokens {d} v = [v]"
  using assms(1) unfolding tokens_dropWhile [of "{d}" v] token_run(1) [OF assms, of "[]", unfolded append_Nil2] token_run(4,5) [OF assms] by simp

lemma options_tokens:
  "list_all (\<lambda>(i, sep). item_ok i \<and> sep \<in> {SEMICOLON, COMMA}) is \<Longrightarrow>
     tokens {SEMICOLON} (convert [] (map toupper_byte (options_text is))) = map (item_value \<circ> fst) is"
proof (induction "is" rule: options_text.induct)
  case (2 i sep)
  then show ?case using item_converted [of i "[]"] item_token [of i] by (simp add: ends_def tokens_last)
next
  case (3 i sep x xs)
  let ?rest = "map toupper_byte (options_text (x # xs))"
  have i: "item_ok i" "sep \<in> {SEMICOLON, COMMA}" using 3(2) by simp_all
  have "convert [] (map toupper_byte (item_text i) @ sep # ?rest) = item_value i @ SEMICOLON # convert [] ?rest"
    using item_converted [OF i(1), of "sep # ?rest"] convert_separator [OF i(2), of "item_value i" ?rest] i(2) by (simp add: ends_def)
  moreover have "toupper_byte sep = sep" using i(2) by auto
  ultimately show ?case using 3 item_token [OF i(1)] by (simp add: tokens_first)
qed simp

text \<open>
  C5: A list of keywords, written in any order, in upper or lower case, separated by semicolons or commas, with operands that are
  plain, have arguments in parentheses or are a JCL space request, is parsed to exactly what the keywords mean: nothing is lost,
  nothing is taken for another keyword, a later keyword replaces an earlier one.
\<close>

theorem parse_options:
  assumes "list_all (\<lambda>(i, sep). item_ok i \<and> sep \<in> {SEMICOLON, COMMA}) is"
  shows "parse (Some (options_text is)) = fold (\<lambda>(i, sep). apply_item i) is no_keywords"
proof -
  have "fold keyword (map (item_value \<circ> fst) is) d = fold (\<lambda>(i, sep). apply_item i) is d" for d
    using assms by (induction "is" arbitrary: d) (auto simp: keyword_item)
  then show ?thesis using options_tokens [OF assms] by (simp add: parse_def tok_all_tokens)
qed

text \<open>A list with both cases, both separators and all the kinds of operands.\<close>

definition lower :: "byte list \<Rightarrow> byte list" where
  "lower letters = map (\<lambda>b. b - 0x40) letters"

definition sample :: "(item \<times> byte) list" where
  "sample =
     [(Keyword ''DSN'' (lower (ebcdic ''DSN'')) (Call (ebcdic ''A.B'') (lower (ebcdic ''MEM''))), COMMA),
      (Keyword ''DISP'' (ebcdic ''DISP'') (Call [] (ebcdic ''NEW,CATLG'')), SEMICOLON),
      (Keyword ''SPACE'' (ebcdic ''SPACE'') (Nested (ebcdic ''TRK'') (ebcdic ''1,2'')), COMMA),
      (Free_Close (ebcdic ''FREE=CLOSE''), SEMICOLON)]"

theorem parse_options_witness:
  "parse (Some (lower (ebcdic ''DSN'') @ ebcdic ''=A.B('' @ lower (ebcdic ''MEM'') @ ebcdic ''),DISP=(NEW,CATLG);SPACE=(TRK,(1,2)),FREE=CLOSE'')) =
     no_keywords\<lparr>kw_dsn := Some (ebcdic ''A.B(MEM)''), kw_disp := Some (ebcdic ''NEW,CATLG''), kw_space := Some (ebcdic ''TRK,(1,2)''),
       kw_freeclose := True\<rparr>"
proof -
  have "list_all (\<lambda>(i, sep). item_ok i \<and> sep \<in> {SEMICOLON, COMMA}) sample" by code_simp
  moreover have "options_text sample =
      lower (ebcdic ''DSN'') @ ebcdic ''=A.B('' @ lower (ebcdic ''MEM'') @ ebcdic ''),DISP=(NEW,CATLG);SPACE=(TRK,(1,2)),FREE=CLOSE''"
    by code_simp
  moreover have "fold (\<lambda>(i, sep). apply_item i) sample no_keywords =
      no_keywords\<lparr>kw_dsn := Some (ebcdic ''A.B(MEM)''), kw_disp := Some (ebcdic ''NEW,CATLG''), kw_space := Some (ebcdic ''TRK,(1,2)''),
        kw_freeclose := True\<rparr>"
    by code_simp
  ultimately show ?thesis using parse_options [of sample] by simp
qed

text \<open>
  A blank behind a separator is not skipped although \<^verbatim>\<open>isdsn()\<close> skips it: with \<^verbatim>\<open>"DISP=SHR; DSN=A.B"\<close> the data set name is the
  text from the equals sign on.
\<close>
lemma blank_before_keyword:
  "parse (Some (ebcdic ''DISP=SHR; DSN=A.B'')) = no_keywords\<lparr>kw_disp := Some (ebcdic ''SHR''), kw_dsn := Some (ebcdic ''=A.B'')\<rparr>"
  by code_simp

text \<open>Empty quantities are skipped: the third one of \<^verbatim>\<open>TRK,(10,,5)\<close> becomes the secondary one, and there is no directory.\<close>
lemma empty_secondary:
  "space_params (ebcdic ''TRK,(10,,5)'') = Some [(7, []), (10, [[0, 0, 10]]), (11, [[0, 0, 5]])]"
  by code_simp

section \<open>The request\<close>

text \<open>The steps of \<^verbatim>\<open>__dsalc()\<close> once there is storage for the copy of the options.\<close>

lemma dsalc_steps:
  assumes "dsalc_units st (parse opts) \<lparr>asked = asks j + 1, tunits = []\<rparr> = (err, s)" "st (asks j)"
  shows "dsalc svc st True ddname opts j =
    (if err \<noteq> 0 \<or> tunits s = [] then (err, j\<lparr>asks := asked s\<rparr>)
     else let d = parse opts;
              rb = \<lparr>rb_len = 20, rb_request = S99VRBAL,
                    rb_flag1 = if (kw_unit d \<noteq> None \<or> kw_volser d \<noteq> None) \<and> \<not> kw_mount d then S99NOCNV OR S99NOMNT else S99NOCNV,
                    rb_txtptr = tunits s\<rparr>;
              (err, left) = svc rb;
              j = j\<lparr>asks := asked s, issued := issued j @ [rb]\<rparr>
          in (err, if err = 0 \<and> ddname then j\<lparr>ddname_is := Some (takeWhile (\<lambda>b. b \<noteq> 0) (take 8 (drop 6 (hd left))))\<rparr> else j))"
  using assms by (simp add: dsalc_def ask_def issue_def Let_def split: prod.split)

lemma all_of_first: "all_of (Some x # ps) = Some qs \<Longrightarrow> x \<noteq> [] \<Longrightarrow> qs \<noteq> []"
  by (cases "all_of ps") (auto simp: both_def)

lemma request_nonempty: "request_params d = Some ps \<Longrightarrow> ps \<noteq> []"
  unfolding request_params_def by (erule all_of_first) (simp add: ddn_params_def param_def)



text \<open>
  C16: \<^verbatim>\<open>__dsalc()\<close> whichever storage is refused and whatever SVC 99 does: there is at most one request, an allocation with units SVC 99
  can read; when there is none the result is not 0; and the caller's DD name changes only when SVC 99 returned 0.
\<close>
theorem dsalc_safe:
  assumes "short opts"
  shows "let (err, j') = dsalc svc st crt ddname opts j
    in (err \<noteq> 0 \<and> issued j' = issued j \<and> ddname_is j' = ddname_is j) \<or>
       (\<exists>rb. issued j' = issued j @ [rb] \<and> rb_request rb = S99VRBAL \<and> rb_txtptr rb \<noteq> [] \<and> (\<forall>u\<in>set (rb_txtptr rb). read_unit u \<noteq> None) \<and>
          err = fst (svc rb) \<and> (err \<noteq> 0 \<or> \<not> ddname \<longrightarrow> ddname_is j' = ddname_is j))"
proof (cases "crt \<and> st (asks j)")
  case True
  let ?s = "\<lparr>asked = asks j + 1, tunits = []\<rparr>"
  obtain err s where r: "dsalc_units st (parse opts) ?s = (err, s)" by fastforce
  have short: "short_keywords (parse opts)" by (rule short_parse [OF assms])
  have units: "list_all well_formed (tunits s)"
    using grows_units [OF short, of ?s st] r by (auto simp: grows_def)
  have some: "err = 0 \<Longrightarrow> tunits s \<noteq> []" using units_nonempty [OF short, of st ?s] r by simp
  show ?thesis
  proof (cases "err = 0")
    case True
    define rb where "rb = \<lparr>rb_len = 20, rb_request = S99VRBAL,
      rb_flag1 = if (kw_unit (parse opts) \<noteq> None \<or> kw_volser (parse opts) \<noteq> None) \<and> \<not> kw_mount (parse opts) then S99NOCNV OR S99NOMNT
                 else S99NOCNV, rb_txtptr = tunits s\<rparr>"
    obtain e left where svc: "svc rb = (e, left)" by fastforce
    obtain j' where "dsalc svc st crt ddname opts j = (e, j')" "issued j' = issued j @ [rb]"
        "e \<noteq> 0 \<or> \<not> ddname \<longrightarrow> ddname_is j' = ddname_is j"
      using dsalc_steps [OF r, of svc ddname, unfolded Let_def, folded rb_def] svc \<open>crt \<and> st (asks j)\<close> True some by simp
    moreover have "rb_request rb = S99VRBAL" "rb_txtptr rb \<noteq> []" "\<forall>u\<in>set (rb_txtptr rb). read_unit u \<noteq> None"
      using True some units by (simp_all add: rb_def list_all_iff well_formed_def)
    ultimately show ?thesis using svc by auto
  next
    case False
    then show ?thesis using dsalc_steps [OF r, of svc ddname] \<open>crt \<and> st (asks j)\<close> by simp
  qed
qed (simp add: dsalc_def ask_def Let_def)

theorem dsalc_safe_witness:
  "\<exists>err j'. dsalc (\<lambda>rb. (4, [])) (\<lambda>n. n < 5) True True (Some (ebcdic ''DSN=A.B'')) \<lparr>issued = [], ddname_is = None, asks = 0\<rparr> = (err, j') \<and>
     err \<noteq> 0 \<and> ddname_is j' = None"
proof -
  have "short (Some (ebcdic ''DSN=A.B''))" by (simp add: ebcdic_length)
  from dsalc_safe [OF this, of "\<lambda>rb. (4, [])" "\<lambda>n. n < 5" True True "\<lparr>issued = [], ddname_is = None, asks = 0\<rparr>"]
  show ?thesis by (auto simp: Let_def split: prod.splits)
qed

text \<open>
  C36: \<^verbatim>\<open>__dsfree()\<close>: with storage for every call and a name below 64K, one unallocation request whose units are the DD name and the
  unallocate key, and the result of SVC 99; nothing else happens.
\<close>
theorem dsfree_request:
  assumes "\<forall>n. st n" "length name < 65536"
  shows "\<exists>units n. map read_unit units = [Some (nat DALDDNAM, [name]), Some (nat DUNUNALC, [])] \<and>
    (let rb = \<lparr>rb_len = 20, rb_request = S99VRBUN, rb_flag1 = 0, rb_txtptr = units\<rparr>
     in dsfree svc st (Some name) j = (fst (svc rb), j\<lparr>asks := n, issued := issued j @ [rb]\<rparr>))"
proof -
  let ?s = "\<lparr>asked = asks j, tunits = []\<rparr>"
  obtain err s where r: "steps [txddn st (Some name), txunal st None] ?s = (err, s)" by fastforce
  have "outcome (all_of [Some (param DALDDNAM name), Some [(nat DUNUNALC, [])]]) ?s (steps [txddn st (Some name), txunal st None] ?s)"
    unfolding txddn_def txunal_def option.case
    by (intro outcome_Cons outcome_Nil outcome_text [OF assms(1)] outcome_no_value [OF assms(1)])
      (simp_all add: DALDDNAM_def DUNUNALC_def assms(2))
  then have "err = 0" "map read_unit (tunits s) = [Some (nat DALDDNAM, [name]), Some (nat DUNUNALC, [])]"
    unfolding r by (auto simp: outcome_def both_def param_def)
  moreover from this have "tunits s \<noteq> []" by auto
  ultimately show ?thesis
    by (intro exI [of _ "tunits s"] exI [of _ "asked s"]) (simp add: dsfree_def r issue_def Let_def split: prod.split del: steps.simps)
qed

theorem dsfree_request_witness:
  "\<exists>j'. dsfree (\<lambda>rb. (int (length (rb_txtptr rb)), [])) (\<lambda>n. True) (Some (ebcdic ''SYSUT1'')) \<lparr>issued = [], ddname_is = None, asks = 0\<rparr> = (2, j') \<and>
     map rb_request (issued j') = [S99VRBUN]"
proof -
  have "length (ebcdic ''SYSUT1'') < 65536" by (simp add: ebcdic_length)
  from dsfree_request [of "\<lambda>n. True", OF _ this, of "\<lambda>rb. (int (length (rb_txtptr rb)), [])" "\<lparr>issued = [], ddname_is = None, asks = 0\<rparr>"]
  obtain units n where u: "map read_unit units = [Some (nat DALDDNAM, [ebcdic ''SYSUT1'']), Some (nat DUNUNALC, [])]"
      "dsfree (\<lambda>rb. (int (length (rb_txtptr rb)), [])) (\<lambda>n. True) (Some (ebcdic ''SYSUT1'')) \<lparr>issued = [], ddname_is = None, asks = 0\<rparr> =
       (int (length units), \<lparr>issued = [\<lparr>rb_len = 20, rb_request = S99VRBUN, rb_flag1 = 0, rb_txtptr = units\<rparr>], ddname_is = None, asks = n\<rparr>)"
    unfolding Let_def by auto
  from u(1) have "length units = 2" by (metis length_Cons length_map list.size(3) numeral_2_eq_2)
  then show ?thesis using u(2) by simp
qed

end
