(* ===== verification/Spec2Isabelle.thy ===== *)
theory Spec2Isabelle
  imports Int64_Ptr Int64_Str Caltime Tod Time64 Localtime64 Sorting Array Atomic Mutex_Tasks Env Inet Printf_Strto Fileio_Text Strutil Dsalc_Request
begin

text \<open>
  LIBC/370 is the C library of MVS 3.8j on System/370: the functions of ISO C, the run-time they rest on and services of MVS.
  The machine is big-endian with 32-bit \<^verbatim>\<open>int\<close>, \<^verbatim>\<open>long\<close> and pointers (24-bit addresses), characters are unsigned and EBCDIC, and
  64-bit values are either \<^verbatim>\<open>long long\<close> or the software type \<^verbatim>\<open>__64\<close>.  Paths below are relative to \<^verbatim>\<open>src/\<close> of the repository.

  \<^bold>\<open>The parts and how they interact.\<close>  Time in 64 bits is computed with the \<^verbatim>\<open>__64\<close> arithmetic and, for local time, with the 32-bit
  routines; the formatter divides 64-bit arguments with the same arithmetic and finds its digits with the string functions; the
  conversions from text read the character tables; the environment, the mutex lists and the list of open streams are dynamic arrays
  of \<^verbatim>\<open>ext/array\<close>, which get their storage from \<^verbatim>\<open>calloc()\<close>; locks and mutexes are requests for named resources to the ENQ and DEQ
  services; streams turn characters into records for the access methods; an allocation turns keywords into the text units of a
  request, a list that is a dynamic array.

  \<^bold>\<open>Theories and sources.\<close>

  \<^item> \<open>Prelude\<close>: machine types, arithmetic of words.
  \<^item> \<open>Int64\<close>, \<open>Int64_Arith\<close>, \<open>Int64_Ptr\<close>, \<open>Int64_Str\<close> (\<^verbatim>\<open>src/ext/int64\<close>, \<^verbatim>\<open>include/ext/int64.h\<close>): the union with its three views, every
    routine on values; their meaning as arithmetic modulo 2 to the 64; the routines on objects at addresses, for every aliasing of
    the arguments; the conversions from and to text.
  \<^item> \<open>Calendar\<close> is the specification of dates (the Gregorian calendar).  \<open>Caltime\<close> (\<^verbatim>\<open>src/time\<close>: scalar dates, \<^verbatim>\<open>gmtime_r()\<close>,
    \<^verbatim>\<open>timegm()\<close>, \<^verbatim>\<open>localtime_r()\<close>, \<^verbatim>\<open>mktime()\<close>), \<open>Tod\<close> (\<^verbatim>\<open>time()\<close>, \<^verbatim>\<open>__todsec()\<close>, the 64-bit clocks), \<open>Time64\<close> and \<open>Localtime64\<close>
    (\<^verbatim>\<open>src/ext/time64\<close>) are shown against it.
  \<^item> \<open>Ctype\<close> (\<^verbatim>\<open>src/ctype\<close>, \<^verbatim>\<open>src/stdio/@@isbuf.c\<close>), \<open>Cmem\<close> and \<open>Cstring\<close> (\<^verbatim>\<open>src/string\<close>, \<^verbatim>\<open>src/strings\<close>), \<open>Errno\<close>
    (\<^verbatim>\<open>strerror()\<close> and the error numbers), \<open>Strutil\<close> (\<^verbatim>\<open>src/ext/strutil\<close>).  Memory is a function from addresses to bytes; \<open>str_at\<close> and
    \<open>block\<close> say what list of bytes is at an address, \<open>store\<close> what an operation has changed.
  \<^item> \<open>Strto\<close>, \<open>Sorting\<close> (\<^verbatim>\<open>src/stdlib\<close>, \<^verbatim>\<open>src/inttypes\<close>): the integer conversions, \<^verbatim>\<open>qsort()\<close> and \<^verbatim>\<open>bsearch()\<close>.
  \<^item> \<open>Array\<close> (\<^verbatim>\<open>src/ext/array\<close>, \<^verbatim>\<open>malloc()\<close>, \<^verbatim>\<open>calloc()\<close>): the array of pointers as a block with a header in front of the items.
  \<^item> \<open>Runs\<close> is a generic argument for progress of several tasks.  \<open>Atomic\<close> (\<^verbatim>\<open>src/s370\<close>): the compare-and-swap loops, alone and
    interleaved.  \<open>Enq\<close> (\<^verbatim>\<open>src/mvs/enq\<close>, \<^verbatim>\<open>src/mvs/lock\<close>, the number formats of \<^verbatim>\<open>src/mvs/wto/@@wtofmt.c\<close> the resource names are made
    with).  \<open>Mutex\<close> and \<open>Mutex_Tasks\<close> (\<^verbatim>\<open>src/mvs/mutex\<close>): the functions as one task calls them, and as single accesses to shared
    storage by any number of tasks.
  \<^item> \<open>Env\<close> (\<^verbatim>\<open>src/mvs/env\<close>, \<^verbatim>\<open>setenv()\<close>, \<^verbatim>\<open>putenv()\<close>, \<^verbatim>\<open>unsetenv()\<close>): the table under its lock and its loading at the first lookup.
  \<^item> \<open>Inet\<close> (\<^verbatim>\<open>src/net/@@in*.c\<close>): addresses as text.
  \<^item> \<open>Printf\<close> (\<^verbatim>\<open>src/stdio/@@examin.c\<close>, \<^verbatim>\<open>vsnprint.c\<close>, \<^verbatim>\<open>vvprintf.c\<close>, \<^verbatim>\<open>vsprintf.c\<close>): a conversion specification, read and carried out, and
    the two loops over a format.  \<open>Printf_Strto\<close> puts it together with the conversions back.
  \<^item> \<open>Fileio\<close> (\<^verbatim>\<open>src/stdio/@@fflush.c\<close>, \<^verbatim>\<open>@@fgetc.c\<close>, \<^verbatim>\<open>@@fputc.c\<close>, \<^verbatim>\<open>@@fpswt.c\<close>, \<^verbatim>\<open>@@fpopen.c\<close> and the functions over them): streams;
    \<open>Fileio_Safe\<close> and \<open>Fileio_Text\<close> hold their properties.
  \<^item> \<open>Dynalloc\<close> (\<^verbatim>\<open>src/mvs/dynalloc/@@nwtx99.c\<close>, \<^verbatim>\<open>@@nwtx9a.c\<close>, \<^verbatim>\<open>@@nwtx9s.c\<close>, \<^verbatim>\<open>@@tx*.c\<close>): the text units of a dynamic-allocation request and
    the routines that add one; \<open>Dynalloc_Units\<close> reads them back.  \<open>Dsalc\<close> (\<^verbatim>\<open>@@dsalc.c\<close>, \<^verbatim>\<open>@@dsalcf.c\<close>, \<^verbatim>\<open>@@dsfree.c\<close>): the option string, its
    keywords, their text units and the request, with the documented request as its specification; \<open>Dsalc_Request\<close> has the properties
    from the text of the options to the request.

  \<^bold>\<open>What the lemmas show.\<close>  For each routine its result on every branch; well-formedness kept by every operation (arrays, the
  environment, the buffer of a stream, the states of the mutex); loops measured or shown to end; optimised code against a reference
  (\<^verbatim>\<open>memmove()\<close>, the division loops, the year and month loops of \<^verbatim>\<open>gmtime64_r()\<close>, the quicksort partition, the layout of a conversion
  against C99's, \<^verbatim>\<open>__patmat()\<close> against what its documentation says, the text functions against sequences of lines); abstract
  specifications with a refinement (the array is a list, the mutex a recursive lock, the atomic updates a serial execution, the
  environment a map, a text a sequence of records, an option string the request its keywords describe); round trips (dates, local
  time, addresses, integers as text, lines through a data set, keywords, text units); safety and progress of several tasks.

  \<^bold>\<open>Interfaces.\<close>  The locales state what a part needs of another and are interpreted where it is provided: the comparison a
  sort is given (\<open>comparator\<close>), the comparison of strings through a key of their characters (\<open>string_order\<close>, \<open>counted_order\<close>), the two
  conversions between dates and day numbers (\<open>date_codec\<close>), the sequence a dynamic array is for its users (\<open>sequence\<close>), the variables
  the environment binds (\<open>variables\<close>), the locks the mutex is made of (\<open>resource_locks\<close>), and the rank behind a progress argument
  (\<open>ranked\<close>).

  \<^bold>\<open>Errors, bounds and loops.\<close>  A null pointer is \<open>None\<close> or 0; \<^verbatim>\<open>errno\<close> is a result or a field.  A loop the code does not bound is a
  \<open>partial_function\<close> or a \<open>while\<close>, with \<open>None\<close> for not returning; that it returns is then part of the statement.  The bounds in
  hypotheses are those of the machine or of the code: \<^verbatim>\<open>MVCL\<close> moves less than 2 to the 24 bytes; \<^verbatim>\<open>malloc()\<close> refuses more than 6
  megabytes, so that an array has fewer than 1572862 slots; the 32-bit times end in 2105; \<^verbatim>\<open>gmtime64_r()\<close> is exact up to the year
  2147485547, where \<^verbatim>\<open>tm_year\<close> overflows, and the local time up to 2 to the 55 seconds; the lock count of a mutex has 32 bits; the
  lengths printed are below the largest \<^verbatim>\<open>int\<close>; file positions are 32-bit words and wrap.

  \<^bold>\<open>Parameters.\<close>  Services outside the C sources are arguments of the definitions with what the code relies on as named hypotheses,
  each met by a concrete function in a witness: \<open>getm\<close> (storage; \<open>fresh_storage\<close>: not in use), \<open>svc\<close> (ENQ and DEQ; \<open>enq_ok\<close>: answers and
  queues as documented), \<open>crt\<close> (the run-time anchor of a task), the comparison function of a sort, the offset of local time, the
  clock, \<open>dblcvx\<close> (the decimal text of a hexadecimal floating-point number), the words of a variable argument list, the lines of a
  DD for the environment, which calls get storage for a text unit (\<open>st\<close>), what SVC 99 returns (another \<open>svc\<close>), and the access methods \<open>am\<close> of a stream, written in assembler (\<open>takes_all\<close>, \<open>keeps_records\<close>, \<open>reads_ok\<close>,
  \<open>delivers\<close>).

  \<^bold>\<open>Not modelled.\<close>  Code that only builds control blocks and issues a supervisor call (the access methods, JES2, VSAM, RACF, the
  catalog, the linkage and recovery services, the tasks and timers): what it does is the service's answer.  Floating point
  (\<^verbatim>\<open>src/math\<close>, \<^verbatim>\<open>strtod()\<close>, the decimal text of a double).  Text formats of dates (\<^verbatim>\<open>strftime()\<close>, \<^verbatim>\<open>asctime()\<close>), \<^verbatim>\<open>signal()\<close>,
  \<^verbatim>\<open>rand()\<close>, the scanner, the names \<^verbatim>\<open>fopen()\<close> takes, \<^verbatim>\<open>fseek()\<close>, the socket calls, the assembler
  entries of dynamic allocation.
\<close>

end
